(* ===== verification/Prelude.thy ===== *)
theory Prelude
  imports Main
begin

text \<open>
  Shared vocabulary of the development: labels and words of regular path queries, formal
  languages (concatenation and Kleene closure), the C++ containers the code uses
  (\<open>std::set\<close> as an ordered list without duplicates, \<open>std::vector\<close> as a list), and the
  loop shape all path iterators share: a \<open>while (iter->next())\<close> loop with an early return
  (\<open>scan\<close>).
\<close>

named_theorems lang_simps \<open>rewriting of language operations\<close>
named_theorems wf_intros \<open>introduction rules for well-formedness predicates\<close>

section \<open>Labels, words, languages\<close>

text \<open>
  An edge step of a path is a pair of an edge type and a direction flag (\<open>inverse\<close> in the
  code: \<open>false\<close> for from->to, \<open>true\<close> for to->from).
\<close>

type_synonym 'l word_of = "('l \<times> bool) list"
type_synonym label = "string \<times> bool"
type_synonym rpq_word = "label list"

definition lconc :: "'a list set \<Rightarrow> 'a list set \<Rightarrow> 'a list set" where
  "lconc A B = {u @ v | u v. u \<in> A \<and> v \<in> B}"

inductive_set kstar :: "'a list set \<Rightarrow> 'a list set" for A where
  kstar_Nil: "[] \<in> kstar A"
| kstar_app: "u \<in> A \<Longrightarrow> v \<in> kstar A \<Longrightarrow> u @ v \<in> kstar A"

declare kstar_Nil [simp, intro]

lemma lconcI [intro]: "u \<in> A \<Longrightarrow> v \<in> B \<Longrightarrow> u @ v \<in> lconc A B"
  by (auto simp: lconc_def)

lemma lconcE [elim]:
  assumes "w \<in> lconc A B"
  obtains u v where "w = u @ v" "u \<in> A" "v \<in> B"
  using assms by (auto simp: lconc_def)

lemma lconc_Nil_iff [simp]: "[] \<in> lconc A B \<longleftrightarrow> [] \<in> A \<and> [] \<in> B"
  by (auto simp: lconc_def)

lemma lconc_single_Nil [simp]: "lconc A {[]} = A" "lconc {[]} A = A"
  by (simp_all add: lconc_def)

lemma lconc_assoc: "lconc (lconc A B) C = lconc A (lconc B C)"
  unfolding lconc_def by (auto, metis append_assoc, metis append_assoc)

lemma lconc_mono: "A \<subseteq> A' \<Longrightarrow> B \<subseteq> B' \<Longrightarrow> lconc A B \<subseteq> lconc A' B'"
  by (auto simp: lconc_def)

lemma kstar_append:
  assumes "u \<in> kstar A" "v \<in> kstar A" shows "u @ v \<in> kstar A"
  using assms by (induction rule: kstar.induct) (auto intro: kstar_app)

lemma kstar_incl: "u \<in> A \<Longrightarrow> u \<in> kstar A"
  using kstar_app [of u A "[]"] by simp

lemma kstar_least:
  assumes "A \<subseteq> kstar B" shows "kstar A \<subseteq> kstar B"
proof
  fix w assume "w \<in> kstar A"
  then show "w \<in> kstar B"
    by (induction rule: kstar.induct) (use assms in \<open>auto intro: kstar_append\<close>)
qed

lemma kstar_mono: "A \<subseteq> B \<Longrightarrow> kstar A \<subseteq> kstar B"
  by (rule kstar_least) (auto intro: kstar_incl)

lemma kstar_eqI: "A \<subseteq> kstar B \<Longrightarrow> B \<subseteq> kstar A \<Longrightarrow> kstar A = kstar B"
  by (intro equalityI kstar_least)

lemma kstar_kstar [lang_simps]: "kstar (kstar A) = kstar A"
  by (rule kstar_eqI) (auto intro: kstar_incl)

lemma kstar_insert_Nil [lang_simps]: "kstar (insert [] A) = kstar A"
  by (rule kstar_eqI) (auto intro: kstar_incl)

lemma kstar_empty [simp]: "kstar {} = {[]}"
  by (auto elim: kstar.cases)

section \<open>Ordered sets\<close>

text \<open>
  \<open>std::set<uint32_t>\<close>: an ascending list without duplicates; \<open>insert\<close> is
  \<open>insort_insert\<close>, iteration is the list order.
\<close>

type_synonym 'a std_set = "'a list"

definition set_insert :: "'a::linorder \<Rightarrow> 'a std_set \<Rightarrow> 'a std_set" where
  "set_insert x xs = insort_insert x xs"

definition set_of_list :: "'a::linorder list \<Rightarrow> 'a std_set" where
  "set_of_list xs = foldl (\<lambda>s x. set_insert x s) [] xs"

definition set_erase :: "'a \<Rightarrow> 'a std_set \<Rightarrow> 'a std_set" where
  "set_erase x xs = filter (\<lambda>y. y \<noteq> x) xs"

lemma set_set_insert [simp]: "set (set_insert x xs) = insert x (set xs)"
  by (simp add: set_insert_def set_insort_insert)

lemma set_set_erase [simp]: "set (set_erase x xs) = set xs - {x}"
  by (auto simp: set_erase_def)

lemma set_set_of_list [simp]: "set (set_of_list xs) = set xs"
proof -
  have "set (foldl (\<lambda>s x. set_insert x s) s xs) = set s \<union> set xs" for s
    by (induction xs arbitrary: s) auto
  then show ?thesis by (simp add: set_of_list_def)
qed

section \<open>Ordered maps: \<open>std::map\<close>\<close>

text \<open>
  A \<open>std::map\<close> is the list of its entries in key order: \<open>insert\<close> does not replace an entry,
  assigning through \<open>operator[]\<close> or a reference does; \<open>find\<close> is \<^const>\<open>map_of\<close>.
\<close>

type_synonym ('k, 'v) std_map = "('k \<times> 'v) list"

fun map_insert :: "'k::linorder \<Rightarrow> 'v \<Rightarrow> ('k, 'v) std_map \<Rightarrow> ('k, 'v) std_map" where
  "map_insert k v [] = [(k, v)]"
| "map_insert k v ((k', v') # m) =
     (if k < k' then (k, v) # (k', v') # m
      else if k = k' then (k', v') # m else (k', v') # map_insert k v m)"

fun map_assign :: "'k::linorder \<Rightarrow> 'v \<Rightarrow> ('k, 'v) std_map \<Rightarrow> ('k, 'v) std_map" where
  "map_assign k v [] = [(k, v)]"
| "map_assign k v ((k', v') # m) =
     (if k < k' then (k, v) # (k', v') # m
      else if k = k' then (k, v) # m else (k', v') # map_assign k v m)"

definition ordered_map :: "('k::linorder, 'v) std_map \<Rightarrow> bool" where
  "ordered_map m \<longleftrightarrow> sorted_wrt (<) (map fst m)"

lemma ordered_map_Nil [simp]: "ordered_map []"
  by (simp add: ordered_map_def)

lemma ordered_map_Cons [simp]:
  "ordered_map ((k, v) # m) \<longleftrightarrow> (\<forall>k' \<in> fst ` set m. k < k') \<and> ordered_map m"
  by (auto simp: ordered_map_def)

lemma map_of_above:
  "\<forall>k' \<in> fst ` set m. (k::'k::linorder) < k' \<Longrightarrow> map_of m k = None"
  by (force simp: map_of_eq_None_iff)

lemma fst_map_insert [simp]: "fst ` set (map_insert k v m) = insert k (fst ` set m)"
  by (induction k v m rule: map_insert.induct) auto

lemma fst_map_assign [simp]: "fst ` set (map_assign k v m) = insert k (fst ` set m)"
  by (induction k v m rule: map_assign.induct) auto

lemma ordered_map_insert [simp]: "ordered_map m \<Longrightarrow> ordered_map (map_insert k v m)"
  by (induction k v m rule: map_insert.induct) auto

lemma ordered_map_assign [simp]: "ordered_map m \<Longrightarrow> ordered_map (map_assign k v m)"
  by (induction k v m rule: map_assign.induct) auto

lemma map_of_insert [simp]:
  "ordered_map m \<Longrightarrow> map_of (map_insert k v m) =
     (if map_of m k = None then (map_of m)(k \<mapsto> v) else map_of m)"
proof (induction k v m rule: map_insert.induct)
  case (2 k v k' v' m)
  then have "k < k' \<Longrightarrow> map_of m k = None" by (intro map_of_above) (auto dest: order.strict_trans)
  with 2 show ?case by (auto simp: fun_eq_iff)
qed simp

lemma map_of_assign [simp]:
  "ordered_map m \<Longrightarrow> map_of (map_assign k v m) = (map_of m)(k \<mapsto> v)"
proof (induction k v m rule: map_assign.induct)
  case (2 k v k' v' m)
  then show ?case by (auto simp: fun_eq_iff)
qed simp

lemma ordered_map_distinct: "ordered_map m \<Longrightarrow> distinct (map fst m)"
  unfolding ordered_map_def by (simp add: strict_sorted_iff)

lemma ordered_map_in_set: "ordered_map m \<Longrightarrow> (k, v) \<in> set m \<longleftrightarrow> map_of m k = Some v"
  by (simp add: ordered_map_distinct)

section \<open>Loops with an early return\<close>

text \<open>
  \<open>scan f s xs\<close> is \<open>while (iter->next()) { ... }\<close> over the pending records \<open>xs\<close>: the
  body \<open>f\<close> updates the state and may return a result, which leaves the loop with the
  records not read yet.
\<close>

fun scan :: "('s \<Rightarrow> 'x \<Rightarrow> 's \<times> 'r option) \<Rightarrow> 's \<Rightarrow> 'x list \<Rightarrow> 's \<times> 'x list \<times> 'r option" where
  "scan f s [] = (s, [], None)"
| "scan f s (x # xs) =
     (case f s x of
        (s', None) \<Rightarrow> scan f s' xs
      | (s', Some r) \<Rightarrow> (s', xs, Some r))"

text \<open>Running the same body over all records, collecting every result: the loop resumed until it is exhausted.\<close>

fun scan_all :: "('s \<Rightarrow> 'x \<Rightarrow> 's \<times> 'r option) \<Rightarrow> 's \<Rightarrow> 'x list \<Rightarrow> 's \<times> 'r list" where
  "scan_all f s [] = (s, [])"
| "scan_all f s (x # xs) =
     (case f s x of (s', r) \<Rightarrow>
        (case scan_all f s' xs of (s'', rs) \<Rightarrow>
           (s'', (case r of None \<Rightarrow> rs | Some y \<Rightarrow> y # rs))))"

lemma scan_append:
  "scan f s (xs @ ys) =
     (case scan f s xs of
        (s', rest, Some r) \<Rightarrow> (s', rest @ ys, Some r)
      | (s', rest, None) \<Rightarrow> scan f s' ys)"
  by (induction xs arbitrary: s) (auto split: prod.splits option.splits)

lemma scan_None_rest: "scan f s xs = (s', rest, None) \<Longrightarrow> rest = []"
  by (induction xs arbitrary: s) (auto split: prod.splits option.splits)

lemma scan_Some_suffix:
  "scan f s xs = (s', rest, Some r) \<Longrightarrow> length rest < length xs"
  by (induction xs arbitrary: s) (fastforce split: prod.splits option.splits)+

lemma scan_all_scan_None:
  "scan f s xs = (s', rest, None) \<Longrightarrow> scan_all f s xs = (s', [])"
  by (induction xs arbitrary: s) (auto split: prod.splits option.splits)

lemma scan_all_scan_Some:
  "scan f s xs = (s', rest, Some r) \<Longrightarrow>
   scan_all f s xs = (case scan_all f s' rest of (s'', rs) \<Rightarrow> (s'', r # rs))"
  by (induction xs arbitrary: s) (auto split: prod.splits option.splits)

lemma scan_all_append:
  "scan_all f s (xs @ ys) =
     (case scan_all f s xs of (s', rs) \<Rightarrow>
        (case scan_all f s' ys of (s'', rs') \<Rightarrow> (s'', rs @ rs')))"
  by (induction xs arbitrary: s) (auto split: prod.splits option.splits)

section \<open>Vectors updated by index\<close>

lemma nth_update_in_set: "i < length xs \<Longrightarrow> set (xs[i := x]) \<subseteq> insert x (set xs)"
  by (rule set_update_subset_insert)

lemma concat_update_append:
  "i < length xss \<Longrightarrow>
   set (concat (xss[i := xss ! i @ ys])) = set (concat xss) \<union> set ys"
proof -
  assume i: "i < length xss"
  have "set (concat (xss[i := xss ! i @ ys])) =
        set (concat (take i xss)) \<union> (set (xss ! i) \<union> set ys) \<union> set (concat (drop (Suc i) xss))"
    by (simp only: upd_conv_take_nth_drop [OF i]) auto
  moreover have "set (concat xss) =
        set (concat (take i xss)) \<union> set (xss ! i) \<union> set (concat (drop (Suc i) xss))"
    by (subst id_take_nth_drop [OF i]) auto
  ultimately show ?thesis by blast
qed

lemma in_set_concat_nth: "x \<in> set (concat xss) \<longleftrightarrow> (\<exists>i < length xss. x \<in> set (xss ! i))"
  by (metis (no_types, lifting) UN_iff in_set_conv_nth nth_mem set_concat)

end
