(* ===== verification/PathExpr.thy ===== *)
theory PathExpr
  imports Prelude
begin

text \<open>
  Path expressions: the \<open>IPath\<close> class hierarchy of \<open>parser/query/paths\<close> (one constructor
  per subclass), their \<open>nullable\<close>, \<open>invert\<close> and \<open>to_string\<close> methods, the simplification
  \<open>PathDenull::denull\<close> of \<open>denull_path.cc\<close>, and the part of the MDB query visitor that builds
  them from the parse tree (\<open>visitPathAlternatives\<close>, \<open>visitPathSequence\<close>,
  \<open>visitPathAtomSimple\<close>, \<open>visitPathAtomAlternatives\<close> with the suffixes). The specification is
  the language \<open>path_lang\<close> of a path expression. Property checks (data checks of RDPQs) are
  carried as values of a type parameter: regular path queries never look at them.
\<close>

section \<open>The class hierarchy\<close>

datatype 'c path =
  PathAtom (atom: string) (atom_inverse: bool) (property_checks: "'c list")
| PathAlternatives (alternatives: "'c path list")
| PathSequence (sequence: "'c path list")
| PathKleeneStar (star_path: "'c path")
| PathOptional (optional_path: "'c path")
| PathCheck (check_list: "'c list")

fun nullable :: "'c path \<Rightarrow> bool" where
  "nullable (PathAtom a dir cs) = False"
| "nullable (PathAlternatives ps) = list_ex nullable ps"
| "nullable (PathSequence ps) = list_all nullable ps"
| "nullable (PathKleeneStar p) = True"
| "nullable (PathOptional p) = True"
| "nullable (PathCheck cs) = False"

fun join_strings :: "string \<Rightarrow> string list \<Rightarrow> string" where
  "join_strings sep [] = []"
| "join_strings sep [s] = s"
| "join_strings sep (s # ss) = s @ sep @ join_strings sep ss"

fun to_string :: "'c path \<Rightarrow> string" where
  "to_string (PathAtom a dir cs) = (if dir then ''^:'' @ a else '':'' @ a)"
| "to_string (PathAlternatives ps) = ''('' @ join_strings ''|'' (map to_string ps) @ '')''"
| "to_string (PathSequence ps) = ''('' @ join_strings ''/'' (map to_string ps) @ '')''"
| "to_string (PathKleeneStar p) = ''('' @ to_string p @ '')*''"
| "to_string (PathOptional p) = ''('' @ to_string p @ '')?''"
| "to_string (PathCheck cs) = ''{}''"

section \<open>PathDenull\<close>

fun denull :: "'c path \<Rightarrow> 'c path" where
  "denull (PathKleeneStar p) = p"
| "denull (PathAlternatives ps) =
     (if \<not> nullable (PathAlternatives ps) then PathAlternatives ps
      else PathAlternatives (map denull ps))"
| "denull (PathSequence ps) =
     (if \<not> nullable (PathSequence ps) then PathSequence ps
      else PathAlternatives (map denull ps))"
| "denull (PathAtom a dir cs) = PathAtom a dir cs"
| "denull (PathOptional p) = p"
| "denull (PathCheck cs) = PathCheck cs"

text \<open>The constructor \<open>PathKleeneStar(path)\<close>, which simplifies its argument.\<close>

definition mk_kleene_star :: "'c path \<Rightarrow> 'c path" where
  "mk_kleene_star p = PathKleeneStar (denull p)"

fun invert :: "'c path \<Rightarrow> 'c path" where
  "invert (PathAtom a dir cs) = PathAtom a (\<not> dir) cs"
| "invert (PathAlternatives ps) = PathAlternatives (map invert ps)"
| "invert (PathSequence ps) = PathSequence (rev (map invert ps))"
| "invert (PathKleeneStar p) = mk_kleene_star (invert p)"
| "invert (PathOptional p) = PathOptional (invert p)"
| "invert (PathCheck cs) = PathCheck cs"

section \<open>The language of a path expression\<close>

definition lseq :: "'a list set list \<Rightarrow> 'a list set" where
  "lseq As = foldr lconc As {[]}"

lemma lseq_simps [simp]: "lseq [] = {[]}" "lseq (A # As) = lconc A (lseq As)"
  by (simp_all add: lseq_def)

lemma lseq_append: "lseq (As @ Bs) = lconc (lseq As) (lseq Bs)"
  by (induction As) (simp_all add: lconc_assoc)

lemma Nil_in_lseq: "[] \<in> lseq As \<longleftrightarrow> (\<forall>A \<in> set As. [] \<in> A)"
  by (induction As) auto

fun path_lang :: "'c path \<Rightarrow> rpq_word set" where
  "path_lang (PathAtom a dir cs) = {[(a, dir)]}"
| "path_lang (PathAlternatives ps) = (\<Union>p \<in> set ps. path_lang p)"
| "path_lang (PathSequence ps) = lseq (map path_lang ps)"
| "path_lang (PathKleeneStar p) = kstar (path_lang p)"
| "path_lang (PathOptional p) = insert [] (path_lang p)"
| "path_lang (PathCheck cs) = {}"

lemma nullable_lang: "nullable p \<longleftrightarrow> [] \<in> path_lang p"
  by (induction p rule: nullable.induct)
     (auto simp: list_ex_iff list_all_iff Nil_in_lseq)

section \<open>Denull keeps the Kleene closure\<close>

lemma kstar_Union_kstar: "kstar (\<Union>A \<in> F. kstar (h A)) = kstar (\<Union>A \<in> F. h A)"
proof (rule kstar_eqI)
  show "(\<Union>A \<in> F. kstar (h A)) \<subseteq> kstar (\<Union>A \<in> F. h A)"
    using kstar_mono by (metis SUP_least SUP_upper)
  show "(\<Union>A \<in> F. h A) \<subseteq> kstar (\<Union>A \<in> F. kstar (h A))"
    by (auto intro!: kstar_incl)
qed

lemma lseq_subset_kstar: "lseq As \<subseteq> kstar (\<Union> (set As))"
proof (induction As)
  case (Cons A As)
  show ?case
  proof
    fix w assume "w \<in> lseq (A # As)"
    then obtain u v where w: "w = u @ v" "u \<in> A" "v \<in> lseq As" by auto
    have "kstar (\<Union> (set As)) \<subseteq> kstar (\<Union> (set (A # As)))" by (rule kstar_mono) auto
    with w Cons show "w \<in> kstar (\<Union> (set (A # As)))" by (auto intro!: kstar_app)
  qed
qed auto

lemma subset_lseq_nullable:
  assumes "\<forall>A \<in> set As. [] \<in> A" "A \<in> set As" shows "A \<subseteq> lseq As"
  using assms
proof (induction As)
  case (Cons B As)
  have "[] \<in> lseq As" "[] \<in> B" using Cons.prems by (auto simp: Nil_in_lseq)
  then have "B \<subseteq> lseq (B # As)" "lseq As \<subseteq> lseq (B # As)"
    by (auto simp: lconc_def)
  with Cons show ?case by auto
qed auto

lemma kstar_lseq_nullable:
  assumes "\<forall>A \<in> set As. [] \<in> A" shows "kstar (lseq As) = kstar (\<Union> (set As))"
proof (rule kstar_eqI)
  show "lseq As \<subseteq> kstar (\<Union> (set As))" by (rule lseq_subset_kstar)
  show "\<Union> (set As) \<subseteq> kstar (lseq As)"
    using subset_lseq_nullable [OF assms] by (auto intro: kstar_incl)
qed

lemma kstar_map_denull:
  assumes "\<And>p. p \<in> set ps \<Longrightarrow> kstar (path_lang (denull p)) = kstar (path_lang p)"
  shows "kstar (\<Union>p \<in> set ps. path_lang (denull p)) = kstar (\<Union>p \<in> set ps. path_lang p)"
proof -
  have "kstar (\<Union>p \<in> set ps. path_lang (denull p)) = kstar (\<Union>p \<in> set ps. kstar (path_lang (denull p)))"
    by (rule kstar_Union_kstar [symmetric])
  also have "\<dots> = kstar (\<Union>p \<in> set ps. kstar (path_lang p))"
    by (rule arg_cong [of _ _ kstar], rule SUP_cong) (auto simp: assms)
  also have "\<dots> = kstar (\<Union>p \<in> set ps. path_lang p)"
    by (rule kstar_Union_kstar)
  finally show ?thesis .
qed

lemma kstar_denull: "kstar (path_lang (denull p)) = kstar (path_lang p)"
proof (induction p rule: denull.induct)
  case (2 ps)
  then show ?case by (cases "nullable (PathAlternatives ps)") (simp_all add: kstar_map_denull)
next
  case (3 ps)
  show ?case
  proof (cases "nullable (PathSequence ps)")
    case True
    then have "\<forall>A \<in> set (map path_lang ps). [] \<in> A"
      by (auto simp: Nil_in_lseq nullable_lang)
    then have "kstar (lseq (map path_lang ps)) = kstar (\<Union>p \<in> set ps. path_lang p)"
      by (simp only: kstar_lseq_nullable) simp
    moreover have "kstar (\<Union>p \<in> set ps. path_lang (denull p)) = kstar (\<Union>p \<in> set ps. path_lang p)"
      using 3 True by (intro kstar_map_denull) auto
    ultimately show ?thesis using True by simp
  qed auto
qed (simp_all add: lang_simps)

section \<open>Inversion\<close>

text \<open>The inverse of a word: the steps backwards, each in the other direction.\<close>

definition rev_word :: "rpq_word \<Rightarrow> rpq_word" where
  "rev_word w = rev (map (\<lambda>(a, d). (a, \<not> d)) w)"

lemma rev_word_simps [simp]:
  "rev_word [] = []" "rev_word (u @ v) = rev_word v @ rev_word u" "rev_word [(a, d)] = [(a, \<not> d)]"
  by (simp_all add: rev_word_def)

lemma rev_word_rev_word [simp]: "rev_word (rev_word w) = w"
  by (induction w) (auto simp: rev_word_def rev_map)

lemma rev_word_image_lconc: "rev_word ` lconc A B = lconc (rev_word ` B) (rev_word ` A)"
  by (auto simp: lconc_def image_iff) (metis rev_word_simps(2))+

lemma rev_word_image_lseq: "rev_word ` lseq As = lseq (rev (map ((`) rev_word) As))"
  by (induction As) (simp_all add: rev_word_image_lconc lseq_append)

lemma rev_word_kstar_sub: "w \<in> kstar A \<Longrightarrow> rev_word w \<in> kstar (rev_word ` A)"
  by (induction rule: kstar.induct) (auto intro: kstar_append kstar_incl)

lemma rev_word_image_kstar: "rev_word ` kstar A = kstar (rev_word ` A)"
proof
  show "rev_word ` kstar A \<subseteq> kstar (rev_word ` A)" by (auto intro: rev_word_kstar_sub)
  show "kstar (rev_word ` A) \<subseteq> rev_word ` kstar A"
  proof
    fix w assume "w \<in> kstar (rev_word ` A)"
    then have "rev_word w \<in> kstar (rev_word ` rev_word ` A)" by (rule rev_word_kstar_sub)
    then have "rev_word w \<in> kstar A" by (simp add: image_image)
    then show "w \<in> rev_word ` kstar A" by (metis image_eqI rev_word_rev_word)
  qed
qed

lemma invert_lang: "path_lang (invert p) = rev_word ` path_lang p"
proof (induction p)
  case (PathSequence ps)
  then have "map (path_lang \<circ> invert) (rev ps) = map ((`) rev_word \<circ> path_lang) (rev ps)" by simp
  then show ?case by (simp only: path_lang.simps invert.simps rev_map map_map rev_word_image_lseq)
next
  case (PathKleeneStar p)
  then show ?case by (simp add: mk_kleene_star_def kstar_denull rev_word_image_kstar)
qed auto

section \<open>The query visitor\<close>

text \<open>
  The parse tree of \<open>pathAlternatives\<close> (\<open>MDBParser.g4\<close>): a list of alternatives, each a
  list of atoms; an atom is an edge type or a parenthesised \<open>pathAlternatives\<close>, with a
  leading \<open>^\<close> flag and a suffix. The parser itself (ANTLR) is generated code.
\<close>

datatype path_suffix = SuffixRange nat nat | SuffixStar | SuffixPlus | SuffixOptional

datatype path_atom_ctx =
  PathAtomSimple bool string "path_suffix option"
| PathAtomAlternatives bool "path_atom_ctx list list" "path_suffix option"

fun apply_suffix :: "'c path \<Rightarrow> path_suffix option \<Rightarrow> 'c path" where
  "apply_suffix p None = p"
| "apply_suffix p (Some (SuffixRange mn mx)) =
     PathSequence (replicate mn p @ replicate (mx - mn) (PathOptional p))"
| "apply_suffix p (Some SuffixStar) = mk_kleene_star p"
| "apply_suffix p (Some SuffixPlus) = PathSequence [p, mk_kleene_star p]"
| "apply_suffix p (Some SuffixOptional) = (if \<not> nullable p then PathOptional p else p)"

definition visit_sequence_node :: "bool \<Rightarrow> 'c path list \<Rightarrow> 'c path" where
  "visit_sequence_node current_path_inverse ps =
     (if length ps > 1 then PathSequence (if current_path_inverse then rev ps else ps) else hd ps)"

definition visit_alternatives_node :: "'c path list \<Rightarrow> 'c path" where
  "visit_alternatives_node ps = (if length ps > 1 then PathAlternatives ps else hd ps)"

text \<open>\<open>XOR\<close> of the two flags is \<open>\<noteq>\<close>; the saved flag is restored by passing it down.\<close>

fun visit_path_atom :: "bool \<Rightarrow> path_atom_ctx \<Rightarrow> 'c path" where
  "visit_path_atom current_path_inverse (PathAtomSimple hat type suffix) =
     apply_suffix (PathAtom type (hat \<noteq> current_path_inverse) []) suffix"
| "visit_path_atom current_path_inverse (PathAtomAlternatives hat alts suffix) =
     (let dir = (hat \<noteq> current_path_inverse) in
      apply_suffix
        (visit_alternatives_node
          (map (\<lambda>atoms. visit_sequence_node dir (map (visit_path_atom dir) atoms)) alts))
        suffix)"

definition visit_path :: "path_atom_ctx list list \<Rightarrow> 'c path" where
  "visit_path alts =
     visit_alternatives_node
       (map (\<lambda>atoms. visit_sequence_node False (map (visit_path_atom False) atoms)) alts)"

text \<open>
  What the query text means, on its own: \<open>^\<close> reverses the language of what follows it
  (suffix included or not makes no difference), \<open>{m,n}\<close> is between \<open>m\<close> and
  \<open>max m n\<close> repetitions.
\<close>

fun lpow :: "nat \<Rightarrow> 'a list set \<Rightarrow> 'a list set" where
  "lpow 0 A = {[]}"
| "lpow (Suc n) A = lconc A (lpow n A)"

fun suffix_lang :: "path_suffix option \<Rightarrow> rpq_word set \<Rightarrow> rpq_word set" where
  "suffix_lang None A = A"
| "suffix_lang (Some (SuffixRange mn mx)) A = (\<Union>n \<in> {mn..max mn mx}. lpow n A)"
| "suffix_lang (Some SuffixStar) A = kstar A"
| "suffix_lang (Some SuffixPlus) A = lconc A (kstar A)"
| "suffix_lang (Some SuffixOptional) A = insert [] A"

definition dir_lang :: "bool \<Rightarrow> rpq_word set \<Rightarrow> rpq_word set" where
  "dir_lang dir A = (if dir then rev_word ` A else A)"

fun atom_ctx_lang :: "path_atom_ctx \<Rightarrow> rpq_word set" where
  "atom_ctx_lang (PathAtomSimple hat type suffix) = suffix_lang suffix {[(type, hat)]}"
| "atom_ctx_lang (PathAtomAlternatives hat alts suffix) =
     suffix_lang suffix (dir_lang hat (\<Union>atoms \<in> set alts. lseq (map atom_ctx_lang atoms)))"

fun wf_atom_ctx :: "path_atom_ctx \<Rightarrow> bool" where
  "wf_atom_ctx (PathAtomSimple hat type suffix) = True"
| "wf_atom_ctx (PathAtomAlternatives hat alts suffix) =
     (alts \<noteq> [] \<and> (\<forall>atoms \<in> set alts. atoms \<noteq> [] \<and> (\<forall>a \<in> set atoms. wf_atom_ctx a)))"

lemma lseq_replicate: "lseq (replicate n A) = lpow n A"
  by (induction n) simp_all

lemma lconc_Union_left: "lconc (\<Union>i \<in> I. A i) B = (\<Union>i \<in> I. lconc (A i) B)"
  and lconc_Union_right: "lconc B (\<Union>i \<in> I. A i) = (\<Union>i \<in> I. lconc B (A i))"
  by (auto simp: lconc_def)

lemma lconc_insert_Nil_left: "lconc (insert [] A) B = B \<union> lconc A B"
  by (auto simp: lconc_def)

lemma lpow_add: "lconc (lpow m A) (lpow n A) = lpow (m + n) A"
  by (induction m) (simp_all add: lconc_assoc)

lemma lpow_insert_Nil: "lpow n (insert [] A) = (\<Union>k \<le> n. lpow k A)"
proof (induction n)
  case (Suc n)
  have "lpow (Suc n) (insert [] A) = (\<Union>k \<le> n. lpow k A) \<union> (\<Union>k \<le> n. lpow (Suc k) A)"
    by (simp add: Suc lconc_insert_Nil_left lconc_Union_right UN_Un_distrib)
  also have "\<dots> = (\<Union>k \<le> n. lpow k A) \<union> (\<Union>k \<in> Suc ` {..n}. lpow k A)" by simp
  also have "\<dots> = (\<Union>k \<in> {..n} \<union> Suc ` {..n}. lpow k A)" by blast
  also have "{..n} \<union> Suc ` {..n} = {..Suc n}"
  proof (rule set_eqI)
    fix x show "x \<in> {..n} \<union> Suc ` {..n} \<longleftrightarrow> x \<in> {..Suc n}" by (cases x) auto
  qed
  finally show ?case .
qed simp

lemma range_lang: "lconc (lpow m A) (lpow k (insert [] A)) = (\<Union>n \<in> {m..m + k}. lpow n A)"
proof -
  have "lconc (lpow m A) (lpow k (insert [] A)) = (\<Union>i \<le> k. lpow (m + i) A)"
    by (simp add: lpow_insert_Nil lconc_Union_right lpow_add)
  also have "\<dots> = (\<Union>n \<in> (+) m ` {..k}. lpow n A)" by simp
  also have "(+) m ` {..k} = {m..m + k}" by (simp add: atMost_atLeast0)
  finally show ?thesis .
qed

lemma apply_suffix_lang: "path_lang (apply_suffix p s) = suffix_lang s (path_lang p)"
proof (cases "(p, s)" rule: apply_suffix.cases)
  case (2 p mn mx)
  have "mn + (mx - mn) = max mn mx" by simp
  with 2 show ?thesis
    by (simp add: lseq_append lseq_replicate range_lang del: lpow.simps)
next
  case (5 p)
  then show ?thesis by (simp add: insert_absorb nullable_lang)
qed (simp_all add: mk_kleene_star_def kstar_denull)

lemma rev_word_image_lpow: "rev_word ` lpow n A = lpow n (rev_word ` A)"
proof -
  have "rev_word ` lseq (replicate n A) = lseq (replicate n (rev_word ` A))"
    by (simp add: rev_word_image_lseq)
  then show ?thesis by (simp only: lseq_replicate)
qed

lemma lconc_kstar_comm: "lconc (kstar A) A = lconc A (kstar A)"
proof -
  have 1: "v @ a \<in> lconc A (kstar A)" if "v \<in> kstar A" "a \<in> A" for v a
    using that by (induction rule: kstar.induct) (auto simp: lconc_def intro: kstar_incl kstar_append)
  have 2: "a @ v \<in> lconc (kstar A) A" if "v \<in> kstar A" "a \<in> A" for v a
    using that
  proof (induction arbitrary: a rule: kstar.induct)
    case kstar_Nil then show ?case by (auto simp: lconc_def)
  next
    case (kstar_app u v)
    then obtain x y where "u @ v = x @ y" "x \<in> kstar A" "y \<in> A" by blast
    then have "a @ u @ v = (a @ x) @ y" "a @ x \<in> kstar A" "y \<in> A"
      using kstar_app.prems by (auto intro: kstar.kstar_app)
    then show ?case by (metis lconcI)
  qed
  show ?thesis using 1 2 by (auto simp: lconc_def [of "kstar A" A] lconc_def [of A "kstar A"])
qed

lemma dir_lang_suffix: "dir_lang d (suffix_lang s A) = suffix_lang s (dir_lang d A)"
proof (cases "(s, A)" rule: suffix_lang.cases)
  case (4 A) then show ?thesis
    by (simp add: dir_lang_def rev_word_image_lconc rev_word_image_kstar lconc_kstar_comm)
qed (simp_all add: dir_lang_def image_UN rev_word_image_lpow rev_word_image_kstar)

lemma dir_lang_dir_lang: "dir_lang d (dir_lang e A) = dir_lang (d \<noteq> e) A"
  by (auto simp: dir_lang_def image_image)

lemma visit_alternatives_lang:
  "ps \<noteq> [] \<Longrightarrow> path_lang (visit_alternatives_node ps) = (\<Union>p \<in> set ps. path_lang p)"
  by (cases ps) (auto simp: visit_alternatives_node_def)

lemma visit_sequence_lang:
  assumes "ps \<noteq> []" "map path_lang ps = map (dir_lang d) As"
  shows "path_lang (visit_sequence_node d ps) = dir_lang d (lseq As)"
proof (cases "length ps > 1")
  case True
  then show ?thesis using assms
    by (auto simp: visit_sequence_node_def dir_lang_def [abs_def] rev_word_image_lseq rev_map [symmetric])
next
  case False
  then obtain p A where "ps = [p]" "As = [A]" using assms
    by (cases ps; cases As; auto)
  then show ?thesis using assms by (simp add: visit_sequence_node_def)
qed

lemma visit_path_atom_lang:
  "wf_atom_ctx a \<Longrightarrow> path_lang (visit_path_atom d a :: 'c path) = dir_lang d (atom_ctx_lang a)"
proof (induction d a rule: visit_path_atom.induct)
  case (1 d hat type suffix)
  have "dir_lang d {[(type, hat)]} = {[(type, hat \<noteq> d)]}" by (auto simp: dir_lang_def)
  then show ?case by (simp add: apply_suffix_lang dir_lang_suffix)
next
  case (2 d hat alts suffix)
  let ?d = "hat \<noteq> d"
  have seq: "path_lang (visit_sequence_node ?d (map (visit_path_atom ?d) atoms) :: 'c path)
              = dir_lang ?d (lseq (map atom_ctx_lang atoms))" if "atoms \<in> set alts" for atoms
  proof (rule visit_sequence_lang)
    have wf: "atoms \<noteq> []" "\<forall>a \<in> set atoms. wf_atom_ctx a" using 2(2) that by auto
    then show "(map (visit_path_atom ?d) atoms :: 'c path list) \<noteq> []" by simp
    show "map path_lang (map (visit_path_atom ?d) atoms :: 'c path list) = map (dir_lang ?d) (map atom_ctx_lang atoms)"
      using 2(1) [OF refl that] wf by simp
  qed
  have "path_lang (visit_alternatives_node
          (map (\<lambda>atoms. visit_sequence_node ?d (map (visit_path_atom ?d) atoms)) alts) :: 'c path)
        = (\<Union>atoms \<in> set alts. dir_lang ?d (lseq (map atom_ctx_lang atoms)))"
    using 2(2) seq by (subst visit_alternatives_lang) auto
  also have "\<dots> = dir_lang ?d (\<Union>atoms \<in> set alts. lseq (map atom_ctx_lang atoms))"
    by (auto simp: dir_lang_def)
  also have "\<dots> = dir_lang d (dir_lang hat (\<Union>atoms \<in> set alts. lseq (map atom_ctx_lang atoms)))"
    by (simp add: dir_lang_dir_lang eq_commute)
  finally show ?case by (simp add: apply_suffix_lang dir_lang_suffix Let_def)
qed

end
