(* ===== verification/RpqNfa.thy ===== *)
theory RpqNfa
  imports PathExpr
begin

text \<open>
  \<open>RPQ_NFA\<close> of \<open>parser/query/paths/automaton/rpq_automaton.{h,cc}\<close>: nondeterministic automata
  with epsilon transitions, their construction primitives (\<open>add_transition\<close>,
  \<open>add_epsilon_transition\<close>, \<open>rename_and_merge\<close>) and the Thompson-style construction
  \<open>get_rpq_base_automaton\<close> of every \<open>IPath\<close> subclass. State numbers are natural numbers:
  \<open>uint32_t\<close> would wrap only for an expression with \<open>2^32\<close> states. A \<open>nullptr\<close> type
  (epsilon) is \<open>None\<close>.
\<close>

section \<open>The automaton\<close>

datatype transition =
  Transition (frm: nat) (dest: nat) (ttype: "string option") (inverse_dir: bool)

record rpq_nfa =
  start :: nat
  total_states :: nat
  end_states :: "nat std_set"
  outer_transitions :: "transition list list"
  inner_transitions :: "transition list list"

definition RPQ_NFA :: rpq_nfa where
  "RPQ_NFA = \<lparr>start = 0, total_states = 1, end_states = [],
     outer_transitions = [], inner_transitions = []\<rparr>"

text \<open>Reading a slot: out of range is undefined behaviour in C++, no transition here; well-formed automata never do it.\<close>

definition slot :: "'a list list \<Rightarrow> nat \<Rightarrow> 'a list" where
  "slot xss i = (if i < length xss then xss ! i else [])"

text \<open>The two \<open>while\<close> loops at the head of \<open>add_transition\<close>: push empty slots until both ends fit.\<close>

definition grow_slots :: "nat \<Rightarrow> nat \<Rightarrow> 'a list list \<Rightarrow> 'a list list" where
  "grow_slots f t xss = xss @ replicate (Suc (max f t) - length xss) []"

definition push_slot :: "nat \<Rightarrow> 'a \<Rightarrow> 'a list list \<Rightarrow> 'a list list" where
  "push_slot i x xss = xss[i := xss ! i @ [x]]"

definition add_transition :: "rpq_nfa \<Rightarrow> transition \<Rightarrow> rpq_nfa" where
  "add_transition A t =
     (let out = grow_slots (frm t) (dest t) (outer_transitions A);
          inn = grow_slots (frm t) (dest t) (inner_transitions A);
          exists = (t \<in> set (out ! frm t))
      in A\<lparr>outer_transitions := (if exists then out else push_slot (frm t) t out),
           inner_transitions := (if exists then inn else push_slot (dest t) t inn),
           total_states := length out\<rparr>)"

definition add_epsilon_transition :: "rpq_nfa \<Rightarrow> nat \<Rightarrow> nat \<Rightarrow> rpq_nfa" where
  "add_epsilon_transition A f t = add_transition A (Transition f t None False)"

definition rename_transition :: "nat \<Rightarrow> transition \<Rightarrow> transition" where
  "rename_transition k t = Transition (frm t + k) (dest t + k) (ttype t) (inverse_dir t)"

text \<open>\<open>this.rename_and_merge(other)\<close> changes both automata: the result is the pair.\<close>

definition rename_and_merge :: "rpq_nfa \<Rightarrow> rpq_nfa \<Rightarrow> rpq_nfa \<times> rpq_nfa" where
  "rename_and_merge A other =
     (let k = total_states A in
      (foldl (\<lambda>B t. add_transition B (rename_transition k t)) A (concat (outer_transitions other)),
       other\<lparr>end_states := set_of_list (map (\<lambda>e. k + e) (end_states other)), start := k\<rparr>))"

section \<open>Construction from a path expression\<close>

text \<open>
  A \<open>PathCheck\<close> throws \<open>LogicException\<close>; \<open>sequence[0]\<close> of an empty sequence is undefined
  behaviour.
\<close>

datatype path_error = LogicException string | UndefinedBehaviour

definition atom_automaton :: "string \<Rightarrow> bool \<Rightarrow> rpq_nfa" where
  "atom_automaton a dir =
     add_transition (RPQ_NFA\<lparr>end_states := set_insert 1 []\<rparr>) (Transition 0 1 (Some a) dir)"

definition alternatives_step :: "rpq_nfa \<Rightarrow> rpq_nfa \<Rightarrow> rpq_nfa" where
  "alternatives_step A child =
     (case rename_and_merge A child of (B, child') \<Rightarrow>
        (let C = add_epsilon_transition B (start B) (start child')
         in C\<lparr>end_states := foldl (\<lambda>es e. set_insert e es) (end_states C) (end_states child')\<rparr>))"

fun alternatives_automaton :: "rpq_nfa \<Rightarrow> (path_error + rpq_nfa) list \<Rightarrow> path_error + rpq_nfa" where
  "alternatives_automaton A [] = Inr A"
| "alternatives_automaton A (Inl e # cs) = Inl e"
| "alternatives_automaton A (Inr child # cs) = alternatives_automaton (alternatives_step A child) cs"

definition sequence_step :: "rpq_nfa \<Rightarrow> rpq_nfa \<Rightarrow> rpq_nfa" where
  "sequence_step A child =
     (case rename_and_merge A child of (B, child') \<Rightarrow>
        (foldl (\<lambda>C e. add_epsilon_transition C e (start child')) B (end_states B))
          \<lparr>end_states := end_states child'\<rparr>)"

fun sequence_loop :: "rpq_nfa \<Rightarrow> (path_error + rpq_nfa) list \<Rightarrow> path_error + rpq_nfa" where
  "sequence_loop A [] = Inr A"
| "sequence_loop A (Inl e # cs) = Inl e"
| "sequence_loop A (Inr child # cs) = sequence_loop (sequence_step A child) cs"

fun sequence_automaton :: "(path_error + rpq_nfa) list \<Rightarrow> path_error + rpq_nfa" where
  "sequence_automaton [] = Inl UndefinedBehaviour"
| "sequence_automaton (Inl e # cs) = Inl e"
| "sequence_automaton (Inr A # cs) = sequence_loop A cs"

definition kleene_automaton :: "rpq_nfa \<Rightarrow> rpq_nfa" where
  "kleene_automaton A =
     (if total_states A = 2
      then (let t = hd (slot (outer_transitions A) 0);
                B = add_transition RPQ_NFA (Transition 0 0 (ttype t) (inverse_dir t))
            in B\<lparr>end_states := set_insert (start B) (end_states B)\<rparr>)
      else (let B = foldl (\<lambda>C e. add_epsilon_transition C e (start C)) A (end_states A)
            in B\<lparr>end_states := set_insert (start B) (end_states B)\<rparr>))"

definition optional_automaton :: "rpq_nfa \<Rightarrow> rpq_nfa" where
  "optional_automaton A = A\<lparr>end_states := set_insert (start A) (end_states A)\<rparr>"

fun get_rpq_base_automaton :: "'c path \<Rightarrow> path_error + rpq_nfa" where
  "get_rpq_base_automaton (PathAtom a dir cs) = Inr (atom_automaton a dir)"
| "get_rpq_base_automaton (PathAlternatives ps) =
     alternatives_automaton RPQ_NFA (map get_rpq_base_automaton ps)"
| "get_rpq_base_automaton (PathSequence ps) = sequence_automaton (map get_rpq_base_automaton ps)"
| "get_rpq_base_automaton (PathKleeneStar p) = map_sum id kleene_automaton (get_rpq_base_automaton p)"
| "get_rpq_base_automaton (PathOptional p) = map_sum id optional_automaton (get_rpq_base_automaton p)"
| "get_rpq_base_automaton (PathCheck cs) = Inl (LogicException ''Data checks not supported in RPQ'')"

section \<open>Runs and language\<close>

definition edges :: "rpq_nfa \<Rightarrow> transition set" where
  "edges A = set (concat (outer_transitions A))"

inductive nfa_path :: "transition set \<Rightarrow> nat \<Rightarrow> rpq_word \<Rightarrow> nat \<Rightarrow> bool" for E where
  nfa_refl: "nfa_path E p [] p"
| nfa_eps: "Transition p q None d \<in> E \<Longrightarrow> nfa_path E q w r \<Longrightarrow> nfa_path E p w r"
| nfa_sym: "Transition p q (Some a) d \<in> E \<Longrightarrow> nfa_path E q w r \<Longrightarrow> nfa_path E p ((a, d) # w) r"

definition nfa_lang :: "rpq_nfa \<Rightarrow> rpq_word set" where
  "nfa_lang A = {w. \<exists>f \<in> set (end_states A). nfa_path (edges A) (start A) w f}"

declare nfa_refl [simp, intro]

inductive_simps nfa_path_empty_edges: "nfa_path {} p w q"

definition letter :: "transition \<Rightarrow> rpq_word" where
  "letter t = (case ttype t of None \<Rightarrow> [] | Some a \<Rightarrow> [(a, inverse_dir t)])"

lemma nfa_path_step: "t \<in> E \<Longrightarrow> nfa_path E (dest t) w r \<Longrightarrow> nfa_path E (frm t) (letter t @ w) r"
  by (cases t) (auto simp: letter_def intro: nfa_eps nfa_sym split: option.splits)

text \<open>Induction with the two kinds of step as one.\<close>

lemma nfa_path_induct [consumes 1, case_names refl step]:
  assumes "nfa_path E p w q"
    and "\<And>p. P p [] p"
    and "\<And>t w r. t \<in> E \<Longrightarrow> nfa_path E (dest t) w r \<Longrightarrow> P (dest t) w r \<Longrightarrow> P (frm t) (letter t @ w) r"
  shows "P p w q"
  using assms(1)
proof (induction rule: nfa_path.induct)
  case (nfa_eps p q d w r)
  then show ?case using assms(3) [of "Transition p q None d"] by (simp add: letter_def)
next
  case (nfa_sym p q a d w r)
  then show ?case using assms(3) [of "Transition p q (Some a) d"] by (simp add: letter_def)
qed (rule assms(2))

lemma nfa_path_append:
  "nfa_path E p u q \<Longrightarrow> nfa_path E q v r \<Longrightarrow> nfa_path E p (u @ v) r"
  by (induction rule: nfa_path_induct) (auto dest: nfa_path_step)

lemma nfa_path_mono: "nfa_path E p w q \<Longrightarrow> E \<subseteq> F \<Longrightarrow> nfa_path F p w q"
  by (induction rule: nfa_path_induct) (auto dest: nfa_path_step)

lemma nfa_path_single: "t \<in> E \<Longrightarrow> nfa_path E (frm t) (letter t) (dest t)"
  using nfa_path_step [of t E "[]" "dest t"] by simp

lemma nfa_path_single_eps: "Transition p q None d \<in> E \<Longrightarrow> nfa_path E p [] q"
  by (auto intro: nfa_eps)

lemma nfa_path_cases_step [consumes 1, case_names refl step]:
  assumes "nfa_path E p w q"
  obtains "w = []" "p = q"
  | t v where "t \<in> E" "frm t = p" "w = letter t @ v" "nfa_path E (dest t) v q"
  using assms by (induction rule: nfa_path_induct) auto

text \<open>A map of states that maps edges to edges maps runs to runs.\<close>

lemma nfa_path_map:
  assumes "nfa_path E p w q"
    and "\<And>t. t \<in> E \<Longrightarrow> nfa_path F (h (frm t)) (letter t) (h (dest t))"
  shows "nfa_path F (h p) w (h q)"
  using assms(1) by (induction rule: nfa_path_induct) (auto intro: nfa_path_append assms(2))

section \<open>Effect of the primitives\<close>

lemma length_grow_slots [simp]: "length (grow_slots f t xss) = max (length xss) (Suc (max f t))"
  by (auto simp: grow_slots_def)

lemma slot_grow_slots [simp]: "slot (grow_slots f t xss) i = slot xss i"
  by (auto simp: grow_slots_def slot_def nth_append)

lemma concat_grow_slots [simp]: "concat (grow_slots f t xss) = concat xss"
  by (simp add: grow_slots_def)

lemma length_push_slot [simp]: "length (push_slot i x xss) = length xss"
  by (simp add: push_slot_def)

lemma slot_push_slot:
  "i < length xss \<Longrightarrow> slot (push_slot i x xss) j = (if j = i then slot xss i @ [x] else slot xss j)"
  by (auto simp: push_slot_def slot_def)

lemma set_concat_push_slot [simp]:
  "i < length xss \<Longrightarrow> set (concat (push_slot i x xss)) = insert x (set (concat xss))"
  unfolding push_slot_def by (subst concat_update_append) auto

lemma slot_subset: "set (slot xss i) \<subseteq> set (concat xss)"
  by (auto simp: slot_def intro!: bexI [OF _ nth_mem])

lemma nth_slot: "i < length xss \<Longrightarrow> xss ! i = slot xss i"
  by (simp add: slot_def)

lemma add_transition_simps [simp]:
  "start (add_transition A t) = start A"
  "end_states (add_transition A t) = end_states A"
  "length (outer_transitions (add_transition A t)) =
     max (length (outer_transitions A)) (Suc (max (frm t) (dest t)))"
  "total_states (add_transition A t) =
     max (length (outer_transitions A)) (Suc (max (frm t) (dest t)))"
  "length (inner_transitions (add_transition A t)) =
     max (length (inner_transitions A)) (Suc (max (frm t) (dest t)))"
  by (simp_all add: add_transition_def Let_def)

lemma edges_add_transition [simp]: "edges (add_transition A t) = insert t (edges A)"
proof -
  let ?out = "grow_slots (frm t) (dest t) (outer_transitions A)"
  have len: "frm t < length ?out" by simp
  have "edges (add_transition A t) =
        (if t \<in> set (slot ?out (frm t)) then edges A else insert t (edges A))"
    using set_concat_push_slot [OF len, of t]
    by (simp add: edges_def add_transition_def Let_def nth_slot [OF len] del: set_concat)
  moreover have "t \<in> set (slot ?out (frm t)) \<Longrightarrow> t \<in> edges A"
    using slot_subset [of ?out "frm t"] by (auto simp: edges_def simp del: slot_grow_slots)
  ultimately show ?thesis by auto
qed

lemma slot_add_transition:
  "slot (outer_transitions (add_transition A t)) i =
     (if i = frm t \<and> t \<notin> set (slot (outer_transitions A) i)
      then slot (outer_transitions A) i @ [t] else slot (outer_transitions A) i)"
  by (simp add: add_transition_def Let_def nth_slot slot_push_slot)

lemma slot_inner_add_transition:
  "slot (inner_transitions (add_transition A t)) i =
     (if i = dest t \<and> t \<notin> set (slot (outer_transitions A) (frm t))
      then slot (inner_transitions A) i @ [t] else slot (inner_transitions A) i)"
  by (simp add: add_transition_def Let_def nth_slot slot_push_slot)

lemma rename_transition_sel [simp]:
  "frm (rename_transition k t) = frm t + k" "dest (rename_transition k t) = dest t + k"
  "ttype (rename_transition k t) = ttype t" "inverse_dir (rename_transition k t) = inverse_dir t"
  "letter (rename_transition k t) = letter t"
  by (simp_all add: rename_transition_def letter_def split: option.split)

end
