(* ===== verification/RpqNfaLang.thy ===== *)
theory RpqNfaLang
  imports RpqNfa
begin

text \<open>
  Correctness of the Thompson-style construction of \<open>get_rpq_base_automaton\<close>: the invariants
  of the automata it builds, and their language. The construction always accepts at least the
  language of the expression; it accepts exactly that language when no Kleene star and no
  optional is put on an automaton whose start state has incoming transitions
  (\<open>exact_path\<close>).
\<close>

section \<open>Invariants\<close>

definition states_ok :: "rpq_nfa \<Rightarrow> bool" where
  "states_ok A \<longleftrightarrow> start A = 0 \<and> total_states A \<ge> 1 \<and>
     length (outer_transitions A) \<le> total_states A \<and>
     (\<forall>t \<in> edges A. frm t < total_states A \<and> dest t < total_states A) \<and>
     set (end_states A) \<subseteq> {..<total_states A}"

definition mirrored :: "rpq_nfa \<Rightarrow> bool" where
  "mirrored A \<longleftrightarrow> length (inner_transitions A) = length (outer_transitions A) \<and>
     (\<forall>i. set (slot (outer_transitions A) i) = {t \<in> edges A. frm t = i} \<and>
          distinct (slot (outer_transitions A) i) \<and>
          set (slot (inner_transitions A) i) = {t \<in> edges A. dest t = i} \<and>
          distinct (slot (inner_transitions A) i))"

definition tight :: "rpq_nfa \<Rightarrow> bool" where
  "tight A \<longleftrightarrow> length (outer_transitions A) = total_states A \<and>
     (\<exists>t \<in> edges A. Suc (max (frm t) (dest t)) = total_states A)"

definition base_ok :: "rpq_nfa \<Rightarrow> bool" where
  "base_ok A \<longleftrightarrow> states_ok A \<and> mirrored A \<and> tight A"

definition no_in_start :: "rpq_nfa \<Rightarrow> bool" where
  "no_in_start A \<longleftrightarrow> (\<forall>t \<in> edges A. dest t \<noteq> start A)"

lemma base_okD:
  assumes "base_ok A"
  shows "states_ok A" "mirrored A" "tight A" "length (outer_transitions A) = total_states A"
    "start A = 0"
  using assms by (auto simp: base_ok_def tight_def states_ok_def)

lemma mirrored_add_transition: "mirrored A \<Longrightarrow> mirrored (add_transition A t)"
  unfolding mirrored_def
  by (auto simp: slot_add_transition slot_inner_add_transition)

lemma mirrored_RPQ_NFA: "mirrored RPQ_NFA"
  by (simp add: mirrored_def RPQ_NFA_def slot_def edges_def)

lemma states_ok_RPQ_NFA: "states_ok RPQ_NFA"
  by (simp add: states_ok_def RPQ_NFA_def edges_def)

lemma mirrored_ends [simp]: "mirrored (A\<lparr>end_states := es\<rparr>) = mirrored A"
  by (simp add: mirrored_def edges_def)

lemma edges_ends [simp]: "edges (A\<lparr>end_states := es\<rparr>) = edges A"
  "edges (A\<lparr>start := s\<rparr>) = edges A"
  by (simp_all add: edges_def)

lemma base_ok_ends: "base_ok A \<Longrightarrow> set es \<subseteq> {..<total_states A} \<Longrightarrow> base_ok (A\<lparr>end_states := es\<rparr>)"
  by (auto simp: base_ok_def states_ok_def tight_def)

subsection \<open>Adding a list of transitions\<close>

definition add_list :: "rpq_nfa \<Rightarrow> transition list \<Rightarrow> rpq_nfa" where
  "add_list A ts = foldl add_transition A ts"

lemma add_list_simps [simp]:
  "add_list A [] = A" "add_list A (t # ts) = add_list (add_transition A t) ts"
  by (simp_all add: add_list_def)

lemma add_list_unchanged [simp]:
  "start (add_list A ts) = start A" "end_states (add_list A ts) = end_states A"
  by (induction ts arbitrary: A) simp_all

lemma edges_add_list [simp]: "edges (add_list A ts) = edges A \<union> set ts"
  by (induction ts arbitrary: A) auto

lemma mirrored_add_list: "mirrored A \<Longrightarrow> mirrored (add_list A ts)"
  by (induction ts arbitrary: A) (simp_all add: mirrored_add_transition)

lemma add_list_total:
  "ts \<noteq> [] \<Longrightarrow> total_states (add_list A ts) = length (outer_transitions (add_list A ts))"
proof (induction ts arbitrary: A)
  case (Cons t ts) then show ?case by (cases ts) auto
qed simp

lemma add_list_upper:
  "length (outer_transitions A) \<le> n \<Longrightarrow> \<forall>t \<in> set ts. frm t < n \<and> dest t < n \<Longrightarrow>
   length (outer_transitions (add_list A ts)) \<le> n"
  by (induction ts arbitrary: A) auto

lemma add_list_grow: "length (outer_transitions A) \<le> length (outer_transitions (add_list A ts))"
proof (induction ts arbitrary: A)
  case (Cons t ts)
  have "length (outer_transitions A) \<le> length (outer_transitions (add_transition A t))" by simp
  also have "\<dots> \<le> length (outer_transitions (add_list A (t # ts)))" by (simp only: add_list_simps Cons)
  finally show ?case .
qed simp

lemma add_list_lower:
  "t \<in> set ts \<Longrightarrow> Suc (max (frm t) (dest t)) \<le> length (outer_transitions (add_list A ts))"
proof (induction ts arbitrary: A)
  case (Cons u ts)
  then show ?case using add_list_grow [of "add_transition A t" ts] by auto
qed simp

lemma base_ok_add_list:
  assumes A: "base_ok A" and ts: "\<forall>t \<in> set ts. frm t < total_states A \<and> dest t < total_states A"
  shows "base_ok (add_list A ts)" "total_states (add_list A ts) = total_states A"
proof -
  have len: "length (outer_transitions (add_list A ts)) = total_states A"
    using add_list_upper [of A "total_states A" ts] add_list_grow [of A ts] base_okD [OF A] ts by simp
  show tot: "total_states (add_list A ts) = total_states A"
    using add_list_total [of ts A] len by (cases "ts = []") auto
  show "base_ok (add_list A ts)"
    using A ts tot len by (auto simp: base_ok_def states_ok_def tight_def mirrored_add_list)
qed

lemma foldl_add_transition_map: "foldl (\<lambda>B t. add_transition B (g t)) A ts = add_list A (map g ts)"
  by (induction ts arbitrary: A) simp_all

lemma foldl_add_epsilon:
  "foldl (\<lambda>C e. add_epsilon_transition C e s) A es = add_list A (map (\<lambda>e. Transition e s None False) es)"
  by (induction es arbitrary: A) (simp_all add: add_epsilon_transition_def)

lemma foldl_add_epsilon_start:
  "foldl (\<lambda>C e. add_epsilon_transition C e (start C)) A es =
   add_list A (map (\<lambda>e. Transition e (start A) None False) es)"
  by (induction es arbitrary: A) (simp_all add: add_epsilon_transition_def)

lemma set_foldl_set_insert [simp]:
  "set (foldl (\<lambda>es e. set_insert e es) es0 xs) = set es0 \<union> set xs"
  by (induction xs arbitrary: es0) auto

subsection \<open>Merging in a renamed automaton\<close>

definition renamed_edges :: "nat \<Rightarrow> rpq_nfa \<Rightarrow> transition set" where
  "renamed_edges k C = rename_transition k ` edges C"

lemma rename_and_merge_spec:
  assumes A: "states_ok A" "mirrored A" and C: "base_ok C"
  assumes m: "rename_and_merge A C = (B, C')"
  shows "edges B = edges A \<union> renamed_edges (total_states A) C"
    "start B = start A" "end_states B = end_states A" "mirrored B"
    "total_states B = total_states A + total_states C"
    "length (outer_transitions B) = total_states A + total_states C"
    "start C' = total_states A" "set (end_states C') = (+) (total_states A) ` set (end_states C)"
proof -
  let ?k = "total_states A"
  let ?ts = "map (rename_transition ?k) (concat (outer_transitions C))"
  have B: "B = add_list A ?ts"
    and C': "C' = C\<lparr>end_states := set_of_list (map (\<lambda>e. ?k + e) (end_states C)), start := ?k\<rparr>"
    using m by (auto simp: rename_and_merge_def Let_def foldl_add_transition_map)
  have ts: "set ?ts = renamed_edges ?k C" by (simp add: renamed_edges_def edges_def)
  show "edges B = edges A \<union> renamed_edges ?k C" by (simp add: B ts [symmetric])
  show "start B = start A" "end_states B = end_states A" by (simp_all add: B)
  show "mirrored B" using A by (simp add: B mirrored_add_list)
  have Cb: "\<forall>t \<in> edges C. frm t < total_states C \<and> dest t < total_states C"
    using C by (simp add: base_ok_def states_ok_def)
  obtain t where t: "t \<in> edges C" "Suc (max (frm t) (dest t)) = total_states C"
    using C by (auto simp: base_ok_def tight_def)
  then have mem: "rename_transition ?k t \<in> set ?ts" by (simp only: ts renamed_edges_def imageI)
  then have lower: "?k + total_states C \<le> length (outer_transitions B)"
    using add_list_lower [of "rename_transition ?k t" ?ts A] t(2) by (simp add: B)
  have upper: "length (outer_transitions B) \<le> ?k + total_states C"
    unfolding B
  proof (rule add_list_upper)
    show "length (outer_transitions A) \<le> ?k + total_states C"
      using A by (simp add: states_ok_def)
    show "\<forall>t \<in> set ?ts. frm t < ?k + total_states C \<and> dest t < ?k + total_states C"
      unfolding ts using Cb by (auto simp: renamed_edges_def)
  qed
  from lower upper show len: "length (outer_transitions B) = ?k + total_states C" by simp
  have "?ts \<noteq> []" using mem by (metis empty_iff empty_set)
  then show "total_states B = ?k + total_states C"
    using add_list_total [of ?ts A] len by (simp add: B)
  show "start C' = ?k" "set (end_states C') = (+) ?k ` set (end_states C)"
    by (simp_all add: C')
qed

section \<open>Runs in the merged automaton\<close>

lemma nfa_path_rename: "nfa_path E p w q \<Longrightarrow> nfa_path (rename_transition k ` E) (p + k) w (q + k)"
  by (rule nfa_path_map)
     (use nfa_path_single [of "rename_transition k t" "rename_transition k ` E" for t] in auto)

lemma nfa_path_unrename:
  assumes "nfa_path (rename_transition k ` E) p' w q'" "p' = p + k"
  shows "\<exists>q. q' = q + k \<and> nfa_path E p w q"
  using assms
proof (induction arbitrary: p rule: nfa_path_induct)
  case (step t w r)
  then obtain u where u: "u \<in> E" "t = rename_transition k u" by blast
  with step obtain q where "r = q + k" "nfa_path E (dest u) w q" by auto
  with u step.prems show ?case using nfa_path_step [of u E w q] by auto
qed auto

text \<open>Two edge sets on disjoint states, joined by epsilon transitions from \<open>S\<close> to state \<open>k\<close>.\<close>

lemma nfa_path_bridge:
  assumes "nfa_path (E1 \<union> E2 \<union> (\<lambda>s. Transition s k None False) ` S) p w q"
    and E1: "\<forall>t \<in> E1. frm t < k \<and> dest t < k" and E2: "\<forall>t \<in> E2. frm t \<ge> k \<and> dest t \<ge> k"
    and S: "\<forall>s \<in> S. s < k"
  shows "(k \<le> p \<longrightarrow> k \<le> q \<and> nfa_path E2 p w q) \<and>
    (p < k \<longrightarrow> (q < k \<and> nfa_path E1 p w q) \<or>
       (k \<le> q \<and> (\<exists>u v s. w = u @ v \<and> s \<in> S \<and> nfa_path E1 p u s \<and> nfa_path E2 k v q)))"
  using assms(1)
proof (induction rule: nfa_path_induct)
  case (step t w r)
  from step.hyps(1) consider "t \<in> E1" | "t \<in> E2" | s where "s \<in> S" "t = Transition s k None False" by auto
  then show ?case
  proof cases
    case 1
    then have b: "frm t < k" "dest t < k" using E1 by auto
    with step.IH consider "r < k" "nfa_path E1 (dest t) w r"
      | u v s where "k \<le> r" "w = u @ v" "s \<in> S" "nfa_path E1 (dest t) u s" "nfa_path E2 k v r" by auto
    then show ?thesis
    proof cases
      case 1 then show ?thesis using b \<open>t \<in> E1\<close> by (auto intro: nfa_path_step)
    next
      case 2
      then have "nfa_path E1 (frm t) (letter t @ u) s" using \<open>t \<in> E1\<close> by (auto intro: nfa_path_step)
      with 2 b show ?thesis by (metis append.assoc not_le)
    qed
  next
    case 2
    then show ?thesis using step.IH E2 by (auto intro: nfa_path_step)
  next
    case 3
    have "nfa_path E1 s [] s" "w = [] @ w" by auto
    with 3 step.IH S show ?thesis by (simp add: letter_def) (metis append_Nil nfa_refl not_le)
  qed
qed auto

lemma nfa_lang_bridgeI:
  assumes "nfa_path E1 p u s" "s \<in> S" "nfa_path E2 k v q"
  shows "nfa_path (E1 \<union> E2 \<union> (\<lambda>s. Transition s k None False) ` S) p (u @ v) q" (is "nfa_path ?E _ _ _")
proof -
  have "nfa_path ?E p u s" using assms(1) by (rule nfa_path_mono) auto
  moreover have "nfa_path ?E s [] k" using assms(2) by (intro nfa_path_single_eps [of _ _ False]) auto
  moreover have "nfa_path ?E k v q" using assms(3) by (rule nfa_path_mono) auto
  ultimately show ?thesis by (metis append_Nil nfa_path_append)
qed

lemma no_in_start_trivial:
  assumes "nfa_path (edges A) p w (start A)" "no_in_start A" shows "w = [] \<and> p = start A"
proof -
  have "q = start A \<longrightarrow> w = [] \<and> p = q" if "nfa_path (edges A) p w q" for q
    using that
  proof (induction rule: nfa_path_induct)
    case (step t w r)
    then show ?case using assms(2) by (auto simp: no_in_start_def)
  qed simp
  with assms(1) show ?thesis by blast
qed

section \<open>The construction steps\<close>

subsection \<open>Alternatives\<close>

lemma alternatives_step_spec:
  assumes A: "states_ok A" "mirrored A" "no_in_start A" and C: "base_ok C"
  shows "base_ok (alternatives_step A C)" "no_in_start (alternatives_step A C)"
    "nfa_lang (alternatives_step A C) = nfa_lang A \<union> nfa_lang C"
    "total_states (alternatives_step A C) = total_states A + total_states C"
proof -
  let ?k = "total_states A" and ?B = "alternatives_step A C"
  obtain M C' where m: "rename_and_merge A C = (M, C')" by fastforce
  note M = rename_and_merge_spec [OF A(1,2) C m]
  let ?E2 = "renamed_edges ?k C"
  have s0: "start A = 0" "start C = 0" "1 \<le> ?k" "1 \<le> total_states C"
    using A C by (auto simp: states_ok_def base_ok_def)
  have B: "edges ?B = edges A \<union> ?E2 \<union> (\<lambda>s. Transition s ?k None False) ` {0}"
    "start ?B = 0" "set (end_states ?B) = set (end_states A) \<union> (+) ?k ` set (end_states C)"
    "mirrored ?B"
    using s0 M by (auto simp: alternatives_step_def m Let_def add_epsilon_transition_def mirrored_add_transition)
  have tot: "total_states ?B = ?k + total_states C"
    "length (outer_transitions ?B) = ?k + total_states C"
    using s0 M by (simp_all add: alternatives_step_def m Let_def add_epsilon_transition_def)
  then show "total_states ?B = ?k + total_states C" by simp
  have E1: "\<forall>t \<in> edges A. frm t < ?k \<and> dest t < ?k" and fA: "set (end_states A) \<subseteq> {..<?k}"
    using A by (auto simp: states_ok_def)
  have Cb: "\<forall>t \<in> edges C. frm t < total_states C \<and> dest t < total_states C"
    "set (end_states C) \<subseteq> {..<total_states C}" using C by (auto simp: base_ok_def states_ok_def)
  have E2: "\<forall>t \<in> ?E2. ?k \<le> frm t \<and> ?k \<le> dest t \<and> frm t < ?k + total_states C \<and> dest t < ?k + total_states C"
    using Cb by (auto simp: renamed_edges_def)
  obtain t where t: "t \<in> edges C" "Suc (max (frm t) (dest t)) = total_states C"
    using C by (auto simp: base_ok_def tight_def)
  have "rename_transition ?k t \<in> edges ?B" "Suc (max (frm (rename_transition ?k t)) (dest (rename_transition ?k t))) = ?k + total_states C"
    using t by (auto simp: B renamed_edges_def)
  then have "tight ?B" using tot unfolding tight_def by metis
  moreover have "states_ok ?B"
    using B tot s0 E1 E2 fA Cb by (fastforce simp: states_ok_def)
  ultimately show "base_ok ?B" using B by (simp add: base_ok_def)
  show "no_in_start ?B" using A(3) E2 B s0 by (fastforce simp: no_in_start_def)
  show "nfa_lang ?B = nfa_lang A \<union> nfa_lang C"
  proof (intro equalityI subsetI)
    fix w assume "w \<in> nfa_lang ?B"
    then obtain f where f: "f \<in> set (end_states ?B)" "nfa_path (edges ?B) 0 w f"
      by (auto simp: nfa_lang_def B)
    from nfa_path_bridge [OF f(2) [unfolded B(1)]] E1 E2 s0
    consider "f < ?k" "nfa_path (edges A) 0 w f"
      | u v where "?k \<le> f" "w = u @ v" "nfa_path (edges A) 0 u 0" "nfa_path ?E2 ?k v f"
      by auto
    then show "w \<in> nfa_lang A \<union> nfa_lang C"
    proof cases
      case 1
      then have "f \<in> set (end_states A)" using f(1) B by auto
      with 1 show ?thesis by (auto simp: nfa_lang_def s0)
    next
      case 2
      then have u: "u = []" using no_in_start_trivial [of A 0 u] A(3) s0 by simp
      from 2(4) obtain g where "f = g + ?k" "nfa_path (edges C) 0 v g"
        using nfa_path_unrename [of ?k "edges C" ?k v f 0] by (auto simp: renamed_edges_def)
      moreover from this 2 f(1) fA have "g \<in> set (end_states C)" by (auto simp: B)
      ultimately show ?thesis using 2 u by (auto simp: nfa_lang_def s0)
    qed
  next
    fix w assume "w \<in> nfa_lang A \<union> nfa_lang C"
    then show "w \<in> nfa_lang ?B"
    proof
      assume "w \<in> nfa_lang A"
      then show ?thesis using s0 by (auto simp: nfa_lang_def B intro: nfa_path_mono)
    next
      assume "w \<in> nfa_lang C"
      then obtain g where g: "g \<in> set (end_states C)" "nfa_path (edges C) 0 w g"
        using s0 by (auto simp: nfa_lang_def)
      then have "nfa_path ?E2 ?k w (g + ?k)"
        using nfa_path_rename [OF g(2), of ?k] by (simp add: renamed_edges_def)
      from nfa_lang_bridgeI [of "edges A" 0 "[]" 0 "{0}" ?E2 ?k w "g + ?k"] this
      have "nfa_path (edges ?B) 0 w (g + ?k)" by (simp add: B)
      with g show ?thesis by (auto simp: nfa_lang_def B add.commute intro!: bexI [of _ "g + ?k"])
    qed
  qed
qed

subsection \<open>Sequence\<close>

lemma sequence_step_spec:
  assumes A: "base_ok A" and C: "base_ok C"
  shows "base_ok (sequence_step A C)"
    "nfa_lang (sequence_step A C) = lconc (nfa_lang A) (nfa_lang C)"
    "total_states (sequence_step A C) = total_states A + total_states C"
    "no_in_start A \<Longrightarrow> no_in_start (sequence_step A C)"
proof -
  let ?k = "total_states A" and ?B = "sequence_step A C" and ?S = "set (end_states A)"
  obtain M C' where m: "rename_and_merge A C = (M, C')" by fastforce
  note M = rename_and_merge_spec [OF base_okD(1,2) [OF A] C m]
  let ?E2 = "renamed_edges ?k C"
  have s0: "start A = 0" "start C = 0" "1 \<le> ?k" "1 \<le> total_states C"
    using A C by (auto simp: states_ok_def base_ok_def)
  have E1: "\<forall>t \<in> edges A. frm t < ?k \<and> dest t < ?k" and fA: "?S \<subseteq> {..<?k}"
    using A by (auto simp: states_ok_def base_ok_def)
  have Cb: "\<forall>t \<in> edges C. frm t < total_states C \<and> dest t < total_states C"
    "set (end_states C) \<subseteq> {..<total_states C}" using C by (auto simp: base_ok_def states_ok_def)
  have E2: "\<forall>t \<in> ?E2. ?k \<le> frm t \<and> ?k \<le> dest t \<and> frm t < ?k + total_states C \<and> dest t < ?k + total_states C"
    using Cb by (auto simp: renamed_edges_def)
  obtain t where t: "t \<in> edges C" "Suc (max (frm t) (dest t)) = total_states C"
    using C by (auto simp: base_ok_def tight_def)
  let ?eps = "map (\<lambda>e. Transition e ?k None False) (end_states A)"
  have Mok: "base_ok M"
  proof -
    have "rename_transition ?k t \<in> edges M" "Suc (max (frm (rename_transition ?k t)) (dest (rename_transition ?k t))) = ?k + total_states C"
      using t by (auto simp: M renamed_edges_def)
    then have "tight M" using M(5,6) unfolding tight_def by metis
    moreover have "states_ok M" using M s0 E1 E2 fA by (fastforce simp: states_ok_def)
    ultimately show ?thesis using M by (simp add: base_ok_def)
  qed
  have eps: "\<forall>t \<in> set ?eps. frm t < total_states M \<and> dest t < total_states M"
    using fA s0 M by auto
  have B': "?B = (add_list M ?eps)\<lparr>end_states := end_states C'\<rparr>"
    by (simp add: sequence_step_def m foldl_add_epsilon M)
  note N = base_ok_add_list [OF Mok eps]
  show "base_ok ?B" unfolding B'
    by (rule base_ok_ends [OF N(1)]) (use N(2) M Cb in auto)
  show "total_states ?B = ?k + total_states C" by (simp add: B' N(2) M)
  have B: "edges ?B = edges A \<union> ?E2 \<union> (\<lambda>s. Transition s ?k None False) ` ?S"
    "start ?B = 0" "set (end_states ?B) = (+) ?k ` set (end_states C)"
    using s0 M by (auto simp: B')
  show "no_in_start A \<Longrightarrow> no_in_start ?B" using E2 B s0 by (fastforce simp: no_in_start_def)
  show "nfa_lang ?B = lconc (nfa_lang A) (nfa_lang C)"
  proof (intro equalityI subsetI)
    fix w assume "w \<in> nfa_lang ?B"
    then obtain g where g: "g \<in> set (end_states C)" "nfa_path (edges ?B) 0 w (?k + g)"
      by (auto simp: nfa_lang_def B)
    from nfa_path_bridge [OF g(2) [unfolded B(1)]] E1 E2 fA s0
    obtain u v s where w: "w = u @ v" "s \<in> ?S" "nfa_path (edges A) 0 u s" "nfa_path ?E2 ?k v (?k + g)"
      by fastforce
    then have "nfa_path (edges C) 0 v g"
      using nfa_path_unrename [of ?k "edges C" ?k v "?k + g" 0] by (auto simp: renamed_edges_def)
    with w g show "w \<in> lconc (nfa_lang A) (nfa_lang C)" by (auto simp: nfa_lang_def s0 intro!: lconcI)
  next
    fix w assume "w \<in> lconc (nfa_lang A) (nfa_lang C)"
    then obtain u v s g where w: "w = u @ v" "s \<in> ?S" "nfa_path (edges A) 0 u s"
      "g \<in> set (end_states C)" "nfa_path (edges C) 0 v g"
      by (auto simp: nfa_lang_def s0 elim!: lconcE)
    then have "nfa_path ?E2 ?k v (?k + g)"
      using nfa_path_rename [OF w(5), of ?k] by (simp add: renamed_edges_def add.commute)
    with w have "nfa_path (edges ?B) 0 w (?k + g)"
      unfolding B by (auto intro: nfa_lang_bridgeI)
    with w show "w \<in> nfa_lang ?B" by (auto simp: nfa_lang_def B)
  qed
qed

subsection \<open>Kleene star and optional\<close>

definition eps_to :: "nat \<Rightarrow> nat set \<Rightarrow> transition set" where
  "eps_to k S = (\<lambda>s. Transition s k None False) ` S"

text \<open>A run of the looped automaton is a run of the automaton, or a piece that ends in a final
  state, full rounds, and a last piece.\<close>

lemma nfa_path_loop:
  assumes "nfa_path (E \<union> eps_to k S) p w q"
  shows "nfa_path E p w q \<or>
    (\<exists>u z v s. w = u @ z @ v \<and> s \<in> S \<and> nfa_path E p u s \<and>
       z \<in> kstar {x. \<exists>s \<in> S. nfa_path E k x s} \<and> nfa_path E k v q)"
  (is "_ \<or> ?R p w q")
  using assms
proof (induction rule: nfa_path_induct)
  case (step t w r)
  let ?K = "kstar {x. \<exists>s \<in> S. nfa_path E k x s}"
  show ?case
  proof (cases "t \<in> E")
    case True
    from step.IH show ?thesis
    proof
      assume "nfa_path E (dest t) w r"
      with True show ?thesis by (auto intro: nfa_path_step)
    next
      assume "?R (dest t) w r"
      then obtain u z v s where "w = u @ z @ v" "s \<in> S" "nfa_path E (dest t) u s" "z \<in> ?K" "nfa_path E k v r"
        by blast
      then have "letter t @ w = (letter t @ u) @ z @ v" "nfa_path E (frm t) (letter t @ u) s"
        using True by (auto intro: nfa_path_step)
      with \<open>s \<in> S\<close> \<open>z \<in> ?K\<close> \<open>nfa_path E k v r\<close> show ?thesis by blast
    qed
  next
    case False
    with step.hyps(1) obtain s where s: "s \<in> S" "t = Transition s k None False"
      by (auto simp: eps_to_def)
    from step.IH show ?thesis
    proof
      assume "nfa_path E (dest t) w r"
      then have "letter t @ w = [] @ [] @ w" "nfa_path E k w r" "nfa_path E (frm t) [] s" "[] \<in> ?K"
        using s by (auto simp: letter_def)
      with s(1) show ?thesis by blast
    next
      assume "?R (dest t) w r"
      then obtain u z v s' where w: "w = u @ z @ v" "s' \<in> S" "nfa_path E k u s'" "z \<in> ?K" "nfa_path E k v r"
        using s by auto
      then have "u @ z \<in> ?K" by (auto intro!: kstar_app)
      moreover have "letter t @ w = [] @ (u @ z) @ v" "nfa_path E (frm t) [] s"
        using w s by (auto simp: letter_def)
      ultimately show ?thesis using s(1) w(5) by blast
    qed
  qed
qed auto

lemma nfa_path_loop_kstar:
  assumes "w \<in> kstar {x. \<exists>s \<in> S. nfa_path E k x s}"
  shows "nfa_path (E \<union> eps_to k S) k w k"
  using assms
proof (induction rule: kstar.induct)
  case (kstar_app u v)
  then obtain s where s: "s \<in> S" "nfa_path E k u s" by blast
  have "nfa_path (E \<union> eps_to k S) k u s" using s(2) by (rule nfa_path_mono) auto
  moreover have "nfa_path (E \<union> eps_to k S) s [] k"
    using s(1) by (intro nfa_path_single_eps [of _ _ False]) (auto simp: eps_to_def)
  ultimately show ?case using kstar_app.IH by (metis append_Nil nfa_path_append)
qed simp

lemma nfa_lang_as_set:
  "start A = 0 \<Longrightarrow> nfa_lang A = {x. \<exists>s \<in> set (end_states A). nfa_path (edges A) 0 x s}"
  by (simp add: nfa_lang_def)

lemma kleene_loop_spec:
  assumes A: "base_ok A" and n: "total_states A \<noteq> 2"
  shows "base_ok (kleene_automaton A)" "kstar (nfa_lang A) \<subseteq> nfa_lang (kleene_automaton A)"
    "no_in_start A \<Longrightarrow> nfa_lang (kleene_automaton A) = kstar (nfa_lang A)"
    "total_states (kleene_automaton A) = total_states A"
proof -
  let ?eps = "map (\<lambda>e. Transition e (start A) None False) (end_states A)"
  let ?B = "kleene_automaton A" and ?S = "set (end_states A)"
  have ok: "start A = 0" "\<forall>t \<in> set ?eps. frm t < total_states A \<and> dest t < total_states A"
    using A by (auto simp: base_ok_def states_ok_def)
  note N = base_ok_add_list [OF A ok(2)]
  have B': "?B = (add_list A ?eps)\<lparr>end_states := set_insert 0 (end_states A)\<rparr>"
    using n ok(1) by (simp add: kleene_automaton_def foldl_add_epsilon_start Let_def)
  show "base_ok ?B" unfolding B'
    by (rule base_ok_ends [OF N(1)]) (use N A in \<open>auto simp: base_ok_def states_ok_def\<close>)
  show "total_states ?B = total_states A" by (simp add: B' N)
  have B: "edges ?B = edges A \<union> eps_to 0 ?S" "start ?B = 0" "set (end_states ?B) = insert 0 ?S"
    using ok(1) by (auto simp: B' eps_to_def)
  note L = nfa_lang_as_set [OF ok(1)]
  show sup: "kstar (nfa_lang A) \<subseteq> nfa_lang ?B"
    using nfa_path_loop_kstar [of _ ?S "edges A" 0] by (auto simp: L) (auto simp: nfa_lang_def B)
  assume nis: "no_in_start A"
  have "nfa_lang ?B \<subseteq> kstar (nfa_lang A)"
  proof
    fix w assume "w \<in> nfa_lang ?B"
    then obtain f where f: "f = 0 \<or> f \<in> ?S" "nfa_path (edges A \<union> eps_to 0 ?S) 0 w f"
      by (auto simp: nfa_lang_def B)
    have fin: "v \<in> kstar (nfa_lang A)" if "nfa_path (edges A) 0 v f" for v
      using f(1)
    proof
      assume "f = 0"
      with that no_in_start_trivial [of A 0 v] nis ok(1) show ?thesis by simp
    next
      assume "f \<in> ?S" with that show ?thesis by (auto simp: L intro: kstar_incl)
    qed
    from nfa_path_loop [OF f(2)] show "w \<in> kstar (nfa_lang A)"
    proof
      assume "nfa_path (edges A) 0 w f" then show ?thesis by (rule fin)
    next
      assume "\<exists>u z v s. w = u @ z @ v \<and> s \<in> ?S \<and> nfa_path (edges A) 0 u s \<and>
        z \<in> kstar {x. \<exists>s \<in> ?S. nfa_path (edges A) 0 x s} \<and> nfa_path (edges A) 0 v f"
      then obtain u z v s where "w = u @ z @ v" "s \<in> ?S" "nfa_path (edges A) 0 u s"
        "z \<in> kstar (nfa_lang A)" "nfa_path (edges A) 0 v f" unfolding L [symmetric] by blast
      moreover from this have "u \<in> nfa_lang A" by (auto simp: L)
      ultimately show ?thesis by (simp add: kstar_append kstar_incl fin)
    qed
  qed
  with sup show "nfa_lang ?B = kstar (nfa_lang A)" by blast
qed

text \<open>The heuristic of \<open>PathKleeneStar::get_rpq_base_automaton\<close>: an automaton of two states is
  expected to be a single transition from state 0 to state 1.\<close>

definition atom_like :: "rpq_nfa \<Rightarrow> bool" where
  "atom_like A \<longleftrightarrow> start A = 0 \<and> end_states A = [1] \<and>
     (\<exists>a d. slot (outer_transitions A) 0 = [Transition 0 1 (Some a) d] \<and>
            edges A = {Transition 0 1 (Some a) d})"

lemma nfa_path_self_loop:
  assumes "nfa_path {Transition 0 0 (Some a) d} p w q" "p = 0"
  shows "q = 0 \<and> w \<in> kstar {[(a, d)]}"
  using assms
proof (induction rule: nfa_path_induct)
  case (step t w r)
  then have "[(a, d)] @ w \<in> kstar {[(a, d)]}" by (intro kstar_app) auto
  with step show ?case by (auto simp: letter_def)
qed auto

lemma nfa_path_self_loop_kstar:
  "w \<in> kstar {[(a, d)]} \<Longrightarrow> nfa_path {Transition 0 0 (Some a) d} 0 w 0"
  by (induction rule: kstar.induct) (auto intro: nfa_sym)

lemma nfa_path_from_sink:
  assumes "nfa_path E p w q" "\<forall>t \<in> E. frm t \<noteq> p" shows "w = [] \<and> q = p"
  using assms(1) by (cases rule: nfa_path_cases_step) (use assms(2) in auto)

lemma atom_like_lang:
  assumes "start A = 0" "end_states A = [1]" "edges A = {Transition 0 1 (Some a) d}"
  shows "nfa_lang A = {[(a, d)]}"
proof (intro equalityI subsetI)
  let ?t = "Transition 0 1 (Some a) d"
  fix w assume "w \<in> nfa_lang A"
  then have "nfa_path {?t} 0 w 1" using assms by (simp add: nfa_lang_def)
  then show "w \<in> {[(a, d)]}"
  proof (cases rule: nfa_path_cases_step)
    case (step t v)
    then have "nfa_path {?t} 1 v 1" by simp
    then have "v = []" using nfa_path_from_sink [of "{?t}" 1 v 1] by simp
    with step show ?thesis by (simp add: letter_def)
  qed simp
qed (use assms nfa_path_single [of "Transition 0 1 (Some a) d" "{Transition 0 1 (Some a) d}"]
     in \<open>auto simp: nfa_lang_def letter_def\<close>)

lemma kleene_atom_spec:
  assumes n: "total_states A = 2" and A: "atom_like A"
  shows "base_ok (kleene_automaton A)" "nfa_lang (kleene_automaton A) = kstar (nfa_lang A)"
proof -
  obtain a d where a: "slot (outer_transitions A) 0 = [Transition 0 1 (Some a) d]"
    "edges A = {Transition 0 1 (Some a) d}" "start A = 0" "end_states A = [1]"
    using A by (auto simp: atom_like_def)
  let ?t = "Transition 0 0 (Some a) d"
  let ?B = "add_transition RPQ_NFA ?t"
  have B: "kleene_automaton A = ?B\<lparr>end_states := set_insert 0 []\<rparr>"
    by (simp add: kleene_automaton_def n a Let_def RPQ_NFA_def)
  have e: "edges RPQ_NFA = {}" by (simp add: RPQ_NFA_def edges_def)
  have "base_ok ?B"
    unfolding base_ok_def
    by (auto simp: states_ok_def tight_def e mirrored_RPQ_NFA mirrored_add_transition)
       (simp_all add: RPQ_NFA_def)
  then show "base_ok (kleene_automaton A)" unfolding B by (rule base_ok_ends) simp
  have "nfa_lang (kleene_automaton A) = {w. nfa_path {?t} 0 w 0}"
    by (simp add: nfa_lang_def B e) (simp add: RPQ_NFA_def)
  also have "\<dots> = kstar {[(a, d)]}"
    using nfa_path_self_loop [of a d 0] nfa_path_self_loop_kstar [of _ a d] by blast
  finally show "nfa_lang (kleene_automaton A) = kstar (nfa_lang A)"
    by (simp add: atom_like_lang [OF a(3,4,2)])
qed

lemma optional_spec:
  assumes A: "base_ok A"
  shows "base_ok (optional_automaton A)" "insert [] (nfa_lang A) \<subseteq> nfa_lang (optional_automaton A)"
    "no_in_start A \<Longrightarrow> nfa_lang (optional_automaton A) = insert [] (nfa_lang A)"
    "no_in_start A \<Longrightarrow> no_in_start (optional_automaton A)"
    "total_states (optional_automaton A) = total_states A"
proof -
  show "base_ok (optional_automaton A)" unfolding optional_automaton_def
    by (rule base_ok_ends [OF A]) (use A in \<open>auto simp: base_ok_def states_ok_def\<close>)
  show "insert [] (nfa_lang A) \<subseteq> nfa_lang (optional_automaton A)"
    by (auto simp: nfa_lang_def optional_automaton_def)
  then show "no_in_start A \<Longrightarrow> nfa_lang (optional_automaton A) = insert [] (nfa_lang A)"
    using no_in_start_trivial [of A "start A"]
    by (auto simp: nfa_lang_def optional_automaton_def)
  show "no_in_start A \<Longrightarrow> no_in_start (optional_automaton A)"
    by (simp add: no_in_start_def optional_automaton_def)
  show "total_states (optional_automaton A) = total_states A"
    by (simp add: optional_automaton_def)
qed

end
