(* ===== verification/Thompson.thy ===== *)
theory Thompson
  imports RpqNfaLang
begin

text \<open>
  \<open>get_rpq_base_automaton\<close> on whole path expressions: it succeeds on every well-formed
  expression, the automaton is well formed, accepts at least the expression's language, and
  exactly that language for the expressions of \<open>exact_path\<close>. The 2-state heuristic of
  \<open>PathKleeneStar\<close> is sound because of \<open>PathDenull\<close>: a starred expression is
  not nullable, and a non-nullable expression with two states is one edge.
\<close>

section \<open>Syntactic classes\<close>

fun wf_path :: "'c path \<Rightarrow> bool" where
  "wf_path (PathAtom a dir cs) = True"
| "wf_path (PathAlternatives ps) = (ps \<noteq> [] \<and> list_all wf_path ps)"
| "wf_path (PathSequence ps) = (ps \<noteq> [] \<and> list_all wf_path ps)"
| "wf_path (PathKleeneStar p) = (wf_path p \<and> \<not> nullable p)"
| "wf_path (PathOptional p) = wf_path p"
| "wf_path (PathCheck cs) = False"

text \<open>The start state of the automaton of the expression may be entered again.\<close>

fun start_loops :: "'c path \<Rightarrow> bool" where
  "start_loops (PathAtom a dir cs) = False"
| "start_loops (PathAlternatives ps) = False"
| "start_loops (PathSequence ps) = (case ps of [] \<Rightarrow> False | p # _ \<Rightarrow> start_loops p)"
| "start_loops (PathKleeneStar p) = True"
| "start_loops (PathOptional p) = start_loops p"
| "start_loops (PathCheck cs) = False"

fun exact_path :: "'c path \<Rightarrow> bool" where
  "exact_path (PathAtom a dir cs) = True"
| "exact_path (PathAlternatives ps) = list_all exact_path ps"
| "exact_path (PathSequence ps) = list_all exact_path ps"
| "exact_path (PathKleeneStar p) = (exact_path p \<and> \<not> start_loops p)"
| "exact_path (PathOptional p) = (exact_path p \<and> \<not> start_loops p)"
| "exact_path (PathCheck cs) = False"

text \<open>
  No optional on a nullable expression (the visitor avoids it for the suffix \<open>?\<close>, not for
  \<open>{m,n}\<close>).
\<close>

fun tidy_path :: "'c path \<Rightarrow> bool" where
  "tidy_path (PathAtom a dir cs) = True"
| "tidy_path (PathAlternatives ps) = list_all tidy_path ps"
| "tidy_path (PathSequence ps) = list_all tidy_path ps"
| "tidy_path (PathKleeneStar p) = tidy_path p"
| "tidy_path (PathOptional p) = (tidy_path p \<and> \<not> nullable p)"
| "tidy_path (PathCheck cs) = True"

text \<open>\<open>PathDenull\<close> does what its name says on such expressions.\<close>

lemma denull_not_nullable: "wf_path p \<Longrightarrow> tidy_path p \<Longrightarrow> \<not> nullable (denull p)"
  by (induction p rule: denull.induct) (auto simp: list_all_iff list_ex_iff)

lemma wf_denull: "wf_path p \<Longrightarrow> wf_path (denull p)"
  by (induction p rule: denull.induct) (auto simp: list_all_iff)

lemma tidy_denull: "tidy_path p \<Longrightarrow> tidy_path (denull p)"
  by (induction p rule: denull.induct) (auto simp: list_all_iff)

lemma wf_mk_kleene_star [wf_intros]:
  "wf_path p \<Longrightarrow> tidy_path p \<Longrightarrow> wf_path (mk_kleene_star p) \<and> tidy_path (mk_kleene_star p)"
  by (simp add: mk_kleene_star_def wf_denull tidy_denull denull_not_nullable)

text \<open>The visitor builds such expressions, when \<open>{m,n}\<close> is not \<open>{0,0}\<close> and makes no copy optional of a nullable expression.\<close>

fun suffix_ok :: "'c path \<Rightarrow> path_suffix option \<Rightarrow> bool" where
  "suffix_ok p (Some (SuffixRange mn mx)) = (0 < max mn mx \<and> (mn < mx \<longrightarrow> \<not> nullable p))"
| "suffix_ok p s = True"

lemma wf_apply_suffix:
  "wf_path p \<Longrightarrow> tidy_path p \<Longrightarrow> suffix_ok p s \<Longrightarrow> wf_path (apply_suffix p s) \<and> tidy_path (apply_suffix p s)"
  using wf_mk_kleene_star [of p] by (cases "(p, s)" rule: apply_suffix.cases) (auto simp: list_all_iff)

fun ctx_ok :: "bool \<Rightarrow> path_atom_ctx \<Rightarrow> bool" where
  "ctx_ok d (PathAtomSimple hat type suffix) = True"
| "ctx_ok d (PathAtomAlternatives hat alts suffix) =
     (let dir = (hat \<noteq> d) in
      alts \<noteq> [] \<and> (\<forall>atoms \<in> set alts. atoms \<noteq> [] \<and> (\<forall>a \<in> set atoms. ctx_ok dir a)) \<and>
      suffix_ok (visit_alternatives_node
          (map (\<lambda>atoms. visit_sequence_node dir (map (visit_path_atom dir) atoms)) alts) :: unit path) suffix)"

section \<open>One automaton\<close>

text \<open>What the induction proves of the automaton of one expression.\<close>

definition base_spec :: "'c path \<Rightarrow> rpq_nfa \<Rightarrow> bool" where
  "base_spec p A \<longleftrightarrow> base_ok A \<and> path_lang p \<subseteq> nfa_lang A \<and>
     (\<not> start_loops p \<longrightarrow> no_in_start A) \<and> (exact_path p \<longrightarrow> nfa_lang A = path_lang p) \<and>
     (\<not> nullable p \<longrightarrow> 2 \<le> total_states A \<and> (total_states A = 2 \<longrightarrow> atom_like A))"

lemma base_specI:
  assumes "base_ok A" "path_lang p \<subseteq> nfa_lang A" "\<not> start_loops p \<Longrightarrow> no_in_start A"
    "exact_path p \<Longrightarrow> nfa_lang A = path_lang p"
    "\<not> nullable p \<Longrightarrow> 2 \<le> total_states A \<and> (total_states A = 2 \<longrightarrow> atom_like A)"
  shows "base_spec p A"
  using assms by (auto simp: base_spec_def)

lemma base_total: "base_ok A \<Longrightarrow> 1 \<le> total_states A"
  by (simp add: base_ok_def states_ok_def)

lemma atom_base_spec: "base_spec (PathAtom a dir cs) (atom_automaton a dir)"
proof -
  let ?t = "Transition 0 1 (Some a) dir" and ?A = "atom_automaton a dir"
  have A: "?A = add_transition (RPQ_NFA\<lparr>end_states := [1]\<rparr>) ?t"
    by (simp add: atom_automaton_def set_insert_def insort_insert_key_def)
  have e: "edges RPQ_NFA = {}" by (simp add: RPQ_NFA_def edges_def)
  have E: "edges ?A = {?t}" "start ?A = 0" "end_states ?A = [1]" "total_states ?A = 2"
    by (simp_all add: A e) (simp_all add: RPQ_NFA_def)
  have "slot (outer_transitions ?A) 0 = [?t]"
    by (simp add: A slot_add_transition) (simp add: RPQ_NFA_def slot_def)
  then have "atom_like ?A" using E by (auto simp: atom_like_def)
  moreover have "base_ok ?A"
  proof -
    have "mirrored ?A" unfolding A
      by (intro mirrored_add_transition) (simp add: mirrored_RPQ_NFA)
    moreover have "length (outer_transitions ?A) = 2" by (simp add: A) (simp add: RPQ_NFA_def)
    ultimately show ?thesis by (simp add: base_ok_def states_ok_def tight_def E)
  qed
  moreover have "nfa_lang ?A = {[(a, dir)]}" using atom_like_lang E(1-3) by blast
  ultimately show ?thesis by (simp add: base_spec_def no_in_start_def E)
qed

section \<open>Lists of automata\<close>

lemma alternatives_automaton_spec:
  assumes "states_ok A" "mirrored A" "no_in_start A" "\<forall>C \<in> set Cs. base_ok C"
  shows "\<exists>B. alternatives_automaton A (map Inr Cs) = Inr B \<and> states_ok B \<and> mirrored B \<and> no_in_start B \<and>
    (Cs \<noteq> [] \<longrightarrow> base_ok B) \<and> nfa_lang B = nfa_lang A \<union> (\<Union>C \<in> set Cs. nfa_lang C) \<and>
    total_states B = total_states A + sum_list (map total_states Cs)"
  using assms
proof (induction Cs arbitrary: A)
  case (Cons C Cs)
  then have C: "base_ok C" by simp
  note S = alternatives_step_spec [OF Cons.prems(1-3) C]
  show ?case
    using Cons.IH [OF base_okD(1,2) [OF S(1)] S(2)] Cons.prems(4) S by (auto simp: Un_assoc)
qed simp

lemma sequence_loop_spec:
  assumes "base_ok A" "\<forall>C \<in> set Cs. base_ok C"
  shows "\<exists>B. sequence_loop A (map Inr Cs) = Inr B \<and> base_ok B \<and>
    (no_in_start A \<longrightarrow> no_in_start B) \<and> nfa_lang B = lconc (nfa_lang A) (lseq (map nfa_lang Cs)) \<and>
    total_states B = total_states A + sum_list (map total_states Cs)"
  using assms
proof (induction Cs arbitrary: A)
  case (Cons C Cs)
  then have C: "base_ok C" by simp
  note S = sequence_step_spec [OF Cons.prems(1) C]
  show ?case
    using Cons.IH [OF S(1)] Cons.prems(2) S by (auto simp: lconc_assoc)
qed simp

lemma lseq_mono: "list_all2 (\<subseteq>) As Bs \<Longrightarrow> lseq As \<subseteq> lseq Bs"
  by (induction rule: list_all2_induct) (simp_all add: lconc_mono)

lemma sum_list_lower: "x \<in> set xs \<Longrightarrow> x \<le> sum_list (xs :: nat list)"
  by (induction xs) auto

lemma sum_list_totals:
  assumes "\<forall>C \<in> set Cs. base_ok C" shows "length Cs \<le> sum_list (map total_states Cs)"
  using assms by (induction Cs) (auto dest: base_total)

text \<open>A non-empty list of totals, each at least 1, one of them at least 2, sums to 2 only as a single 2.\<close>

lemma sum_list_two:
  assumes "\<forall>C \<in> set Cs. base_ok C" "C \<in> set Cs" "2 \<le> total_states C"
  shows "2 \<le> sum_list (map total_states Cs)"
    "sum_list (map total_states Cs) = 2 \<Longrightarrow> Cs = [C] \<and> total_states C = 2"
proof -
  obtain xs ys where Cs: "Cs = xs @ C # ys" using assms(2) by (meson split_list)
  have "length xs \<le> sum_list (map total_states xs)" "length ys \<le> sum_list (map total_states ys)"
    using assms(1) by (auto simp: Cs intro: sum_list_totals)
  note len = this
  have sum: "sum_list (map total_states Cs) =
      sum_list (map total_states xs) + (total_states C + sum_list (map total_states ys))"
    by (simp add: Cs)
  then show "2 \<le> sum_list (map total_states Cs)" using assms(3) by linarith
  assume "sum_list (map total_states Cs) = 2"
  with len sum assms(3)
  have "length xs = 0" "length ys = 0" "total_states C = 2" by linarith+
  then show "Cs = [C] \<and> total_states C = 2" by (simp add: Cs)
qed

lemma alternatives_base_spec:
  assumes ne: "Cs \<noteq> []" and Cs: "list_all2 base_spec ps Cs"
  shows "\<exists>B. alternatives_automaton RPQ_NFA (map Inr Cs) = Inr B \<and> base_spec (PathAlternatives ps) B"
proof -
  have ok: "\<forall>C \<in> set Cs. base_ok C"
    using Cs by (auto simp: list_all2_conv_all_nth in_set_conv_nth base_spec_def)
  have RN: "no_in_start RPQ_NFA" "nfa_lang RPQ_NFA = {}" "total_states RPQ_NFA = 1"
    by (simp_all add: RPQ_NFA_def no_in_start_def edges_def nfa_lang_def)
  obtain B where B: "alternatives_automaton RPQ_NFA (map Inr Cs) = Inr B" "base_ok B" "no_in_start B"
    "nfa_lang B = (\<Union>C \<in> set Cs. nfa_lang C)" "total_states B = 1 + sum_list (map total_states Cs)"
    using alternatives_automaton_spec [OF states_ok_RPQ_NFA mirrored_RPQ_NFA RN(1) ok] ne RN by auto
  have le: "path_lang (PathAlternatives ps) \<subseteq> nfa_lang B"
    using Cs by (fastforce simp: B(4) list_all2_conv_all_nth in_set_conv_nth base_spec_def)
  have eq: "nfa_lang B = path_lang (PathAlternatives ps)" if "list_all exact_path ps"
  proof -
    have "map nfa_lang Cs = map path_lang ps"
      using Cs that by (auto simp: list_eq_iff_nth_eq list_all2_conv_all_nth base_spec_def list_all_length)
    then have "set (map nfa_lang Cs) = set (map path_lang ps)" by simp
    then show ?thesis by (simp add: B(4))
  qed
  have big: "3 \<le> total_states B" if "\<not> list_ex nullable ps"
  proof -
    obtain p ps' C Cs' where *: "ps = p # ps'" "Cs = C # Cs'" "base_spec p C"
      using ne Cs by (cases ps; cases Cs) auto
    then have "2 \<le> total_states C" using that by (auto simp: base_spec_def)
    then show ?thesis using sum_list_two(1) [OF ok, of C] by (simp add: B * )
  qed
  show ?thesis using B le eq big by (auto simp: base_spec_def)
qed

lemma sequence_base_spec:
  assumes ne: "Cs \<noteq> []" and Cs: "list_all2 base_spec ps Cs"
  shows "\<exists>B. sequence_automaton (map Inr Cs) = Inr B \<and> base_spec (PathSequence ps) B"
proof -
  obtain C Cs' p ps' where *: "Cs = C # Cs'" "ps = p # ps'" "base_spec p C" "list_all2 base_spec ps' Cs'"
    using ne Cs by (cases Cs; cases ps) auto
  have ok: "\<forall>C \<in> set Cs. base_ok C"
    using Cs by (auto simp: list_all2_conv_all_nth in_set_conv_nth base_spec_def)
  then have okC: "base_ok C" "\<forall>C \<in> set Cs'. base_ok C" by (simp_all add: * )
  obtain B where B: "sequence_loop C (map Inr Cs') = Inr B" "base_ok B" "no_in_start C \<longrightarrow> no_in_start B"
    "nfa_lang B = lseq (map nfa_lang Cs)" "total_states B = sum_list (map total_states Cs)"
    using sequence_loop_spec [OF okC] by (auto simp: * )
  have le: "path_lang (PathSequence ps) \<subseteq> nfa_lang B"
    unfolding B(4) path_lang.simps
    by (rule lseq_mono) (use Cs in \<open>auto simp: list_all2_conv_all_nth base_spec_def\<close>)
  have eq: "nfa_lang B = path_lang (PathSequence ps)" if "list_all exact_path ps"
  proof -
    have "map nfa_lang Cs = map path_lang ps"
      using Cs that by (auto simp: list_eq_iff_nth_eq list_all2_conv_all_nth base_spec_def list_all_length)
    then show ?thesis by (simp add: B(4))
  qed
  have two: "2 \<le> total_states B \<and> (total_states B = 2 \<longrightarrow> atom_like B)" if nn: "\<not> list_all nullable ps"
  proof -
    obtain i where i: "i < length ps" "\<not> nullable (ps ! i)" using nn by (auto simp: list_all_length)
    then have bs: "base_spec (ps ! i) (Cs ! i)" "i < length Cs" "Cs ! i \<in> set Cs"
      using Cs by (auto simp: list_all2_conv_all_nth)
    then have "2 \<le> total_states (Cs ! i)" using i(2) by (simp add: base_spec_def)
    note T = sum_list_two [OF ok bs(3) this]
    have "atom_like B" if "total_states B = 2"
    proof -
      have c: "Cs = [Cs ! i]" "total_states (Cs ! i) = 2" using T(2) that by (simp_all add: B(5))
      have "i = 0" using c(1) bs(2) by (metis length_Cons less_one list.size(3) One_nat_def)
      then have "C = Cs ! i" "Cs' = []" using c(1) by (simp_all add: * )
      then have "B = Cs ! i" using B(1) by simp
      then show ?thesis using bs(1) i(2) c(2) by (simp add: base_spec_def)
    qed
    then show ?thesis using T(1) by (simp add: B(5))
  qed
  have nis: "\<not> start_loops (PathSequence ps) \<longrightarrow> no_in_start B"
    using B(3) * by (auto simp: base_spec_def)
  have "sequence_automaton (map Inr Cs) = Inr B" using B(1) by (simp add: * )
  moreover have "base_spec (PathSequence ps) B"
  proof (rule base_specI)
    show "base_ok B" by (rule B(2))
    show "path_lang (PathSequence ps) \<subseteq> nfa_lang B" by (rule le)
    show "\<not> start_loops (PathSequence ps) \<Longrightarrow> no_in_start B" using nis by blast
    show "exact_path (PathSequence ps) \<Longrightarrow> nfa_lang B = path_lang (PathSequence ps)"
      by (rule eq) (simp only: exact_path.simps)
    show "\<not> nullable (PathSequence ps) \<Longrightarrow> 2 \<le> total_states B \<and> (total_states B = 2 \<longrightarrow> atom_like B)"
      by (rule two) (simp only: nullable.simps not_False_eq_True)
  qed
  ultimately show ?thesis by blast
qed

lemma kleene_base_spec:
  assumes p: "base_spec p A" "\<not> nullable p"
  shows "base_spec (PathKleeneStar p) (kleene_automaton A)"
proof -
  have A: "base_ok A" "path_lang p \<subseteq> nfa_lang A" "\<not> start_loops p \<Longrightarrow> no_in_start A"
    "exact_path p \<Longrightarrow> nfa_lang A = path_lang p" "total_states A = 2 \<Longrightarrow> atom_like A"
    using p by (auto simp: base_spec_def)
  have "base_ok (kleene_automaton A) \<and> kstar (nfa_lang A) \<subseteq> nfa_lang (kleene_automaton A) \<and>
    (no_in_start A \<longrightarrow> nfa_lang (kleene_automaton A) = kstar (nfa_lang A))"
  proof (cases "total_states A = 2")
    case True
    from kleene_atom_spec [OF True A(5) [OF True]] show ?thesis by (metis order_refl)
  next
    case False
    from kleene_loop_spec [OF A(1) False] show ?thesis by metis
  qed
  then have K: "base_ok (kleene_automaton A)" "kstar (nfa_lang A) \<subseteq> nfa_lang (kleene_automaton A)"
    "no_in_start A \<Longrightarrow> nfa_lang (kleene_automaton A) = kstar (nfa_lang A)" by (metis, metis, metis)
  show ?thesis
  proof (rule base_specI)
    show "base_ok (kleene_automaton A)" by (rule K(1))
    show "path_lang (PathKleeneStar p) \<subseteq> nfa_lang (kleene_automaton A)"
      using kstar_mono [OF A(2)] K(2) by (simp only: path_lang.simps)
    assume "exact_path (PathKleeneStar p)"
    then have "exact_path p" "\<not> start_loops p" by simp_all
    then show "nfa_lang (kleene_automaton A) = path_lang (PathKleeneStar p)"
      using K(3) [OF A(3)] A(4) by simp
  qed simp_all
qed

lemma map_get_Inr:
  assumes "\<forall>p \<in> set ps. \<exists>A. get_rpq_base_automaton p = Inr A \<and> base_spec p A"
  shows "\<exists>Cs. map get_rpq_base_automaton ps = map Inr Cs \<and> list_all2 base_spec ps Cs"
  using assms
proof (induction ps)
  case (Cons p ps)
  then obtain A Cs where "get_rpq_base_automaton p = Inr A" "base_spec p A"
    "map get_rpq_base_automaton ps = map Inr Cs" "list_all2 base_spec ps Cs" by auto
  then have "map get_rpq_base_automaton (p # ps) = map Inr (A # Cs)" "list_all2 base_spec (p # ps) (A # Cs)"
    by simp_all
  then show ?case by blast
qed simp

section \<open>The whole construction\<close>

lemma get_rpq_base_automaton_spec:
  "wf_path p \<Longrightarrow> \<exists>A. get_rpq_base_automaton p = Inr A \<and> base_spec p A"
proof (induction p rule: get_rpq_base_automaton.induct)
  case (1 a dir cs)
  then show ?case by (simp add: atom_base_spec)
next
  case (2 ps)
  then obtain Cs where Cs: "map get_rpq_base_automaton ps = map Inr Cs" "list_all2 base_spec ps Cs"
    using map_get_Inr [of ps] by (auto simp: list_all_iff)
  then have "Cs \<noteq> []" using 2 by auto
  from alternatives_base_spec [OF this Cs(2)] show ?case using Cs(1) by simp
next
  case (3 ps)
  then obtain Cs where Cs: "map get_rpq_base_automaton ps = map Inr Cs" "list_all2 base_spec ps Cs"
    using map_get_Inr [of ps] by (auto simp: list_all_iff)
  then have "Cs \<noteq> []" using 3 by auto
  from sequence_base_spec [OF this Cs(2)] show ?case using Cs(1) by simp
next
  case (4 p)
  then obtain A where "get_rpq_base_automaton p = Inr A" "base_spec p A" by auto
  with 4 show ?case using kleene_base_spec [of p A] by simp
next
  case (5 p)
  then obtain A where A: "get_rpq_base_automaton p = Inr A" "base_spec p A" by auto
  then have "base_ok A" by (simp add: base_spec_def)
  note O = optional_spec [OF this]
  have "base_spec (PathOptional p) (optional_automaton A)"
    using A(2) O by (auto simp: base_spec_def)
  with A show ?case by simp
qed simp

end
