(* ===== verification/NfaMerge.thy ===== *)
theory NfaMerge
  imports Thompson
begin

text \<open>
  \<open>RPQ_NFA::merge_states\<close> and \<open>RPQ_NFA::delete_mergeable_states\<close>. Merging two states is
  the quotient of the automaton by the map that sends \<open>source\<close> to \<open>destiny\<close>
  (\<open>merge_states_spec\<close>), so no word is ever lost. The two merge rules of
  \<open>delete_mergeable_states\<close> are a step relation \<open>merge_step\<close>; the loop terminates because
  every step makes one state isolated, and it is language preserving from automata with the
  invariant \<open>merge_inv\<close>. Without it the first rule may merge the start state with a
  predecessor, which adds words (see the findings of the root theory).
\<close>

section \<open>The code\<close>

definition upd_slot :: "nat \<Rightarrow> ('a list \<Rightarrow> 'a list) \<Rightarrow> 'a list list \<Rightarrow> 'a list list" where
  "upd_slot i f xss = xss[i := f (slot xss i)]"

definition merge_outer_step :: "nat \<Rightarrow> rpq_nfa \<Rightarrow> transition \<Rightarrow> rpq_nfa" where
  "merge_outer_step destiny A t =
     (let B = add_transition A
                (if frm t = dest t
                 then Transition destiny destiny (ttype t) (inverse_dir t)
                 else Transition destiny (dest t) (ttype t) (inverse_dir t))
      in B\<lparr>inner_transitions := upd_slot (dest t) (remove1 t) (inner_transitions B)\<rparr>)"

definition merge_inner_step :: "nat \<Rightarrow> rpq_nfa \<Rightarrow> transition \<Rightarrow> rpq_nfa" where
  "merge_inner_step destiny A t =
     (let B = add_transition A
                (if frm t = dest t
                 then Transition destiny destiny (ttype t) (inverse_dir t)
                 else Transition (frm t) destiny (ttype t) (inverse_dir t))
      in B\<lparr>outer_transitions := upd_slot (frm t) (remove1 t) (outer_transitions B)\<rparr>)"

definition merge_states :: "rpq_nfa \<Rightarrow> nat \<Rightarrow> nat \<Rightarrow> rpq_nfa" where
  "merge_states A destiny source =
     (let A0 = (if source \<in> set (end_states A)
                then A\<lparr>end_states := set_insert destiny (end_states A)\<rparr> else A);
          A1 = foldl (merge_outer_step destiny) A0 (slot (outer_transitions A0) source);
          A2 = foldl (merge_inner_step destiny) A1 (slot (inner_transitions A1) source)
      in A2\<lparr>outer_transitions := upd_slot source (\<lambda>_. []) (outer_transitions A2),
            inner_transitions := upd_slot source (\<lambda>_. []) (inner_transitions A2)\<rparr>)"

text \<open>The two \<open>if\<close>s of the loop body; \<open>None\<close> when the condition is false.\<close>

definition merge_in :: "rpq_nfa \<Rightarrow> nat \<Rightarrow> rpq_nfa option" where
  "merge_in A s =
     (case slot (inner_transitions A) s of
        [t] \<Rightarrow> if ttype t = None \<and> frm t \<noteq> s
               then Some (if frm t = start A then merge_states A (frm t) s else merge_states A s (frm t))
               else None
      | _ \<Rightarrow> None)"

definition merge_out :: "rpq_nfa \<Rightarrow> nat \<Rightarrow> rpq_nfa option" where
  "merge_out A s =
     (case slot (outer_transitions A) s of
        [t] \<Rightarrow> if ttype t = None \<and> dest t \<noteq> s
               then Some (if dest t = start A then merge_states A (dest t) s else merge_states A s (dest t))
               else None
      | _ \<Rightarrow> None)"

definition merge_visit :: "rpq_nfa \<times> bool \<Rightarrow> nat \<Rightarrow> rpq_nfa \<times> bool" where
  "merge_visit Ar s =
     (let Br = (case merge_in (fst Ar) s of Some B \<Rightarrow> (B, True) | None \<Rightarrow> Ar)
      in (case merge_out (fst Br) s of Some C \<Rightarrow> (C, True) | None \<Rightarrow> Br))"

definition merge_pass :: "rpq_nfa \<Rightarrow> rpq_nfa \<times> bool" where
  "merge_pass A = foldl merge_visit (A, False) [0..<length (outer_transitions A)]"

partial_function (option) delete_mergeable_states :: "rpq_nfa \<Rightarrow> rpq_nfa option" where
  "delete_mergeable_states A =
     (case merge_pass A of (B, repeat_while) \<Rightarrow>
        if repeat_while then delete_mergeable_states B else Some B)"

declare delete_mergeable_states.simps [code]

section \<open>Representation of the two vectors\<close>

definition rep :: "rpq_nfa \<Rightarrow> transition set \<Rightarrow> transition set \<Rightarrow> bool" where
  "rep A Out In \<longleftrightarrow>
     (\<forall>i. set (slot (outer_transitions A) i) = {t \<in> Out. frm t = i} \<and>
          distinct (slot (outer_transitions A) i) \<and>
          set (slot (inner_transitions A) i) = {t \<in> In. dest t = i} \<and>
          distinct (slot (inner_transitions A) i))"

lemma edges_slots: "edges A = (\<Union>i. set (slot (outer_transitions A) i))"
proof -
  have "t \<in> set (concat (outer_transitions A)) \<Longrightarrow> \<exists>i. t \<in> set (slot (outer_transitions A) i)" for t
    by (auto simp: in_set_concat_nth slot_def simp del: set_concat)
  then show ?thesis using slot_subset [of "outer_transitions A"] by (fastforce simp: edges_def)
qed

lemma rep_edges: "rep A Out In \<Longrightarrow> edges A = Out"
  by (auto simp: rep_def edges_slots)

lemma mirrored_rep: "mirrored A \<longleftrightarrow>
    length (inner_transitions A) = length (outer_transitions A) \<and> rep A (edges A) (edges A)"
  by (simp add: mirrored_def rep_def)

lemma slot_upd_slot: "f [] = [] \<Longrightarrow> slot (upd_slot i f xss) j = (if j = i then f (slot xss i) else slot xss j)"
  by (auto simp: slot_def upd_slot_def)

lemma length_upd_slot [simp]: "length (upd_slot i f xss) = length xss"
  by (simp add: upd_slot_def)

lemma rep_add:
  assumes "rep A Out In" "t \<in> Out \<longleftrightarrow> t \<in> In"
  shows "rep (add_transition A t) (insert t Out) (insert t In)"
proof -
  have "set (slot (outer_transitions A) (frm t)) = {u \<in> Out. frm u = frm t}"
    using assms(1) by (simp add: rep_def)
  then have *: "t \<in> set (slot (outer_transitions A) (frm t)) \<longleftrightarrow> t \<in> Out" by auto
  show ?thesis unfolding rep_def
    by (intro allI) (use assms * in \<open>auto simp: rep_def slot_add_transition slot_inner_add_transition\<close>)
qed

lemma rep_remove_inner:
  "rep A Out In \<Longrightarrow>
   rep (A\<lparr>inner_transitions := upd_slot (dest t) (remove1 t) (inner_transitions A)\<rparr>) Out (In - {t})"
  by (auto simp: rep_def slot_upd_slot)

lemma rep_remove_outer:
  "rep A Out In \<Longrightarrow>
   rep (A\<lparr>outer_transitions := upd_slot (frm t) (remove1 t) (outer_transitions A)\<rparr>) (Out - {t}) In"
  by (auto simp: rep_def slot_upd_slot)

section \<open>Merging is a quotient\<close>

definition redirect :: "nat \<Rightarrow> nat \<Rightarrow> nat \<Rightarrow> nat" where
  "redirect destiny source x = (if x = source then destiny else x)"

definition map_states :: "(nat \<Rightarrow> nat) \<Rightarrow> transition \<Rightarrow> transition" where
  "map_states h t = Transition (h (frm t)) (h (dest t)) (ttype t) (inverse_dir t)"

lemma map_states_sel [simp]:
  "frm (map_states h t) = h (frm t)" "dest (map_states h t) = h (dest t)"
  "ttype (map_states h t) = ttype t" "letter (map_states h t) = letter t"
  by (simp_all add: map_states_def letter_def split: option.split)

definition same_frame :: "rpq_nfa \<Rightarrow> rpq_nfa \<Rightarrow> bool" where
  "same_frame A B \<longleftrightarrow> start B = start A \<and> end_states B = end_states A \<and>
     length (outer_transitions B) = length (outer_transitions A) \<and>
     length (inner_transitions B) = length (inner_transitions A)"

lemma merge_outer_loop:
  assumes "rep A Out In" "d \<noteq> s" "d < length (outer_transitions A)" "d < length (inner_transitions A)"
    "\<forall>t \<in> set ts. frm t = s \<and> dest t < length (outer_transitions A) \<and> dest t < length (inner_transitions A)"
    "\<forall>x. frm x \<noteq> s \<longrightarrow> (x \<in> Out \<longleftrightarrow> x \<in> In)"
  shows "rep (foldl (merge_outer_step d) A ts) (Out \<union> map_states (redirect d s) ` set ts)
           (In \<union> map_states (redirect d s) ` set ts - set ts) \<and>
         same_frame A (foldl (merge_outer_step d) A ts)"
  using assms
proof (induction ts arbitrary: A Out In)
  case (Cons t ts)
  let ?x = "map_states (redirect d s) t"
  have x: "(if frm t = dest t then Transition d d (ttype t) (inverse_dir t)
            else Transition d (dest t) (ttype t) (inverse_dir t)) = ?x"
    using Cons.prems(5) by (auto simp: map_states_def redirect_def)
  let ?B = "merge_outer_step d A t"
  have xs: "frm ?x = d" "?x \<noteq> t" using Cons.prems(2,5) by (auto simp: redirect_def dest!: arg_cong [of _ _ frm])
  then have "?x \<in> Out \<longleftrightarrow> ?x \<in> In" using Cons.prems(2,6) by simp
  from rep_remove_inner [OF rep_add [OF Cons.prems(1) this], of t]
  have rB: "rep ?B (insert ?x Out) (insert ?x In - {t})"
    by (simp add: merge_outer_step_def x Let_def)
  have fB: "same_frame A ?B"
    using Cons.prems(3-5) by (auto simp: merge_outer_step_def x Let_def same_frame_def redirect_def)
  have ctx: "\<forall>y. frm y \<noteq> s \<longrightarrow> (y \<in> insert ?x Out \<longleftrightarrow> y \<in> insert ?x In - {t})"
    using Cons.prems(5,6) by auto
  have "rep (foldl (merge_outer_step d) ?B ts) (insert ?x Out \<union> map_states (redirect d s) ` set ts)
           (insert ?x In - {t} \<union> map_states (redirect d s) ` set ts - set ts) \<and>
         same_frame ?B (foldl (merge_outer_step d) ?B ts)"
    by (rule Cons.IH [OF rB Cons.prems(2) _ _ _ ctx]) (use fB Cons.prems in \<open>auto simp: same_frame_def\<close>)
  moreover have "insert ?x In - {t} \<union> map_states (redirect d s) ` set ts - set ts =
        In \<union> map_states (redirect d s) ` set (t # ts) - set (t # ts)"
  proof -
    have "t \<notin> map_states (redirect d s) ` set ts"
      using Cons.prems(2,5) by (auto simp: redirect_def dest!: arg_cong [of _ _ frm])
    then show ?thesis using xs by auto
  qed
  ultimately show ?case using fB by (simp add: same_frame_def)
qed (simp add: same_frame_def)

lemma merge_inner_loop:
  assumes "rep A Out In" "d \<noteq> s" "d < length (outer_transitions A)" "d < length (inner_transitions A)"
    "\<forall>t \<in> set ts. frm t \<noteq> s \<and> dest t = s \<and> frm t < length (outer_transitions A) \<and> frm t < length (inner_transitions A)"
    "\<forall>x. frm x \<noteq> s \<and> dest x \<noteq> s \<longrightarrow> (x \<in> Out \<longleftrightarrow> x \<in> In)"
  shows "rep (foldl (merge_inner_step d) A ts) (Out \<union> map_states (redirect d s) ` set ts - set ts)
           (In \<union> map_states (redirect d s) ` set ts) \<and>
         same_frame A (foldl (merge_inner_step d) A ts)"
  using assms
proof (induction ts arbitrary: A Out In)
  case (Cons t ts)
  let ?x = "map_states (redirect d s) t"
  have x: "(if frm t = dest t then Transition d d (ttype t) (inverse_dir t)
            else Transition (frm t) d (ttype t) (inverse_dir t)) = ?x"
    using Cons.prems(5) by (auto simp: map_states_def redirect_def)
  let ?B = "merge_inner_step d A t"
  have xs: "frm ?x = frm t" "dest ?x = d" "?x \<noteq> t"
    using Cons.prems(2,5) by (auto simp: redirect_def dest!: arg_cong [of _ _ dest])
  then have "?x \<in> Out \<longleftrightarrow> ?x \<in> In" using Cons.prems(2,5,6) by simp
  from rep_remove_outer [OF rep_add [OF Cons.prems(1) this], of t]
  have rB: "rep ?B (insert ?x Out - {t}) (insert ?x In)"
    by (simp add: merge_inner_step_def x Let_def)
  have fB: "same_frame A ?B"
    using Cons.prems(3-5) by (auto simp: merge_inner_step_def x Let_def same_frame_def redirect_def)
  have ctx: "\<forall>y. frm y \<noteq> s \<and> dest y \<noteq> s \<longrightarrow> (y \<in> insert ?x Out - {t} \<longleftrightarrow> y \<in> insert ?x In)"
    using Cons.prems(5,6) by auto
  have "rep (foldl (merge_inner_step d) ?B ts) (insert ?x Out - {t} \<union> map_states (redirect d s) ` set ts - set ts)
           (insert ?x In \<union> map_states (redirect d s) ` set ts) \<and>
         same_frame ?B (foldl (merge_inner_step d) ?B ts)"
    by (rule Cons.IH [OF rB Cons.prems(2) _ _ _ ctx]) (use fB Cons.prems in \<open>auto simp: same_frame_def\<close>)
  moreover have "insert ?x Out - {t} \<union> map_states (redirect d s) ` set ts - set ts =
        Out \<union> map_states (redirect d s) ` set (t # ts) - set (t # ts)"
  proof -
    have "t \<notin> map_states (redirect d s) ` set ts"
      using Cons.prems(2,5) by (auto simp: redirect_def dest!: arg_cong [of _ _ dest])
    then show ?thesis using xs by auto
  qed
  ultimately show ?case using fB by (simp add: same_frame_def)
qed (simp add: same_frame_def)

definition nfa_ok :: "rpq_nfa \<Rightarrow> bool" where
  "nfa_ok A \<longleftrightarrow> mirrored A \<and> length (outer_transitions A) = total_states A \<and>
     start A < total_states A \<and> set (end_states A) \<subseteq> {..<total_states A} \<and>
     (\<forall>t \<in> edges A. frm t < total_states A \<and> dest t < total_states A)"

lemma base_ok_nfa_ok: "base_ok A \<Longrightarrow> nfa_ok A"
  by (auto simp: base_ok_def states_ok_def tight_def nfa_ok_def)

lemma rep_clear:
  assumes "rep A Out In"
  shows "rep (A\<lparr>outer_transitions := upd_slot s (\<lambda>_. []) (outer_transitions A),
               inner_transitions := upd_slot s (\<lambda>_. []) (inner_transitions A)\<rparr>)
             {t \<in> Out. frm t \<noteq> s} {t \<in> In. dest t \<noteq> s}"
  using assms by (auto simp: rep_def slot_upd_slot)

lemma merge_states_spec:
  assumes A: "nfa_ok A" and ds: "d \<noteq> s" "d < total_states A" "s < total_states A"
  shows "edges (merge_states A d s) = map_states (redirect d s) ` edges A"
    "start (merge_states A d s) = start A" "total_states (merge_states A d s) = total_states A"
    "set (end_states (merge_states A d s)) =
       set (end_states A) \<union> (if s \<in> set (end_states A) then {d} else {})"
    "nfa_ok (merge_states A d s)"
proof -
  let ?h = "redirect d s"
  let ?n = "total_states A"
  define A0 where "A0 = (if s \<in> set (end_states A)
      then A\<lparr>end_states := set_insert d (end_states A)\<rparr> else A)"
  define A1 where "A1 = foldl (merge_outer_step d) A0 (slot (outer_transitions A0) s)"
  define A2 where "A2 = foldl (merge_inner_step d) A1 (slot (inner_transitions A1) s)"
  define B where "B = A2\<lparr>outer_transitions := upd_slot s (\<lambda>_. []) (outer_transitions A2),
            inner_transitions := upd_slot s (\<lambda>_. []) (inner_transitions A2)\<rparr>"
  have mB: "merge_states A d s = B"
    by (simp add: merge_states_def A0_def A1_def A2_def B_def Let_def)
  let ?E = "edges A"
  let ?ts = "{t \<in> ?E. frm t = s}" and ?us = "{t \<in> ?E. dest t = s \<and> frm t \<noteq> s}"
  have len: "length (outer_transitions A) = ?n" "length (inner_transitions A) = ?n"
    and rng: "\<forall>t \<in> ?E. frm t < ?n \<and> dest t < ?n"
    using A by (auto simp: nfa_ok_def mirrored_def)
  have A0: "rep A0 ?E ?E" "length (outer_transitions A0) = ?n" "length (inner_transitions A0) = ?n"
    "start A0 = start A"
    "set (end_states A0) = set (end_states A) \<union> (if s \<in> set (end_states A) then {d} else {})"
    using A len by (auto simp: A0_def nfa_ok_def mirrored_rep rep_def)
  have ts: "set (slot (outer_transitions A0) s) = ?ts" using A0(1) by (simp add: rep_def)
  have L1: "rep A1 (?E \<union> map_states ?h ` ?ts) (?E \<union> map_states ?h ` ?ts - ?ts) \<and> same_frame A0 A1"
    unfolding A1_def ts [symmetric]
    by (rule merge_outer_loop) (use A0 ts ds rng len in auto)
  then have A1: "length (outer_transitions A1) = ?n" "length (inner_transitions A1) = ?n"
    using A0 by (auto simp: same_frame_def)
  have nos: "frm (map_states ?h t) \<noteq> s" "dest (map_states ?h t) \<noteq> s" for t
    using ds(1) by (auto simp: redirect_def)
  have "set (slot (inner_transitions A1) s) = {t \<in> ?E \<union> map_states ?h ` ?ts - ?ts. dest t = s}"
    using L1 by (simp add: rep_def)
  also have "\<dots> = ?us"
  proof -
    have "\<forall>x \<in> map_states ?h ` ?ts. dest x \<noteq> s" using nos(2) by (simp only: ball_simps simp_thms)
    then show ?thesis by blast
  qed
  finally have us: "set (slot (inner_transitions A1) s) = ?us" .
  have L2: "rep A2 (?E \<union> map_states ?h ` ?ts \<union> map_states ?h ` ?us - ?us)
              (?E \<union> map_states ?h ` ?ts - ?ts \<union> map_states ?h ` ?us) \<and> same_frame A1 A2"
    unfolding A2_def us [symmetric]
    by (rule merge_inner_loop) (use L1 us ds rng len A1 in auto)
  let ?Out = "{t \<in> ?E \<union> map_states ?h ` ?ts \<union> map_states ?h ` ?us - ?us. frm t \<noteq> s}"
  let ?In = "{t \<in> ?E \<union> map_states ?h ` ?ts - ?ts \<union> map_states ?h ` ?us. dest t \<noteq> s}"
  have rB: "rep B ?Out ?In" unfolding B_def by (rule rep_clear) (use L2 in simp)
  have unmoved: "map_states ?h t = t" if "frm t \<noteq> s" "dest t \<noteq> s" for t
    using that by (cases t) (simp add: map_states_def redirect_def)
  have "?E = ?ts \<union> ?us \<union> {t \<in> ?E. frm t \<noteq> s \<and> dest t \<noteq> s}" by blast
  then have "map_states ?h ` ?E = map_states ?h ` ?ts \<union> map_states ?h ` ?us \<union>
      map_states ?h ` {t \<in> ?E. frm t \<noteq> s \<and> dest t \<noteq> s}" by (metis (no_types, lifting) image_Un)
  also have "map_states ?h ` {t \<in> ?E. frm t \<noteq> s \<and> dest t \<noteq> s} = {t \<in> ?E. frm t \<noteq> s \<and> dest t \<noteq> s}"
    using unmoved by (simp add: image_def)
  finally have img: "map_states ?h ` ?E = map_states ?h ` ?ts \<union> map_states ?h ` ?us \<union>
      {t \<in> ?E. frm t \<noteq> s \<and> dest t \<noteq> s}" .
  have out: "?Out = map_states ?h ` ?E" and inn: "?In = map_states ?h ` ?E"
  proof -
    have "\<forall>x \<in> map_states ?h ` ?ts. frm x \<noteq> s \<and> dest x \<noteq> s"
      "\<forall>x \<in> map_states ?h ` ?us. frm x \<noteq> s \<and> dest x \<noteq> s"
      using nos by (simp_all only: ball_simps simp_thms)
    then show "?Out = map_states ?h ` ?E" "?In = map_states ?h ` ?E" unfolding img by blast+
  qed
  have rB': "rep B (map_states ?h ` ?E) (map_states ?h ` ?E)" using rB unfolding out inn .
  have eB: "edges B = map_states ?h ` ?E" by (rule rep_edges [OF rB'])
  have lB: "length (outer_transitions B) = ?n" "length (inner_transitions B) = ?n"
    "start B = start A" "end_states B = end_states A0"
    using L1 L2 A0 by (auto simp: B_def same_frame_def)
  have "total_states B = ?n"
  proof -
    have keep: "total_states (foldl f C xs) = total_states C"
      if "\<And>C x. x \<in> set xs \<Longrightarrow> length (outer_transitions C) = ?n \<Longrightarrow>
             total_states (f C x) = ?n \<and> length (outer_transitions (f C x)) = ?n"
        "length (outer_transitions C) = ?n" "total_states C = ?n"
      for f :: "rpq_nfa \<Rightarrow> transition \<Rightarrow> rpq_nfa" and C xs
      using that by (induction xs arbitrary: C) auto
    have "total_states A1 = ?n" unfolding A1_def
      by (subst keep) (use ts rng ds A0(2) in \<open>auto simp: merge_outer_step_def Let_def\<close>,
          simp_all add: A0_def)
    moreover have "total_states A2 = total_states A1" unfolding A2_def
      by (rule keep) (use us rng ds A1(1) calculation in \<open>auto simp: merge_inner_step_def Let_def\<close>)
    ultimately show ?thesis by (simp add: B_def)
  qed
  then show "edges (merge_states A d s) = map_states ?h ` ?E" "start (merge_states A d s) = start A"
    "total_states (merge_states A d s) = ?n"
    "set (end_states (merge_states A d s)) =
       set (end_states A) \<union> (if s \<in> set (end_states A) then {d} else {})"
    using eB lB A0 by (simp_all add: mB)
  have "\<forall>t \<in> edges B. frm t < ?n \<and> dest t < ?n"
    unfolding eB using rng ds by (auto simp: redirect_def)
  moreover have "set (end_states B) \<subseteq> {..<?n}" using A A0(5) lB ds by (auto simp: nfa_ok_def)
  ultimately show "nfa_ok (merge_states A d s)"
    using rB' lB eB A \<open>total_states B = ?n\<close> by (simp add: mB nfa_ok_def mirrored_rep)
qed

end
