(* ===== verification/NfaMergeLang.thy ===== *)
theory NfaMergeLang
  imports NfaMerge
begin

text \<open>
  The loop \<open>delete_mergeable_states\<close> as a step relation: every step keeps the automaton well
  formed and loses no word; the loop terminates in an automaton where no rule applies; from an
  automaton with \<open>merge_inv\<close> every step keeps the language.
\<close>

section \<open>The step relation\<close>

inductive merge_step :: "rpq_nfa \<Rightarrow> rpq_nfa \<Rightarrow> bool" where
  merge_step_in: "merge_in A s = Some B \<Longrightarrow> merge_step A B"
| merge_step_out: "merge_out A s = Some B \<Longrightarrow> merge_step A B"

inductive_cases merge_stepE: "merge_step A B"

text \<open>One merge: the epsilon transition it contracts, and which of its ends survives.\<close>

definition contracts :: "rpq_nfa \<Rightarrow> nat \<Rightarrow> nat \<Rightarrow> nat \<Rightarrow> nat \<Rightarrow> bool" where
  "contracts A v s d src \<longleftrightarrow> v \<noteq> s \<and> (\<exists>b. Transition v s None b \<in> edges A) \<and>
     d \<noteq> src \<and> {d, src} = {v, s} \<and> src \<noteq> start A \<and> v < total_states A \<and> s < total_states A"

definition only_in :: "rpq_nfa \<Rightarrow> nat \<Rightarrow> nat \<Rightarrow> bool" where
  "only_in A v s \<longleftrightarrow> (\<forall>t \<in> edges A. dest t = s \<longrightarrow> frm t = v \<and> ttype t = None)"

definition only_out :: "rpq_nfa \<Rightarrow> nat \<Rightarrow> nat \<Rightarrow> bool" where
  "only_out A s v \<longleftrightarrow> (\<forall>t \<in> edges A. frm t = s \<longrightarrow> dest t = v \<and> ttype t = None)"

lemma merge_inD:
  assumes A: "nfa_ok A" and m: "merge_in A s = Some B"
  obtains v d src where "B = merge_states A d src" "only_in A v s" "v \<noteq> s"
    "\<exists>b. Transition v s None b \<in> edges A" "d \<noteq> src" "{d, src} = {v, s}" "src = s \<longrightarrow> v = start A"
    "src = v \<longrightarrow> v \<noteq> start A" "v < total_states A" "s < total_states A"
proof -
  from m obtain t where t: "slot (inner_transitions A) s = [t]" "ttype t = None" "frm t \<noteq> s"
    "B = (if frm t = start A then merge_states A (frm t) s else merge_states A s (frm t))"
    by (auto simp: merge_in_def split: list.splits if_splits)
  have "{u \<in> edges A. dest u = s} = {t}"
    using A t(1) by (metis (mono_tags, lifting) empty_set list.simps(15) mirrored_def nfa_ok_def)
  then have u: "\<forall>u \<in> edges A. dest u = s \<longrightarrow> u = t" and te: "t \<in> edges A" "dest t = s" by auto
  have "Transition (frm t) s None (inverse_dir t) \<in> edges A" using te t(2) by (metis transition.collapse)
  moreover have "only_in A (frm t) s" using u t(2) by (auto simp: only_in_def)
  moreover have "frm t < total_states A" "s < total_states A" using A te by (auto simp: nfa_ok_def)
  ultimately show ?thesis using t(3,4)
    by (cases "frm t = start A") (auto intro: that [of "frm t" s] that [of s "frm t"])
qed

lemma merge_outD:
  assumes A: "nfa_ok A" and m: "merge_out A s = Some B"
  obtains v d src where "B = merge_states A d src" "only_out A s v" "v \<noteq> s"
    "\<exists>b. Transition s v None b \<in> edges A" "d \<noteq> src" "{d, src} = {v, s}" "src = s \<longrightarrow> v = start A"
    "src = v \<longrightarrow> v \<noteq> start A" "v < total_states A" "s < total_states A"
proof -
  from m obtain t where t: "slot (outer_transitions A) s = [t]" "ttype t = None" "dest t \<noteq> s"
    "B = (if dest t = start A then merge_states A (dest t) s else merge_states A s (dest t))"
    by (auto simp: merge_out_def split: list.splits if_splits)
  have "{u \<in> edges A. frm u = s} = {t}"
    using A t(1) by (metis (mono_tags, lifting) empty_set list.simps(15) mirrored_def nfa_ok_def)
  then have u: "\<forall>u \<in> edges A. frm u = s \<longrightarrow> u = t" and te: "t \<in> edges A" "frm t = s" by auto
  have "Transition s (dest t) None (inverse_dir t) \<in> edges A" using te t(2) by (metis transition.collapse)
  moreover have "only_out A s (dest t)" using u t(2) by (auto simp: only_out_def)
  moreover have "dest t < total_states A" "s < total_states A" using A te by (auto simp: nfa_ok_def)
  ultimately show ?thesis using t(3,4)
    by (cases "dest t = start A") (auto intro: that [of "dest t" s] that [of s "dest t"])
qed

text \<open>What both rules have in common.\<close>

lemma merge_step_contracts:
  assumes A: "nfa_ok A" and m: "merge_step A B"
  obtains v s d src where "B = merge_states A d src" "contracts A v s d src"
  using m
proof (cases rule: merge_step.cases)
  case (merge_step_in s)
  from merge_inD [OF A this] obtain v d src where m: "B = merge_states A d src" "v \<noteq> s"
    "\<exists>b. Transition v s None b \<in> edges A" "d \<noteq> src" "{d, src} = {v, s}" "src = s \<longrightarrow> v = start A"
    "src = v \<longrightarrow> v \<noteq> start A" "v < total_states A" "s < total_states A" by metis
  then have "contracts A v s d src" by (auto simp: contracts_def doubleton_eq_iff)
  with m(1) show ?thesis by (rule that)
next
  case (merge_step_out s)
  from merge_outD [OF A this] obtain v d src where m: "B = merge_states A d src" "v \<noteq> s"
    "\<exists>b. Transition s v None b \<in> edges A" "d \<noteq> src" "{d, src} = {v, s}" "src = s \<longrightarrow> v = start A"
    "src = v \<longrightarrow> v \<noteq> start A" "v < total_states A" "s < total_states A" by metis
  then have "contracts A s v d src" by (auto simp: contracts_def doubleton_eq_iff)
  with m(1) show ?thesis by (rule that)
qed

lemma contracts_bounds:
  "contracts A v s d src \<Longrightarrow> d < total_states A \<and> src < total_states A"
  by (auto simp: contracts_def doubleton_eq_iff)

lemma merge_step_ok:
  assumes "nfa_ok A" "merge_step A B" shows "nfa_ok B"
proof -
  obtain v s d src where B: "B = merge_states A d src" "contracts A v s d src"
    by (rule merge_step_contracts [OF assms])
  then have "d \<noteq> src" by (simp add: contracts_def)
  with B contracts_bounds [OF B(2)] show ?thesis using merge_states_spec(5) [OF assms(1)] by simp
qed

lemma nfa_path_last:
  assumes "nfa_path E p w q" shows "p = q \<or> (\<exists>t \<in> E. dest t = q)"
  using assms by (induction rule: nfa_path_induct) auto

section \<open>No word is lost\<close>

lemma merge_states_lang_mono:
  assumes A: "nfa_ok A" and "d \<noteq> s" "d < total_states A" "s < total_states A" "s \<noteq> start A"
  shows "nfa_lang A \<subseteq> nfa_lang (merge_states A d s)"
proof
  note M = merge_states_spec [OF assms(1-4)]
  fix w assume "w \<in> nfa_lang A"
  then obtain f where f: "f \<in> set (end_states A)" "nfa_path (edges A) (start A) w f"
    by (auto simp: nfa_lang_def)
  have "nfa_path (edges (merge_states A d s)) (redirect d s (start A)) w (redirect d s f)"
  proof (rule nfa_path_map [OF f(2)])
    fix t assume "t \<in> edges A"
    then have "map_states (redirect d s) t \<in> edges (merge_states A d s)" by (simp add: M)
    from nfa_path_single [OF this]
    show "nfa_path (edges (merge_states A d s)) (redirect d s (frm t)) (letter t) (redirect d s (dest t))"
      by simp
  qed
  moreover have "redirect d s (start A) = start A" using assms(5) by (simp add: redirect_def)
  moreover have "redirect d s f \<in> set (end_states (merge_states A d s))"
    using f(1) M(4) by (auto simp: redirect_def)
  ultimately show "w \<in> nfa_lang (merge_states A d s)" by (auto simp: nfa_lang_def M(2))
qed

lemma merge_step_lang_mono:
  assumes "nfa_ok A" "merge_step A B" shows "nfa_lang A \<subseteq> nfa_lang B"
proof -
  obtain v s d src where B: "B = merge_states A d src" "contracts A v s d src"
    by (rule merge_step_contracts [OF assms])
  then have "d \<noteq> src" "src \<noteq> start A" by (simp_all add: contracts_def)
  with B contracts_bounds [OF B(2)] show ?thesis using merge_states_lang_mono [OF assms(1)] by simp
qed

section \<open>Termination\<close>

definition active :: "rpq_nfa \<Rightarrow> nat set" where
  "active A = frm ` edges A \<union> dest ` edges A"

lemma finite_active: "finite (active A)"
  by (simp add: active_def edges_def)

lemma merge_step_active:
  assumes "nfa_ok A" "merge_step A B" shows "card (active B) < card (active A)"
proof -
  obtain v s d src where B: "B = merge_states A d src" and c: "contracts A v s d src"
    by (rule merge_step_contracts [OF assms])
  from c contracts_bounds [OF c] have ds: "d \<noteq> src" "d < total_states A" "src < total_states A"
    by (auto simp: contracts_def)
  from c obtain b where b: "Transition v s None b \<in> edges A" "{d, src} = {v, s}"
    by (auto simp: contracts_def)
  then have "{v, s} \<subseteq> active A" by (force simp: active_def)
  then have act: "d \<in> active A" "src \<in> active A" using b(2) by auto
  have "active B \<subseteq> active A - {src}"
    using act(1) ds(1) by (auto simp: active_def B merge_states_spec(1) [OF assms(1) ds] redirect_def split: if_splits)
  then have "card (active B) \<le> card (active A - {src})"
    by (intro card_mono) (auto simp: finite_active)
  also have "\<dots> < card (active A)" using act(2) finite_active by (intro card_Diff1_less)
  finally show ?thesis .
qed

lemma merge_visit_fold:
  assumes "foldl merge_visit (A, False) xs = (B, r)"
  shows "merge_step\<^sup>*\<^sup>* A B \<and> (r \<longrightarrow> merge_step\<^sup>+\<^sup>+ A B) \<and>
    (\<not> r \<longrightarrow> B = A \<and> (\<forall>s \<in> set xs. merge_in A s = None \<and> merge_out A s = None))"
  using assms
proof (induction xs arbitrary: B r rule: rev_induct)
  case (snoc s xs)
  obtain C q where C: "foldl merge_visit (A, False) xs = (C, q)" by fastforce
  note IH = snoc.IH [OF C]
  have v: "merge_visit (C, q) s = (B, r)" using snoc.prems C by simp
  show ?case
  proof (cases "merge_in C s")
    case None
    show ?thesis
    proof (cases "merge_out C s")
      case None2: None
      then have "B = C" "r = q" using v None by (auto simp: merge_visit_def)
      then show ?thesis using IH None None2 by auto
    next
      case (Some D)
      then have "B = D" "r" using v None by (auto simp: merge_visit_def)
      moreover have "merge_step C D" using Some by (rule merge_step_out)
      ultimately show ?thesis using IH by (auto intro: rtranclp_into_tranclp1)
    qed
  next
    case (Some D)
    then have step: "merge_step\<^sup>+\<^sup>+ A D" using IH by (auto intro: rtranclp_into_tranclp1 merge_step_in)
    show ?thesis
    proof (cases "merge_out D s")
      case None
      then have "B = D" "r" using v Some by (auto simp: merge_visit_def)
      then show ?thesis using step by auto
    next
      case (Some F)
      then have "B = F" "r" using v \<open>merge_in C s = Some D\<close> by (auto simp: merge_visit_def)
      moreover have "merge_step D F" using Some by (rule merge_step_out)
      ultimately show ?thesis using step by (auto intro: tranclp.trancl_into_trancl)
    qed
  qed
qed simp

lemma merge_steps_ok: "merge_step\<^sup>*\<^sup>* A B \<Longrightarrow> nfa_ok A \<Longrightarrow> nfa_ok B"
  by (induction rule: rtranclp_induct) (auto intro: merge_step_ok)

lemma merge_steps_lang_mono: "merge_step\<^sup>*\<^sup>* A B \<Longrightarrow> nfa_ok A \<Longrightarrow> nfa_lang A \<subseteq> nfa_lang B"
proof (induction rule: rtranclp_induct)
  case (step B C)
  then show ?case using merge_step_lang_mono [of B C] merge_steps_ok [of A B] by blast
qed simp

lemma merge_steps_active:
  "merge_step\<^sup>+\<^sup>+ A B \<Longrightarrow> nfa_ok A \<Longrightarrow> card (active B) < card (active A)"
proof (induction rule: tranclp_induct)
  case (base B)
  then show ?case by (rule merge_step_active [rotated])
next
  case (step B C)
  then have "nfa_ok B" using merge_steps_ok [of A B] by (simp add: tranclp_into_rtranclp)
  from merge_step_active [OF this step(2)] step show ?case by simp
qed

definition no_mergeable :: "rpq_nfa \<Rightarrow> bool" where
  "no_mergeable A \<longleftrightarrow> (\<forall>s. merge_in A s = None \<and> merge_out A s = None)"

lemma delete_mergeable_states_spec:
  "nfa_ok A \<Longrightarrow> \<exists>B. delete_mergeable_states A = Some B \<and> merge_step\<^sup>*\<^sup>* A B \<and> nfa_ok B \<and> no_mergeable B"
proof (induction "card (active A)" arbitrary: A rule: less_induct)
  case less
  obtain B r where B: "merge_pass A = (B, r)" by fastforce
  note F = merge_visit_fold [OF B [unfolded merge_pass_def]]
  show ?case
  proof (cases r)
    case True
    with F have st: "merge_step\<^sup>+\<^sup>+ A B" by simp
    then have ok: "nfa_ok B" using merge_steps_ok [of A B] less.prems by (simp add: tranclp_into_rtranclp)
    from less.hyps [OF merge_steps_active [OF st less.prems] ok] obtain C
      where "delete_mergeable_states B = Some C" "merge_step\<^sup>*\<^sup>* B C" "nfa_ok C" "no_mergeable C" by blast
    moreover have "delete_mergeable_states A = delete_mergeable_states B"
      using True by (subst delete_mergeable_states.simps) (simp add: B)
    ultimately show ?thesis using st by (auto intro: rtranclp_trans dest: tranclp_into_rtranclp)
  next
    case False
    with F have "B = A" and none: "\<forall>s < length (outer_transitions A). merge_in A s = None \<and> merge_out A s = None"
      by auto
    have "slot (inner_transitions A) s = []" "slot (outer_transitions A) s = []"
      if "\<not> s < length (outer_transitions A)" for s
      using that less.prems by (auto simp: slot_def nfa_ok_def mirrored_def)
    then have "no_mergeable A"
      unfolding no_mergeable_def using none by (metis (no_types, lifting) list.simps(4) merge_in_def merge_out_def)
    moreover have "delete_mergeable_states A = Some A"
      using False \<open>B = A\<close> by (subst delete_mergeable_states.simps) (simp add: B)
    ultimately show ?thesis using less.prems by auto
  qed
qed

section \<open>Exactness\<close>

definition eps_edge :: "rpq_nfa \<Rightarrow> nat \<Rightarrow> nat \<Rightarrow> bool" where
  "eps_edge A u v \<longleftrightarrow> (\<exists>b. Transition u v None b \<in> edges A)"

text \<open>
  Why merging with the start state is harmless: a state that enters the start state by an epsilon
  transition either is entered from it the same way, or can do nothing else.
\<close>

definition start_inv :: "rpq_nfa \<Rightarrow> bool" where
  "start_inv A \<longleftrightarrow> eps_edge A (start A) (start A) \<or>
     (\<forall>v. eps_edge A v (start A) \<longrightarrow> eps_edge A (start A) v \<or>
        (\<forall>t \<in> edges A. (dest t = v \<longrightarrow> ttype t \<noteq> None) \<and>
           (frm t = v \<longrightarrow> ttype t = None \<and> (dest t = start A \<or> eps_edge A (start A) (dest t)))))"

text \<open>
  Why merging a final state into its successor is harmless: the successor is final, or it can only be
  entered silently, and from nowhere else. \<open>T\<close> is a set of such states: a forest of silent transitions
  (up to loops) that is left silently only into final states.
\<close>

definition captive :: "rpq_nfa \<Rightarrow> nat set \<Rightarrow> bool" where
  "captive A T \<longleftrightarrow> start A \<notin> T \<and> T \<inter> set (end_states A) = {} \<and>
     (\<forall>w \<in> T. (\<forall>t \<in> edges A. dest t = w \<longrightarrow> ttype t = None) \<and>
       (\<forall>x y. eps_edge A x w \<longrightarrow> eps_edge A y w \<longrightarrow> x = w \<or> y = w \<or> x = y) \<and>
       (\<forall>y. eps_edge A w y \<longrightarrow> y \<in> T \<or> y \<in> set (end_states A)))"

definition ends_inv :: "rpq_nfa \<Rightarrow> bool" where
  "ends_inv A \<longleftrightarrow> (\<exists>T. captive A T \<and>
     (\<forall>u \<in> set (end_states A). eps_edge A u u \<or> (\<forall>v. eps_edge A u v \<longrightarrow> v \<in> set (end_states A) \<or> v \<in> T)))"

lemma captiveD:
  assumes "captive A T" "w \<in> T"
  shows "w \<noteq> start A" "w \<notin> set (end_states A)" "t \<in> edges A \<Longrightarrow> dest t = w \<Longrightarrow> ttype t = None"
    "eps_edge A x w \<Longrightarrow> eps_edge A y w \<Longrightarrow> x = w \<or> y = w \<or> x = y"
    "eps_edge A w y \<Longrightarrow> y \<in> T \<or> y \<in> set (end_states A)"
  using assms unfolding captive_def by blast+

lemma captive_empty [simp]: "captive A {}"
  by (simp add: captive_def)

definition merge_inv :: "rpq_nfa \<Rightarrow> bool" where
  "merge_inv A \<longleftrightarrow> start_inv A \<and> ends_inv A"

text \<open>A quotient is exact when one of the two merged states, \<open>r\<close>, can do everything the pair can.\<close>

lemma merge_states_exact:
  fixes r :: nat
  defines "c \<equiv> \<lambda>d s x. if x = d \<or> x = s then r else x"
  assumes A: "nfa_ok A" and ds: "d \<noteq> s" "d < total_states A" "s < total_states A" "s \<noteq> start A"
    and edge: "\<And>t. t \<in> edges A \<Longrightarrow> nfa_path (edges A) (c d s (frm t)) (letter t) (c d s (dest t))"
    and fin: "\<And>f. f \<in> set (end_states A) \<Longrightarrow> \<exists>f' \<in> set (end_states A). nfa_path (edges A) (c d s f) [] f'"
    and st: "nfa_path (edges A) (start A) [] (c d s (start A))"
  shows "nfa_lang (merge_states A d s) \<subseteq> nfa_lang A"
proof
  note M = merge_states_spec [OF A ds(1-3)]
  define g where "g x = (if x = d then r else x)" for x
  have gh: "g (redirect d s x) = c d s x" for x by (simp add: g_def c_def redirect_def)
  fix w assume "w \<in> nfa_lang (merge_states A d s)"
  then obtain f where f: "f \<in> set (end_states (merge_states A d s))"
    "nfa_path (edges (merge_states A d s)) (start A) w f" by (auto simp: nfa_lang_def M)
  have "nfa_path (edges A) (g (start A)) w (g f)"
  proof (rule nfa_path_map [OF f(2)])
    fix t assume "t \<in> edges (merge_states A d s)"
    then obtain u where "u \<in> edges A" "t = map_states (redirect d s) u" by (auto simp: M)
    with edge [of u] show "nfa_path (edges A) (g (frm t)) (letter t) (g (dest t))" by (simp add: gh)
  qed
  moreover have "g (start A) = c d s (start A)" using ds(4) by (simp add: g_def c_def)
  ultimately have path: "nfa_path (edges A) (start A) w (g f)"
    using nfa_path_append [OF st, of w "g f"] by simp
  consider "f = s" | "f \<noteq> s" "f \<in> set (end_states A)" | "f = d" "s \<in> set (end_states A)"
    using f(1) M by (auto split: if_splits)
  then show "w \<in> nfa_lang A"
  proof cases
    case 1
    have "\<forall>t \<in> edges (merge_states A d s). dest t \<noteq> s" using ds(1) by (auto simp: M redirect_def)
    with nfa_path_last [OF f(2)] 1 ds(4) show ?thesis by auto
  next
    case 2
    then have "c d s f = g f" by (auto simp: c_def g_def)
    with fin [OF 2(2)] path show ?thesis using nfa_path_append [OF path] by (fastforce simp: nfa_lang_def)
  next
    case 3
    then have "c d s s = g f" by (simp add: c_def g_def)
    with fin [OF 3(2)] show ?thesis using nfa_path_append [OF path] by (fastforce simp: nfa_lang_def)
  qed
qed

text \<open>
  Contracting \<open>v -> s\<close> when \<open>s\<close> is entered only silently from \<open>v\<close>, or from itself: the predecessor can do
  everything.
\<close>

lemma contract_in_exact:
  assumes A: "nfa_ok A" and c: "contracts A v s d src" and s: "s \<noteq> start A"
    and o: "\<And>t. t \<in> edges A \<Longrightarrow> dest t = s \<Longrightarrow> ttype t = None \<and> (frm t = v \<or> frm t = s)"
  shows "nfa_lang (merge_states A d src) \<subseteq> nfa_lang A"
proof -
  have c': "\<exists>b. Transition v s None b \<in> edges A" "d \<noteq> src" "{d, src} = {v, s}" "src \<noteq> start A"
    using c by (simp_all add: contracts_def)
  then have eps: "nfa_path (edges A) v [] s" by (auto intro: nfa_path_single_eps)
  have mem: "x = d \<or> x = src \<longleftrightarrow> x = v \<or> x = s" for x using c'(3) by blast
  show ?thesis
  proof (rule merge_states_exact [OF A c'(2), where r = v, unfolded mem])
    show "d < total_states A" "src < total_states A" "src \<noteq> start A"
      using contracts_bounds [OF c] c'(4) by simp_all
    show "nfa_path (edges A) (start A) [] (if start A = v \<or> start A = s then v else start A)"
      using s by auto
    fix f assume "f \<in> set (end_states A)"
    then show "\<exists>f' \<in> set (end_states A). nfa_path (edges A) (if f = v \<or> f = s then v else f) [] f'"
      using eps by auto
  next
    fix t assume t: "t \<in> edges A"
    have from_v: "nfa_path (edges A) (if frm t = v \<or> frm t = s then v else frm t) (letter t) (dest t)"
      using nfa_path_single [OF t] nfa_path_append [OF eps, of "letter t" "dest t"] by auto
    show "nfa_path (edges A) (if frm t = v \<or> frm t = s then v else frm t) (letter t)
            (if dest t = v \<or> dest t = s then v else dest t)"
    proof (cases "dest t = s")
      case True
      then have "frm t = v \<or> frm t = s" "letter t = []" using o [OF t] by (auto simp: letter_def)
      with True show ?thesis by auto
    next
      case False
      with from_v show ?thesis by (cases "dest t = v") auto
    qed
  qed
qed

text \<open>
  Contracting \<open>v -> s\<close> when all that \<open>v\<close> can do, \<open>s\<close> can: every edge of \<open>v\<close> is silent and leads
  to \<open>s\<close> or where \<open>s\<close> leads silently.
\<close>

lemma contract_out_exact:
  assumes A: "nfa_ok A" and c: "contracts A v s d src"
    and o: "\<forall>t \<in> edges A. frm t = v \<longrightarrow> ttype t = None \<and> (dest t = s \<or> eps_edge A s (dest t))"
    and fin: "v \<in> set (end_states A) \<Longrightarrow> \<exists>f' \<in> set (end_states A). nfa_path (edges A) s [] f'"
  shows "nfa_lang (merge_states A d src) \<subseteq> nfa_lang A"
proof -
  have c': "\<exists>b. Transition v s None b \<in> edges A" "d \<noteq> src" "{d, src} = {v, s}" "src \<noteq> start A"
    using c by (simp_all add: contracts_def)
  then have eps: "nfa_path (edges A) v [] s" by (auto intro: nfa_path_single_eps)
  have mem: "x = d \<or> x = src \<longleftrightarrow> x = v \<or> x = s" for x using c'(3) by blast
  show ?thesis
  proof (rule merge_states_exact [OF A c'(2), where r = s, unfolded mem])
    show "d < total_states A" "src < total_states A" "src \<noteq> start A"
      using contracts_bounds [OF c] c'(4) by simp_all
    show "nfa_path (edges A) (start A) [] (if start A = v \<or> start A = s then s else start A)"
      using eps by auto
    fix f assume "f \<in> set (end_states A)"
    then show "\<exists>f' \<in> set (end_states A). nfa_path (edges A) (if f = v \<or> f = s then s else f) [] f'"
      using fin by auto
  next
    fix t assume t: "t \<in> edges A"
    have to_s: "nfa_path (edges A) p w (if q = v \<or> q = s then s else q)" if "nfa_path (edges A) p w q" for p w q
      using that nfa_path_append [OF that, of "[]" s] eps by auto
    show "nfa_path (edges A) (if frm t = v \<or> frm t = s then s else frm t) (letter t)
            (if dest t = v \<or> dest t = s then s else dest t)"
    proof (cases "frm t = v")
      case True
      then have "letter t = []" "dest t = s \<or> eps_edge A s (dest t)"
        using o t by (auto simp: letter_def)
      then have "nfa_path (edges A) s (letter t) (dest t)" by (auto simp: eps_edge_def intro: nfa_path_single_eps)
      with True show ?thesis using to_s by simp
    next
      case False
      with to_s [OF nfa_path_single [OF t]] show ?thesis by (cases "frm t = s") auto
    qed
  qed
qed

lemma contract_mutual_exact:
  assumes A: "nfa_ok A" and c: "contracts A v s d src" and e: "eps_edge A s v"
  shows "nfa_lang (merge_states A d src) \<subseteq> nfa_lang A"
proof -
  have c': "\<exists>b. Transition v s None b \<in> edges A" "d \<noteq> src" "{d, src} = {v, s}" "src \<noteq> start A"
    using c by (simp_all add: contracts_def)
  then have eps: "nfa_path (edges A) v [] s" "nfa_path (edges A) s [] v"
    using e by (auto simp: eps_edge_def intro: nfa_path_single_eps)
  have mem: "x = d \<or> x = src \<longleftrightarrow> x = v \<or> x = s" for x using c'(3) by blast
  have both: "nfa_path (edges A) x [] (if x = v \<or> x = s then s else x)"
    "nfa_path (edges A) (if x = v \<or> x = s then s else x) [] x" for x using eps by auto
  show ?thesis
  proof (rule merge_states_exact [OF A c'(2), where r = s, unfolded mem])
    show "d < total_states A" "src < total_states A" "src \<noteq> start A"
      using contracts_bounds [OF c] c'(4) by simp_all
    show "nfa_path (edges A) (start A) [] (if start A = v \<or> start A = s then s else start A)" by (rule both)
    fix f assume "f \<in> set (end_states A)"
    then show "\<exists>f' \<in> set (end_states A). nfa_path (edges A) (if f = v \<or> f = s then s else f) [] f'"
      using both(2) by blast
  next
    fix t assume t: "t \<in> edges A"
    show "nfa_path (edges A) (if frm t = v \<or> frm t = s then s else frm t) (letter t)
            (if dest t = v \<or> dest t = s then s else dest t)"
      using nfa_path_append [OF both(2) [of "frm t"] nfa_path_append [OF nfa_path_single [OF t] both(1)]] by simp
  qed
qed

lemma merge_step_exact:
  assumes A: "nfa_ok A" "merge_inv A" and m: "merge_step A B"
  shows "nfa_lang B = nfa_lang A"
proof -
  have fin: "\<exists>f' \<in> set (end_states A). nfa_path (edges A) (start A) [] f'"
    if "v \<in> set (end_states A)" "eps_edge A v (start A)" "v \<noteq> start A"
      "\<forall>t \<in> edges A. frm t = v \<longrightarrow> dest t = start A \<or> eps_edge A (start A) (dest t)" for v
  proof (cases "start A \<in> set (end_states A)")
    case False
    obtain T where T: "captive A T"
      "\<forall>u \<in> set (end_states A). eps_edge A u u \<or> (\<forall>v. eps_edge A u v \<longrightarrow> v \<in> set (end_states A) \<or> v \<in> T)"
      using A(2) unfolding merge_inv_def ends_inv_def by blast
    have "start A \<notin> T" using T(1) by (simp add: captive_def)
    with False have "eps_edge A v v" using T(2) that(1,2) by blast
    then have "eps_edge A (start A) v" using that(3,4) by (fastforce simp: eps_edge_def)
    then show ?thesis using that(1) by (auto simp: eps_edge_def intro: nfa_path_single_eps)
  qed auto
  from m have "nfa_lang B \<subseteq> nfa_lang A"
  proof (cases rule: merge_step.cases)
    case (merge_step_in s)
    from merge_inD [OF A(1) this] obtain v d src where m: "B = merge_states A d src" "only_in A v s" "v \<noteq> s"
      "\<exists>b. Transition v s None b \<in> edges A" "d \<noteq> src" "{d, src} = {v, s}" "src = s \<longrightarrow> v = start A"
      "src = v \<longrightarrow> v \<noteq> start A" "v < total_states A" "s < total_states A" by metis
    then have c: "contracts A v s d src" by (auto simp: contracts_def doubleton_eq_iff)
    have e: "eps_edge A v s" using m(4) by (simp add: eps_edge_def)
    show ?thesis
    proof (cases "s = start A")
      case False
      show ?thesis unfolding m(1)
        by (rule contract_in_exact [OF A(1) c False]) (use m(2) in \<open>auto simp: only_in_def\<close>)
    next
      case True
      have "\<not> eps_edge A s s" using m(2,3) by (force simp: eps_edge_def only_in_def)
      then consider "eps_edge A s v" | "\<forall>t \<in> edges A. frm t = v \<longrightarrow> ttype t = None \<and> (dest t = s \<or> eps_edge A s (dest t))"
        using A(2) e unfolding merge_inv_def start_inv_def True by blast
      then show ?thesis
      proof cases
        case 1
        show ?thesis unfolding m(1) by (rule contract_mutual_exact [OF A(1) c 1])
      next
        case 2
        show ?thesis unfolding m(1)
          by (rule contract_out_exact [OF A(1) c 2]) (use fin [of v] e m(3) 2 in \<open>simp add: True\<close>)
      qed
    qed
  next
    case (merge_step_out v)
    from merge_outD [OF A(1) this] obtain s d src where m: "B = merge_states A d src" "only_out A v s" "s \<noteq> v"
      "\<exists>b. Transition v s None b \<in> edges A" "d \<noteq> src" "{d, src} = {s, v}" "src = v \<longrightarrow> s = start A"
      "src = s \<longrightarrow> s \<noteq> start A" "s < total_states A" "v < total_states A" by metis
    then have c: "contracts A v s d src" by (auto simp: contracts_def doubleton_eq_iff)
    have e: "eps_edge A v s" using m(4) by (simp add: eps_edge_def)
    show ?thesis
    proof (cases "v \<in> set (end_states A) \<and> s \<notin> set (end_states A)")
      case False
      show ?thesis unfolding m(1)
        by (rule contract_out_exact [OF A(1) c]) (use m(2) False in \<open>auto simp: only_out_def\<close>)
    next
      case True
      have "\<not> eps_edge A v v" using m(2,3) by (force simp: eps_edge_def only_out_def)
      then obtain T where T: "captive A T" "s \<in> T"
        using A(2) True e unfolding merge_inv_def ends_inv_def by blast
      have "ttype t = None \<and> (frm t = v \<or> frm t = s)" if t: "t \<in> edges A" "dest t = s" for t
      proof -
        have n: "ttype t = None" by (rule captiveD(3) [OF T t])
        then have "eps_edge A (frm t) s" using t by (cases t) (auto simp: eps_edge_def)
        then show ?thesis using captiveD(4) [OF T _ e] m(3) n by blast
      qed
      then show ?thesis unfolding m(1) by (rule contract_in_exact [OF A(1) c captiveD(1) [OF T]])
    qed
  qed
  with merge_step_lang_mono [OF A(1) m] show ?thesis by blast
qed

text \<open>The invariant survives every contraction.\<close>

lemma merge_states_eps_edge:
  assumes "edges B = map_states h ` edges A"
  shows "eps_edge B x y \<longleftrightarrow> (\<exists>u v. eps_edge A u v \<and> h u = x \<and> h v = y)"
proof
  assume "eps_edge B x y"
  then obtain b t where t: "t \<in> edges A" "Transition x y None b = map_states h t" by (auto simp: eps_edge_def assms)
  then have "eps_edge A (frm t) (dest t)" "h (frm t) = x" "h (dest t) = y"
    by (cases t, auto simp: eps_edge_def map_states_def)+
  then show "\<exists>u v. eps_edge A u v \<and> h u = x \<and> h v = y" by blast
next
  assume "\<exists>u v. eps_edge A u v \<and> h u = x \<and> h v = y"
  then obtain u v b where "Transition u v None b \<in> edges A" "h u = x" "h v = y" by (auto simp: eps_edge_def)
  then have "map_states h (Transition u v None b) \<in> edges B" unfolding assms by blast
  with \<open>h u = x\<close> \<open>h v = y\<close> show "eps_edge B x y" by (auto simp: eps_edge_def map_states_def)
qed

lemma contract_start_inv:
  assumes A: "nfa_ok A" "start_inv A" and c: "contracts A v s d src"
  shows "start_inv (merge_states A d src)"
proof -
  let ?B = "merge_states A d src" and ?h = "redirect d src"
  have ds: "d \<noteq> src" "src \<noteq> start A" "{d, src} = {v, s}" "eps_edge A v s"
    using c by (simp_all add: contracts_def eps_edge_def)
  note M = merge_states_spec [OF A(1) ds(1)]
  have b: "d < total_states A" "src < total_states A" using contracts_bounds [OF c] by simp_all
  note M = M [OF b]
  note eps = merge_states_eps_edge [OF M(1)]
  have hst: "?h x = start A \<longleftrightarrow> x = start A \<or> (x = src \<and> d = start A)" for x
    using ds(2) by (auto simp: redirect_def)
  have hvs: "?h v = d" "?h s = d" "?h d = d" using ds(3) by (auto simp: redirect_def doubleton_eq_iff)
  show ?thesis
  proof (cases "d = start A \<or> eps_edge A (start A) (start A)")
    case True
    then have "eps_edge ?B (start A) (start A)" unfolding eps using ds(4) hvs hst by metis
    then show ?thesis by (simp add: start_inv_def M(2))
  next
    case False
    then have hst: "?h x = start A \<longleftrightarrow> x = start A" for x using hst by blast
    have pair: "start A \<noteq> v" "start A \<noteq> s" using ds False by (auto simp: doubleton_eq_iff)
    have "eps_edge ?B (start A) x \<or>
        (\<forall>t \<in> edges ?B. (dest t = x \<longrightarrow> ttype t \<noteq> None) \<and>
           (frm t = x \<longrightarrow> ttype t = None \<and> (dest t = start A \<or> eps_edge ?B (start A) (dest t))))"
      if x: "eps_edge ?B x (start A)" for x
    proof -
      obtain u where u: "eps_edge A u (start A)" "?h u = x" using x unfolding eps hst by blast
      consider "eps_edge A (start A) u" |
        (dead) "\<forall>t \<in> edges A. (dest t = u \<longrightarrow> ttype t \<noteq> None) \<and>
           (frm t = u \<longrightarrow> ttype t = None \<and> (dest t = start A \<or> eps_edge A (start A) (dest t)))"
        using A(2) False u(1) unfolding start_inv_def by blast
      then show ?thesis
      proof cases
        case 1
        then show ?thesis unfolding eps using u(2) hst by blast
      next
        case dead
        have "u \<noteq> s" using dead ds(4) by (force simp: eps_edge_def)
        show ?thesis
        proof (cases "u = v")
          case True
          then have "eps_edge A (start A) s" using dead ds(4) pair by (force simp: eps_edge_def)
          then have "eps_edge ?B (start A) x" unfolding eps using u(2) True hvs hst by metis
          then show ?thesis by blast
        next
          case False
          then have ux: "?h y = x \<longleftrightarrow> y = u" for y
            using u(2) \<open>u \<noteq> s\<close> ds(3) by (auto simp: redirect_def doubleton_eq_iff)
          have out: "dest t = start A \<or> eps_edge A (start A) (dest t) \<Longrightarrow>
              ?h (dest t) = start A \<or> eps_edge ?B (start A) (?h (dest t))" for t
            unfolding eps using hst by blast
          show ?thesis unfolding M(1) using dead out by (auto simp: ux)
        qed
      qed
    qed
    then show ?thesis unfolding start_inv_def M(2) by blast
  qed
qed

lemma contracts_redirect:
  assumes "contracts A v s d src"
  shows "redirect d src x = (if x = v \<or> x = s then d else x)" "d = v \<or> d = s" "src = v \<or> src = s" "d \<noteq> src"
  using assms by (auto simp: contracts_def redirect_def doubleton_eq_iff)

lemma contracted_automaton:
  assumes "nfa_ok A" and c: "contracts A v s d src"
  shows "edges (merge_states A d src) = map_states (redirect d src) ` edges A"
    "start (merge_states A d src) = start A"
    "eps_edge (merge_states A d src) x y \<longleftrightarrow> (\<exists>u w. eps_edge A u w \<and> redirect d src u = x \<and> redirect d src w = y)"
    "z \<in> set (end_states A) \<Longrightarrow> redirect d src z \<in> set (end_states (merge_states A d src))"
    "x \<in> set (end_states (merge_states A d src)) \<Longrightarrow> x \<noteq> d \<Longrightarrow> x \<in> set (end_states A)"
    "d \<in> set (end_states (merge_states A d src)) \<Longrightarrow> v \<in> set (end_states A) \<or> s \<in> set (end_states A)"
proof -
  have ds: "d \<noteq> src" "d = v \<or> d = s" "src = v \<or> src = s" using contracts_redirect [OF c] by simp_all
  note M = merge_states_spec [OF assms(1) ds(1) conjunct1 [OF contracts_bounds [OF c]] conjunct2 [OF contracts_bounds [OF c]]]
  show "edges (merge_states A d src) = map_states (redirect d src) ` edges A" "start (merge_states A d src) = start A"
    by (simp_all add: M)
  show "eps_edge (merge_states A d src) x y \<longleftrightarrow> (\<exists>u w. eps_edge A u w \<and> redirect d src u = x \<and> redirect d src w = y)"
    by (rule merge_states_eps_edge [OF M(1)])
  show "z \<in> set (end_states A) \<Longrightarrow> redirect d src z \<in> set (end_states (merge_states A d src))"
    using M(4) by (auto simp: redirect_def)
  show "x \<in> set (end_states (merge_states A d src)) \<Longrightarrow> x \<noteq> d \<Longrightarrow> x \<in> set (end_states A)"
    using M(4) by (auto split: if_splits)
  show "d \<in> set (end_states (merge_states A d src)) \<Longrightarrow> v \<in> set (end_states A) \<or> s \<in> set (end_states A)"
    using M(4) ds by (auto split: if_splits)
qed

text \<open>
  The set for the contracted automaton: the pair is in it as its representative when both states were.
\<close>

definition contracted :: "nat set \<Rightarrow> nat \<Rightarrow> nat \<Rightarrow> nat \<Rightarrow> nat set" where
  "contracted T v s d = T - {v, s} \<union> (if v \<in> T \<and> s \<in> T then {d} else {})"

text \<open>A silent transition to a captive or final state, not from a pair of which one is not captive, stays one.\<close>

lemma contracted_exit:
  assumes A: "nfa_ok A" "captive A T" and c: "contracts A v s d src"
    and e: "eps_edge A w y" "y \<in> T \<or> y \<in> set (end_states A)" and w: "w \<noteq> v \<and> w \<noteq> s \<or> v \<in> T \<and> s \<in> T"
  shows "redirect d src y \<in> contracted T v s d \<or> redirect d src y \<in> set (end_states (merge_states A d src))"
proof -
  note R = contracts_redirect(1) [OF c] and E = contracted_automaton(4) [OF A(1) c]
  have vs: "eps_edge A v s" "v \<noteq> s" using c by (auto simp: contracts_def eps_edge_def)
  from e(2) consider "y \<in> set (end_states A)" | "y \<in> T" "y \<noteq> v" "y \<noteq> s" | "v \<in> T" "s \<in> T" "y = v \<or> y = s"
    | "y = s" "s \<in> T" "v \<notin> T" | "y = v" "v \<in> T" "s \<notin> T" by blast
  then show ?thesis
  proof cases
    case 1 then show ?thesis using E by blast
  next
    case 4
    then have "w = v \<or> w = s" using captiveD(4) [OF A(2) _ e(1) [unfolded 4(1)] vs(1)] vs(2) by blast
    then show ?thesis using w 4 by blast
  next
    case 5
    then have "s \<in> set (end_states A)" using captiveD(5) [OF A(2) _ vs(1)] by blast
    then show ?thesis using E [of s] 5(1) by (simp add: R)
  qed (simp_all add: R contracted_def)
qed

lemma contract_captive:
  assumes A: "nfa_ok A" "captive A T" and c: "contracts A v s d src"
  shows "captive (merge_states A d src) (contracted T v s d)" (is "captive ?B ?T")
  unfolding captive_def
proof (intro conjI ballI allI impI)
  note R = contracts_redirect [OF c] and M = contracted_automaton [OF A(1) c]
  have vs: "eps_edge A v s" "v \<noteq> s" using c by (auto simp: contracts_def eps_edge_def)
  have mem: "x \<in> ?T \<longleftrightarrow> x \<in> T \<and> x \<noteq> v \<and> x \<noteq> s \<or> x = d \<and> v \<in> T \<and> s \<in> T" for x
    by (auto simp: contracted_def)
  have origin: "w0 \<in> T \<and> (w0 = w \<and> w \<noteq> v \<and> w \<noteq> s \<or> w = d \<and> v \<in> T \<and> s \<in> T \<and> (w0 = v \<or> w0 = s))"
    if "w \<in> ?T" "redirect d src w0 = w" for w w0
    using that R(2) unfolding mem R(1) by (auto split: if_splits)
  show "start ?B \<notin> ?T" using A(2) R(2) unfolding mem M(2) by (auto simp: captive_def)
  have "x \<notin> set (end_states ?B)" if "x \<in> ?T" for x
  proof (cases "x = d")
    case True
    then have "v \<in> T" "s \<in> T" using that R(2) unfolding mem by auto
    then show ?thesis using True captiveD(2) [OF A(2)] M(6) by blast
  next
    case False
    then show ?thesis using that captiveD(2) [OF A(2)] M(5) [of x] unfolding mem by blast
  qed
  then show "?T \<inter> set (end_states ?B) = {}" by blast
  fix w assume w: "w \<in> ?T"
  {
    fix t assume "t \<in> edges ?B" "dest t = w"
    then obtain u where "u \<in> edges A" "ttype t = ttype u" "redirect d src (dest u) = w" by (auto simp: M(1) map_states_def)
    then show "ttype t = None" using origin [OF w] captiveD(3) [OF A(2)] by metis
  next
    fix x y assume "eps_edge ?B x w" "eps_edge ?B y w"
    then obtain x0 w0 y0 w1 where e: "eps_edge A x0 w0" "redirect d src x0 = x" "redirect d src w0 = w"
      "eps_edge A y0 w1" "redirect d src y0 = y" "redirect d src w1 = w" unfolding M(3) by blast
    note W = origin [OF w e(3)] origin [OF w e(6)]
    show "x = w \<or> y = w \<or> x = y"
    proof (cases "w0 = w1")
      case True
      then have "x0 = w0 \<or> y0 = w0 \<or> x0 = y0" using captiveD(4) [OF A(2)] W e(1,4) by blast
      then show ?thesis using e True by auto
    next
      case False
      then have "w = d" "s \<in> T" "w0 = s \<or> w1 = s" using W R(2) by auto
      moreover have "z = v \<or> z = s" if "eps_edge A z s" for z
        using captiveD(4) [OF A(2) \<open>s \<in> T\<close> that vs(1)] vs(2) by blast
      ultimately show ?thesis using e(1,2,4,5) by (auto simp: R(1))
    qed
  next
    fix y assume "eps_edge ?B w y"
    then obtain w0 y0 where e: "eps_edge A w0 y0" "redirect d src w0 = w" "redirect d src y0 = y" unfolding M(3) by blast
    note W = origin [OF w e(2)]
    then have "w0 \<noteq> v \<and> w0 \<noteq> s \<or> v \<in> T \<and> s \<in> T" by blast
    with contracted_exit [OF A c e(1)] captiveD(5) [OF A(2) _ e(1)] W show "y \<in> ?T \<or> y \<in> set (end_states ?B)"
      unfolding e(3) [symmetric] by blast
  }
qed

lemma contract_ends_inv:
  assumes A: "nfa_ok A" "ends_inv A" and c: "contracts A v s d src"
  shows "ends_inv (merge_states A d src)"
proof -
  let ?B = "merge_states A d src"
  obtain T where T: "captive A T"
    "\<forall>u \<in> set (end_states A). eps_edge A u u \<or> (\<forall>v. eps_edge A u v \<longrightarrow> v \<in> set (end_states A) \<or> v \<in> T)"
    using A(2) unfolding ends_inv_def by blast
  note R = contracts_redirect [OF c] and M = contracted_automaton [OF A(1) c]
  have vs: "eps_edge A v s" using c by (auto simp: contracts_def eps_edge_def)
  have "eps_edge ?B x x \<or> (\<forall>y. eps_edge ?B x y \<longrightarrow> y \<in> set (end_states ?B) \<or> y \<in> contracted T v s d)"
    if x: "x \<in> set (end_states ?B)" for x
  proof -
    consider "x = d" | "x = src" | (old) "x \<noteq> v" "x \<noteq> s" "x \<in> set (end_states A)"
      using x M(5) R(2-4) by blast
    then show ?thesis
    proof cases
      case 1
      have "redirect d src v = d" "redirect d src s = d" by (simp_all add: R(1))
      then have "eps_edge ?B d d" unfolding M(3) using vs by blast
      then show ?thesis using 1 by simp
    next
      case 2
      have "redirect d src u \<noteq> src" for u using R(3,4) by (auto simp: R(1))
      then have "\<not> eps_edge ?B src y" for y unfolding M(3) by blast
      then show ?thesis using 2 by simp
    next
      case old
      have hx: "redirect d src u = x \<longleftrightarrow> u = x" for u using old(1,2) R(2) by (auto simp: R(1))
      show ?thesis
      proof (cases "eps_edge A x x")
        case True
        then have "eps_edge ?B x x" unfolding M(3) using hx by blast
        then show ?thesis ..
      next
        case False
        have "y \<in> set (end_states ?B) \<or> y \<in> contracted T v s d" if y: "eps_edge ?B x y" for y
        proof -
          obtain w where w: "eps_edge A x w" "redirect d src w = y" using y M(3) [of x y] by (auto simp: hx)
          then have "w \<in> T \<or> w \<in> set (end_states A)" using T(2) old(3) False by blast
          from contracted_exit [OF A(1) T(1) c w(1) this] old(1,2) show ?thesis unfolding w(2) by blast
        qed
        then show ?thesis by blast
      qed
    qed
  qed
  with contract_captive [OF A(1) T(1) c] show ?thesis unfolding ends_inv_def by blast
qed

lemma merge_step_inv:
  assumes A: "nfa_ok A" "merge_inv A" and m: "merge_step A B"
  shows "merge_inv B"
proof -
  obtain v s d src where B: "B = merge_states A d src" and c: "contracts A v s d src"
    by (rule merge_step_contracts [OF A(1) m])
  with A show ?thesis
    using contract_start_inv [OF A(1) _ c] contract_ends_inv [OF A(1) _ c] by (simp add: merge_inv_def)
qed

lemma merge_steps_exact:
  "merge_step\<^sup>*\<^sup>* A B \<Longrightarrow> nfa_ok A \<Longrightarrow> merge_inv A \<Longrightarrow> nfa_lang B = nfa_lang A \<and> merge_inv B"
proof (induction rule: rtranclp_induct)
  case (step B C)
  then show ?case using merge_steps_ok [of A B] merge_step_exact [of B C] merge_step_inv [of B C] by simp
qed simp

end
