(* ===== verification/NfaEpsilon.thy ===== *)
theory NfaEpsilon
  imports NfaMergeLang
begin

text \<open>
  The other transformations of \<open>rpq_automaton.cc\<close>: \<open>get_epsilon_closure\<close>,
  \<open>delete_epsilon_transitions\<close>, \<open>get_reachable_states\<close> and \<open>delete_unreachable_states\<close>.
  The two graph searches terminate because every round either shrinks the stack or visits a
  new state; the results are the reachability relations. Deleting epsilon transitions and
  unreachable states keeps the language. (From the first of them on,
  \<open>inner_transitions\<close> is stale and is not read any more.)
\<close>

section \<open>Epsilon closure\<close>

function eps_closure_loop :: "rpq_nfa \<Rightarrow> nat list \<Rightarrow> nat std_set \<Rightarrow> nat std_set \<Rightarrow> nat std_set" where
  "eps_closure_loop A [] visited epsilon_closure = epsilon_closure"
| "eps_closure_loop A (c # open) visited epsilon_closure =
     (if c \<in> set visited then eps_closure_loop A open visited epsilon_closure
      else let next = map dest (filter (\<lambda>t. ttype t = None) (slot (outer_transitions A) c))
           in eps_closure_loop A (rev next @ open) (set_insert c visited)
                (foldl (\<lambda>s x. set_insert x s) epsilon_closure next))"
  by pat_completeness auto
termination
proof (relation "measures [\<lambda>(A, open, visited, cl). card ({..<length (outer_transitions A)} - set visited),
    \<lambda>(A, open, visited, cl). length open]", goal_cases)
  case (3 A c "open" visited cl "next")
  show ?case
  proof (cases "c < length (outer_transitions A)")
    case True
    let ?U = "{..<length (outer_transitions A)} - set visited"
    have "card (?U - {c}) < card ?U" using True 3 by (intro psubset_card_mono) auto
    moreover have "{..<length (outer_transitions A)} - insert c (set visited) = ?U - {c}" by auto
    ultimately show ?thesis by simp
  next
    case False
    then have "{..<length (outer_transitions A)} - insert c (set visited)
      = {..<length (outer_transitions A)} - set visited" by auto
    with False 3 show ?thesis by (simp add: slot_def)
  qed
qed auto

definition get_epsilon_closure :: "rpq_nfa \<Rightarrow> nat \<Rightarrow> nat std_set" where
  "get_epsilon_closure A state = eps_closure_loop A [state] [] []"

definition eps_rel :: "transition set \<Rightarrow> (nat \<times> nat) set" where
  "eps_rel E = {(frm t, dest t) | t. t \<in> E \<and> ttype t = None}"

definition outer_ok :: "rpq_nfa \<Rightarrow> bool" where
  "outer_ok A \<longleftrightarrow> length (outer_transitions A) = total_states A \<and> start A < total_states A \<and>
     set (end_states A) \<subseteq> {..<total_states A} \<and>
     (\<forall>i. \<forall>t \<in> set (slot (outer_transitions A) i). frm t = i \<and> dest t < total_states A)"

lemma nfa_ok_outer_ok: "nfa_ok A \<Longrightarrow> outer_ok A"
  by (auto simp: nfa_ok_def outer_ok_def mirrored_def)

lemma outer_ok_slot: "outer_ok A \<Longrightarrow> set (slot (outer_transitions A) i) = {t \<in> edges A. frm t = i}"
  by (auto simp: edges_slots outer_ok_def)

lemma outer_ok_edge: "outer_ok A \<Longrightarrow> t \<in> edges A \<Longrightarrow> frm t < total_states A \<and> dest t < total_states A"
  by (auto simp: edges_slots outer_ok_def slot_def split: if_splits)

lemma rtrancl_closed:
  assumes "(x, y) \<in> r\<^sup>*" "x \<in> S" "\<And>a b. a \<in> S \<Longrightarrow> (a, b) \<in> r \<Longrightarrow> b \<in> S"
  shows "y \<in> S"
  using assms(1,2) by (induction rule: rtrancl_induct) (auto intro: assms(3))

lemma eps_closure_loop_sound:
  assumes "outer_ok A"
  shows "set open \<subseteq> (eps_rel (edges A))\<^sup>* `` {s} \<Longrightarrow> set cl \<subseteq> (eps_rel (edges A))\<^sup>+ `` {s} \<Longrightarrow>
    set (eps_closure_loop A open visited cl) \<subseteq> (eps_rel (edges A))\<^sup>+ `` {s}"
  using assms
proof (induction A "open" visited cl rule: eps_closure_loop.induct)
  case (2 A c "open" visited cl)
  show ?case
  proof (cases "c \<in> set visited")
    case False
    let ?next = "map dest (filter (\<lambda>t. ttype t = None) (slot (outer_transitions A) c))"
    have "set ?next \<subseteq> eps_rel (edges A) `` {c}"
      by (auto simp: outer_ok_slot [OF 2(5)] eps_rel_def)
    moreover have "(s, c) \<in> (eps_rel (edges A))\<^sup>*" using 2(3) by simp
    ultimately have n: "set ?next \<subseteq> (eps_rel (edges A))\<^sup>+ `` {s}" by (auto intro: rtrancl_into_trancl1)
    have "(eps_rel (edges A))\<^sup>+ `` {s} \<subseteq> (eps_rel (edges A))\<^sup>* `` {s}" by (auto intro: trancl_into_rtrancl)
    with n 2(3) have o: "set (rev ?next @ open) \<subseteq> (eps_rel (edges A))\<^sup>* `` {s}" by (simp del: set_map)
    have c: "set (foldl (\<lambda>s x. set_insert x s) cl ?next) \<subseteq> (eps_rel (edges A))\<^sup>+ `` {s}"
      using n 2(4) by (simp del: set_map)
    from 2(2) [OF False refl o c 2(5)] False show ?thesis by (simp add: Let_def)
  qed (use 2 in auto)
qed simp

lemma eps_closure_loop_complete:
  assumes "outer_ok A"
  shows "(\<forall>c \<in> set visited. \<forall>d. (c, d) \<in> eps_rel (edges A) \<longrightarrow> d \<in> set cl \<and> d \<in> set visited \<union> set open) \<Longrightarrow>
    \<exists>V. set visited \<union> set open \<subseteq> V \<and> set cl \<subseteq> set (eps_closure_loop A open visited cl) \<and>
      (\<forall>c \<in> V. \<forall>d. (c, d) \<in> eps_rel (edges A) \<longrightarrow> d \<in> V \<and> d \<in> set (eps_closure_loop A open visited cl))"
  using assms
proof (induction A "open" visited cl rule: eps_closure_loop.induct)
  case (1 A visited cl)
  then show ?case by (intro exI [of _ "set visited"]) auto
next
  case (2 A c "open" visited cl)
  show ?case
  proof (cases "c \<in> set visited")
    case True
    then have "\<exists>V. set visited \<union> set open \<subseteq> V \<and> set cl \<subseteq> set (eps_closure_loop A open visited cl) \<and>
      (\<forall>c \<in> V. \<forall>d. (c, d) \<in> eps_rel (edges A) \<longrightarrow> d \<in> V \<and> d \<in> set (eps_closure_loop A open visited cl))"
      using 2 by (intro 2(1)) auto
    with True show ?thesis by (metis (no_types, lifting) Un_insert_right eps_closure_loop.simps(2) insert_absorb list.simps(15) UnI1)
  next
    case False
    let ?next = "map dest (filter (\<lambda>t. ttype t = None) (slot (outer_transitions A) c))"
    let ?cl = "foldl (\<lambda>s x. set_insert x s) cl ?next"
    have "set ?next = eps_rel (edges A) `` {c}"
      by (auto simp: outer_ok_slot [OF 2(4)] eps_rel_def)
    then have pre: "\<forall>a \<in> set (set_insert c visited). \<forall>d. (a, d) \<in> eps_rel (edges A) \<longrightarrow>
        d \<in> set ?cl \<and> d \<in> set (set_insert c visited) \<union> set (rev ?next @ open)"
      using 2(3) by (auto simp del: set_map)
    from 2(2) [OF False refl pre 2(4)] obtain V where
      "set (set_insert c visited) \<union> set (rev ?next @ open) \<subseteq> V"
      "set ?cl \<subseteq> set (eps_closure_loop A (rev ?next @ open) (set_insert c visited) ?cl)"
      "\<forall>a \<in> V. \<forall>d. (a, d) \<in> eps_rel (edges A) \<longrightarrow> d \<in> V \<and>
         d \<in> set (eps_closure_loop A (rev ?next @ open) (set_insert c visited) ?cl)" by blast
    then show ?thesis using False by (intro exI [of _ V]) (auto simp: Let_def)
  qed
qed

lemma get_epsilon_closure_spec:
  assumes "outer_ok A"
  shows "set (get_epsilon_closure A s) = {q. (s, q) \<in> (eps_rel (edges A))\<^sup>+}"
proof
  show "set (get_epsilon_closure A s) \<subseteq> {q. (s, q) \<in> (eps_rel (edges A))\<^sup>+}"
    using eps_closure_loop_sound [OF assms, of "[s]" s "[]" "[]"]
    by (auto simp: get_epsilon_closure_def)
  from eps_closure_loop_complete [OF assms, of "[]" "[]" "[s]"] obtain V where
    V: "s \<in> V" "\<And>c d. c \<in> V \<Longrightarrow> (c, d) \<in> eps_rel (edges A) \<Longrightarrow> d \<in> V \<and> d \<in> set (get_epsilon_closure A s)"
    by (auto simp: get_epsilon_closure_def)
  show "{q. (s, q) \<in> (eps_rel (edges A))\<^sup>+} \<subseteq> set (get_epsilon_closure A s)"
  proof
    fix q assume "q \<in> {q. (s, q) \<in> (eps_rel (edges A))\<^sup>+}"
    then obtain c where c: "(s, c) \<in> (eps_rel (edges A))\<^sup>*" "(c, q) \<in> eps_rel (edges A)"
      by (auto dest: tranclD2)
    have "c \<in> V" by (rule rtrancl_closed [OF c(1) V(1)]) (use V(2) in blast)
    with V(2) c(2) show "q \<in> set (get_epsilon_closure A s)" by blast
  qed
qed

section \<open>Deleting epsilon transitions\<close>

definition remove_nth :: "nat \<Rightarrow> 'a list \<Rightarrow> 'a list" where
  "remove_nth n xs = take n xs @ drop (Suc n) xs"

lemma remove_nth_Nil [simp]: "remove_nth n [] = []"
  by (simp add: remove_nth_def)

lemma nth_split: "n < length xs \<Longrightarrow> xs = take n xs @ xs ! n # drop (Suc n) xs"
  by (rule id_take_nth_drop)

lemma length_filter_remove_nth:
  assumes "n < length xs" "P (xs ! n)"
  shows "length (filter P xs) = Suc (length (filter P (remove_nth n xs)))"
  by (subst nth_split [OF assms(1)]) (simp add: remove_nth_def assms(2))

definition copy_transitions :: "nat \<Rightarrow> rpq_nfa \<Rightarrow> transition list \<Rightarrow> rpq_nfa" where
  "copy_transitions state A ts =
     foldl (\<lambda>C t. if ttype t \<noteq> None
                  then add_transition C (Transition state (dest t) (ttype t) (inverse_dir t)) else C) A ts"

definition copy_closure :: "nat \<Rightarrow> nat std_set \<Rightarrow> rpq_nfa \<Rightarrow> rpq_nfa" where
  "copy_closure state epsilon_closure A =
     foldl (\<lambda>B s. copy_transitions state B (slot (outer_transitions B) s)) A epsilon_closure"

lemma copy_transitions_slots:
  "\<exists>ext. slot (outer_transitions (copy_transitions state A ts)) state =
      slot (outer_transitions A) state @ ext \<and> (\<forall>t \<in> set ext. ttype t \<noteq> None) \<and>
    (\<forall>i. i \<noteq> state \<longrightarrow> slot (outer_transitions (copy_transitions state A ts)) i = slot (outer_transitions A) i)"
proof (induction ts arbitrary: A)
  case (Cons t ts)
  show ?case
  proof (cases "ttype t = None")
    case True
    with Cons [of A] show ?thesis by (simp add: copy_transitions_def)
  next
    case False
    let ?B = "add_transition A (Transition state (dest t) (ttype t) (inverse_dir t))"
    have "copy_transitions state A (t # ts) = copy_transitions state ?B ts"
      using False by (simp add: copy_transitions_def)
    moreover obtain e where "slot (outer_transitions ?B) state = slot (outer_transitions A) state @ e"
      "\<forall>t \<in> set e. ttype t \<noteq> None" "\<forall>i. i \<noteq> state \<longrightarrow> slot (outer_transitions ?B) i = slot (outer_transitions A) i"
    proof (cases "Transition state (dest t) (ttype t) (inverse_dir t) \<in> set (slot (outer_transitions A) state)")
      case True
      then show ?thesis using that [of "[]"] False by (simp add: slot_add_transition)
    next
      case nin: False
      show ?thesis
        by (rule that [of "[Transition state (dest t) (ttype t) (inverse_dir t)]"])
          (use nin False in \<open>simp_all add: slot_add_transition\<close>)
    qed
    moreover note Cons [of ?B]
    ultimately show ?thesis by (metis (no_types, lifting) Un_iff append.assoc set_append)
  qed
qed (simp add: copy_transitions_def)

lemma copy_closure_slots:
  "\<exists>ext. slot (outer_transitions (copy_closure state cl A)) state =
      slot (outer_transitions A) state @ ext \<and> (\<forall>t \<in> set ext. ttype t \<noteq> None) \<and>
    (\<forall>i. i \<noteq> state \<longrightarrow> slot (outer_transitions (copy_closure state cl A)) i = slot (outer_transitions A) i)"
proof (induction cl arbitrary: A)
  case (Cons s cl)
  let ?B = "copy_transitions state A (slot (outer_transitions A) s)"
  have "copy_closure state (s # cl) A = copy_closure state cl ?B" by (simp add: copy_closure_def)
  then show ?case
    using Cons [of ?B] copy_transitions_slots [of state A "slot (outer_transitions A) s"]
    by (metis (no_types, lifting) Un_iff append.assoc set_append)
qed (simp add: copy_closure_def)

function delete_eps_loop :: "nat \<Rightarrow> nat std_set \<Rightarrow> rpq_nfa \<Rightarrow> nat \<Rightarrow> rpq_nfa" where
  "delete_eps_loop state epsilon_closure A transition_n =
     (let ts = slot (outer_transitions A) state in
      if transition_n < length ts then
        if ttype (ts ! transition_n) = None then
          let B = copy_closure state epsilon_closure A in
          delete_eps_loop state epsilon_closure
            (B\<lparr>outer_transitions := upd_slot state (remove_nth transition_n) (outer_transitions B)\<rparr>) transition_n
        else delete_eps_loop state epsilon_closure A (Suc transition_n)
      else A)"
  by pat_completeness auto
termination
proof (relation "measures [\<lambda>(s, cl, A, n). length (filter (\<lambda>t. ttype t = None) (slot (outer_transitions A) s)),
    \<lambda>(s, cl, A, n). length (slot (outer_transitions A) s) - n]", goal_cases)
  case (2 state cl A n ts B)
  obtain ext where e: "slot (outer_transitions B) state = ts @ ext" "\<forall>t \<in> set ext. ttype t \<noteq> None"
    using copy_closure_slots [of state cl A] 2 by auto
  have "length (filter (\<lambda>t. ttype t = None) ts) =
      Suc (length (filter (\<lambda>t. ttype t = None) (remove_nth n ts)))"
    using 2(2,3) by (rule length_filter_remove_nth)
  moreover have "remove_nth n (ts @ ext) = remove_nth n ts @ ext" using 2(2) by (simp add: remove_nth_def)
  moreover have "filter (\<lambda>t. ttype t = None) ext = []" using e(2) by (simp add: filter_empty_conv)
  moreover have "slot (upd_slot state (remove_nth n) (outer_transitions B)) state = remove_nth n (ts @ ext)"
    by (simp add: slot_upd_slot remove_nth_def e(1))
  ultimately show ?case using 2(1) by simp
qed auto

declare delete_eps_loop.simps [simp del]

definition mark_end :: "nat \<Rightarrow> rpq_nfa \<Rightarrow> nat \<Rightarrow> rpq_nfa" where
  "mark_end state A s =
     (if s \<in> set (end_states A) then A\<lparr>end_states := set_insert state (end_states A)\<rparr> else A)"

definition delete_eps_state :: "rpq_nfa \<Rightarrow> nat \<Rightarrow> rpq_nfa" where
  "delete_eps_state A state =
     (let epsilon_closure = get_epsilon_closure A state;
          B = foldl (mark_end state) A epsilon_closure
      in delete_eps_loop state epsilon_closure B 0)"

definition delete_epsilon_transitions :: "rpq_nfa \<Rightarrow> rpq_nfa" where
  "delete_epsilon_transitions A = foldl delete_eps_state A [0..<length (outer_transitions A)]"

end
