(* ===== verification/NfaEpsilonLang.thy ===== *)
theory NfaEpsilonLang
  imports NfaEpsilon
begin

text \<open>
  \<open>delete_epsilon_transitions\<close> keeps the language: the effect of the two copy loops on the
  slots, of the loop that erases the epsilon transitions of one state, then the runs.
\<close>

section \<open>Effect on the slots\<close>

definition relabel_from :: "nat \<Rightarrow> transition \<Rightarrow> transition" where
  "relabel_from q t = Transition q (dest t) (ttype t) (inverse_dir t)"

lemma relabel_from_sel [simp]:
  "frm (relabel_from q t) = q" "dest (relabel_from q t) = dest t"
  "ttype (relabel_from q t) = ttype t" "inverse_dir (relabel_from q t) = inverse_dir t"
  "letter (relabel_from q t) = letter t"
  by (simp_all add: relabel_from_def letter_def split: option.split)

lemma relabel_from_id: "frm t = q \<Longrightarrow> relabel_from q t = t"
  by (cases t) (simp add: relabel_from_def)

text \<open>Only the slot of \<open>q\<close> may differ; the rest of the automaton is the same.\<close>

definition same_but :: "nat \<Rightarrow> rpq_nfa \<Rightarrow> rpq_nfa \<Rightarrow> bool" where
  "same_but q A B \<longleftrightarrow> start B = start A \<and> end_states B = end_states A \<and>
     total_states B = total_states A \<and> length (outer_transitions B) = length (outer_transitions A) \<and>
     (\<forall>i. i \<noteq> q \<longrightarrow> slot (outer_transitions B) i = slot (outer_transitions A) i)"

lemma same_but_refl [simp]: "same_but q A A"
  by (simp add: same_but_def)

lemma same_but_trans: "same_but q A B \<Longrightarrow> same_but q B C \<Longrightarrow> same_but q A C"
  by (simp add: same_but_def)

lemma same_but_outer_ok:
  assumes "same_but q A B" "outer_ok A"
    and "\<forall>t \<in> set (slot (outer_transitions B) q). frm t = q \<and> dest t < total_states A"
  shows "outer_ok B"
  unfolding outer_ok_def
proof (intro conjI allI)
  fix i
  show "\<forall>t \<in> set (slot (outer_transitions B) i). frm t = i \<and> dest t < total_states B"
    using assms by (cases "i = q") (auto simp: same_but_def outer_ok_def)
qed (use assms in \<open>auto simp: same_but_def outer_ok_def\<close>)

lemma copy_transitions_spec:
  assumes "outer_ok A" "q < total_states A" "\<forall>t \<in> set ts. dest t < total_states A"
  shows "same_but q A (copy_transitions q A ts) \<and> outer_ok (copy_transitions q A ts) \<and>
     set (slot (outer_transitions (copy_transitions q A ts)) q) =
       set (slot (outer_transitions A) q) \<union> relabel_from q ` {t \<in> set ts. ttype t \<noteq> None}"
  using assms
proof (induction ts arbitrary: A)
  case (Cons t ts)
  let ?B = "if ttype t \<noteq> None then add_transition A (relabel_from q t) else A"
  have step: "copy_transitions q A (t # ts) = copy_transitions q ?B ts"
    by (simp add: copy_transitions_def relabel_from_def)
  have len: "length (outer_transitions A) = total_states A" using Cons(2) by (simp add: outer_ok_def)
  have sB: "set (slot (outer_transitions ?B) q) =
      set (slot (outer_transitions A) q) \<union> relabel_from q ` {x \<in> {t}. ttype x \<noteq> None}"
    by (auto simp: slot_add_transition)
  have same: "same_but q A ?B"
    using Cons(3,4) len by (auto simp: same_but_def slot_add_transition)
  have "outer_ok ?B"
    by (rule same_but_outer_ok [OF same Cons(2)]) (use Cons(2,4) sB in \<open>auto simp: outer_ok_def split: if_splits\<close>)
  moreover have "total_states ?B = total_states A" using same by (simp add: same_but_def)
  ultimately have IH: "same_but q ?B (copy_transitions q ?B ts) \<and> outer_ok (copy_transitions q ?B ts) \<and>
     set (slot (outer_transitions (copy_transitions q ?B ts)) q) =
       set (slot (outer_transitions ?B) q) \<union> relabel_from q ` {t \<in> set ts. ttype t \<noteq> None}"
    using Cons(3,4) by (intro Cons.IH) auto
  have img: "relabel_from q ` {x \<in> set (t # ts). ttype x \<noteq> None} =
      relabel_from q ` {x \<in> {t}. ttype x \<noteq> None} \<union> relabel_from q ` {x \<in> set ts. ttype x \<noteq> None}"
    by auto
  show ?case unfolding step img using IH same_but_trans [OF same] sB by (simp only: Un_assoc)
qed (simp add: copy_transitions_def)

definition closure_copies :: "nat \<Rightarrow> nat list \<Rightarrow> rpq_nfa \<Rightarrow> transition set" where
  "closure_copies q cl A =
     relabel_from q ` {t. ttype t \<noteq> None \<and> (\<exists>s \<in> set cl. t \<in> set (slot (outer_transitions A) s))}"

definition labelled :: "rpq_nfa \<Rightarrow> nat \<Rightarrow> transition set" where
  "labelled A q = {t \<in> set (slot (outer_transitions A) q). ttype t \<noteq> None}"

lemma closure_copies_Cons:
  "closure_copies q (s # cl) A = relabel_from q ` labelled A s \<union> closure_copies q cl A"
  by (auto simp: closure_copies_def labelled_def)

lemma relabel_labelled_self: "outer_ok A \<Longrightarrow> relabel_from q ` labelled A q = labelled A q"
  by (force simp: labelled_def outer_ok_def relabel_from_id image_iff)

text \<open>Copying from the slot of \<open>q\<close> itself adds nothing, so copies do not depend on earlier copies.\<close>

lemma closure_copies_stable:
  assumes "same_but q A B" "outer_ok A" "outer_ok B"
    and "labelled A q \<subseteq> labelled B q"
  shows "labelled B q \<union> closure_copies q cl B = labelled B q \<union> closure_copies q cl A"
proof (induction cl)
  case (Cons s cl)
  have "labelled B q \<union> relabel_from q ` labelled B s = labelled B q \<union> relabel_from q ` labelled A s"
  proof (cases "s = q")
    case True
    then show ?thesis using relabel_labelled_self assms by (metis Un_absorb Un_absorb2)
  next
    case False
    then show ?thesis using assms(1) by (simp add: labelled_def same_but_def)
  qed
  with Cons show ?case by (simp only: closure_copies_Cons) blast
qed (simp add: closure_copies_def)

lemma copy_closure_spec:
  assumes "outer_ok A" "q < total_states A"
  shows "same_but q A (copy_closure q cl A) \<and> outer_ok (copy_closure q cl A) \<and>
     set (slot (outer_transitions (copy_closure q cl A)) q) =
       set (slot (outer_transitions A) q) \<union> closure_copies q cl A"
  using assms
proof (induction cl arbitrary: A)
  case (Cons s cl)
  let ?B = "copy_transitions q A (slot (outer_transitions A) s)"
  have step: "copy_closure q (s # cl) A = copy_closure q cl ?B" by (simp add: copy_closure_def)
  have "\<forall>t \<in> set (slot (outer_transitions A) s). dest t < total_states A"
    using Cons(2) by (auto simp: outer_ok_def)
  note B = copy_transitions_spec [OF Cons(2,3) this]
  then have tot: "total_states ?B = total_states A" by (simp add: same_but_def)
  with B Cons(3) have IH: "same_but q ?B (copy_closure q cl ?B) \<and> outer_ok (copy_closure q cl ?B) \<and>
     set (slot (outer_transitions (copy_closure q cl ?B)) q) =
       set (slot (outer_transitions ?B) q) \<union> closure_copies q cl ?B"
    by (intro Cons.IH) auto
  have lab: "labelled A q \<subseteq> labelled ?B q" using B by (auto simp: labelled_def)
  have "labelled ?B q \<union> closure_copies q cl ?B = labelled ?B q \<union> closure_copies q cl A"
    by (rule closure_copies_stable) (use B Cons(2) lab in auto)
  moreover have "labelled ?B q \<subseteq> set (slot (outer_transitions ?B) q)" by (auto simp: labelled_def)
  ultimately have "set (slot (outer_transitions (copy_closure q cl ?B)) q) =
      set (slot (outer_transitions ?B) q) \<union> closure_copies q cl A" using IH by blast
  then have "set (slot (outer_transitions (copy_closure q cl ?B)) q) =
      set (slot (outer_transitions A) q) \<union> (relabel_from q ` labelled A s \<union> closure_copies q cl A)"
    using B by (simp add: labelled_def Un_assoc)
  moreover have "same_but q A (copy_closure q cl ?B)" using B IH by (blast intro: same_but_trans)
  ultimately show ?case using IH by (simp add: step closure_copies_Cons)
qed (simp add: copy_closure_def closure_copies_def)

lemma set_remove_nth:
  assumes "n < length xs" shows "set xs = insert (xs ! n) (set (remove_nth n xs))"
  using arg_cong [OF nth_split [OF assms], of set] by (simp add: remove_nth_def)

lemma set_remove_nth_eps:
  assumes "n < length xs" "\<not> P (xs ! n)"
  shows "{x \<in> set (remove_nth n xs). P x} = {x \<in> set xs. P x}"
  using assms(2) by (auto simp: set_remove_nth [OF assms(1)])

lemma set_remove_nth_subset: "set (remove_nth n xs) \<subseteq> set xs"
  by (auto simp: remove_nth_def dest: in_set_takeD in_set_dropD)

lemma delete_eps_loop_spec:
  assumes "outer_ok A" "q < total_states A"
    and "\<forall>k < n. k < length (slot (outer_transitions A) q) \<longrightarrow> ttype (slot (outer_transitions A) q ! k) \<noteq> None"
  shows "same_but q A (delete_eps_loop q cl A n) \<and> outer_ok (delete_eps_loop q cl A n) \<and>
     set (slot (outer_transitions (delete_eps_loop q cl A n)) q) =
       labelled A q \<union> (if \<exists>t \<in> set (slot (outer_transitions A) q). ttype t = None
                       then closure_copies q cl A else {})"
  using assms
proof (induction q cl A n rule: delete_eps_loop.induct)
  case (1 q cl A n)
  let ?ts = "slot (outer_transitions A) q"
  consider (eps) "n < length ?ts" "ttype (?ts ! n) = None"
    | (lab) "n < length ?ts" "ttype (?ts ! n) \<noteq> None" | (fin) "\<not> n < length ?ts" by blast
  then show ?case
  proof cases
    case fin
    then have "\<forall>t \<in> set ?ts. ttype t \<noteq> None" using 1(5) by (auto simp: in_set_conv_nth)
    then show ?thesis using fin 1(3) by (subst (1 2 3) delete_eps_loop.simps) (auto simp: labelled_def)
  next
    case lab
    have "delete_eps_loop q cl A n = delete_eps_loop q cl A (Suc n)"
      by (subst delete_eps_loop.simps) (use lab in \<open>auto simp: Let_def\<close>)
    moreover have "\<forall>k < Suc n. k < length ?ts \<longrightarrow> ttype (?ts ! k) \<noteq> None"
      using 1(5) lab by (auto simp: less_Suc_eq)
    ultimately show ?thesis using 1(2) [OF refl lab 1(3,4)] by simp
  next
    case eps
    let ?B = "copy_closure q cl A"
    let ?C = "?B\<lparr>outer_transitions := upd_slot q (remove_nth n) (outer_transitions ?B)\<rparr>"
    note B = copy_closure_spec [OF 1(3,4), of cl]
    obtain ext where ext: "slot (outer_transitions ?B) q = ?ts @ ext"
      using copy_closure_slots [of q cl A] by blast
    have sC: "slot (outer_transitions ?C) q = remove_nth n (?ts @ ext)"
      by (simp add: slot_upd_slot ext)
    have same: "same_but q A ?C" using B by (simp add: same_but_def slot_upd_slot)
    have sub: "set (slot (outer_transitions ?C) q) \<subseteq> set (slot (outer_transitions ?B) q)"
      unfolding sC ext by (rule set_remove_nth_subset)
    have "\<forall>t \<in> set (slot (outer_transitions ?B) q). frm t = q \<and> dest t < total_states A"
    proof -
      from B have "outer_ok ?B" "total_states ?B = total_states A" by (simp_all add: same_but_def)
      then show ?thesis unfolding outer_ok_def by metis
    qed
    then have ok: "outer_ok ?C" using sub by (intro same_but_outer_ok [OF same 1(3)]) blast
    have nth: "(?ts @ ext) ! n = ?ts ! n" using eps by (simp add: nth_append)
    have lC: "labelled ?C q = labelled A q \<union> closure_copies q cl A"
      using eps(1) set_remove_nth_eps [of n "?ts @ ext" "\<lambda>t. ttype t \<noteq> None"] eps(2) B
      unfolding labelled_def sC nth by (auto simp: ext closure_copies_def)
    have pre: "\<forall>k < n. k < length (slot (outer_transitions ?C) q) \<longrightarrow> ttype (slot (outer_transitions ?C) q ! k) \<noteq> None"
      unfolding sC remove_nth_def using 1(5) eps(1) by (auto simp: nth_append)
    have tot: "q < total_states ?C" using same 1(4) by (simp add: same_but_def)
    have step: "delete_eps_loop q cl A n = delete_eps_loop q cl ?C n"
      by (subst delete_eps_loop.simps) (use eps in \<open>simp add: Let_def\<close>)
    note IH = 1(1) [OF refl eps refl ok tot pre]
    have "labelled ?C q \<union> closure_copies q cl ?C = labelled ?C q \<union> closure_copies q cl A"
      by (rule closure_copies_stable [OF same 1(3) ok]) (simp add: lC)
    then have "closure_copies q cl ?C \<subseteq> labelled A q \<union> closure_copies q cl A" using lC by blast
    moreover have "\<exists>t \<in> set ?ts. ttype t = None" using eps by (metis nth_mem)
    ultimately show ?thesis unfolding step using IH same_but_trans [OF same] lC by auto
  qed
qed

section \<open>One state\<close>

lemma end_states_fold:
  "set (end_states (foldl (mark_end q) A cl)) =
      set (end_states A) \<union> (if set cl \<inter> set (end_states A) = {} then {} else {q}) \<and>
    foldl (mark_end q) A cl = A\<lparr>end_states := end_states (foldl (mark_end q) A cl)\<rparr>"
proof (induction cl arbitrary: A)
  case (Cons s cl)
  show ?case using Cons [of "mark_end q A s"] by (auto simp: mark_end_def)
qed simp

lemma delete_eps_state_spec:
  assumes A: "outer_ok A" "q < total_states A"
  defines "B \<equiv> delete_eps_state A q"
  defines "cl \<equiv> {s. (q, s) \<in> (eps_rel (edges A))\<^sup>+}"
  shows "outer_ok B" "start B = start A" "total_states B = total_states A"
    "edges B = {t \<in> edges A. frm t \<noteq> q \<or> ttype t \<noteq> None} \<union>
       relabel_from q ` {t \<in> edges A. ttype t \<noteq> None \<and> frm t \<in> cl}"
    "set (end_states B) = set (end_states A) \<union> (if cl \<inter> set (end_states A) = {} then {} else {q})"
proof -
  let ?cl = "get_epsilon_closure A q"
  let ?C = "foldl (mark_end q) A ?cl"
  have cl: "set ?cl = cl" by (simp add: cl_def get_epsilon_closure_spec [OF A(1)])
  have C: "set (end_states ?C) = set (end_states A) \<union> (if cl \<inter> set (end_states A) = {} then {} else {q})"
    "?C = A\<lparr>end_states := end_states ?C\<rparr>"
    using end_states_fold [of q A ?cl] unfolding cl by blast+
  from C(2) have sel: "outer_transitions ?C = outer_transitions A" "start ?C = start A" "total_states ?C = total_states A"
    by (metis rpq_nfa.select_convs(1,2,4) rpq_nfa.surjective rpq_nfa.update_convs(3))+
  then have "outer_ok ?C" using A C(1) by (auto simp: outer_ok_def split: if_splits)
  moreover have "q < total_states ?C" using A(2) sel by simp
  moreover have B: "B = delete_eps_loop q ?cl ?C 0" by (simp add: B_def delete_eps_state_def Let_def)
  ultimately have S: "same_but q ?C B" "outer_ok B" and
    slot: "set (slot (outer_transitions B) q) = labelled ?C q \<union>
       (if \<exists>t \<in> set (slot (outer_transitions ?C) q). ttype t = None then closure_copies q ?cl ?C else {})"
    using delete_eps_loop_spec [of ?C q 0 ?cl] by simp_all
  show "outer_ok B" by (rule S(2))
  show "start B = start A" "total_states B = total_states A" using S(1) sel by (simp_all add: same_but_def)
  show "set (end_states B) = set (end_states A) \<union> (if cl \<inter> set (end_states A) = {} then {} else {q})"
    using S(1) C(1) by (simp add: same_but_def)
  note osl = outer_ok_slot [OF A(1)] outer_ok_slot [OF S(2)]
  have "cl = {}" if "\<not> (\<exists>t \<in> edges A. frm t = q \<and> ttype t = None)"
    using that by (auto simp: cl_def eps_rel_def dest!: tranclD)
  moreover have "labelled ?C q = {t \<in> edges A. frm t = q \<and> ttype t \<noteq> None}"
    by (auto simp: labelled_def sel osl)
  moreover have "closure_copies q ?cl ?C = relabel_from q ` {t \<in> edges A. ttype t \<noteq> None \<and> frm t \<in> cl}"
    by (simp add: closure_copies_def sel osl cl) (rule arg_cong [of _ _ "(`) _"], auto)
  ultimately have atq: "{t \<in> edges B. frm t = q} = {t \<in> edges A. frm t = q \<and> ttype t \<noteq> None} \<union>
      relabel_from q ` {t \<in> edges A. ttype t \<noteq> None \<and> frm t \<in> cl}"
    using slot unfolding osl sel by (auto split: if_splits)
  have off: "{t \<in> edges B. frm t = i} = {t \<in> edges A. frm t = i}" if "i \<noteq> q" for i
    using S(1) that unfolding osl [symmetric] by (simp add: same_but_def sel)
  show "edges B = {t \<in> edges A. frm t \<noteq> q \<or> ttype t \<noteq> None} \<union>
       relabel_from q ` {t \<in> edges A. ttype t \<noteq> None \<and> frm t \<in> cl}" (is "_ = ?R")
  proof (rule set_eqI)
    fix t show "t \<in> edges B \<longleftrightarrow> t \<in> ?R"
    proof (cases "frm t = q")
      case True
      then have "t \<in> edges B \<longleftrightarrow> t \<in> {t \<in> edges B. frm t = q}" by simp
      also have "\<dots> \<longleftrightarrow> t \<in> ?R" unfolding atq using True by auto
      finally show ?thesis .
    next
      case False
      have "t \<in> edges B \<longleftrightarrow> t \<in> edges A" using off [OF False] by blast
      then show ?thesis using False by auto
    qed
  qed
qed

lemma eps_trancl_path: "(p, q) \<in> (eps_rel E)\<^sup>+ \<Longrightarrow> nfa_path E p [] q"
proof (induction rule: trancl_induct)
  case (base y)
  then show ?case using nfa_path_single by (force simp: eps_rel_def letter_def)
next
  case (step y z)
  then have "nfa_path E y [] z" using nfa_path_single by (force simp: eps_rel_def letter_def)
  with step.IH show ?case using nfa_path_append by fastforce
qed

lemma delete_eps_state_lang:
  assumes A: "outer_ok A" "q < total_states A"
  shows "nfa_lang (delete_eps_state A q) = nfa_lang A"
proof
  let ?B = "delete_eps_state A q"
  let ?cl = "{s. (q, s) \<in> (eps_rel (edges A))\<^sup>+}"
  note S = delete_eps_state_spec [OF A]
  have edge: "nfa_path (edges A) (frm t) (letter t) (dest t)" if "t \<in> edges ?B" for t
  proof -
    from that consider "t \<in> edges A"
      | u where "u \<in> edges A" "frm u \<in> ?cl" "t = relabel_from q u" unfolding S(4) by blast
    then show ?thesis
    proof cases
      case 1 then show ?thesis by (rule nfa_path_single)
    next
      case (2 u)
      then show ?thesis using eps_trancl_path nfa_path_append nfa_path_single [OF 2(1)]
        by (metis append_Nil mem_Collect_eq relabel_from_sel(1,2,5))
    qed
  qed
  show "nfa_lang ?B \<subseteq> nfa_lang A"
  proof
    fix w assume "w \<in> nfa_lang ?B"
    then obtain f where f: "f \<in> set (end_states ?B)" "nfa_path (edges ?B) (start ?B) w f"
      by (auto simp: nfa_lang_def)
    have p: "nfa_path (edges A) (start A) w f"
      using nfa_path_map [OF f(2), of "edges A" "\<lambda>x. x"] edge S(2) by simp
    show "w \<in> nfa_lang A"
    proof (cases "f \<in> set (end_states A)")
      case True then show ?thesis using p by (auto simp: nfa_lang_def)
    next
      case False
      with f(1) obtain s where "f = q" "s \<in> ?cl" "s \<in> set (end_states A)"
        unfolding S(5) by (auto split: if_splits)
      then show ?thesis using nfa_path_append [OF p, of "[]" s] eps_trancl_path
        by (auto simp: nfa_lang_def)
    qed
  qed
  have run: "(\<exists>f' \<in> set (end_states ?B). nfa_path (edges ?B) p w f') \<and>
      (p \<in> ?cl \<longrightarrow> (\<exists>f' \<in> set (end_states ?B). nfa_path (edges ?B) q w f'))"
    if "nfa_path (edges A) p w f" "f \<in> set (end_states A)" for p w f
    using that
  proof (induction rule: nfa_path_induct)
    case (refl p)
    then show ?case unfolding S(5) by auto
  next
    case (step t w r)
    note IH = step.IH [OF step.prems]
    have run_t: "\<exists>f' \<in> set (end_states ?B). nfa_path (edges ?B) (frm u) (letter t @ w) f'"
      if "u \<in> edges ?B" "dest u = dest t" "letter u = letter t" for u
      using IH nfa_path_step [OF that(1)] that(2,3) by metis
    show ?case
    proof (cases "ttype t = None")
      case True
      then have eps: "(frm t, dest t) \<in> eps_rel (edges A)" "letter t = []"
        using step.hyps(1) by (auto simp: eps_rel_def letter_def)
      then have cl: "frm t \<in> insert q ?cl \<longrightarrow> dest t \<in> ?cl" by (auto intro: trancl_into_trancl)
      have "frm t \<noteq> q \<longrightarrow> t \<in> edges ?B" unfolding S(4) using step.hyps(1) by blast
      with cl IH run_t [of t] eps(2) show ?thesis by auto
    next
      case False
      then have "t \<in> edges ?B" "frm t \<in> ?cl \<longrightarrow> relabel_from q t \<in> edges ?B"
        unfolding S(4) using step.hyps(1) by blast+
      then show ?thesis using run_t [of t] run_t [of "relabel_from q t"] by simp
    qed
  qed
  show "nfa_lang A \<subseteq> nfa_lang ?B" using run S(2) by (auto simp: nfa_lang_def)
qed

section \<open>All states\<close>

lemma delete_eps_states:
  assumes "outer_ok A" "n \<le> total_states A"
  shows "outer_ok (foldl delete_eps_state A [0..<n]) \<and>
    total_states (foldl delete_eps_state A [0..<n]) = total_states A \<and>
    start (foldl delete_eps_state A [0..<n]) = start A \<and>
    nfa_lang (foldl delete_eps_state A [0..<n]) = nfa_lang A \<and>
    (\<forall>t \<in> edges (foldl delete_eps_state A [0..<n]). frm t < n \<longrightarrow> ttype t \<noteq> None)"
  using assms
proof (induction n)
  case (Suc n)
  let ?B = "foldl delete_eps_state A [0..<n]"
  have B: "outer_ok ?B" "total_states ?B = total_states A" "start ?B = start A" "nfa_lang ?B = nfa_lang A"
    "\<forall>t \<in> edges ?B. frm t < n \<longrightarrow> ttype t \<noteq> None" using Suc by simp_all
  have n: "n < total_states ?B" using Suc(3) B(2) by simp
  note S = delete_eps_state_spec [OF B(1) n] delete_eps_state_lang [OF B(1) n]
  have "\<forall>t \<in> edges (delete_eps_state ?B n). frm t < Suc n \<longrightarrow> ttype t \<noteq> None"
    using B(5) unfolding S(4) by (auto simp: less_Suc_eq)
  with S(1-3,6) B(2-4) show ?case by simp
qed simp

definition eps_free :: "rpq_nfa \<Rightarrow> bool" where
  "eps_free A \<longleftrightarrow> (\<forall>t \<in> edges A. ttype t \<noteq> None)"

lemma delete_epsilon_transitions_spec:
  assumes "outer_ok A"
  defines "B \<equiv> delete_epsilon_transitions A"
  shows "outer_ok B" "total_states B = total_states A" "start B = start A"
    "nfa_lang B = nfa_lang A" "eps_free B"
proof -
  have len: "length (outer_transitions A) = total_states A" using assms(1) by (simp add: outer_ok_def)
  note D = delete_eps_states [OF assms(1) order_refl]
  show "outer_ok B" "total_states B = total_states A" "start B = start A" "nfa_lang B = nfa_lang A"
    using D by (simp_all add: B_def delete_epsilon_transitions_def len)
  then show "eps_free B"
    using D outer_ok_edge [of B] by (auto simp: eps_free_def B_def delete_epsilon_transitions_def len)
qed

end
