(* ===== verification/NfaTrim.thy ===== *)
theory NfaTrim
  imports NfaEpsilonLang
begin

text \<open>
  \<open>get_reachable_states\<close> and \<open>delete_unreachable_states\<close>: the depth-first search returns
  exactly the states reachable from the source, and clearing the other states keeps the
  language.
\<close>

section \<open>Reachable states\<close>

definition next_states :: "rpq_nfa \<Rightarrow> bool \<Rightarrow> nat \<Rightarrow> nat list" where
  "next_states A backwards c =
     (if backwards then map frm (slot (inner_transitions A) c)
      else map dest (slot (outer_transitions A) c))"

function reachable_loop :: "rpq_nfa \<Rightarrow> bool \<Rightarrow> nat list \<Rightarrow> nat std_set \<Rightarrow> nat std_set" where
  "reachable_loop A backwards [] reachable_states = reachable_states"
| "reachable_loop A backwards (current_state # open) reachable_states =
     (if current_state \<in> set reachable_states then reachable_loop A backwards open reachable_states
      else reachable_loop A backwards (rev (next_states A backwards current_state) @ open)
             (set_insert current_state reachable_states))"
  by pat_completeness auto
termination
proof (relation "measures [\<lambda>(A, b, open, R).
      card ({..<max (length (outer_transitions A)) (length (inner_transitions A))} - set R),
    \<lambda>(A, b, open, R). length open]", goal_cases)
  case (3 A b c "open" R)
  let ?N = "{..<max (length (outer_transitions A)) (length (inner_transitions A))}"
  show ?case
  proof (cases "c \<in> ?N")
    case True
    have "card (?N - set R - {c}) < card (?N - set R)" using True 3 by (intro psubset_card_mono) auto
    moreover have "?N - insert c (set R) = ?N - set R - {c}" by auto
    ultimately show ?thesis by simp
  next
    case False
    then have "?N - insert c (set R) = ?N - set R" by auto
    moreover have "next_states A b c = []" using False by (auto simp: slot_def next_states_def)
    ultimately show ?thesis by simp
  qed
qed auto

definition get_reachable_states :: "rpq_nfa \<Rightarrow> nat \<Rightarrow> bool \<Rightarrow> nat std_set" where
  "get_reachable_states A source backwards = reachable_loop A backwards [source] []"

definition step_rel :: "rpq_nfa \<Rightarrow> bool \<Rightarrow> (nat \<times> nat) set" where
  "step_rel A b = {(c, d). d \<in> set (next_states A b c)}"

lemma reachable_loop_sound:
  "set open \<union> set R \<subseteq> (step_rel A b)\<^sup>* `` {s} \<Longrightarrow>
    set (reachable_loop A b open R) \<subseteq> (step_rel A b)\<^sup>* `` {s}"
proof (induction A b "open" R rule: reachable_loop.induct)
  case (2 A b c "open" R)
  show ?case
  proof (cases "c \<in> set R")
    case False
    have "set (next_states A b c) \<subseteq> (step_rel A b)\<^sup>* `` {s}"
      using 2(3) by (auto simp: step_rel_def intro: rtrancl_into_rtrancl)
    then have "set (rev (next_states A b c) @ open) \<union> set (set_insert c R) \<subseteq> (step_rel A b)\<^sup>* `` {s}"
      using 2(3) by simp
    from 2(2) [OF False this] False show ?thesis by simp
  qed (use 2 in auto)
qed simp

lemma reachable_loop_complete:
  "\<forall>c \<in> set R. \<forall>d \<in> set (next_states A b c). d \<in> set R \<union> set open \<Longrightarrow>
    set R \<union> set open \<subseteq> set (reachable_loop A b open R) \<and>
    (\<forall>c \<in> set (reachable_loop A b open R). set (next_states A b c) \<subseteq> set (reachable_loop A b open R))"
proof (induction A b "open" R rule: reachable_loop.induct)
  case (2 A b c "open" R)
  show ?case
  proof (cases "c \<in> set R")
    case True
    then have "\<forall>c \<in> set R. \<forall>d \<in> set (next_states A b c). d \<in> set R \<union> set open" using 2(3) by auto
    from 2(1) [OF True this] True show ?thesis by auto
  next
    case False
    have "\<forall>a \<in> set (set_insert c R). \<forall>d \<in> set (next_states A b a).
        d \<in> set (set_insert c R) \<union> set (rev (next_states A b c) @ open)" using 2(3) by auto
    from 2(2) [OF False this] False show ?thesis by auto
  qed
qed auto

lemma get_reachable_states_spec:
  "set (get_reachable_states A s b) = {q. (s, q) \<in> (step_rel A b)\<^sup>*}"
proof
  show "set (get_reachable_states A s b) \<subseteq> {q. (s, q) \<in> (step_rel A b)\<^sup>*}"
    using reachable_loop_sound [of "[s]" "[]" A b s] by (auto simp: get_reachable_states_def)
  show "{q. (s, q) \<in> (step_rel A b)\<^sup>*} \<subseteq> set (get_reachable_states A s b)"
  proof
    fix q assume "q \<in> {q. (s, q) \<in> (step_rel A b)\<^sup>*}"
    then have q: "(s, q) \<in> (step_rel A b)\<^sup>*" by simp
    show "q \<in> set (get_reachable_states A s b)"
      by (rule rtrancl_closed [OF q])
        (use reachable_loop_complete [of "[]" A b "[s]"] in
          \<open>auto simp: get_reachable_states_def step_rel_def\<close>)
  qed
qed

section \<open>Deleting unreachable states\<close>

definition drop_state :: "nat \<Rightarrow> rpq_nfa \<Rightarrow> rpq_nfa" where
  "drop_state i A =
     A\<lparr>outer_transitions := map (filter (\<lambda>t. dest t \<noteq> i)) ((outer_transitions A)[i := []]),
       inner_transitions := map (filter (\<lambda>t. frm t \<noteq> i)) ((inner_transitions A)[i := []]),
       end_states := set_erase i (end_states A)\<rparr>"

definition delete_unreachable_states :: "rpq_nfa \<Rightarrow> rpq_nfa" where
  "delete_unreachable_states A =
     (let reachable_states = get_reachable_states A (start A) False in
      foldl (\<lambda>B i. if i \<notin> set reachable_states then drop_state i B else B)
        A [1..<length (outer_transitions A)])"

lemma slot_drop_state:
  "set (slot (outer_transitions (drop_state i A)) j) =
     {t \<in> set (slot (outer_transitions A) j). j \<noteq> i \<and> dest t \<noteq> i}"
  by (cases "j = i") (auto simp: drop_state_def slot_def)

lemma drop_state_spec:
  assumes "outer_ok A" "i \<noteq> start A"
  shows "outer_ok (drop_state i A) \<and> start (drop_state i A) = start A \<and>
    total_states (drop_state i A) = total_states A \<and>
    edges (drop_state i A) = {t \<in> edges A. frm t \<noteq> i \<and> dest t \<noteq> i} \<and>
    set (end_states (drop_state i A)) = set (end_states A) - {i}"
proof (intro conjI)
  show ok: "outer_ok (drop_state i A)"
    unfolding outer_ok_def
  proof (intro conjI allI)
    fix j show "\<forall>t \<in> set (slot (outer_transitions (drop_state i A)) j).
        frm t = j \<and> dest t < total_states (drop_state i A)"
      using assms(1) unfolding slot_drop_state by (auto simp: outer_ok_def drop_state_def)
  qed (use assms in \<open>auto simp: outer_ok_def drop_state_def\<close>)
  show "edges (drop_state i A) = {t \<in> edges A. frm t \<noteq> i \<and> dest t \<noteq> i}"
    using assms(1) by (auto simp: edges_slots slot_drop_state outer_ok_def)
qed (simp_all add: drop_state_def)

lemma delete_unreachable_fold:
  assumes "outer_ok A" "start A \<in> set R"
  shows "outer_ok (foldl (\<lambda>B i. if i \<notin> set R then drop_state i B else B) A is) \<and>
    start (foldl (\<lambda>B i. if i \<notin> set R then drop_state i B else B) A is) = start A \<and>
    total_states (foldl (\<lambda>B i. if i \<notin> set R then drop_state i B else B) A is) = total_states A \<and>
    edges (foldl (\<lambda>B i. if i \<notin> set R then drop_state i B else B) A is) =
      {t \<in> edges A. (frm t \<in> set is \<longrightarrow> frm t \<in> set R) \<and> (dest t \<in> set is \<longrightarrow> dest t \<in> set R)} \<and>
    set (end_states (foldl (\<lambda>B i. if i \<notin> set R then drop_state i B else B) A is)) =
      {q \<in> set (end_states A). q \<in> set is \<longrightarrow> q \<in> set R}"
  using assms
proof (induction "is" arbitrary: A)
  case (Cons i "is")
  let ?B = "if i \<notin> set R then drop_state i A else A"
  have B: "outer_ok ?B \<and> start ?B = start A \<and> total_states ?B = total_states A \<and>
      edges ?B = {t \<in> edges A. i \<notin> set R \<longrightarrow> frm t \<noteq> i \<and> dest t \<noteq> i} \<and>
      set (end_states ?B) = {q \<in> set (end_states A). i \<notin> set R \<longrightarrow> q \<noteq> i}"
  proof (cases "i \<in> set R")
    case False
    then have "i \<noteq> start A" using Cons(3) by auto
    from drop_state_spec [OF Cons(2) this] False show ?thesis by auto
  qed (use Cons(2) in auto)
  then have "outer_ok ?B" "start ?B \<in> set R" using Cons(3) by simp_all
  note IH = Cons.IH [OF this]
  show ?case unfolding foldl_Cons using IH B by auto
qed simp

lemma delete_unreachable_states_spec:
  assumes "outer_ok A"
  defines "B \<equiv> delete_unreachable_states A"
  defines "live \<equiv> insert 0 {q. (start A, q) \<in> (step_rel A False)\<^sup>*}"
  shows "outer_ok B" "start B = start A" "total_states B = total_states A"
    "edges B = {t \<in> edges A. frm t \<in> live \<and> dest t \<in> live}"
    "set (end_states B) = set (end_states A) \<inter> live"
proof -
  let ?R = "get_reachable_states A (start A) False"
  have len: "length (outer_transitions A) = total_states A" using assms(1) by (simp add: outer_ok_def)
  have "start A \<in> set ?R" by (simp add: get_reachable_states_spec)
  note F = delete_unreachable_fold [OF assms(1) this, of "[1..<length (outer_transitions A)]",
      folded delete_unreachable_states_def [of A, unfolded Let_def], folded B_def]
  show "outer_ok B" "start B = start A" "total_states B = total_states A" using F by simp_all
  have live: "q \<in> live \<longleftrightarrow> (q \<in> set [1..<total_states A] \<longrightarrow> q \<in> set ?R)" if "q < total_states A" for q
    using that by (auto simp: live_def get_reachable_states_spec)
  show "edges B = {t \<in> edges A. frm t \<in> live \<and> dest t \<in> live}"
    using F live outer_ok_edge [OF assms(1)] unfolding len by blast
  have "set (end_states A) \<subseteq> {..<total_states A}" using assms(1) by (simp add: outer_ok_def)
  then show "set (end_states B) = set (end_states A) \<inter> live"
    using F live unfolding len by blast
qed

lemma delete_unreachable_states_lang:
  assumes "outer_ok A"
  shows "nfa_lang (delete_unreachable_states A) = nfa_lang A"
proof
  let ?B = "delete_unreachable_states A"
  note S = delete_unreachable_states_spec [OF assms]
  let ?live = "{q. (start A, q) \<in> (step_rel A False)\<^sup>*}"
  show "nfa_lang ?B \<subseteq> nfa_lang A"
    unfolding nfa_lang_def S(2,4,5) by (auto elim: nfa_path_mono)
  have run: "p \<in> ?live \<longrightarrow> q \<in> ?live \<and> nfa_path (edges ?B) p w q" if "nfa_path (edges A) p w q" for p w q
    using that
  proof (induction rule: nfa_path_induct)
    case (step t w r)
    show ?case
    proof
      assume live: "frm t \<in> ?live"
      have "(frm t, dest t) \<in> step_rel A False"
        using step.hyps(1) outer_ok_slot [OF assms, of "frm t"] by (auto simp: step_rel_def next_states_def)
      with live have "dest t \<in> ?live" by (auto intro: rtrancl_into_rtrancl)
      moreover from live this have "t \<in> edges ?B" unfolding S(4) using step.hyps(1) by blast
      ultimately show "r \<in> ?live \<and> nfa_path (edges ?B) (frm t) (letter t @ w) r"
        using step.IH nfa_path_step by blast
    qed
  qed simp
  show "nfa_lang A \<subseteq> nfa_lang ?B"
  proof
    fix w assume "w \<in> nfa_lang A"
    then obtain f where f: "f \<in> set (end_states A)" "nfa_path (edges A) (start A) w f"
      by (auto simp: nfa_lang_def)
    have "start A \<in> ?live" by simp
    with run [OF f(2)] have "f \<in> ?live" "nfa_path (edges ?B) (start A) w f" by blast+
    with f(1) show "w \<in> nfa_lang ?B" unfolding nfa_lang_def S(2,5) by blast
  qed
qed

lemma delete_unreachable_states_eps_free:
  "outer_ok A \<Longrightarrow> eps_free A \<Longrightarrow> eps_free (delete_unreachable_states A)"
  by (simp add: eps_free_def delete_unreachable_states_spec)

end
