(* ===== verification/NfaTypes.thy ===== *)
theory NfaTypes
  imports NfaTrim NfaEpsilonLang NfaMergeLang Thompson
begin

text \<open>
  The edge types that occur in an automaton come from the path expression: no transformation of
  the automaton makes a new one.
\<close>

fun path_types :: "'c path \<Rightarrow> string set" where
  "path_types (PathAtom a dir cs) = {a}"
| "path_types (PathAlternatives ps) = (\<Union>p \<in> set ps. path_types p)"
| "path_types (PathSequence ps) = (\<Union>p \<in> set ps. path_types p)"
| "path_types (PathKleeneStar p) = path_types p"
| "path_types (PathOptional p) = path_types p"
| "path_types (PathCheck cs) = {}"

definition nfa_types :: "rpq_nfa \<Rightarrow> string set" where
  "nfa_types A = {a. \<exists>t \<in> edges A. ttype t = Some a}"

lemma nfa_types_add [simp]:
  "nfa_types (add_transition A t) = (case ttype t of None \<Rightarrow> {} | Some a \<Rightarrow> {a}) \<union> nfa_types A"
  by (auto simp: nfa_types_def split: option.splits)

section \<open>Construction\<close>

lemma nfa_types_add_epsilon [simp]: "nfa_types (add_epsilon_transition A p q) = nfa_types A"
  by (simp add: add_epsilon_transition_def)

lemma nfa_types_add_epsilons: "nfa_types (foldl (\<lambda>C e. add_epsilon_transition C (g e C) (h e C)) A es) = nfa_types A"
  by (induction es arbitrary: A) simp_all

lemma nfa_types_end_states [simp]: "nfa_types (A\<lparr>end_states := es\<rparr>) = nfa_types A"
  by (simp add: nfa_types_def edges_def)

lemma nfa_types_RPQ_NFA [simp]: "nfa_types RPQ_NFA = {}"
  by (simp add: nfa_types_def edges_def RPQ_NFA_def)

lemma nfa_types_renamed:
  "nfa_types (foldl (\<lambda>B t. add_transition B (rename_transition k t)) A ts) = nfa_types A \<union> {a. \<exists>t \<in> set ts. ttype t = Some a}"
  by (induction ts arbitrary: A) (auto split: option.splits)

lemma nfa_types_merge: "nfa_types (fst (rename_and_merge A B)) = nfa_types A \<union> nfa_types B"
  by (simp add: rename_and_merge_def Let_def nfa_types_renamed) (simp add: nfa_types_def edges_def)

lemma nfa_types_alternatives_step: "nfa_types (alternatives_step A B) = nfa_types A \<union> nfa_types B"
  using nfa_types_merge [of A B] by (cases "rename_and_merge A B") (simp add: alternatives_step_def Let_def)

lemma nfa_types_sequence_step: "nfa_types (sequence_step A B) = nfa_types A \<union> nfa_types B"
  using nfa_types_merge [of A B] by (cases "rename_and_merge A B") (simp add: sequence_step_def nfa_types_add_epsilons)

lemma nfa_types_alternatives:
  "alternatives_automaton A cs = Inr B \<Longrightarrow> nfa_types B = nfa_types A \<union> (\<Union>C \<in> {C. Inr C \<in> set cs}. nfa_types C)"
  by (induction A cs rule: alternatives_automaton.induct) (auto simp: nfa_types_alternatives_step)

lemma nfa_types_sequence_loop:
  "sequence_loop A cs = Inr B \<Longrightarrow> nfa_types B = nfa_types A \<union> (\<Union>C \<in> {C. Inr C \<in> set cs}. nfa_types C)"
  by (induction A cs rule: sequence_loop.induct) (auto simp: nfa_types_sequence_step)

lemma nfa_types_sequence: "sequence_automaton cs = Inr B \<Longrightarrow> nfa_types B = (\<Union>C \<in> {C. Inr C \<in> set cs}. nfa_types C)"
  by (cases cs rule: sequence_automaton.cases) (auto simp: nfa_types_sequence_loop)

lemma nfa_types_kleene:
  assumes "total_states A = 2 \<Longrightarrow> atom_like A"
  shows "nfa_types (kleene_automaton A) = nfa_types A"
proof (cases "total_states A = 2")
  case True
  then obtain a d where a: "slot (outer_transitions A) 0 = [Transition 0 1 (Some a) d]"
    "edges A = {Transition 0 1 (Some a) d}" using assms by (auto simp: atom_like_def)
  then have "nfa_types A = {a}" by (simp add: nfa_types_def)
  then show ?thesis using True a(1) by (simp add: kleene_automaton_def Let_def)
next
  case False
  then show ?thesis by (simp add: kleene_automaton_def Let_def nfa_types_add_epsilons)
qed

lemma union_of_parts:
  assumes "\<And>p C. p \<in> set ps \<Longrightarrow> g p = Inr C \<Longrightarrow> h C \<subseteq> k p"
  shows "(\<Union>C \<in> {C. Inr C \<in> set (map g ps)}. h C) \<subseteq> (\<Union>p \<in> set ps. k p)"
proof (rule UN_least)
  fix C assume "C \<in> {C. Inr C \<in> set (map g ps)}"
  then obtain p where p: "p \<in> set ps" "g p = Inr C" by (auto simp: image_iff)
  from assms [OF this] p(1) show "h C \<subseteq> (\<Union>p \<in> set ps. k p)" by blast
qed

lemma nfa_types_base:
  "wf_path p \<Longrightarrow> get_rpq_base_automaton p = Inr A \<Longrightarrow> nfa_types A \<subseteq> path_types p"
proof (induction p arbitrary: A rule: get_rpq_base_automaton.induct)
  case (1 a dir cs)
  then show ?case by (auto simp: atom_automaton_def)
next
  case (2 ps)
  have "nfa_types A = (\<Union>C \<in> {C. Inr C \<in> set (map get_rpq_base_automaton ps)}. nfa_types C)"
    using nfa_types_alternatives [of RPQ_NFA _ A] 2(3) by simp
  also have "\<dots> \<subseteq> (\<Union>p \<in> set ps. path_types p)"
    by (rule union_of_parts) (use 2 in \<open>simp add: list_all_iff\<close>)
  finally show ?case by simp
next
  case (3 ps)
  have "nfa_types A = (\<Union>C \<in> {C. Inr C \<in> set (map get_rpq_base_automaton ps)}. nfa_types C)"
    using nfa_types_sequence [of _ A] 3(3) by simp
  also have "\<dots> \<subseteq> (\<Union>p \<in> set ps. path_types p)"
    by (rule union_of_parts) (use 3 in \<open>simp add: list_all_iff\<close>)
  finally show ?case by simp
next
  case (4 p)
  then obtain B where B: "get_rpq_base_automaton p = Inr B" "A = kleene_automaton B" 
    by (cases "get_rpq_base_automaton p") auto
  have "base_spec p B" using get_rpq_base_automaton_spec [of p] 4(2) B(1) by auto
  then have "total_states B = 2 \<Longrightarrow> atom_like B" using 4(2) by (simp add: base_spec_def)
  then show ?case using 4 B by (simp add: nfa_types_kleene)
next
  case (5 p)
  then obtain B where "get_rpq_base_automaton p = Inr B" "A = optional_automaton B" 
    by (cases "get_rpq_base_automaton p") auto
  then show ?case using 5 by (simp add: optional_automaton_def)
qed simp

section \<open>Transformations\<close>

lemma nfa_types_merge_step: "nfa_ok A \<Longrightarrow> merge_step A B \<Longrightarrow> nfa_types B \<subseteq> nfa_types A"
proof -
  assume A: "nfa_ok A" "merge_step A B"
  obtain v s d src where B: "B = merge_states A d src" "contracts A v s d src"
    by (rule merge_step_contracts [OF A])
  then have "d \<noteq> src" by (simp add: contracts_def)
  with B contracts_bounds [OF B(2)] have "edges B = map_states (redirect d src) ` edges A"
    using merge_states_spec(1) [OF A(1)] by simp
  then show ?thesis by (auto simp: nfa_types_def)
qed

lemma nfa_types_merge_steps: "merge_step\<^sup>*\<^sup>* A B \<Longrightarrow> nfa_ok A \<Longrightarrow> nfa_types B \<subseteq> nfa_types A"
proof -
  have "nfa_ok B \<and> nfa_types B \<subseteq> nfa_types A" if "merge_step\<^sup>*\<^sup>* A B" "nfa_ok A"
    using that by (induction rule: rtranclp_induct) (auto dest: merge_step_ok nfa_types_merge_step)
  then show "merge_step\<^sup>*\<^sup>* A B \<Longrightarrow> nfa_ok A \<Longrightarrow> nfa_types B \<subseteq> nfa_types A" by blast
qed

lemma nfa_types_delete_eps_state:
  "outer_ok A \<Longrightarrow> q < total_states A \<Longrightarrow> nfa_types (delete_eps_state A q) \<subseteq> nfa_types A"
  by (auto simp: nfa_types_def delete_eps_state_spec)

lemma nfa_types_delete_epsilon: "outer_ok A \<Longrightarrow> nfa_types (delete_epsilon_transitions A) \<subseteq> nfa_types A"
proof -
  assume A: "outer_ok A"
  have "nfa_types (foldl delete_eps_state A [0..<n]) \<subseteq> nfa_types A" if "n \<le> total_states A" for n
    using that
  proof (induction n)
    case (Suc n)
    then show ?case
      using delete_eps_states [OF A, of n] nfa_types_delete_eps_state [of "foldl delete_eps_state A [0..<n]" n] by auto
  qed simp
  moreover have "length (outer_transitions A) = total_states A" using A by (simp add: outer_ok_def)
  ultimately show ?thesis unfolding delete_epsilon_transitions_def by simp
qed

lemma nfa_types_delete_unreachable: "outer_ok A \<Longrightarrow> nfa_types (delete_unreachable_states A) \<subseteq> nfa_types A"
  by (auto simp: nfa_types_def delete_unreachable_states_spec)

end
