(* ===== verification/RpqDfa.thy ===== *)
theory RpqDfa
  imports NfaTypes "HOL-Library.Word" "HOL-Library.Char_ord" "HOL-Library.List_Lexorder"
    "HOL-Library.Product_Lexorder"
begin

text \<open>
  \<open>RPQ_NFA::transform_automaton\<close>: the pipeline of transformations and the subset construction
  that builds the \<open>RPQ_DFA\<close> the path iterators walk. A set of states is the code's
  \<open>std::vector<bool>\<close>, the two maps grouped by type are ordered maps, the object identifiers
  come from the parameter \<open>f\<close> (the catalog lookup the planner passes).
\<close>

type_synonym object_id = "64 word"

datatype dfa_transition = DTransition (dfa_from: nat) (dfa_to: nat) (type_id: object_id) (dfa_inverse: bool)

record rpq_dfa =
  start_state :: nat
  dfa_total_states :: nat
  total_final_states :: nat
  is_final_state :: "bool list"
  from_to_connections :: "dfa_transition list list"

type_synonym type_inverse = "string \<times> bool"

record subset_search =
  open_sets :: "bool list list"
  visited_sets :: "bool list list"
  mapping :: "(bool list, nat) std_map"
  dfa_part :: rpq_dfa
  new_state_count :: nat

section \<open>One round: group the transitions of a set by type\<close>

definition group_transition ::
  "rpq_nfa \<Rightarrow> (type_inverse, bool list) std_map \<times> (type_inverse, bool) std_map \<Rightarrow> transition \<Rightarrow>
     (type_inverse, bool list) std_map \<times> (type_inverse, bool) std_map" where
  "group_transition A M t =
     (case M of (groups, final) \<Rightarrow>
       (case ttype t of None \<Rightarrow> M
        | Some a \<Rightarrow>
          (let key = (a, inverse_dir t) in
           case map_of groups key of
             None \<Rightarrow> (map_insert key ((replicate (total_states A) False)[dest t := True]) groups,
                      map_insert key (dest t \<in> set (end_states A)) final)
           | Some existing \<Rightarrow>
               (map_assign key (existing[dest t := True]) groups,
                if dest t \<in> set (end_states A) then map_assign key True final else final))))"

definition set_transitions :: "rpq_nfa \<Rightarrow> bool list \<Rightarrow> transition list" where
  "set_transitions A current =
     concat (map (\<lambda>i. if current ! i then slot (outer_transitions A) i else []) [0..<length current])"

text \<open>\<open>*transition.type\<close> of an epsilon transition dereferences a null pointer: \<open>None\<close>.\<close>

definition reached_grouped_by_type ::
  "rpq_nfa \<Rightarrow> bool list \<Rightarrow> ((type_inverse, bool list) std_map \<times> (type_inverse, bool) std_map) option" where
  "reached_grouped_by_type A current =
     (if \<exists>t \<in> set (set_transitions A current). ttype t = None then None
      else Some (foldl (group_transition A) ([], []) (set_transitions A current)))"

section \<open>The loop\<close>

definition connect :: "nat \<Rightarrow> dfa_transition \<Rightarrow> rpq_dfa \<Rightarrow> rpq_dfa" where
  "connect q t D = D\<lparr>from_to_connections := (from_to_connections D)[q := (from_to_connections D ! q) @ [t]]\<rparr>"

definition add_group ::
  "(string \<Rightarrow> object_id) \<Rightarrow> (type_inverse, bool) std_map \<Rightarrow> nat \<Rightarrow> subset_search \<Rightarrow>
     type_inverse \<times> bool list \<Rightarrow> subset_search" where
  "add_group f final current_state S kt =
     (case kt of ((a, dir), target) \<Rightarrow>
       (case map_of (mapping S) target of
          None \<Rightarrow>
            (let new_state = new_state_count S;
                 D = dfa_part S;
                 D1 = D\<lparr>dfa_total_states := Suc (dfa_total_states D),
                        from_to_connections := from_to_connections D @ [[]]\<rparr>;
                 D2 = connect current_state (DTransition current_state new_state (f a) dir) D1;
                 D3 = D2\<lparr>is_final_state := is_final_state D2 @ [map_of final (a, dir) = Some True]\<rparr>
             in S\<lparr>open_sets := target # open_sets S,
                  mapping := map_insert target new_state (mapping S),
                  dfa_part := D3, new_state_count := Suc new_state\<rparr>)
        | Some existing_state \<Rightarrow>
            S\<lparr>dfa_part := connect current_state (DTransition current_state existing_state (f a) dir) (dfa_part S)\<rparr>))"

definition subset_step :: "(string \<Rightarrow> object_id) \<Rightarrow> rpq_nfa \<Rightarrow> subset_search \<Rightarrow> subset_search option" where
  "subset_step f A S =
     (case open_sets S of [] \<Rightarrow> None
      | current_set # rest \<Rightarrow>
        (let current_state = (case map_of (mapping S) current_set of Some q \<Rightarrow> q | None \<Rightarrow> 0);
             S1 = S\<lparr>open_sets := rest,
                    mapping := map_insert current_set 0 (mapping S)\<rparr>
         in if current_set \<in> set (visited_sets S) then Some S1
            else case reached_grouped_by_type A current_set of
                None \<Rightarrow> None
              | Some (groups, final) \<Rightarrow>
                  Some (foldl (add_group f final current_state)
                    (S1\<lparr>visited_sets := current_set # visited_sets S1\<rparr>) groups)))"

partial_function (option) subset_loop ::
  "(string \<Rightarrow> object_id) \<Rightarrow> rpq_nfa \<Rightarrow> subset_search \<Rightarrow> subset_search option" where
  "subset_loop f A S =
     (if open_sets S = [] then Some S
      else case subset_step f A S of None \<Rightarrow> None | Some S' \<Rightarrow> subset_loop f A S')"

declare subset_loop.simps [code]

definition subset_start :: "rpq_nfa \<Rightarrow> subset_search" where
  "subset_start A =
     (let start_set = (replicate (total_states A) False)[start A := True] in
      \<lparr>open_sets = [start_set], visited_sets = [], mapping = [(start_set, 0)],
       dfa_part = \<lparr>start_state = 0, dfa_total_states = 1, total_final_states = 0,
         is_final_state = [start A \<in> set (end_states A)], from_to_connections = [[]]\<rparr>,
       new_state_count = 1\<rparr>)"

definition subset_construction :: "(string \<Rightarrow> object_id) \<Rightarrow> rpq_nfa \<Rightarrow> rpq_dfa option" where
  "subset_construction f A =
     map_option (\<lambda>S. (dfa_part S)\<lparr>total_final_states := length (filter id (is_final_state (dfa_part S)))\<rparr>)
       (subset_loop f A (subset_start A))"

definition transform_automaton :: "(string \<Rightarrow> object_id) \<Rightarrow> rpq_nfa \<Rightarrow> rpq_dfa option" where
  "transform_automaton f A =
     (case delete_mergeable_states A of
        None \<Rightarrow> None
      | Some B \<Rightarrow> subset_construction f (delete_unreachable_states (delete_epsilon_transitions B)))"

section \<open>Runs of the automaton\<close>

fun dfa_run :: "rpq_dfa \<Rightarrow> nat \<Rightarrow> (object_id \<times> bool) list \<Rightarrow> nat \<Rightarrow> bool" where
  "dfa_run D p [] q \<longleftrightarrow> p = q"
| "dfa_run D p ((c, d) # w) q \<longleftrightarrow>
     (\<exists>t \<in> set (slot (from_to_connections D) p). type_id t = c \<and> dfa_inverse t = d \<and> dfa_run D (dfa_to t) w q)"

definition dfa_lang :: "rpq_dfa \<Rightarrow> (object_id \<times> bool) list set" where
  "dfa_lang D = {w. \<exists>q. dfa_run D (start_state D) w q \<and> q < length (is_final_state D) \<and> is_final_state D ! q}"

end
