(* ===== verification/RpqDfaLang.thy ===== *)
theory RpqDfaLang
  imports RpqDfa
begin

text \<open>
  The subset construction is correct: the loop ends, and the automaton it returns accepts
  exactly the words of the epsilon-free automaton, read through \<open>f\<close>. The invariant keeps,
  for every set of states met so far, its number, its finality and its connections.
\<close>

section \<open>Sets of states as bit vectors\<close>

definition members :: "bool list \<Rightarrow> nat set" where
  "members s = {j. j < length s \<and> s ! j}"

lemma members_replicate [simp]: "members (replicate n False) = {}"
  by (auto simp: members_def)

lemma members_update [simp]: "d < length s \<Longrightarrow> members (s[d := True]) = insert d (members s)"
  by (auto simp: members_def nth_list_update)

lemma set_transitions_members:
  "set (set_transitions A s) = (\<Union>i \<in> members s. set (slot (outer_transitions A) i))"
  by (auto simp: set_transitions_def members_def split: if_splits)

section \<open>The groups\<close>

definition key_of :: "transition \<Rightarrow> type_inverse option" where
  "key_of t = map_option (\<lambda>a. (a, inverse_dir t)) (ttype t)"

definition targets :: "transition list \<Rightarrow> type_inverse \<Rightarrow> nat set" where
  "targets ts k = dest ` {t \<in> set ts. key_of t = Some k}"

definition groups_ok ::
  "rpq_nfa \<Rightarrow> transition list \<Rightarrow> (type_inverse, bool list) std_map \<times> (type_inverse, bool) std_map \<Rightarrow> bool" where
  "groups_ok A ts M \<longleftrightarrow> ordered_map (fst M) \<and> ordered_map (snd M) \<and>
     (\<forall>k. (case map_of (fst M) k of
             None \<Rightarrow> targets ts k = {} \<and> map_of (snd M) k = None
           | Some T \<Rightarrow> targets ts k \<noteq> {} \<and> length T = total_states A \<and> members T = targets ts k \<and>
               map_of (snd M) k = Some (targets ts k \<inter> set (end_states A) \<noteq> {})))"

lemma targets_snoc:
  "targets (ts @ [t]) k = (if key_of t = Some k then insert (dest t) (targets ts k) else targets ts k)"
  by (auto simp: targets_def)

lemma group_transition_ok:
  assumes "groups_ok A ts M" "ttype t = Some a" "dest t < total_states A"
  shows "groups_ok A (ts @ [t]) (group_transition A M t)"
proof -
  obtain G F where M: "M = (G, F)" by (cases M)
  let ?k = "(a, inverse_dir t)"
  have key: "key_of t = Some ?k" by (simp add: key_of_def assms(2))
  have ord: "ordered_map G" "ordered_map F" using assms(1) by (simp_all add: groups_ok_def M)
  have old: "case map_of G k of
      None \<Rightarrow> targets ts k = {} \<and> map_of F k = None
    | Some T \<Rightarrow> targets ts k \<noteq> {} \<and> length T = total_states A \<and> members T = targets ts k \<and>
        map_of F k = Some (targets ts k \<inter> set (end_states A) \<noteq> {})" for k
    using assms(1) unfolding groups_ok_def M fst_conv snd_conv by blast
  show ?thesis
  proof (cases "map_of G ?k")
    case None
    with old [of ?k] have "targets ts ?k = {}" "map_of F ?k = None" by simp_all
    moreover have "group_transition A M t =
        (map_insert ?k ((replicate (total_states A) False)[dest t := True]) G,
         map_insert ?k (dest t \<in> set (end_states A)) F)"
      using None assms(2) by (simp add: M group_transition_def Let_def)
    ultimately show ?thesis
      unfolding groups_ok_def using ord None assms(3) old
      by (intro conjI allI) (simp_all add: targets_snoc key cong: option.case_cong)
  next
    case (Some T)
    with old [of ?k] have "targets ts ?k \<noteq> {}" "length T = total_states A" "members T = targets ts ?k"
      "map_of F ?k = Some (targets ts ?k \<inter> set (end_states A) \<noteq> {})" by simp_all
    moreover have "group_transition A M t =
        (map_assign ?k (T[dest t := True]) G,
         if dest t \<in> set (end_states A) then map_assign ?k True F else F)"
      using Some assms(2) by (simp add: M group_transition_def Let_def)
    ultimately show ?thesis
      unfolding groups_ok_def using ord Some assms(3) old
      by (intro conjI allI) (simp_all add: targets_snoc key cong: option.case_cong)
  qed
qed

lemma group_transitions_ok:
  assumes "\<forall>t \<in> set ts. ttype t \<noteq> None \<and> dest t < total_states A"
  shows "groups_ok A ts (foldl (group_transition A) ([], []) ts)"
  using assms
proof (induction ts rule: rev_induct)
  case Nil
  then show ?case by (simp add: groups_ok_def targets_def)
next
  case (snoc t ts)
  then obtain a where "ttype t = Some a" by auto
  with snoc group_transition_ok [of A ts _ t a] show ?case by simp
qed

text \<open>The groups of a set of states, and the successor set for one type.\<close>

definition delta :: "rpq_nfa \<Rightarrow> nat set \<Rightarrow> type_inverse \<Rightarrow> nat set" where
  "delta A Q k = {dest t | t. t \<in> edges A \<and> frm t \<in> Q \<and> key_of t = Some k}"

definition accepting :: "rpq_nfa \<Rightarrow> bool list \<Rightarrow> bool" where
  "accepting A s \<longleftrightarrow> members s \<inter> set (end_states A) \<noteq> {}"

definition groups_of :: "rpq_nfa \<Rightarrow> bool list \<Rightarrow> (type_inverse, bool list) std_map" where
  "groups_of A s = fst (the (reached_grouped_by_type A s))"

lemma reached_grouped_by_type_spec:
  assumes "outer_ok A" "eps_free A"
  obtains F where "reached_grouped_by_type A s = Some (groups_of A s, F)"
    "ordered_map (groups_of A s)"
    "\<And>k. k \<notin> fst ` set (groups_of A s) \<longleftrightarrow> delta A (members s) k = {}"
    "\<And>k T. (k, T) \<in> set (groups_of A s) \<Longrightarrow> length T = total_states A \<and> members T = delta A (members s) k \<and>
       delta A (members s) k \<noteq> {} \<and> (map_of F k = Some True \<longleftrightarrow> accepting A T)"
proof -
  let ?ts = "set_transitions A s"
  let ?M = "foldl (group_transition A) ([], []) ?ts"
  have ts: "set ?ts = {t \<in> edges A. frm t \<in> members s}"
    by (auto simp: set_transitions_members outer_ok_slot [OF assms(1)])
  have d: "targets ?ts k = delta A (members s) k" for k
    by (auto simp: targets_def delta_def ts)
  have lab: "\<forall>t \<in> set ?ts. ttype t \<noteq> None \<and> dest t < total_states A"
    using assms outer_ok_edge [OF assms(1)] by (auto simp: ts eps_free_def)
  then have M: "reached_grouped_by_type A s = Some ?M"
    by (auto simp: reached_grouped_by_type_def)
  have ok: "groups_ok A ?ts ?M" by (rule group_transitions_ok [OF lab])
  have G: "groups_of A s = fst ?M" by (simp add: groups_of_def M)
  have ord: "ordered_map (groups_of A s)" using ok by (simp add: groups_ok_def G)
  have ok': "case map_of (groups_of A s) k of
             None \<Rightarrow> delta A (members s) k = {} \<and> map_of (snd ?M) k = None
           | Some T \<Rightarrow> delta A (members s) k \<noteq> {} \<and> length T = total_states A \<and> members T = delta A (members s) k \<and>
               map_of (snd ?M) k = Some (delta A (members s) k \<inter> set (end_states A) \<noteq> {})" for k
    using ok unfolding groups_ok_def G d by blast
  show ?thesis
  proof (rule that [of "snd ?M"])
    show "reached_grouped_by_type A s = Some (groups_of A s, snd ?M)" by (simp add: M G)
    show "ordered_map (groups_of A s)" by (rule ord)
    show "k \<notin> fst ` set (groups_of A s) \<longleftrightarrow> delta A (members s) k = {}" for k
      using ok' [of k] by (auto simp: map_of_eq_None_iff [symmetric] split: option.splits)
    show "length T = total_states A \<and> members T = delta A (members s) k \<and>
       delta A (members s) k \<noteq> {} \<and> (map_of (snd ?M) k = Some True \<longleftrightarrow> accepting A T)"
      if "(k, T) \<in> set (groups_of A s)" for k T
      using ok' [of k] that by (simp add: ordered_map_in_set [OF ord] accepting_def)
  qed
qed

section \<open>The invariant of the loop\<close>

definition link :: "(string \<Rightarrow> object_id) \<Rightarrow> (bool list \<rightharpoonup> nat) \<Rightarrow> nat \<Rightarrow> type_inverse \<times> bool list \<Rightarrow> dfa_transition" where
  "link f m q kt = DTransition q (the (m (snd kt))) (f (fst (fst kt))) (snd (fst kt))"

text \<open>\<open>linked S s\<close>: the groups of \<open>s\<close> that already have their transition.\<close>

definition numbering_ok :: "rpq_nfa \<Rightarrow> subset_search \<Rightarrow> bool" where
  "numbering_ok A S \<longleftrightarrow> ordered_map (mapping S) \<and>
     (\<forall>s q. map_of (mapping S) s = Some q \<longrightarrow> length s = total_states A \<and> q < new_state_count S) \<and>
     inj_on (map_of (mapping S)) (dom (map_of (mapping S))) \<and>
     ran (map_of (mapping S)) = {..<new_state_count S} \<and>
     map_of (mapping S) ((replicate (total_states A) False)[start A := True]) = Some 0 \<and>
     set (open_sets S) \<subseteq> dom (map_of (mapping S))"

definition automaton_ok ::
  "(string \<Rightarrow> object_id) \<Rightarrow> rpq_nfa \<Rightarrow> (bool list \<Rightarrow> (type_inverse \<times> bool list) list) \<Rightarrow> subset_search \<Rightarrow> bool" where
  "automaton_ok f A linked S \<longleftrightarrow>
     start_state (dfa_part S) = 0 \<and> dfa_total_states (dfa_part S) = new_state_count S \<and>
     length (is_final_state (dfa_part S)) = new_state_count S \<and>
     length (from_to_connections (dfa_part S)) = new_state_count S \<and>
     (\<forall>s q. map_of (mapping S) s = Some q \<longrightarrow>
        is_final_state (dfa_part S) ! q = accepting A s \<and>
        from_to_connections (dfa_part S) ! q = map (link f (map_of (mapping S)) q) (linked s) \<and>
        snd ` set (linked s) \<subseteq> dom (map_of (mapping S)))"

definition potential :: "rpq_nfa \<Rightarrow> subset_search \<Rightarrow> nat" where
  "potential A S = 2 * card ({s. length s = total_states A} - dom (map_of (mapping S))) + length (open_sets S)"

lemma link_extend:
  "snd ` set ks \<subseteq> dom m \<Longrightarrow> T \<notin> dom m \<Longrightarrow> map (link f (m(T \<mapsto> n)) q) ks = map (link f m q) ks"
  by (auto simp: link_def)

lemma card_unnumbered:
  fixes m :: "(bool list, nat) std_map"
  assumes "length T = total_states A" "map_of m T = None"
  shows "Suc (card ({s. length s = total_states A} - dom ((map_of m)(T \<mapsto> q)))) =
    card ({s. length s = total_states A} - dom (map_of m))"
proof -
  have "finite ({s :: bool list. length s = total_states A} - dom (map_of m))"
    using finite_lists_length_eq [of "UNIV :: bool set" "total_states A"] by simp
  moreover have "{s. length s = total_states A} - dom ((map_of m)(T \<mapsto> q)) =
      ({s. length s = total_states A} - dom (map_of m)) - {T}" by auto
  ultimately show ?thesis using card.remove [of _ T] assms by (simp add: domIff)
qed

lemma add_group_known:
  assumes n: "numbering_ok A S" and a: "automaton_ok f A linked S"
    and cur: "map_of (mapping S) cur = Some q" and T: "map_of (mapping S) T = Some r"
  shows "numbering_ok A (add_group f F q S (k, T)) \<and>
    automaton_ok f A (linked(cur := linked cur @ [(k, T)])) (add_group f F q S (k, T)) \<and>
    mapping (add_group f F q S (k, T)) = mapping S \<and> open_sets (add_group f F q S (k, T)) = open_sets S \<and>
    visited_sets (add_group f F q S (k, T)) = visited_sets S"
proof -
  have S': "add_group f F q S (k, T) =
      S\<lparr>dfa_part := connect q (link f (map_of (mapping S)) q (k, T)) (dfa_part S)\<rparr>"
    using T by (simp add: add_group_def link_def split: prod.split)
  have q: "q < new_state_count S" using n cur by (auto simp: numbering_ok_def)
  have other: "q' \<noteq> q" if "s \<noteq> cur" "map_of (mapping S) s = Some q'" for s q'
    using n that cur unfolding numbering_ok_def by (metis domI inj_onD)
  have "automaton_ok f A (linked(cur := linked cur @ [(k, T)])) (add_group f F q S (k, T))"
    unfolding automaton_ok_def
  proof (intro conjI allI impI)
    fix s q' assume s: "map_of (mapping (add_group f F q S (k, T))) s = Some q'"
    have "snd ` set (linked s) \<subseteq> dom (map_of (mapping S))" using a s by (simp add: automaton_ok_def S')
    then show "snd ` set ((linked(cur := linked cur @ [(k, T)])) s) \<subseteq>
        dom (map_of (mapping (add_group f F q S (k, T))))"
      using T by (auto simp: S')
    show "from_to_connections (dfa_part (add_group f F q S (k, T))) ! q' =
        map (link f (map_of (mapping (add_group f F q S (k, T)))) q') ((linked(cur := linked cur @ [(k, T)])) s)"
    proof (cases "s = cur")
      case True
      then have "q' = q" using s cur by (simp add: S')
      then show ?thesis unfolding S' True using a q cur by (simp add: connect_def automaton_ok_def)
    next
      case False
      then show ?thesis using s a other [OF False] by (simp add: S' connect_def automaton_ok_def)
    qed
  qed (use a T in \<open>auto simp: S' connect_def automaton_ok_def split: if_splits\<close>)
  then show ?thesis using n by (simp add: S' numbering_ok_def)
qed

lemma add_group_new:
  assumes n: "numbering_ok A S" and a: "automaton_ok f A linked S"
    and cur: "map_of (mapping S) cur = Some q" and T: "map_of (mapping S) T = None"
    and len: "length T = total_states A" and fin: "map_of F k = Some True \<longleftrightarrow> accepting A T"
    and new: "linked T = []"
  defines "S' \<equiv> add_group f F q S (k, T)"
  shows "numbering_ok A S' \<and> automaton_ok f A (linked(cur := linked cur @ [(k, T)])) S' \<and>
    map_of (mapping S') = (map_of (mapping S))(T \<mapsto> new_state_count S) \<and>
    open_sets S' = T # open_sets S \<and> visited_sets S' = visited_sets S"
proof -
  have ord: "ordered_map (mapping S)" using n by (simp add: numbering_ok_def)
  let ?m = "map_of (mapping S)" and ?n = "new_state_count S"
  have m: "map_of (mapping S') = ?m(T \<mapsto> ?n)"
    using T ord by (simp add: S'_def add_group_def Let_def split: prod.split)
  have lk: "link f (?m(T \<mapsto> ?n)) q (k, T) = DTransition q ?n (f (fst k)) (snd k)" by (simp add: link_def)
  have sel: "open_sets S' = T # open_sets S" "visited_sets S' = visited_sets S" "new_state_count S' = Suc ?n"
    "mapping S' = map_insert T ?n (mapping S)"
    using T by (simp_all add: S'_def add_group_def Let_def split: prod.split)
  have D: "start_state (dfa_part S') = start_state (dfa_part S)"
    "dfa_total_states (dfa_part S') = Suc (dfa_total_states (dfa_part S))"
    "is_final_state (dfa_part S') = is_final_state (dfa_part S) @ [accepting A T]"
    "from_to_connections (dfa_part S') = (from_to_connections (dfa_part S) @ [[]])
       [q := (from_to_connections (dfa_part S) @ [[]]) ! q @ [link f (?m(T \<mapsto> ?n)) q (k, T)]]"
    using T fin unfolding lk
    by (cases k, simp_all add: S'_def add_group_def Let_def connect_def)+
  have q: "q < ?n" using n cur by (auto simp: numbering_ok_def)
  have below: "q' < ?n" if "?m s = Some q'" for s q' using n that by (auto simp: numbering_ok_def)
  have other: "q' \<noteq> q" if "s \<noteq> cur" "?m s = Some q'" for s q'
    using n that cur unfolding numbering_ok_def by (metis domI inj_onD)
  have len_a: "length (is_final_state (dfa_part S)) = ?n" "length (from_to_connections (dfa_part S)) = ?n"
    using a by (simp_all add: automaton_ok_def)
  have old: "is_final_state (dfa_part S) ! q' = accepting A s"
    "from_to_connections (dfa_part S) ! q' = map (link f ?m q') (linked s)"
    "snd ` set (linked s) \<subseteq> dom ?m" if "?m s = Some q'" for s q'
    using a that by (simp_all add: automaton_ok_def)
  have "automaton_ok f A (linked(cur := linked cur @ [(k, T)])) S'"
    unfolding automaton_ok_def
  proof (intro conjI allI impI)
    fix s q' assume "map_of (mapping S') s = Some q'"
    then consider (new) "s = T" "q' = ?n" | (old) "s \<noteq> T" "?m s = Some q'"
      unfolding m by (auto split: if_splits)
    note s = this
    have T_cur: "T \<noteq> cur" using T cur by auto
    show "is_final_state (dfa_part S') ! q' = accepting A s"
      using s by cases (auto simp: D(3) nth_append len_a old below)
    show "snd ` set ((linked(cur := linked cur @ [(k, T)])) s) \<subseteq> dom (map_of (mapping S'))"
      using s
    proof cases
      case old': old
      then show ?thesis using old(3) [OF old'(2)] by (auto simp: m)
    qed (simp add: new T_cur)
    show "from_to_connections (dfa_part S') ! q' =
        map (link f (map_of (mapping S')) q') ((linked(cur := linked cur @ [(k, T)])) s)"
      using s
    proof cases
      case new': new
      then show ?thesis using q by (simp add: D(4) len_a new T_cur nth_append)
    next
      case old': old
      have ext: "map (link f (?m(T \<mapsto> ?n)) q') (linked s) = map (link f ?m q') (linked s)"
        by (rule link_extend [OF old(3) [OF old'(2)]]) (use T in auto)
      show ?thesis
      proof (cases "s = cur")
        case True
        then have "q' = q" using old'(2) cur by simp
        then show ?thesis using True q ext old(2) [OF old'(2)] by (simp add: D(4) m nth_append len_a)
      next
        case False
        then show ?thesis using other [OF False old'(2)] below [OF old'(2)] ext old(2) [OF old'(2)]
          by (simp add: D(4) m nth_append len_a)
      qed
    qed
  qed (use a in \<open>simp_all add: D sel automaton_ok_def\<close>)
  moreover have "numbering_ok A S'"
    unfolding numbering_ok_def m sel(1-3)
  proof (intro conjI allI impI)
    show "inj_on (?m(T \<mapsto> ?n)) (dom (?m(T \<mapsto> ?n)))"
    proof (rule inj_onI)
      fix x y assume xy: "x \<in> dom (?m(T \<mapsto> ?n))" "y \<in> dom (?m(T \<mapsto> ?n))" "(?m(T \<mapsto> ?n)) x = (?m(T \<mapsto> ?n)) y"
      have inj: "inj_on ?m (dom ?m)" using n by (simp add: numbering_ok_def)
      show "x = y"
        using xy inj_onD [OF inj, of x y] below [of x ?n] below [of y ?n]
        by (cases "x = T"; cases "y = T") (auto simp: domIff)
    qed
    show "ran (?m(T \<mapsto> ?n)) = {..<Suc ?n}"
      using n T by (simp add: numbering_ok_def ran_map_upd lessThan_Suc)
  qed (use n T len below ord in \<open>auto simp: numbering_ok_def sel(4) less_Suc_eq split: if_splits\<close>)
  ultimately show ?thesis using m sel by simp
qed

definition advances :: "rpq_nfa \<Rightarrow> subset_search \<Rightarrow> subset_search \<Rightarrow> bool" where
  "advances A S S' \<longleftrightarrow> map_of (mapping S) \<subseteq>\<^sub>m map_of (mapping S') \<and> visited_sets S' = visited_sets S \<and>
     set (open_sets S') = set (open_sets S) \<union> (dom (map_of (mapping S')) - dom (map_of (mapping S))) \<and>
     potential A S' \<le> potential A S"

lemma advances_refl: "advances A S S"
  by (simp add: advances_def)

lemma advances_trans:
  assumes "advances A S S'" "advances A S' S''" shows "advances A S S''"
proof -
  have "dom (map_of (mapping S)) \<subseteq> dom (map_of (mapping S'))" "dom (map_of (mapping S')) \<subseteq> dom (map_of (mapping S''))"
    using assms by (simp_all add: advances_def map_le_implies_dom_le)
  with assms show ?thesis unfolding advances_def by (auto intro: map_le_trans)
qed

lemma add_group_step:
  assumes n: "numbering_ok A S" and a: "automaton_ok f A linked S"
    and cur: "map_of (mapping S) cur = Some q"
    and len: "length T = total_states A" and fin: "map_of F k = Some True \<longleftrightarrow> accepting A T"
    and new: "\<forall>T. map_of (mapping S) T = None \<longrightarrow> linked T = []"
  shows "numbering_ok A (add_group f F q S (k, T)) \<and>
    automaton_ok f A (linked(cur := linked cur @ [(k, T)])) (add_group f F q S (k, T)) \<and>
    advances A S (add_group f F q S (k, T))"
proof (cases "map_of (mapping S) T")
  case None
  note N = add_group_new [OF n a cur None len fin new [rule_format, OF None]]
  then have "potential A (add_group f F q S (k, T)) \<le> potential A S"
    unfolding potential_def using card_unnumbered [OF len None, of "new_state_count S"] by simp
  with N None show ?thesis by (auto simp: advances_def map_le_def)
next
  case (Some r)
  from add_group_known [OF n a cur Some, of F k] show ?thesis by (simp add: advances_def potential_def)
qed

lemma add_groups:
  assumes "numbering_ok A S" "automaton_ok f A linked S" "map_of (mapping S) cur = Some q"
    and "\<forall>(k, T) \<in> set ks. length T = total_states A \<and> (map_of F k = Some True \<longleftrightarrow> accepting A T)"
    and "\<forall>T. map_of (mapping S) T = None \<longrightarrow> linked T = []"
  shows "numbering_ok A (foldl (add_group f F q) S ks) \<and>
    automaton_ok f A (linked(cur := linked cur @ ks)) (foldl (add_group f F q) S ks) \<and>
    advances A S (foldl (add_group f F q) S ks)"
  using assms
proof (induction ks arbitrary: S linked)
  case (Cons kT ks)
  obtain k T where kT: "kT = (k, T)" by (cases kT)
  let ?S = "add_group f F q S kT" and ?linked = "linked(cur := linked cur @ [kT])"
  have step: "numbering_ok A ?S" "automaton_ok f A ?linked ?S" "advances A S ?S"
    using add_group_step [OF Cons.prems(1-3) _ _ Cons.prems(5), of T F k] Cons.prems(4) unfolding kT by simp_all
  have le: "map_of (mapping S) \<subseteq>\<^sub>m map_of (mapping ?S)" using step(3) by (simp add: advances_def)
  then have cur: "map_of (mapping ?S) cur = Some q" using Cons.prems(3) by (metis domI map_le_def)
  have "\<forall>T. map_of (mapping ?S) T = None \<longrightarrow> ?linked T = []"
  proof (intro allI impI)
    fix U assume U: "map_of (mapping ?S) U = None"
    then have "map_of (mapping S) U = None" using map_le_implies_dom_le [OF le] by (metis domIff subsetD)
    moreover have "U \<noteq> cur" using U cur by auto
    ultimately show "?linked U = []" using Cons.prems(5) by simp
  qed
  note new = this
  have ks: "\<forall>(k, T) \<in> set ks. length T = total_states A \<and> (map_of F k = Some True \<longleftrightarrow> accepting A T)"
    using Cons.prems(4) by simp
  have eq: "?linked(cur := ?linked cur @ ks) = linked(cur := linked cur @ kT # ks)" by simp
  from Cons.IH [OF step(1,2) cur ks new, unfolded eq] show ?case
    unfolding foldl_Cons using advances_trans [OF step(3)] by blast
qed (simp add: advances_refl)

section \<open>The loop ends with every set connected\<close>

definition subset_inv :: "(string \<Rightarrow> object_id) \<Rightarrow> rpq_nfa \<Rightarrow> subset_search \<Rightarrow> bool" where
  "subset_inv f A S \<longleftrightarrow> numbering_ok A S \<and>
     automaton_ok f A (\<lambda>s. if s \<in> set (visited_sets S) then groups_of A s else []) S \<and>
     set (visited_sets S) \<subseteq> dom (map_of (mapping S)) \<and>
     dom (map_of (mapping S)) \<subseteq> set (visited_sets S) \<union> set (open_sets S)"

lemma subset_step_inv:
  assumes A: "outer_ok A" "eps_free A" and inv: "subset_inv f A S" and ne: "open_sets S \<noteq> []"
  shows "\<exists>S'. subset_step f A S = Some S' \<and> subset_inv f A S' \<and> potential A S' < potential A S"
proof -
  obtain cur rest where o: "open_sets S = cur # rest" using ne by (cases "open_sets S") auto
  let ?dn = "\<lambda>s. if s \<in> set (visited_sets S) then groups_of A s else []"
  have n: "numbering_ok A S" and a: "automaton_ok f A ?dn S"
    and v: "set (visited_sets S) \<subseteq> dom (map_of (mapping S))"
      "dom (map_of (mapping S)) \<subseteq> set (visited_sets S) \<union> set (open_sets S)"
    using inv by (simp_all add: subset_inv_def)
  obtain q where q: "map_of (mapping S) cur = Some q" using n o by (auto simp: numbering_ok_def)
  let ?S1 = "S\<lparr>open_sets := rest, mapping := map_insert cur 0 (mapping S)\<rparr>"
  have ord: "ordered_map (mapping S)" using n by (simp add: numbering_ok_def)
  have m1: "map_of (map_insert cur 0 (mapping S)) = map_of (mapping S)" using ord q by simp
  have pot: "potential A ?S1 < potential A S" by (simp add: potential_def m1 o del: map_of_insert)
  have n1: "numbering_ok A ?S1" using n o ord unfolding numbering_ok_def by (simp add: m1 del: map_of_insert)
  have a1: "automaton_ok f A ?dn ?S1" using a by (simp add: automaton_ok_def m1 del: map_of_insert)
  show ?thesis
  proof (cases "cur \<in> set (visited_sets S)")
    case True
    then have "subset_step f A S = Some ?S1" by (simp add: subset_step_def o Let_def)
    moreover have "subset_inv f A ?S1"
      using n1 a1 v True o unfolding subset_inv_def by (auto simp: m1 simp del: map_of_insert)
    ultimately show ?thesis using pot by blast
  next
    case False
    obtain F where F: "reached_grouped_by_type A cur = Some (groups_of A cur, F)"
      "\<And>k T. (k, T) \<in> set (groups_of A cur) \<Longrightarrow> length T = total_states A \<and> (map_of F k = Some True \<longleftrightarrow> accepting A T)"
      using reached_grouped_by_type_spec [OF A, of cur] by metis
    let ?S2 = "?S1\<lparr>visited_sets := cur # visited_sets S\<rparr>"
    let ?S3 = "foldl (add_group f F q) ?S2 (groups_of A cur)"
    have step: "subset_step f A S = Some ?S3"
      using False F(1) by (simp add: subset_step_def o Let_def q)
    have n2: "numbering_ok A ?S2" using n1 by (simp add: numbering_ok_def)
    have a2: "automaton_ok f A ?dn ?S2" using a1 by (simp add: automaton_ok_def)
    have q2: "map_of (mapping ?S2) cur = Some q" using q by (simp add: m1 del: map_of_insert)
    have "\<forall>T. map_of (mapping ?S2) T = None \<longrightarrow> ?dn T = []" using v by (auto simp: m1 simp del: map_of_insert)
    moreover have "\<forall>(k, T) \<in> set (groups_of A cur). length T = total_states A \<and> (map_of F k = Some True \<longleftrightarrow> accepting A T)"
      using F(2) by blast
    ultimately have S3: "numbering_ok A ?S3" "automaton_ok f A (?dn(cur := ?dn cur @ groups_of A cur)) ?S3" "advances A ?S2 ?S3"
      using add_groups [OF n2 a2 q2, of "groups_of A cur" F] by blast+
    have "?dn(cur := ?dn cur @ groups_of A cur) =
        (\<lambda>s. if s \<in> set (visited_sets ?S3) then groups_of A s else [])"
      using False S3(3) by (auto simp: advances_def fun_eq_iff)
    with S3 have a3: "automaton_ok f A (\<lambda>s. if s \<in> set (visited_sets ?S3) then groups_of A s else []) ?S3" by simp
    have adv: "dom (map_of (mapping S)) \<subseteq> dom (map_of (mapping ?S3))" "set (visited_sets ?S3) = insert cur (set (visited_sets S))"
      "set (open_sets ?S3) = set rest \<union> (dom (map_of (mapping ?S3)) - dom (map_of (mapping S)))"
      using S3(3) m1 map_le_implies_dom_le by (fastforce simp: advances_def simp del: map_of_insert)+
    have "subset_inv f A ?S3"
    proof -
      have cur: "cur \<in> dom (map_of (mapping S))" "set (open_sets S) = insert cur (set rest)" using q o by auto
      have "set (visited_sets ?S3) \<subseteq> dom (map_of (mapping ?S3))"
        unfolding adv(2) using adv(1) v(1) cur by blast
      moreover have "dom (map_of (mapping ?S3)) \<subseteq> set (visited_sets ?S3) \<union> set (open_sets ?S3)"
        unfolding adv(2,3) using v(2) cur by blast
      ultimately show ?thesis unfolding subset_inv_def using S3(1) a3 by blast
    qed
    moreover have "potential A ?S3 < potential A S"
      using S3(3) pot by (simp add: advances_def potential_def)
    ultimately show ?thesis using step by blast
  qed
qed

lemma subset_loop_spec:
  assumes A: "outer_ok A" "eps_free A" and "subset_inv f A S"
  shows "\<exists>S'. subset_loop f A S = Some S' \<and> subset_inv f A S' \<and> open_sets S' = []"
  using assms(3)
proof (induction S rule: measure_induct_rule [of "potential A"])
  case (less S)
  show ?case
  proof (cases "open_sets S = []")
    case True
    then show ?thesis using less by (subst subset_loop.simps) simp
  next
    case False
    then obtain S' where S': "subset_step f A S = Some S'" "subset_inv f A S'" "potential A S' < potential A S"
      using subset_step_inv [OF A less.prems] by blast
    then have "subset_loop f A S = subset_loop f A S'" by (subst subset_loop.simps) (simp add: False)
    with less.IH [OF S'(3,2)] show ?thesis by simp
  qed
qed

lemma members_start: "outer_ok A \<Longrightarrow> members ((replicate (total_states A) False)[start A := True]) = {start A}"
  by (simp add: outer_ok_def)

lemma subset_start_inv: "outer_ok A \<Longrightarrow> subset_inv f A (subset_start A)"
  using members_start [of A]
  by (auto simp: subset_inv_def subset_start_def Let_def numbering_ok_def automaton_ok_def accepting_def split: if_splits)

section \<open>The language of the result\<close>

definition read_label :: "(string \<Rightarrow> object_id) \<Rightarrow> label \<Rightarrow> object_id \<times> bool" where
  "read_label f l = (f (fst l), snd l)"

text \<open>What the finished automaton knows of a numbered set.\<close>

definition dfa_of :: "(string \<Rightarrow> object_id) \<Rightarrow> rpq_nfa \<Rightarrow> (bool list \<rightharpoonup> nat) \<Rightarrow> rpq_dfa \<Rightarrow> bool" where
  "dfa_of f A m D \<longleftrightarrow> m ((replicate (total_states A) False)[start A := True]) = Some (start_state D) \<and>
     ran m \<subseteq> {..<dfa_total_states D} \<and> length (is_final_state D) = dfa_total_states D \<and>
     length (from_to_connections D) = dfa_total_states D \<and> start_state D < dfa_total_states D \<and>
     (\<forall>s q. m s = Some q \<longrightarrow> is_final_state D ! q = accepting A s \<and>
        slot (from_to_connections D) q = map (link f m q) (groups_of A s) \<and> snd ` set (groups_of A s) \<subseteq> dom m)"

lemma subset_inv_dfa_of:
  assumes "subset_inv f A S" "open_sets S = []"
  shows "dfa_of f A (map_of (mapping S)) (dfa_part S)"
proof -
  have n: "numbering_ok A S" and a: "automaton_ok f A (\<lambda>s. if s \<in> set (visited_sets S) then groups_of A s else []) S"
    and v: "dom (map_of (mapping S)) \<subseteq> set (visited_sets S)"
    using assms by (simp_all add: subset_inv_def)
  have start: "start_state (dfa_part S) = 0" "length (from_to_connections (dfa_part S)) = new_state_count S"
    "length (is_final_state (dfa_part S)) = new_state_count S" "dfa_total_states (dfa_part S) = new_state_count S"
    using a by (simp_all add: automaton_ok_def)
  have lt: "q < new_state_count S" if "map_of (mapping S) s = Some q" for s q
    using n that by (simp add: numbering_ok_def)
  have m0: "map_of (mapping S) ((replicate (total_states A) False)[start A := True]) = Some 0"
    using n by (simp add: numbering_ok_def)
  have c: "is_final_state (dfa_part S) ! q = accepting A s \<and>
      slot (from_to_connections (dfa_part S)) q = map (link f (map_of (mapping S)) q) (groups_of A s) \<and>
      snd ` set (groups_of A s) \<subseteq> dom (map_of (mapping S))"
    if s: "map_of (mapping S) s = Some q" for s q
  proof -
    have "s \<in> set (visited_sets S)" using v s by auto
    then show ?thesis using a s lt [OF s] unfolding automaton_ok_def by (force simp: slot_def start)
  qed
  show ?thesis
    unfolding dfa_of_def start using m0 lt lt [OF m0] c by (auto simp: ran_def)
qed

lemma dfa_of_run_sound:
  assumes A: "outer_ok A" "eps_free A" and D: "dfa_of f A m D"
  shows "dfa_run D p v q \<Longrightarrow> m s = Some p \<Longrightarrow>
    \<exists>w s'. v = map (read_label f) w \<and> m s' = Some q \<and> (\<forall>x \<in> members s'. \<exists>y \<in> members s. nfa_path (edges A) y w x)"
proof (induction v arbitrary: p s)
  case Nil
  then show ?case by (intro exI [of _ "[]"] exI [of _ s]) auto
next
  case (Cons l v)
  have G: "(k, T) \<in> set (groups_of A s) \<Longrightarrow> members T = delta A (members s) k" for k T
    using reached_grouped_by_type_spec [OF A, of s] by metis
  have conn: "slot (from_to_connections D) p = map (link f m p) (groups_of A s)" "snd ` set (groups_of A s) \<subseteq> dom m"
    using D Cons.prems(2) by (simp_all add: dfa_of_def)
  obtain t where t: "t \<in> set (slot (from_to_connections D) p)" "l = (type_id t, dfa_inverse t)" "dfa_run D (dfa_to t) v q"
    using Cons.prems(1) by (cases l) auto
  from t(1) obtain k T where k: "(k, T) \<in> set (groups_of A s)" "t = link f m p (k, T)"
    unfolding conn by auto
  then obtain r where r: "m T = Some r" using conn(2) by force
  have "dfa_run D r v q" using t(3) k r by (simp add: link_def)
  from Cons.IH [OF this r] obtain w s' where w: "v = map (read_label f) w" "m s' = Some q"
    "\<forall>x \<in> members s'. \<exists>y \<in> members T. nfa_path (edges A) y w x" by blast
  have "l # v = map (read_label f) (k # w)" using t(2) k(2) w(1) by (simp add: link_def read_label_def)
  moreover have "\<exists>y \<in> members s. nfa_path (edges A) y (k # w) x" if x: "x \<in> members s'" for x
  proof -
    obtain z where z: "z \<in> members T" "nfa_path (edges A) z w x" using w(3) x by blast
    then obtain e where e: "e \<in> edges A" "dest e = z" "frm e \<in> members s" "key_of e = Some k"
      using G [OF k(1)] by (auto simp: delta_def)
    then have "letter e = [k]" by (cases "ttype e") (auto simp: key_of_def letter_def)
    then show ?thesis using nfa_path_step [OF e(1)] z(2) e(2,3) by fastforce
  qed
  ultimately show ?case using w(2) by (intro exI [of _ "k # w"] exI [of _ s']) simp
qed

lemma dfa_of_run_complete:
  assumes A: "outer_ok A" "eps_free A" and D: "dfa_of f A m D"
    and path: "nfa_path (edges A) y w x" and s: "m s = Some p" "y \<in> members s"
  shows "\<exists>q s'. dfa_run D p (map (read_label f) w) q \<and> m s' = Some q \<and> x \<in> members s'"
  using path s
proof (induction arbitrary: s p)
  case (nfa_refl y)
  then show ?case by auto
next
  case (nfa_eps y z d w x)
  then show ?case using A(2) by (force simp: eps_free_def)
next
  case (nfa_sym y z a d w x)
  have "delta A (members s) (a, d) \<noteq> {}" "z \<in> delta A (members s) (a, d)"
    using nfa_sym by (force simp: delta_def key_of_def)+
  moreover obtain F where "\<And>k. k \<notin> fst ` set (groups_of A s) \<longleftrightarrow> delta A (members s) k = {}"
    "\<And>k T. (k, T) \<in> set (groups_of A s) \<Longrightarrow> members T = delta A (members s) k"
    using reached_grouped_by_type_spec [OF A, of s] by metis
  ultimately have "(a, d) \<in> fst ` set (groups_of A s)" and
    "\<And>T. ((a, d), T) \<in> set (groups_of A s) \<Longrightarrow> z \<in> members T" by blast+
  then obtain T where T: "((a, d), T) \<in> set (groups_of A s)" "z \<in> members T" by (auto simp: image_iff)
  have conn: "slot (from_to_connections D) p = map (link f m p) (groups_of A s)" "snd ` set (groups_of A s) \<subseteq> dom m"
    using D nfa_sym.prems(1) by (simp_all add: dfa_of_def)
  then obtain r where r: "m T = Some r" using T(1) by force
  obtain q s' where q: "dfa_run D r (map (read_label f) w) q" "m s' = Some q" "x \<in> members s'"
    using nfa_sym.IH [OF r T(2)] by blast
  have "link f m p ((a, d), T) \<in> set (slot (from_to_connections D) p)" using T(1) conn(1) by simp
  then have "dfa_run D p (map (read_label f) ((a, d) # w)) q"
    using q(1) r by (auto simp: read_label_def link_def intro!: bexI [of _ "link f m p ((a, d), T)"])
  with q(2,3) show ?case by blast
qed

lemma dfa_of_lang:
  assumes A: "outer_ok A" "eps_free A" and D: "dfa_of f A m D"
  shows "dfa_lang D = map (read_label f) ` nfa_lang A"
proof
  let ?s0 = "(replicate (total_states A) False)[start A := True]"
  have s0: "m ?s0 = Some (start_state D)" "members ?s0 = {start A}"
    using D members_start [OF A(1)] by (simp_all add: dfa_of_def)
  have fin: "is_final_state D ! q = accepting A s" "q < length (is_final_state D)" if "m s = Some q" for s q
    using D that by (auto simp: dfa_of_def ran_def)
  show "dfa_lang D \<subseteq> map (read_label f) ` nfa_lang A"
  proof
    fix v assume "v \<in> dfa_lang D"
    then obtain q where q: "dfa_run D (start_state D) v q" "is_final_state D ! q" by (auto simp: dfa_lang_def)
    obtain w s' where w: "v = map (read_label f) w" "m s' = Some q"
      "\<forall>x \<in> members s'. \<exists>y \<in> members ?s0. nfa_path (edges A) y w x"
      using dfa_of_run_sound [OF A D q(1) s0(1)] by blast
    have "members s' \<inter> set (end_states A) \<noteq> {}" using fin(1) [OF w(2)] q(2) by (simp add: accepting_def)
    then have "w \<in> nfa_lang A" using w(3) unfolding s0 nfa_lang_def by blast
    with w(1) show "v \<in> map (read_label f) ` nfa_lang A" by blast
  qed
  show "map (read_label f) ` nfa_lang A \<subseteq> dfa_lang D"
  proof
    fix v assume "v \<in> map (read_label f) ` nfa_lang A"
    then obtain w x where w: "v = map (read_label f) w" "x \<in> set (end_states A)" "nfa_path (edges A) (start A) w x"
      by (auto simp: nfa_lang_def)
    obtain q s' where q: "dfa_run D (start_state D) v q" "m s' = Some q" "x \<in> members s'"
      using dfa_of_run_complete [OF A D w(3) s0(1)] s0(2) w(1) by blast
    then show "v \<in> dfa_lang D" using fin [OF q(2)] w(2) by (auto simp: dfa_lang_def accepting_def)
  qed
qed

text \<open>At most one transition for a type and a direction, when \<open>f\<close> does not confuse types.\<close>

definition deterministic :: "rpq_dfa \<Rightarrow> bool" where
  "deterministic D \<longleftrightarrow> (\<forall>p. distinct (map (\<lambda>t. (type_id t, dfa_inverse t)) (slot (from_to_connections D) p)) \<and>
     (\<forall>t \<in> set (slot (from_to_connections D) p). dfa_from t = p \<and> dfa_to t < dfa_total_states D))"

lemma dfa_of_deterministic:
  assumes A: "outer_ok A" "eps_free A" and D: "dfa_of f A m D" "ran m = {..<dfa_total_states D}"
    and f: "inj_on f (nfa_types A)"
  shows "deterministic D"
  unfolding deterministic_def
proof (intro allI conjI)
  fix p
  have "distinct (map (\<lambda>t. (type_id t, dfa_inverse t)) (slot (from_to_connections D) p)) \<and>
    (\<forall>t \<in> set (slot (from_to_connections D) p). dfa_from t = p \<and> dfa_to t < dfa_total_states D)"
  proof (cases "p < dfa_total_states D")
    case True
    then have "p \<in> ran m" using D(2) by simp
    then obtain s where s: "m s = Some p" by (auto simp: ran_def)
    have c: "slot (from_to_connections D) p = map (link f m p) (groups_of A s)" "snd ` set (groups_of A s) \<subseteq> dom m"
      using D(1) s by (simp_all add: dfa_of_def)
    have o: "ordered_map (groups_of A s)" and g: "\<And>k. k \<notin> fst ` set (groups_of A s) \<longleftrightarrow> delta A (members s) k = {}"
      using reached_grouped_by_type_spec [OF A, of s] by (metis, metis)
    have "fst k \<in> nfa_types A" if "k \<in> fst ` set (groups_of A s)" for k
      using g [of k] that by (auto simp: delta_def nfa_types_def key_of_def split: option.splits)
    then have "inj_on (read_label f) (fst ` set (groups_of A s))"
      using f by (auto simp: inj_on_def read_label_def prod_eq_iff)
    then have "distinct (map (read_label f \<circ> fst) (groups_of A s))"
      using ordered_map_distinct [OF o] by (metis distinct_map list.set_map map_map)
    then have "distinct (map (\<lambda>t. (type_id t, dfa_inverse t)) (slot (from_to_connections D) p))"
      by (simp add: c(1) comp_def link_def read_label_def)
    moreover have "the (m T) < dfa_total_states D" if "T \<in> dom m" for T
      using that D(2) by (auto simp: ran_def)
    then have "\<forall>kT \<in> set (groups_of A s). the (m (snd kT)) < dfa_total_states D" using c(2) by blast
    ultimately show ?thesis using c(1) by (auto simp: link_def)
  next
    case False
    then show ?thesis using D(1) by (simp add: dfa_of_def slot_def)
  qed
  then show "distinct (map (\<lambda>t. (type_id t, dfa_inverse t)) (slot (from_to_connections D) p))"
    and "\<forall>t \<in> set (slot (from_to_connections D) p). dfa_from t = p \<and> dfa_to t < dfa_total_states D"
    by blast+
qed

lemma subset_construction_spec:
  assumes A: "outer_ok A" "eps_free A"
  obtains D m where "subset_construction f A = Some D" "dfa_of f A m D" "inj_on m (dom m)"
    "ran m = {..<dfa_total_states D}" "total_final_states D = length (filter id (is_final_state D))"
proof -
  obtain S where S: "subset_loop f A (subset_start A) = Some S" "subset_inv f A S" "open_sets S = []"
    using subset_loop_spec [OF A subset_start_inv [OF A(1)]] by blast
  let ?D = "(dfa_part S)\<lparr>total_final_states := length (filter id (is_final_state (dfa_part S)))\<rparr>"
  show ?thesis
  proof (rule that [of ?D "map_of (mapping S)"])
    show "subset_construction f A = Some ?D" by (simp add: subset_construction_def S(1))
    show "dfa_of f A (map_of (mapping S)) ?D" using subset_inv_dfa_of [OF S(2,3)] by (simp add: dfa_of_def)
    show "inj_on (map_of (mapping S)) (dom (map_of (mapping S)))" "ran (map_of (mapping S)) = {..<dfa_total_states ?D}"
      using S(2) by (simp_all add: subset_inv_def numbering_ok_def automaton_ok_def)
  qed simp
qed

section \<open>The whole pipeline\<close>

lemma transform_automaton_spec:
  assumes A: "nfa_ok A"
  obtains B D m where "delete_mergeable_states A = Some B" "merge_step\<^sup>*\<^sup>* A B" "nfa_ok B"
    "transform_automaton f A = Some D"
    "dfa_of f (delete_unreachable_states (delete_epsilon_transitions B)) m D"
    "ran m = {..<dfa_total_states D}" "dfa_lang D = map (read_label f) ` nfa_lang B"
    "inj_on f (nfa_types A) \<Longrightarrow> deterministic D" "total_final_states D = length (filter id (is_final_state D))"
proof -
  obtain B where B: "delete_mergeable_states A = Some B" "merge_step\<^sup>*\<^sup>* A B" "nfa_ok B"
    using delete_mergeable_states_spec [OF A] by blast
  let ?C = "delete_epsilon_transitions B"
  note C = delete_epsilon_transitions_spec [OF nfa_ok_outer_ok [OF B(3)]]
  have U: "outer_ok (delete_unreachable_states ?C)" "eps_free (delete_unreachable_states ?C)"
    "nfa_lang (delete_unreachable_states ?C) = nfa_lang B"
    using C by (simp_all add: delete_unreachable_states_spec delete_unreachable_states_eps_free
        delete_unreachable_states_lang)
  obtain D m where D: "subset_construction f (delete_unreachable_states ?C) = Some D"
    "dfa_of f (delete_unreachable_states ?C) m D" "ran m = {..<dfa_total_states D}"
    "total_final_states D = length (filter id (is_final_state D))"
    using subset_construction_spec [OF U(1,2)] by metis
  have "nfa_types (delete_unreachable_states ?C) \<subseteq> nfa_types A"
    using nfa_types_delete_unreachable [OF C(1)] nfa_types_delete_epsilon [OF nfa_ok_outer_ok [OF B(3)]]
      nfa_types_merge_steps [OF B(2) A] by blast
  then have "inj_on f (nfa_types (delete_unreachable_states ?C))" if "inj_on f (nfa_types A)"
    using that by (rule inj_on_subset [rotated])
  then show ?thesis
    by (intro that [OF B _ D(2,3) _ _ D(4)])
      (use D(1) B(1) dfa_of_lang [OF U(1,2) D(2)] U(3) dfa_of_deterministic [OF U(1,2) D(2,3)]
        in \<open>simp_all add: transform_automaton_def\<close>)
qed

end
