(* ===== verification/PlainPath.thy ===== *)
theory PlainPath
  imports Thompson NfaMergeLang
begin

text \<open>
  The path expressions for which the whole construction is exact: stars and optionals only over
  expressions of edge types, sequences and alternatives (\<open>plain\<close>). Their Thompson automata satisfy
  \<open>merge_inv\<close>, so \<open>delete_mergeable_states\<close> keeps the language.
\<close>

fun flat :: "'c path \<Rightarrow> bool" where
  "flat (PathAtom a dir cs) = True"
| "flat (PathSequence ps) = (ps \<noteq> [] \<and> list_all flat ps)"
| "flat (PathAlternatives ps) = (ps \<noteq> [] \<and> list_all flat ps)"
| "flat p = False"

fun plain :: "'c path \<Rightarrow> bool" where
  "plain (PathAtom a dir cs) = True"
| "plain (PathAlternatives ps) = (ps \<noteq> [] \<and> list_all plain ps)"
| "plain (PathSequence ps) = (ps \<noteq> [] \<and> list_all plain ps)"
| "plain (PathKleeneStar p) = flat p"
| "plain (PathOptional p) = flat p"
| "plain (PathCheck cs) = False"

lemma flat_props: "flat p \<Longrightarrow> wf_path p \<and> \<not> nullable p \<and> \<not> start_loops p \<and> exact_path p"
proof (induction p rule: flat.induct)
  case (2 ps)
  then have "\<forall>p \<in> set ps. wf_path p \<and> \<not> nullable p \<and> \<not> start_loops p \<and> exact_path p" "ps \<noteq> []"
    by (auto simp: list_all_iff)
  then show ?case by (cases ps) (auto simp: list_all_iff)
qed (auto simp: list_all_iff list_ex_iff)

lemma plain_props: "plain p \<Longrightarrow> wf_path p \<and> exact_path p"
  by (induction p rule: plain.induct) (auto simp: list_all_iff flat_props)

section \<open>Sealed automata\<close>

text \<open>
  The automaton of a flat expression: its start state is not entered, its final states are only entered
  by edge types and not left, and what the start state reaches silently is captive.
\<close>

definition sealed_end :: "rpq_nfa \<Rightarrow> nat \<Rightarrow> bool" where
  "sealed_end A e \<longleftrightarrow> (\<forall>t \<in> edges A. frm t \<noteq> e \<and> (dest t = e \<longrightarrow> ttype t \<noteq> None))"

definition sealed :: "rpq_nfa \<Rightarrow> bool" where
  "sealed A \<longleftrightarrow> no_in_start A \<and> start A \<notin> set (end_states A) \<and> (\<forall>e \<in> set (end_states A). sealed_end A e) \<and>
     (\<exists>T. captive A T \<and> (\<forall>v. eps_edge A (start A) v \<longrightarrow> v \<in> T))"

lemma sealed_end_eps: "sealed_end A e \<Longrightarrow> \<not> eps_edge A u e \<and> \<not> eps_edge A e u"
  by (force simp: sealed_end_def eps_edge_def)

lemma no_in_start_eps: "no_in_start A \<Longrightarrow> \<not> eps_edge A u (start A)"
  by (force simp: no_in_start_def eps_edge_def)

section \<open>Gluing two automata\<close>

text \<open>
  What \<open>alternatives_step\<close> and \<open>sequence_step\<close> have in common: the second automaton is renamed
  past the first, and silent transitions lead to its start state from the states \<open>S\<close>.
\<close>

definition glued :: "rpq_nfa \<Rightarrow> rpq_nfa \<Rightarrow> nat set \<Rightarrow> rpq_nfa \<Rightarrow> bool" where
  "glued A C S B \<longleftrightarrow> states_ok A \<and> states_ok C \<and> S \<subseteq> {..<total_states A} \<and> start B = 0 \<and>
     edges B = edges A \<union> renamed_edges (total_states A) C \<union> (\<lambda>s. Transition s (total_states A) None False) ` S"

lemma glued_alternatives_step:
  assumes "states_ok A" "mirrored A" "base_ok C"
  shows "glued A C {0} (alternatives_step A C)"
    "set (end_states (alternatives_step A C)) = set (end_states A) \<union> (+) (total_states A) ` set (end_states C)"
proof -
  obtain M C' where m: "rename_and_merge A C = (M, C')" by fastforce
  note M = rename_and_merge_spec [OF assms m]
  show "glued A C {0} (alternatives_step A C)"
    using assms M by (auto simp: glued_def alternatives_step_def m Let_def add_epsilon_transition_def states_ok_def base_ok_def)
  show "set (end_states (alternatives_step A C)) = set (end_states A) \<union> (+) (total_states A) ` set (end_states C)"
    using M by (simp add: alternatives_step_def m Let_def add_epsilon_transition_def)
qed

lemma glued_sequence_step:
  assumes "base_ok A" "base_ok C"
  shows "glued A C (set (end_states A)) (sequence_step A C)"
    "set (end_states (sequence_step A C)) = (+) (total_states A) ` set (end_states C)"
proof -
  obtain M C' where m: "rename_and_merge A C = (M, C')" by fastforce
  note M = rename_and_merge_spec [OF base_okD(1,2) [OF assms(1)] assms(2) m]
  show "glued A C (set (end_states A)) (sequence_step A C)"
    using assms M by (auto simp: glued_def sequence_step_def m foldl_add_epsilon states_ok_def base_ok_def)
  show "set (end_states (sequence_step A C)) = (+) (total_states A) ` set (end_states C)"
    using M by (simp add: sequence_step_def m)
qed

lemma glued_edge_cases [consumes 2, case_names left right bridge]:
  assumes "glued A C S B" "t \<in> edges B"
  obtains (left) "t \<in> edges A" "frm t < total_states A" "dest t < total_states A"
  | (right) u where "u \<in> edges C" "t = rename_transition (total_states A) u"
  | (bridge) s where "s \<in> S" "s < total_states A" "t = Transition s (total_states A) None False"
  using assms by (auto simp: glued_def renamed_edges_def states_ok_def)

lemma glued_starts: "glued A C S B \<Longrightarrow> start A = 0 \<and> start C = 0 \<and> start B = 0 \<and> 1 \<le> total_states A"
  by (simp add: glued_def states_ok_def)

lemma glued_sealed_left:
  assumes g: "glued A C S B" and "e < total_states A" "e \<notin> S" "sealed_end A e"
  shows "sealed_end B e"
  unfolding sealed_end_def
proof
  fix t assume "t \<in> edges B"
  then show "frm t \<noteq> e \<and> (dest t = e \<longrightarrow> ttype t \<noteq> None)"
    using assms(2-4) by (cases rule: glued_edge_cases [OF g]) (auto simp: sealed_end_def)
qed

lemma glued_sealed_right:
  assumes g: "glued A C S B" and "e \<noteq> start C" "sealed_end C e"
  shows "sealed_end B (total_states A + e)"
  unfolding sealed_end_def
proof
  fix t assume "t \<in> edges B"
  then show "frm t \<noteq> total_states A + e \<and> (dest t = total_states A + e \<longrightarrow> ttype t \<noteq> None)"
    using assms(2,3) glued_starts [OF g] by (cases rule: glued_edge_cases [OF g]) (auto simp: sealed_end_def)
qed

lemma glued_eps_left: "glued A C S B \<Longrightarrow> eps_edge A u v \<Longrightarrow> eps_edge B u v"
  by (auto simp: glued_def eps_edge_def)

lemma glued_eps_right: "glued A C S B \<Longrightarrow> eps_edge C u v \<Longrightarrow> eps_edge B (total_states A + u) (total_states A + v)"
proof -
  assume g: "glued A C S B" and "eps_edge C u v"
  then obtain b where "Transition u v None b \<in> edges C" by (auto simp: eps_edge_def)
  then have "rename_transition (total_states A) (Transition u v None b) \<in> edges B"
    using g unfolding glued_def renamed_edges_def by blast
  then show ?thesis by (auto simp: eps_edge_def rename_transition_def add.commute)
qed

lemma glued_eps_cases [consumes 2, case_names left right bridge]:
  assumes g: "glued A C S B" and e: "eps_edge B u v"
  obtains (left) "eps_edge A u v" "u < total_states A" "v < total_states A"
  | (right) u' v' where "eps_edge C u' v'" "u = total_states A + u'" "v = total_states A + v'"
  | (bridge) "u \<in> S" "u < total_states A" "v = total_states A"
proof -
  obtain b where t: "Transition u v None b \<in> edges B" using e by (auto simp: eps_edge_def)
  from g t show ?thesis
  proof (cases rule: glued_edge_cases)
    case left with that(1) show ?thesis by (auto simp: eps_edge_def)
  next
    case (right w)
    then have "w = Transition (frm w) (dest w) None (inverse_dir w)"
      by (cases w) (simp add: rename_transition_def)
    with right have "eps_edge C (frm w) (dest w)" by (metis eps_edge_def)
    with right that(2) show ?thesis by (simp add: rename_transition_def add.commute)
  next
    case bridge with that(3) show ?thesis by simp
  qed
qed

text \<open>
  The states past the first automaton, and those of the first one that are not left by the silent
  transitions between the two, stay captive.
\<close>

lemma glued_captive_right:
  assumes g: "glued A C S B" and C: "captive C U" and ends: "(+) (total_states A) ` set (end_states C) \<subseteq> set (end_states B)"
    "set (end_states B) \<inter> {total_states A..} \<subseteq> (+) (total_states A) ` set (end_states C)"
  shows "captive B ((+) (total_states A) ` U)"
  unfolding captive_def
proof (intro conjI ballI allI impI)
  let ?k = "total_states A"
  note st = glued_starts [OF g]
  have z: "0 \<notin> U" using C st by (simp add: captive_def)
  show "start B \<notin> (+) ?k ` U" using st z by auto
  show "(+) ?k ` U \<inter> set (end_states B) = {}" using C ends(2) by (fastforce simp: captive_def)
  fix w assume "w \<in> (+) ?k ` U"
  then obtain u where u: "w = ?k + u" "u \<in> U" by blast
  have u0: "u \<noteq> 0" using u(2) z by metis
  have into: "\<exists>x'. x = ?k + x' \<and> eps_edge C x' u" if "eps_edge B x w" for x
    using g that by (cases rule: glued_eps_cases) (use u u0 in auto)
  {
    fix t assume "t \<in> edges B" "dest t = w"
    then show "ttype t = None"
      using captiveD(3) [OF C u(2)] by (cases rule: glued_edge_cases [OF g]) (auto simp: u(1))
  next
    fix x y assume "eps_edge B x w" "eps_edge B y w"
    then obtain x' y' where "x = ?k + x'" "eps_edge C x' u" "y = ?k + y'" "eps_edge C y' u" using into by blast
    then show "x = w \<or> y = w \<or> x = y" using captiveD(4) [OF C u(2), of x' y'] u(1) by auto
  next
    fix y assume e: "eps_edge B w y"
    from g e show "y \<in> (+) ?k ` U \<or> y \<in> set (end_states B)"
    proof (cases rule: glued_eps_cases)
      case (right u' v')
      then have "v' \<in> U \<or> v' \<in> set (end_states C)" using captiveD(5) [OF C u(2), of v'] u(1) by simp
      then show ?thesis using right(3) ends(1) by blast
    qed (simp_all add: u(1))
  }
qed

lemma glued_captive_left:
  assumes g: "glued A C S B" and A: "captive A U" and S: "U \<inter> S = {}" "U \<inter> set (end_states B) \<inter> {..<total_states A} = {}"
    and out: "\<And>w y. w \<in> U \<Longrightarrow> eps_edge A w y \<Longrightarrow> y \<in> U \<or> y \<in> set (end_states B)"
  shows "captive B (U \<inter> {..<total_states A})"
  unfolding captive_def
proof (intro conjI ballI allI impI)
  let ?k = "total_states A"
  note st = glued_starts [OF g]
  show "start B \<notin> U \<inter> {..<?k}" using A st by (simp add: captive_def)
  show "U \<inter> {..<?k} \<inter> set (end_states B) = {}" using S(2) by blast
  fix w assume "w \<in> U \<inter> {..<?k}"
  then have w: "w \<in> U" "w < ?k" by simp_all
  have into: "eps_edge A x w" if "eps_edge B x w" for x
    using g that by (cases rule: glued_eps_cases) (use w in auto)
  {
    fix t assume "t \<in> edges B" "dest t = w"
    then show "ttype t = None"
      using captiveD(3) [OF A w(1)] w(2) by (cases rule: glued_edge_cases [OF g]) auto
  next
    fix x y assume "eps_edge B x w" "eps_edge B y w"
    then show "x = w \<or> y = w \<or> x = y" using captiveD(4) [OF A w(1)] into by blast
  next
    fix y assume e: "eps_edge B w y"
    from g e show "y \<in> U \<inter> {..<?k} \<or> y \<in> set (end_states B)"
    proof (cases rule: glued_eps_cases)
      case left then show ?thesis using out [OF w(1)] by simp
    next
      case right then show ?thesis using w(2) by simp
    next
      case bridge then show ?thesis using S(1) w(1) by blast
    qed
  }
qed

text \<open>Two captive sets that have no silent transition in common.\<close>

lemma captive_Un: "captive A T \<Longrightarrow> captive A U \<Longrightarrow> captive A (T \<union> U)"
  unfolding captive_def by blast

section \<open>The operators on sealed automata\<close>

lemma sealed_atom: "sealed (atom_automaton a dir)" "merge_inv (atom_automaton a dir)"
proof -
  have e: "edges RPQ_NFA = {}" by (simp add: RPQ_NFA_def edges_def)
  have E: "edges (atom_automaton a dir) = {Transition 0 1 (Some a) dir}" "start (atom_automaton a dir) = 0"
    "set (end_states (atom_automaton a dir)) = {1}"
    by (simp_all add: atom_automaton_def e) (simp_all add: RPQ_NFA_def)
  have n: "\<not> eps_edge (atom_automaton a dir) u v" for u v by (simp add: eps_edge_def E)
  show "sealed (atom_automaton a dir)"
    unfolding sealed_def by (auto simp: no_in_start_def sealed_end_def n E intro: exI [of _ "{}"])
  show "merge_inv (atom_automaton a dir)"
    unfolding merge_inv_def start_inv_def ends_inv_def by (auto simp: n intro: exI [of _ "{}"])
qed

lemma ends_bound: "states_ok A \<Longrightarrow> e \<in> set (end_states A) \<Longrightarrow> e < total_states A"
  by (auto simp: states_ok_def)

lemma glued_sealed_ends:
  assumes "glued A C S B" "sealed C" "e \<in> set (end_states C)"
  shows "sealed_end B (total_states A + e)"
  using assms glued_sealed_right [OF assms(1), of e] by (metis sealed_def)

lemma sealed_sequence_step:
  assumes A: "base_ok A" "sealed A" and C: "base_ok C" "sealed C"
  shows "sealed (sequence_step A C)"
proof -
  let ?B = "sequence_step A C" and ?k = "total_states A"
  note g = glued_sequence_step [OF A(1) C(1)]
  note st = glued_starts [OF g(1)]
  obtain T where T: "captive A T" "\<And>v. eps_edge A 0 v \<Longrightarrow> v \<in> T" using A(2) st unfolding sealed_def by metis
  have nA: "0 \<notin> set (end_states A)" "\<And>e. e \<in> set (end_states A) \<Longrightarrow> sealed_end A e"
    using A(2) st by (auto simp: sealed_def)
  have no: "no_in_start ?B" using A by (intro sequence_step_spec(4) C) (simp_all add: sealed_def)
  have cap: "captive ?B (T \<inter> {..<?k})"
  proof (rule glued_captive_left [OF g(1) T(1)])
    show "T \<inter> set (end_states A) = {}" using T(1) by (simp add: captive_def)
    show "T \<inter> set (end_states ?B) \<inter> {..<?k} = {}" by (auto simp: g(2))
    show "y \<in> T \<or> y \<in> set (end_states ?B)" if "w \<in> T" "eps_edge A w y" for w y
      using captiveD(5) [OF T(1) that] sealed_end_eps [OF nA(2)] that(2) by blast
  qed
  have "v \<in> T \<inter> {..<?k}" if "eps_edge ?B 0 v" for v
    using g(1) that by (cases rule: glued_eps_cases) (use T(2) nA(1) st in auto)
  moreover have "sealed_end ?B e" if "e \<in> set (end_states ?B)" for e
    using that glued_sealed_ends [OF g(1) C(2)] by (auto simp: g(2))
  moreover have "0 \<notin> set (end_states ?B)" using st by (auto simp: g(2))
  ultimately show ?thesis unfolding sealed_def using no cap st by metis
qed

text \<open>The set for the alternatives: both sets, and the start state of the second automaton.\<close>

lemma captive_alternatives_step:
  assumes A: "states_ok A" "mirrored A" "captive A T" and C: "base_ok C" "no_in_start C" "start C \<notin> set (end_states C)"
    and U: "captive C U" "\<And>v. eps_edge C 0 v \<Longrightarrow> v \<in> U"
  defines "k \<equiv> total_states A"
  shows "captive (alternatives_step A C) (insert k (T \<inter> {..<k} \<union> (+) k ` U))" (is "captive ?B (insert k ?LR)")
  unfolding captive_def
proof (intro conjI ballI allI impI)
  note g = glued_alternatives_step [OF A(1,2) C(1)]
  note st = glued_starts [OF g(1)]
  have left: "captive ?B (T \<inter> {..<k})"
    unfolding k_def
  proof (rule glued_captive_left [OF g(1) A(3)])
    show "T \<inter> {0} = {}" using A(3) st by (simp add: captive_def)
    show "T \<inter> set (end_states ?B) \<inter> {..<total_states A} = {}" using A(3) by (auto simp: g(2) captive_def)
    show "y \<in> T \<or> y \<in> set (end_states ?B)" if "w \<in> T" "eps_edge A w y" for w y
      using captiveD(5) [OF A(3) that] by (auto simp: g(2))
  qed
  have right: "captive ?B ((+) k ` U)" unfolding k_def
    by (rule glued_captive_right [OF g(1) U(1)]) (use ends_bound [OF A(1)] in \<open>force simp: g(2)\<close>)+
  note LR = captive_Un [OF left right]
  have k: "k \<notin> set (end_states ?B)" using C(3) st ends_bound [OF A(1)] by (force simp: g(2) k_def)
  have into_k: "frm t = 0 \<and> ttype t = None" if t: "t \<in> edges ?B" "dest t = k" for t
    using t C(2) st by (cases rule: glued_edge_cases [OF g(1)]) (auto simp: no_in_start_def k_def)
  have eps_k: "x = 0" if "eps_edge ?B x k" for x using that into_k by (force simp: eps_edge_def)
  have out_k: "v \<in> (+) k ` U" if "eps_edge ?B k v" for v
    using g(1) that by (cases rule: glued_eps_cases) (use U(2) st in \<open>auto simp: k_def\<close>)
  show "start ?B \<notin> insert k ?LR" using LR st by (simp add: captive_def k_def)
  show "insert k ?LR \<inter> set (end_states ?B) = {}" using LR k by (auto simp: captive_def)
  fix w assume w: "w \<in> insert k ?LR"
  {
    fix t assume "t \<in> edges ?B" "dest t = w"
    then show "ttype t = None" using w into_k captiveD(3) [OF LR] by blast
  next
    fix x y assume "eps_edge ?B x w" "eps_edge ?B y w"
    then show "x = w \<or> y = w \<or> x = y" using w eps_k captiveD(4) [OF LR] by blast
  next
    fix y assume "eps_edge ?B w y"
    then show "y \<in> insert k ?LR \<or> y \<in> set (end_states ?B)" using w out_k captiveD(5) [OF LR] by blast
  }
qed

lemma sealed_alternatives_step:
  assumes A: "states_ok A" "mirrored A" "sealed A" and C: "base_ok C" "sealed C"
  shows "sealed (alternatives_step A C)"
proof -
  let ?B = "alternatives_step A C" and ?k = "total_states A"
  note g = glued_alternatives_step [OF A(1,2) C(1)]
  note st = glued_starts [OF g(1)]
  obtain T where T: "captive A T" "\<And>v. eps_edge A 0 v \<Longrightarrow> v \<in> T" using A(3) st unfolding sealed_def by metis
  obtain U where U: "captive C U" "\<And>v. eps_edge C 0 v \<Longrightarrow> v \<in> U" using C(2) st unfolding sealed_def by metis
  have nA: "no_in_start A" "0 \<notin> set (end_states A)" "\<And>e. e \<in> set (end_states A) \<Longrightarrow> sealed_end A e"
    and nC: "no_in_start C" "start C \<notin> set (end_states C)"
    using A(3) C(2) st by (auto simp: sealed_def)
  note cap = captive_alternatives_step [OF A(1,2) T(1) C(1) nC U]
  have "v \<in> insert ?k (T \<inter> {..<?k} \<union> (+) ?k ` U)" if "eps_edge ?B 0 v" for v
    using g(1) that by (cases rule: glued_eps_cases) (use T(2) st in auto)
  moreover have "sealed_end ?B e" if "e \<in> set (end_states ?B)" for e
  proof -
    from that consider "e \<in> set (end_states A)" | e' where "e = ?k + e'" "e' \<in> set (end_states C)" by (auto simp: g(2))
    then show ?thesis
    proof cases
      case 1
      have "e \<noteq> 0"
      proof
        assume "e = 0"
        then show False using 1 nA(2) by simp
      qed
      then have "e \<notin> {0}" by simp
      then show ?thesis by (rule glued_sealed_left [OF g(1) ends_bound [OF A(1) 1] _ nA(3) [OF 1]])
    next
      case 2 then show ?thesis using glued_sealed_ends [OF g(1) C(2)] by blast
    qed
  qed
  moreover have "no_in_start ?B" by (rule alternatives_step_spec(2) [OF A(1,2) nA(1) C(1)])
  moreover have "0 \<notin> set (end_states ?B)" using st nA(2) by (auto simp: g(2))
  ultimately show ?thesis unfolding sealed_def using st cap by metis
qed

lemma kleene_edges:
  assumes "base_ok A" "total_states A \<noteq> 2"
  shows "edges (kleene_automaton A) = edges A \<union> eps_to 0 (set (end_states A))" "start (kleene_automaton A) = 0"
    "set (end_states (kleene_automaton A)) = insert 0 (set (end_states A))"
  using assms base_okD(5) [OF assms(1)]
  by (auto simp: kleene_automaton_def foldl_add_epsilon_start Let_def eps_to_def)

lemma merge_inv_kleene:
  assumes A: "base_ok A" "sealed A" and two: "total_states A = 2 \<Longrightarrow> atom_like A"
  shows "merge_inv (kleene_automaton A)"
proof (cases "total_states A = 2")
  case True
  have e: "edges RPQ_NFA = {}" by (simp add: RPQ_NFA_def edges_def)
  obtain a d where "slot (outer_transitions A) 0 = [Transition 0 1 (Some a) d]"
    using two [OF True] by (auto simp: atom_like_def)
  then have "edges (kleene_automaton A) = {Transition 0 0 (Some a) d}"
    by (simp add: kleene_automaton_def True Let_def e)
  then have n: "\<not> eps_edge (kleene_automaton A) u v" for u v by (simp add: eps_edge_def)
  show ?thesis unfolding merge_inv_def start_inv_def ends_inv_def by (auto simp: n intro: exI [of _ "{}"])
next
  case False
  let ?B = "kleene_automaton A"
  note B = kleene_edges [OF A(1) False]
  have st: "start A = 0" using A(1) by (rule base_okD(5))
  obtain T where T: "captive A T" "\<And>v. eps_edge A 0 v \<Longrightarrow> v \<in> T" using A(2) st unfolding sealed_def by metis
  have nA: "0 \<notin> set (end_states A)" "\<forall>t \<in> edges A. dest t \<noteq> 0" "\<And>e. e \<in> set (end_states A) \<Longrightarrow> sealed_end A e"
    using A(2) st by (auto simp: sealed_def no_in_start_def)
  have eps: "eps_edge ?B u v \<longleftrightarrow> eps_edge A u v \<or> (u \<in> set (end_states A) \<and> v = 0)" for u v
    by (auto simp: eps_edge_def B eps_to_def)
  have "start_inv ?B"
    unfolding start_inv_def B(2)
  proof (rule disjI2, intro allI impI)
    fix v assume "eps_edge ?B v 0"
    then have v: "v \<in> set (end_states A)" using nA(2) by (auto simp: eps) (force simp: eps_edge_def)
    have "v \<noteq> 0" using v nA(1) by metis
    then show "eps_edge ?B 0 v \<or> (\<forall>t \<in> edges ?B. (dest t = v \<longrightarrow> ttype t \<noteq> None) \<and>
       (frm t = v \<longrightarrow> ttype t = None \<and> (dest t = 0 \<or> eps_edge ?B 0 (dest t))))"
      using v nA(3) by (auto simp: B eps_to_def sealed_end_def)
  qed
  moreover have "captive ?B T"
    using T(1) st unfolding captive_def B eps by (auto simp: eps_to_def)
  moreover have "v \<in> set (end_states ?B) \<or> v \<in> T" if "u \<in> set (end_states ?B)" "eps_edge ?B u v" for u v
    using that T(2) sealed_end_eps [OF nA(3)] by (auto simp: eps B)
  ultimately show ?thesis unfolding merge_inv_def ends_inv_def by blast
qed

lemma merge_inv_optional:
  assumes A: "sealed A" shows "merge_inv (optional_automaton A)"
proof -
  let ?B = "optional_automaton A"
  have B: "edges ?B = edges A" "start ?B = start A" "set (end_states ?B) = insert (start A) (set (end_states A))"
    by (simp_all add: optional_automaton_def)
  have eps: "eps_edge ?B u v = eps_edge A u v" for u v by (simp add: eps_edge_def B)
  obtain T where T: "captive A T" "\<And>v. eps_edge A (start A) v \<Longrightarrow> v \<in> T" using A unfolding sealed_def by metis
  have "start_inv ?B" using A no_in_start_eps [of A] by (auto simp: start_inv_def sealed_def eps B)
  moreover have "captive ?B T" using T(1) unfolding captive_def B eps by auto
  moreover have "v \<in> T" if "u \<in> set (end_states ?B)" "eps_edge ?B u v" for u v
    using that T(2) A sealed_end_eps [of A u v] by (auto simp: eps B sealed_def)
  ultimately show ?thesis unfolding merge_inv_def ends_inv_def by blast
qed

section \<open>The operators keep the merge invariant\<close>

text \<open>The final states of the second automaton keep their property.\<close>

lemma glued_ends_right:
  assumes g: "glued A C S B" and u: "u \<in> set (end_states C)" and e: "eps_edge B (total_states A + u) v"
    and n: "\<not> eps_edge B (total_states A + u) (total_states A + u)"
    and U: "\<forall>u \<in> set (end_states C). eps_edge C u u \<or> (\<forall>v. eps_edge C u v \<longrightarrow> v \<in> set (end_states C) \<or> v \<in> U)"
  shows "v \<in> (+) (total_states A) ` (set (end_states C) \<union> U)"
  using g e
proof (cases rule: glued_eps_cases)
  case (right u' v')
  moreover have "\<not> eps_edge C u u" using n glued_eps_right [OF g] by blast
  ultimately show ?thesis using U u by auto
qed simp_all

lemma ends_inv_alternatives_step:
  assumes A: "states_ok A" "mirrored A" "no_in_start A" "ends_inv A" "start A \<notin> set (end_states A)"
    and C: "base_ok C" "ends_inv C"
  shows "ends_inv (alternatives_step A C)"
proof -
  let ?B = "alternatives_step A C" and ?k = "total_states A"
  note g = glued_alternatives_step [OF A(1,2) C(1)]
  note st = glued_starts [OF g(1)]
  obtain T where T: "captive A T"
    "\<forall>u \<in> set (end_states A). eps_edge A u u \<or> (\<forall>v. eps_edge A u v \<longrightarrow> v \<in> set (end_states A) \<or> v \<in> T)"
    using A(4) unfolding ends_inv_def by blast
  obtain U where U: "captive C U"
    "\<forall>u \<in> set (end_states C). eps_edge C u u \<or> (\<forall>v. eps_edge C u v \<longrightarrow> v \<in> set (end_states C) \<or> v \<in> U)"
    using C(2) unfolding ends_inv_def by blast
  have "captive ?B (T \<inter> {..<?k})"
  proof (rule glued_captive_left [OF g(1) T(1)])
    show "T \<inter> {0} = {}" using T(1) st by (simp add: captive_def)
    show "T \<inter> set (end_states ?B) \<inter> {..<?k} = {}" using T(1) by (auto simp: g(2) captive_def)
    show "y \<in> T \<or> y \<in> set (end_states ?B)" if "w \<in> T" "eps_edge A w y" for w y
      using captiveD(5) [OF T(1) that] by (auto simp: g(2))
  qed
  moreover have "captive ?B ((+) ?k ` U)"
    by (rule glued_captive_right [OF g(1) U(1)]) (use ends_bound [OF A(1)] in \<open>force simp: g(2)\<close>)+
  ultimately have cap: "captive ?B (T \<inter> {..<?k} \<union> (+) ?k ` U)" by (rule captive_Un)
  have "v \<in> set (end_states ?B) \<or> v \<in> T \<inter> {..<?k} \<union> (+) ?k ` U"
    if u: "u \<in> set (end_states ?B)" and n: "\<not> eps_edge ?B u u" and e: "eps_edge ?B u v" for u v
  proof -
    from u consider "u \<in> set (end_states A)" | u' where "u = ?k + u'" "u' \<in> set (end_states C)" by (auto simp: g(2))
    then show ?thesis
    proof cases
      case 1
      then have uk: "u < ?k" "u \<noteq> 0" using ends_bound [OF A(1)] A(5) st by (blast, metis)
      from g(1) e show ?thesis
      proof (cases rule: glued_eps_cases)
        case left
        then show ?thesis using T(2) 1 n glued_eps_left [OF g(1)] by (auto simp: g(2))
      qed (use uk in simp_all)
    next
      case 2
      then show ?thesis using glued_ends_right [OF g(1) 2(2), of v U] U(2) e n by (auto simp: g(2))
    qed
  qed
  with cap show ?thesis unfolding ends_inv_def by blast
qed

lemma ends_inv_sequence_step:
  assumes A: "base_ok A" and C: "base_ok C" "ends_inv C"
  shows "ends_inv (sequence_step A C)"
proof -
  let ?B = "sequence_step A C" and ?k = "total_states A"
  note g = glued_sequence_step [OF A C(1)]
  obtain U where U: "captive C U"
    "\<forall>u \<in> set (end_states C). eps_edge C u u \<or> (\<forall>v. eps_edge C u v \<longrightarrow> v \<in> set (end_states C) \<or> v \<in> U)"
    using C(2) unfolding ends_inv_def by blast
  have "captive ?B ((+) ?k ` U)"
    by (rule glued_captive_right [OF g(1) U(1)]) (auto simp: g(2))
  moreover have "v \<in> set (end_states ?B) \<or> v \<in> (+) ?k ` U"
    if "u \<in> set (end_states ?B)" "\<not> eps_edge ?B u u" "eps_edge ?B u v" for u v
    using that glued_ends_right [OF g(1), of _ v U] U(2) by (auto simp: g(2))
  ultimately show ?thesis unfolding ends_inv_def by blast
qed

lemma merge_inv_sequence_step:
  assumes A: "base_ok A" "merge_inv A" and C: "base_ok C" "ends_inv C"
  shows "merge_inv (sequence_step A C)"
proof -
  let ?B = "sequence_step A C"
  note g = glued_sequence_step [OF A(1) C(1)]
  note st = glued_starts [OF g(1)]
  have "ends_inv ?B" by (rule ends_inv_sequence_step [OF A(1) C])
  moreover have "start_inv ?B"
  proof (cases "eps_edge A 0 0")
    case True
    then show ?thesis using glued_eps_left [OF g(1)] st by (simp add: start_inv_def)
  next
    case False
    have "eps_edge ?B 0 v \<or> (\<forall>t \<in> edges ?B. (dest t = v \<longrightarrow> ttype t \<noteq> None) \<and>
        (frm t = v \<longrightarrow> ttype t = None \<and> (dest t = 0 \<or> eps_edge ?B 0 (dest t))))"
      if e: "eps_edge ?B v 0" for v
    proof -
      have v: "eps_edge A v 0" "v < total_states A" using g(1) e st by (cases rule: glued_eps_cases; simp)+
      consider "eps_edge A 0 v" | (dead) "\<not> eps_edge A 0 v" "\<forall>t \<in> edges A. (dest t = v \<longrightarrow> ttype t \<noteq> None) \<and>
        (frm t = v \<longrightarrow> ttype t = None \<and> (dest t = 0 \<or> eps_edge A 0 (dest t)))"
        using A(2) False v(1) st unfolding merge_inv_def start_inv_def by metis
      then show ?thesis
      proof cases
        case 1 then show ?thesis using glued_eps_left [OF g(1)] by blast
      next
        case dead
        have bridge: "eps_edge ?B 0 (total_states A)" if "v \<in> set (end_states A)"
        proof -
          have "\<not> eps_edge A v v" using dead(2) by (force simp: eps_edge_def)
          then have "0 \<in> set (end_states A)"
            using A(2) that v(1) st captiveD(1) [of A] unfolding merge_inv_def ends_inv_def by metis
          then show ?thesis using g(1) by (auto simp: glued_def eps_edge_def)
        qed
        have "(dest t = v \<longrightarrow> ttype t \<noteq> None) \<and>
            (frm t = v \<longrightarrow> ttype t = None \<and> (dest t = 0 \<or> eps_edge ?B 0 (dest t)))" if t: "t \<in> edges ?B" for t
          using g(1) t
        proof (cases rule: glued_edge_cases)
          case left
          then show ?thesis using dead(2) glued_eps_left [OF g(1)] by blast
        next
          case right then show ?thesis using v(2) by simp
        next
          case (bridge s) then show ?thesis using v(2) \<open>v \<in> set (end_states A) \<Longrightarrow> _\<close> by auto
        qed
        then show ?thesis by blast
      qed
    qed
    then show ?thesis using st by (simp add: start_inv_def)
  qed
  ultimately show ?thesis by (simp add: merge_inv_def)
qed

section \<open>Lists, and the whole construction\<close>

lemma sequence_loop_sealed:
  assumes "base_ok A" "sealed A" "\<forall>C \<in> set Cs. base_ok C \<and> sealed C" "sequence_loop A (map Inr Cs) = Inr B"
  shows "sealed B"
  using assms
proof (induction Cs arbitrary: A)
  case (Cons C Cs)
  then show ?case using sealed_sequence_step [of A C] sequence_step_spec(1) [of A C] by simp
qed simp

lemma sequence_loop_merge_inv:
  assumes "base_ok A" "merge_inv A" "\<forall>C \<in> set Cs. base_ok C \<and> ends_inv C" "sequence_loop A (map Inr Cs) = Inr B"
  shows "merge_inv B"
  using assms
proof (induction Cs arbitrary: A)
  case (Cons C Cs)
  then show ?case using merge_inv_sequence_step [of A C] sequence_step_spec(1) [of A C] by simp
qed simp

lemma alternatives_automaton_sealed:
  assumes "states_ok A" "mirrored A" "sealed A" "\<forall>C \<in> set Cs. base_ok C \<and> sealed C"
    "alternatives_automaton A (map Inr Cs) = Inr B"
  shows "sealed B"
  using assms
proof (induction Cs arbitrary: A)
  case (Cons C Cs)
  have n: "no_in_start A" using Cons.prems by (simp add: sealed_def)
  have C: "base_ok C" "sealed C" using Cons.prems by simp_all
  show ?case
    using Cons.IH [OF base_okD(1,2) [OF alternatives_step_spec(1) [OF Cons.prems(1,2) n C(1)]]
        sealed_alternatives_step [OF Cons.prems(1-3) C]] Cons.prems(4,5) by simp
qed simp

lemma alternatives_automaton_ends_inv:
  assumes "states_ok A" "mirrored A" "no_in_start A" "ends_inv A" "start A \<notin> set (end_states A)"
    "\<forall>C \<in> set Cs. base_ok C \<and> ends_inv C" "alternatives_automaton A (map Inr Cs) = Inr B"
  shows "no_in_start B \<and> ends_inv B"
  using assms
proof (induction Cs arbitrary: A)
  case (Cons C Cs)
  have C: "base_ok C" "ends_inv C" using Cons.prems(6) by simp_all
  note S = alternatives_step_spec(1,2) [OF Cons.prems(1-3) C(1)]
  note g = glued_alternatives_step [OF Cons.prems(1,2) C(1)]
  have "start (alternatives_step A C) \<notin> set (end_states (alternatives_step A C))"
    using glued_starts [OF g(1)] Cons.prems(5) by (auto simp: g(2))
  with Cons.IH [OF base_okD(1,2) [OF S(1)] S(2) ends_inv_alternatives_step [OF Cons.prems(1-5) C]] Cons.prems(6,7)
  show ?case by simp
qed simp

lemma RPQ_NFA_sealed: "sealed RPQ_NFA" "ends_inv RPQ_NFA" "no_in_start RPQ_NFA"
  "start RPQ_NFA \<notin> set (end_states RPQ_NFA)"
proof -
  have e: "edges RPQ_NFA = {}" "set (end_states RPQ_NFA) = {}" by (simp_all add: RPQ_NFA_def edges_def)
  have n: "\<not> eps_edge RPQ_NFA u v" for u v by (simp add: eps_edge_def e)
  show "sealed RPQ_NFA" unfolding sealed_def by (auto simp: e n no_in_start_def intro: exI [of _ "{}"])
  show "ends_inv RPQ_NFA" unfolding ends_inv_def by (auto simp: e intro: exI [of _ "{}"])
  show "no_in_start RPQ_NFA" "start RPQ_NFA \<notin> set (end_states RPQ_NFA)" by (simp_all add: e no_in_start_def)
qed

lemma no_in_start_start_inv: "no_in_start A \<Longrightarrow> start_inv A"
  unfolding start_inv_def no_in_start_def by (metis eps_edge_def transition.sel(2))

text \<open>The automata of the parts of a list expression, with their base specification.\<close>

lemma children:
  assumes "\<forall>p \<in> set ps. wf_path p"
    and "\<And>p A. p \<in> set ps \<Longrightarrow> get_rpq_base_automaton p = Inr A \<Longrightarrow> P A"
  shows "\<exists>Cs. map get_rpq_base_automaton ps = map Inr Cs \<and> (\<forall>C \<in> set Cs. base_ok C \<and> P C)"
  using assms
proof (induction ps)
  case (Cons p ps)
  obtain A where "get_rpq_base_automaton p = Inr A" "base_ok A"
    using get_rpq_base_automaton_spec [of p] Cons.prems(1) by (auto simp: base_spec_def)
  moreover obtain Cs where "map get_rpq_base_automaton ps = map Inr Cs" "\<forall>C \<in> set Cs. base_ok C \<and> P C"
    using Cons by auto
  ultimately have "map get_rpq_base_automaton (p # ps) = map Inr (A # Cs)" "\<forall>C \<in> set (A # Cs). base_ok C \<and> P C"
    using Cons.prems(2) [of p A] by simp_all
  then show ?case by blast
qed simp

lemma flat_sealed: "flat p \<Longrightarrow> get_rpq_base_automaton p = Inr A \<Longrightarrow> sealed A"
proof (induction p arbitrary: A rule: flat.induct)
  case (2 ps)
  have wf: "\<forall>p \<in> set ps. wf_path p" using 2 flat_props by (auto simp: list_all_iff)
  obtain Cs where Cs: "map get_rpq_base_automaton ps = map Inr Cs" "\<forall>C \<in> set Cs. base_ok C \<and> sealed C"
    using children [OF wf, of sealed] 2 by (auto simp: list_all_iff)
  moreover have "Cs \<noteq> []" using Cs(1) 2 by auto
  ultimately show ?case using 2(3) sequence_loop_sealed [of "hd Cs" "tl Cs" A] by (cases Cs) auto
next
  case (3 ps)
  have wf: "\<forall>p \<in> set ps. wf_path p" using 3 flat_props by (auto simp: list_all_iff)
  obtain Cs where Cs: "map get_rpq_base_automaton ps = map Inr Cs" "\<forall>C \<in> set Cs. base_ok C \<and> sealed C"
    using children [OF wf, of sealed] 3 by (auto simp: list_all_iff)
  then show ?case
    using alternatives_automaton_sealed [OF states_ok_RPQ_NFA mirrored_RPQ_NFA RPQ_NFA_sealed(1), of Cs A] 3(3)
    by simp
qed (auto simp: sealed_atom)

lemma plain_merge_inv: "plain p \<Longrightarrow> get_rpq_base_automaton p = Inr A \<Longrightarrow> merge_inv A"
proof (induction p arbitrary: A rule: plain.induct)
  case (1 a dir cs)
  then show ?case using sealed_atom(2) by auto
next
  case (2 ps)
  have wf: "\<forall>p \<in> set ps. wf_path p" using 2 plain_props by (auto simp: list_all_iff)
  obtain Cs where Cs: "map get_rpq_base_automaton ps = map Inr Cs" "\<forall>C \<in> set Cs. base_ok C \<and> merge_inv C"
    using children [OF wf, of merge_inv] 2 by (auto simp: list_all_iff)
  then have "\<forall>C \<in> set Cs. base_ok C \<and> ends_inv C" by (simp add: merge_inv_def)
  then have "no_in_start A \<and> ends_inv A"
    using alternatives_automaton_ends_inv [OF states_ok_RPQ_NFA mirrored_RPQ_NFA RPQ_NFA_sealed(3,2,4), of Cs A]
      2(3) Cs(1) by simp
  then show ?case using no_in_start_start_inv by (simp add: merge_inv_def)
next
  case (3 ps)
  have wf: "\<forall>p \<in> set ps. wf_path p" using 3 plain_props by (auto simp: list_all_iff)
  obtain Cs where Cs: "map get_rpq_base_automaton ps = map Inr Cs" "\<forall>C \<in> set Cs. base_ok C \<and> merge_inv C"
    using children [OF wf, of merge_inv] 3 by (auto simp: list_all_iff)
  then have ends: "\<forall>C \<in> set Cs. base_ok C \<and> ends_inv C" by (simp add: merge_inv_def)
  have "Cs \<noteq> []" using Cs(1) 3 by auto
  then show ?case
    using 3(3) Cs ends sequence_loop_merge_inv [of "hd Cs" "tl Cs" A] by (cases Cs) auto
next
  case (4 p)
  then have p: "flat p" "wf_path p" "\<not> nullable p" using flat_props by auto
  obtain C where C: "get_rpq_base_automaton p = Inr C" "base_spec p C"
    using get_rpq_base_automaton_spec [OF p(2)] by blast
  then have "base_ok C" "total_states C = 2 \<Longrightarrow> atom_like C" using p(3) by (simp_all add: base_spec_def)
  with merge_inv_kleene [OF _ flat_sealed [OF p(1) C(1)]] have "merge_inv (kleene_automaton C)" by blast
  then show ?case using 4(2) C(1) by auto
next
  case (5 p)
  then obtain C where C: "get_rpq_base_automaton p = Inr C" "A = optional_automaton C" "flat p"
    by (cases "get_rpq_base_automaton p") auto
  then show ?case using merge_inv_optional [OF flat_sealed [OF C(3,1)]] by simp
qed simp

end
