(* ===== verification/IndexIter.thy ===== *)
theory IndexIter
  imports RpqDfa
begin

text \<open>
  The iterators of \<open>path_index.h\<close>, and the loop all path iterators share: \<open>expand_neighbors\<close>
  walks over the transitions of an automaton state and, for each, over the records of an index
  iterator; it returns in the middle and resumes there at the next call. The loop is modelled
  once, with its body as a parameter, and proved to be a \<open>scan\<close> of the list of
  (transition, neighbour) pairs that are still pending. The interruption flag that makes
  \<open>next\<close> throw is not modelled: a query that is not interrupted.
\<close>

section \<open>Index iterators\<close>

datatype record4 = Record4 (ids0: object_id) (ids1: object_id) (ids2: object_id) (ids3: object_id)

text \<open>
  A B+tree iterator is the list of records of its range that it has not returned yet; a trie
  iterator is a pointer into the data level, one before the first result, and the end pointer.
\<close>

datatype index_iterator =
  NullIndexIterator
| BTreeIndexIterator "record4 list" "record4 option" bool
| TrieIndexIterator "object_id list" int int
| EdgeTrieIndexIterator "(object_id \<times> object_id) list" int int
| HashTrieIndexIterator "object_id list" int int

fun iter_next :: "index_iterator \<Rightarrow> index_iterator \<times> bool" where
  "iter_next NullIndexIterator = (NullIndexIterator, False)"
| "iter_next (BTreeIndexIterator rs cur finished) =
     (if finished then (BTreeIndexIterator rs cur finished, False)
      else case rs of
        [] \<Rightarrow> (BTreeIndexIterator [] None True, False)
      | r # rs' \<Rightarrow> (BTreeIndexIterator rs' (Some r) False, True))"
| "iter_next (TrieIndexIterator d current end) =
     (TrieIndexIterator d (current + 1) end, current + 1 < end)"
| "iter_next (EdgeTrieIndexIterator d' current end) =
     (EdgeTrieIndexIterator d' (current + 1) end, current + 1 < end)"
| "iter_next (HashTrieIndexIterator d current end) =
     (HashTrieIndexIterator d (current + 1) end, current + 1 < end)"

fun at_end :: "index_iterator \<Rightarrow> bool" where
  "at_end NullIndexIterator = True"
| "at_end (BTreeIndexIterator rs cur finished) = finished"
| "at_end (TrieIndexIterator d current end) = (current \<ge> end)"
| "at_end (EdgeTrieIndexIterator d' current end) = (current \<ge> end)"
| "at_end (HashTrieIndexIterator d current end) = (current \<ge> end)"

fun get_node :: "index_iterator \<Rightarrow> object_id" where
  "get_node NullIndexIterator = 0"
| "get_node (BTreeIndexIterator rs cur finished) = ids2 (the cur)"
| "get_node (TrieIndexIterator d current end) = d ! nat current"
| "get_node (EdgeTrieIndexIterator d' current end) = fst (d' ! nat current)"
| "get_node (HashTrieIndexIterator d current end) = d ! nat current"

text \<open>The default implementation of \<open>get_edge\<close> throws: \<open>None\<close>.\<close>

fun get_edge :: "index_iterator \<Rightarrow> object_id option" where
  "get_edge (BTreeIndexIterator rs cur finished) = Some (ids3 (the cur))"
| "get_edge (EdgeTrieIndexIterator d' current end) = Some (snd (d' ! nat current))"
| "get_edge it = None"

section \<open>What an iterator promises\<close>

text \<open>An entry is a neighbour and, where the index has them, the edge.\<close>

type_synonym entry = "object_id \<times> object_id option"

text \<open>
  The contract the algorithms rely on: an iterator stands for the list of its pending results;
  \<open>next\<close> moves to the first of them, and \<open>at_end\<close> becomes true exactly when \<open>next\<close> fails.
\<close>

locale result_iterator =
  fixes nxt :: "'i \<Rightarrow> 'i \<times> bool" and ended :: "'i \<Rightarrow> bool" and item :: "'i \<Rightarrow> 'x"
    and rest :: "'i \<Rightarrow> 'x list" and ok :: "'i \<Rightarrow> bool"
  assumes nxt_Nil: "ok i \<Longrightarrow> rest i = [] \<Longrightarrow> nxt i = (j, b) \<Longrightarrow> \<not> b \<and> ended j \<and> rest j = [] \<and> ok j"
    and nxt_Cons: "ok i \<Longrightarrow> rest i = x # xs \<Longrightarrow> nxt i = (j, b) \<Longrightarrow>
      b \<and> item j = x \<and> rest j = xs \<and> \<not> ended j \<and> ok j"
begin

lemma nxt_cases:
  assumes "ok i"
  obtains j where "nxt i = (j, False)" "rest i = []" "ended j" "rest j = []" "ok j"
  | j where "nxt i = (j, True)" "rest i = item j # rest j" "\<not> ended j" "ok j"
proof (cases "rest i")
  case Nil
  with assms that(1) [of "fst (nxt i)"] nxt_Nil [of i "fst (nxt i)" "snd (nxt i)"] show ?thesis
    by (metis prod.collapse)
next
  case (Cons x xs)
  with assms that(2) [of "fst (nxt i)"] nxt_Cons [of i x xs "fst (nxt i)" "snd (nxt i)"] show ?thesis
    by (metis prod.collapse)
qed

end

definition iter_entry :: "index_iterator \<Rightarrow> entry" where
  "iter_entry it = (get_node it, get_edge it)"

fun iter_rest :: "index_iterator \<Rightarrow> entry list" where
  "iter_rest NullIndexIterator = []"
| "iter_rest (BTreeIndexIterator rs cur finished) =
     (if finished then [] else map (\<lambda>r. (ids2 r, Some (ids3 r))) rs)"
| "iter_rest (TrieIndexIterator d current end) =
     map (\<lambda>i. (d ! i, None)) [nat (current + 1)..<nat end]"
| "iter_rest (EdgeTrieIndexIterator d' current end) =
     map (\<lambda>i. (fst (d' ! i), Some (snd (d' ! i)))) [nat (current + 1)..<nat end]"
| "iter_rest (HashTrieIndexIterator d current end) =
     map (\<lambda>i. (d ! i, None)) [nat (current + 1)..<nat end]"

fun iter_ok :: "index_iterator \<Rightarrow> bool" where
  "iter_ok (TrieIndexIterator d current end) = (-1 \<le> current \<and> nat end \<le> length d)"
| "iter_ok (EdgeTrieIndexIterator d' current end) = (-1 \<le> current \<and> nat end \<le> length d')"
| "iter_ok (HashTrieIndexIterator d current end) = (-1 \<le> current \<and> nat end \<le> length d)"
| "iter_ok it = True"

lemma upt_int_step:
  assumes "-1 \<le> (c::int)"
  shows "c + 1 < e \<Longrightarrow> [nat (c + 1)..<nat e] = nat (c + 1) # [nat (c + 1 + 1)..<nat e]"
    and "\<not> c + 1 < e \<Longrightarrow> [nat (c + 1)..<nat e] = []"
    and "\<not> c + 1 < e \<Longrightarrow> [nat (c + 1 + 1)..<nat e] = []"
proof -
  assume "c + 1 < e"
  moreover from this assms have "nat (c + 1) < nat e" by simp
  moreover have "nat (c + 1 + 1) = Suc (nat (c + 1))" using assms by simp
  ultimately show "[nat (c + 1)..<nat e] = nat (c + 1) # [nat (c + 1 + 1)..<nat e]" by (metis upt_conv_Cons)
qed (use assms in auto)

lemma iter_contract:
  assumes "iter_ok i" "iter_next i = (j, b)"
  shows "b \<longleftrightarrow> iter_rest i \<noteq> []" "b \<Longrightarrow> iter_rest i = iter_entry j # iter_rest j" "\<not> b \<Longrightarrow> iter_rest j = []"
    "at_end j \<longleftrightarrow> \<not> b" "iter_ok j"
proof -
  have "(b \<longleftrightarrow> iter_rest i \<noteq> []) \<and> (b \<longrightarrow> iter_rest i = iter_entry j # iter_rest j) \<and>
      (\<not> b \<longrightarrow> iter_rest j = []) \<and> (at_end j \<longleftrightarrow> \<not> b) \<and> iter_ok j"
  proof (cases i)
    case NullIndexIterator
    with assms show ?thesis by auto
  next
    case (BTreeIndexIterator rs cur f)
    with assms show ?thesis by (cases rs) (auto simp: iter_entry_def split: if_splits)
  next
    case (TrieIndexIterator d c e)
    with assms show ?thesis by (auto simp: iter_entry_def upt_int_step simp del: upt_eq_Cons_conv)
  next
    case (EdgeTrieIndexIterator d c e)
    with assms show ?thesis by (auto simp: iter_entry_def upt_int_step simp del: upt_eq_Cons_conv)
  next
    case (HashTrieIndexIterator d c e)
    with assms show ?thesis by (auto simp: iter_entry_def upt_int_step simp del: upt_eq_Cons_conv)
  qed
  then show "b \<longleftrightarrow> iter_rest i \<noteq> []" "b \<Longrightarrow> iter_rest i = iter_entry j # iter_rest j" "\<not> b \<Longrightarrow> iter_rest j = []"
    "at_end j \<longleftrightarrow> \<not> b" "iter_ok j" by blast+
qed

interpretation ii: result_iterator iter_next at_end iter_entry iter_rest iter_ok
proof
  fix i j b
  assume "iter_ok i" "iter_rest i = []" "iter_next i = (j, b)"
  with iter_contract [of i j b] show "\<not> b \<and> at_end j \<and> iter_rest j = [] \<and> iter_ok j" by blast
next
  fix i x xs j b
  assume "iter_ok i" "iter_rest i = x # xs" "iter_next i = (j, b)"
  with iter_contract [of i j b] show "b \<and> iter_entry j = x \<and> iter_rest j = xs \<and> \<not> at_end j \<and> iter_ok j" by simp
qed

section \<open>The pipelined loop of \<open>expand_neighbors\<close>\<close>

type_synonym get_iterator = "object_id \<Rightarrow> bool \<Rightarrow> object_id \<Rightarrow> index_iterator"

text \<open>The resumable part of a search: \<open>iter\<close> and \<open>current_transition\<close>.\<close>

record cursor =
  iter :: index_iterator
  current_transition :: nat

fun iter_size :: "index_iterator \<Rightarrow> nat" where
  "iter_size (BTreeIndexIterator rs cur finished) = length rs"
| "iter_size (TrieIndexIterator d current end) = nat (end - current)"
| "iter_size (EdgeTrieIndexIterator d' current end) = nat (end - current)"
| "iter_size (HashTrieIndexIterator d current end) = nat (end - current)"
| "iter_size it = 0"

lemma iter_size_next: "iter_next it = (it', True) \<Longrightarrow> iter_size it' < iter_size it"
  by (cases it) (auto split: if_splits list.splits)

text \<open>\<open>while (iter->next()) body\<close>, where the body may return.\<close>

function records_loop ::
  "(entry \<Rightarrow> 's \<Rightarrow> 's \<times> 'r option) \<Rightarrow> index_iterator \<Rightarrow> 's \<Rightarrow> index_iterator \<times> 's \<times> 'r option" where
  "records_loop body it s =
     (case iter_next it of
        (it', False) \<Rightarrow> (it', s, None)
      | (it', True) \<Rightarrow>
          (case body (iter_entry it') s of
             (s', Some r) \<Rightarrow> (it', s', Some r)
           | (s', None) \<Rightarrow> records_loop body it' s'))"
  by pat_completeness auto
termination
  by (relation "measure (\<lambda>(body, it, s). iter_size it)") (auto dest: iter_size_next [OF sym])

declare records_loop.simps [simp del]

text \<open>The equation to evaluate with.\<close>

lemma records_loop_code [code]:
  "records_loop body it s =
     (case iter_next it of (it', found) \<Rightarrow>
        if found then
          (case body (iter_entry it') s of (s', r) \<Rightarrow>
             (case r of Some x \<Rightarrow> (it', s', Some x) | None \<Rightarrow> records_loop body it' s'))
        else (it', s, None))"
  by (subst records_loop.simps) (simp split: prod.split bool.split option.split)

definition transition_iter :: "get_iterator \<Rightarrow> dfa_transition \<Rightarrow> object_id \<Rightarrow> index_iterator" where
  "transition_iter provider t node = provider (type_id t) (dfa_inverse t) node"

text \<open>\<open>while (current_transition < size)\<close>; \<open>idx_searches\<close> counts the iterators that were set.\<close>

function transitions_loop ::
  "get_iterator \<Rightarrow> dfa_transition list \<Rightarrow> object_id \<Rightarrow> (dfa_transition \<Rightarrow> entry \<Rightarrow> 's \<Rightarrow> 's \<times> 'r option) \<Rightarrow>
     cursor \<Rightarrow> nat \<Rightarrow> 's \<Rightarrow> cursor \<times> nat \<times> 's \<times> 'r option" where
  "transitions_loop provider ts node body c idx_searches s =
     (if current_transition c < length ts then
        (case records_loop (body (ts ! current_transition c)) (iter c) s of
           (it, s', Some r) \<Rightarrow> (c\<lparr>iter := it\<rparr>, idx_searches, s', Some r)
         | (it, s', None) \<Rightarrow>
             (let i = Suc (current_transition c) in
              if i < length ts
              then transitions_loop provider ts node body
                     (c\<lparr>iter := transition_iter provider (ts ! i) node, current_transition := i\<rparr>)
                     (Suc idx_searches) s'
              else (c\<lparr>iter := it, current_transition := i\<rparr>, idx_searches, s', None)))
      else (c, idx_searches, s, None))"
  by pat_completeness auto
termination
  by (relation "measure (\<lambda>(p, ts, n, b, c, k, s). length ts - current_transition c)") auto

declare transitions_loop.simps [simp del]

text \<open>
  The whole function: an exhausted iterator means a fresh state (\<open>restart\<close>: the code also sets
  \<open>current_transition\<close> to 0; the searches that keep the cursor in the state do not).
\<close>

definition expand_cursor ::
  "get_iterator \<Rightarrow> dfa_transition list \<Rightarrow> object_id \<Rightarrow> bool \<Rightarrow>
     (dfa_transition \<Rightarrow> entry \<Rightarrow> 's \<Rightarrow> 's \<times> 'r option) \<Rightarrow> cursor \<Rightarrow> nat \<Rightarrow> 's \<Rightarrow> cursor \<times> nat \<times> 's \<times> 'r option" where
  "expand_cursor provider ts node restart body c idx_searches s =
     (if at_end (iter c) then
        (let c' = (if restart then c\<lparr>current_transition := 0\<rparr> else c) in
         if ts = [] then (c', idx_searches, s, None)
         else transitions_loop provider ts node body
                (c'\<lparr>iter := transition_iter provider (ts ! current_transition c') node\<rparr>)
                (Suc idx_searches) s)
      else transitions_loop provider ts node body c idx_searches s)"

section \<open>The loop is a scan of the pending pairs\<close>

type_synonym arrow = "dfa_transition \<times> entry"

definition arrows_of :: "get_iterator \<Rightarrow> object_id \<Rightarrow> dfa_transition \<Rightarrow> arrow list" where
  "arrows_of provider node t = map (Pair t) (iter_rest (transition_iter provider t node))"

definition arrows :: "get_iterator \<Rightarrow> dfa_transition list \<Rightarrow> object_id \<Rightarrow> arrow list" where
  "arrows provider ts node = concat (map (arrows_of provider node) ts)"

definition pending :: "get_iterator \<Rightarrow> dfa_transition list \<Rightarrow> object_id \<Rightarrow> cursor \<Rightarrow> arrow list" where
  "pending provider ts node c =
     map (Pair (ts ! current_transition c)) (iter_rest (iter c)) @
     arrows provider (drop (Suc (current_transition c)) ts) node"

definition provider_ok :: "get_iterator \<Rightarrow> bool" where
  "provider_ok provider \<longleftrightarrow> (\<forall>t d n. iter_ok (provider t d n) \<and> \<not> at_end (provider t d n))"

definition step_of :: "(dfa_transition \<Rightarrow> entry \<Rightarrow> 's \<Rightarrow> 's \<times> 'r option) \<Rightarrow> 's \<Rightarrow> arrow \<Rightarrow> 's \<times> 'r option" where
  "step_of body s a = body (fst a) (snd a) s"

lemma records_loop_scan:
  assumes "iter_ok it" "records_loop (body t) it s = (it', s', r)"
  shows "scan (step_of body) s (map (Pair t) (iter_rest it)) = (s', map (Pair t) (iter_rest it'), r) \<and>
    iter_ok it' \<and> (at_end it' \<longleftrightarrow> r = None)"
  using assms
proof (induction "body t" it s rule: records_loop.induct)
  case (1 it s)
  from 1(2) show ?case
  proof (cases rule: ii.nxt_cases)
    case (1 j)
    then show ?thesis using 1 \<open>records_loop (body t) it s = (it', s', r)\<close> by (simp add: records_loop.simps [of _ it])
  next
    case (2 j)
    show ?thesis
    proof (cases "body t (iter_entry j) s")
      case (Pair s1 r1)
      then show ?thesis
      proof (cases r1)
        case None
        with Pair 2 1(3) have "records_loop (body t) j s1 = (it', s', r)"
          by (simp add: records_loop.simps [of _ it])
        from 1(1) [OF 2(1) [symmetric] _ Pair [symmetric] None 2(4) this] show ?thesis
          using 2 Pair None by (simp add: step_of_def)
      next
        case (Some r2)
        with Pair 2 1(3) have "it' = j" "s' = s1" "r = Some r2"
          by (simp_all add: records_loop.simps [of _ it])
        then show ?thesis using 2 Pair Some by (simp add: step_of_def)
      qed
    qed
  qed
qed

lemma arrows_Nil [simp]: "arrows provider [] node = []"
  by (simp add: arrows_def)

lemma pending_fresh:
  "i < length ts \<Longrightarrow> pending provider ts node (c\<lparr>iter := transition_iter provider (ts ! i) node, current_transition := i\<rparr>) =
     arrows provider (drop i ts) node"
  by (simp add: pending_def arrows_def arrows_of_def Cons_nth_drop_Suc [symmetric])

definition cursor_ok :: "dfa_transition list \<Rightarrow> cursor \<Rightarrow> bool" where
  "cursor_ok ts c \<longleftrightarrow> iter_ok (iter c) \<and> (\<not> at_end (iter c) \<longrightarrow> current_transition c < length ts)"

lemma transitions_loop_scan:
  assumes "provider_ok provider" "iter_ok (iter c)" "current_transition c < length ts"
    and "transitions_loop provider ts node body c k s = (c', k', s', r)"
  shows "\<exists>rest. scan (step_of body) s (pending provider ts node c) = (s', rest, r) \<and> iter_ok (iter c') \<and>
    (case r of None \<Rightarrow> at_end (iter c') \<and> rest = [] \<and> length ts \<le> current_transition c'
     | Some x \<Rightarrow> \<not> at_end (iter c') \<and> current_transition c' < length ts \<and> rest = pending provider ts node c')"
  using assms
proof (induction provider ts node body c k s rule: transitions_loop.induct)
  case (1 provider ts node body c k s)
  note prov = 1(2) and it_ok = 1(3) and lt = 1(4) and run = 1(5)
  obtain it s1 r1 where R: "records_loop (body (ts ! current_transition c)) (iter c) s = (it, s1, r1)"
    by (metis prod_cases3)
  note S = records_loop_scan [of "iter c" body "ts ! current_transition c" s it s1 r1, OF it_ok R]
  let ?i = "Suc (current_transition c)"
  let ?rest = "arrows provider (drop ?i ts) node"
  have pend: "pending provider ts node c =
      map (Pair (ts ! current_transition c)) (iter_rest (iter c)) @ ?rest" by (simp add: pending_def)
  show ?case
  proof (cases r1)
    case (Some x)
    then have "c' = c\<lparr>iter := it\<rparr>" "s' = s1" "r = Some x"
      using lt run R by (simp_all add: transitions_loop.simps [of _ _ _ _ c])
    then show ?thesis using S Some lt by (auto simp: pend scan_append) (auto simp: pending_def)
  next
    case None
    have scan: "scan (step_of body) s (pending provider ts node c) = scan (step_of body) s1 ?rest"
      using S None by (simp add: pend scan_append)
    show ?thesis
    proof (cases "?i < length ts")
      case True
      let ?c = "c\<lparr>iter := transition_iter provider (ts ! ?i) node, current_transition := ?i\<rparr>"
      have ok: "iter_ok (iter ?c)" "current_transition ?c < length ts"
        using prov True by (simp_all add: provider_ok_def transition_iter_def)
      have "transitions_loop provider ts node body ?c (Suc k) s1 = (c', k', s', r)"
        using run lt R None True by (simp add: transitions_loop.simps [of _ _ _ _ c] Let_def)
      from 1(1) [OF lt R [symmetric] refl None refl True prov ok this] show ?thesis
        by (simp only: scan pending_fresh [OF True])
    next
      case False
      then have "c' = c\<lparr>iter := it, current_transition := ?i\<rparr>" "s' = s1" "r = None"
        using lt run R None by (simp_all add: transitions_loop.simps [of _ _ _ _ c])
      then show ?thesis using S None scan False by simp
    qed
  qed
qed

text \<open>The pairs that the next call will look at.\<close>

definition upcoming :: "get_iterator \<Rightarrow> dfa_transition list \<Rightarrow> object_id \<Rightarrow> cursor \<Rightarrow> arrow list" where
  "upcoming provider ts node c =
     (if at_end (iter c) then arrows provider ts node else pending provider ts node c)"

lemma expand_cursor_scan:
  assumes p: "provider_ok provider" and c: "cursor_ok ts c" and r0: "restart \<or> current_transition c = 0 \<or> \<not> at_end (iter c)"
    and run: "expand_cursor provider ts node restart body c k s = (c', k', s', r)"
  shows "\<exists>rest. scan (step_of body) s (upcoming provider ts node c) = (s', rest, r) \<and> cursor_ok ts c' \<and>
    (case r of None \<Rightarrow> at_end (iter c') \<and> rest = []
     | Some x \<Rightarrow> \<not> at_end (iter c') \<and> rest = upcoming provider ts node c')"
proof (cases "at_end (iter c)")
  case False
  then have "transitions_loop provider ts node body c k s = (c', k', s', r)"
    using run by (simp add: expand_cursor_def)
  from transitions_loop_scan [OF p _ _ this] c False show ?thesis
    by (cases r) (auto simp: cursor_ok_def upcoming_def)
next
  case True
  let ?c' = "if restart then c\<lparr>current_transition := 0\<rparr> else c"
  have zero: "current_transition ?c' = 0" using r0 True by auto
  show ?thesis
  proof (cases "ts = []")
    case empty: True
    then have "c' = ?c'" "s' = s" "r = None" using run True by (simp_all add: expand_cursor_def Let_def)
    then show ?thesis using True c empty by (auto simp: cursor_ok_def upcoming_def)
  next
    case ne: False
    let ?d = "?c'\<lparr>iter := transition_iter provider (ts ! 0) node\<rparr>"
    have L: "transitions_loop provider ts node body ?d (Suc k) s = (c', k', s', r)"
      using run True ne zero by (simp add: expand_cursor_def Let_def)
    have d: "iter_ok (iter ?d)" "current_transition ?d < length ts"
      using p ne zero by (simp_all add: provider_ok_def transition_iter_def)
    obtain rest where R: "scan (step_of body) s (pending provider ts node ?d) = (s', rest, r)"
      "iter_ok (iter c')" "case r of None \<Rightarrow> at_end (iter c') \<and> rest = [] \<and> length ts \<le> current_transition c'
       | Some x \<Rightarrow> \<not> at_end (iter c') \<and> current_transition c' < length ts \<and> rest = pending provider ts node c'"
      using transitions_loop_scan [OF p d L] by (elim exE conjE)
    have "?d = c\<lparr>iter := transition_iter provider (ts ! 0) node, current_transition := 0\<rparr>"
      using zero by (auto split: if_splits)
    then have "pending provider ts node ?d = arrows provider ts node"
      using pending_fresh [of 0 ts provider node c] ne by simp
    with R True show ?thesis by (cases r) (auto simp: cursor_ok_def upcoming_def)
  qed
qed

text \<open>What the body keeps, the loop keeps, whatever the iterators do.\<close>

lemma records_loop_inv:
  assumes "\<And>e s. P s \<Longrightarrow> P (fst (body e s))" "P s" "records_loop body it s = (it', s', r)"
  shows "P s'"
  using assms
proof (induction body it s rule: records_loop.induct)
  case (1 body it s)
  obtain j b where n: "iter_next it = (j, b)" by fastforce
  obtain s1 r1 where bd: "body (iter_entry j) s = (s1, r1)" by fastforce
  have P1: "P s1" using 1(2) [OF 1(3), of "iter_entry j"] bd by simp
  show ?case
  proof (cases "b \<and> r1 = None")
    case True
    then have "records_loop body j s1 = (it', s', r)"
      using 1(4) n bd by (simp add: records_loop.simps [of _ it])
    from 1(1) [OF n [symmetric] _ bd [symmetric] _ 1(2) P1 this] True show ?thesis by blast
  next
    case False
    then show ?thesis using 1(3,4) n bd P1 by (cases b; cases r1) (auto simp: records_loop.simps [of _ it])
  qed
qed

lemma transitions_loop_inv:
  assumes "\<And>t e s. t \<in> set ts \<Longrightarrow> P s \<Longrightarrow> P (fst (body t e s))" "P s"
    "transitions_loop provider ts node body c k s = (c', k', s', r)"
  shows "P s'"
  using assms
proof (induction provider ts node body c k s rule: transitions_loop.induct)
  case (1 provider ts node body c k s)
  obtain it s1 r1 where R: "records_loop (body (ts ! current_transition c)) (iter c) s = (it, s1, r1)"
    by (metis prod_cases3)
  show ?case
  proof (cases "current_transition c < length ts")
    case True
    have P1: "P s1"
      by (rule records_loop_inv [of P, OF _ 1(3) R]) (use 1(2) True in auto)
    let ?i = "Suc (current_transition c)"
    show ?thesis
    proof (cases "r1 = None \<and> ?i < length ts")
      case next_one: True
      then have "transitions_loop provider ts node body
          (c\<lparr>iter := transition_iter provider (ts ! ?i) node, current_transition := ?i\<rparr>) (Suc k) s1 = (c', k', s', r)"
        using 1(4) R True by (simp add: transitions_loop.simps [of _ _ _ _ c] Let_def)
      from 1(1) [OF True R [symmetric] refl _ refl _ 1(2) P1 this] next_one show ?thesis by blast
    next
      case False
      then show ?thesis using 1(4) R True P1
        by (cases r1) (auto simp: transitions_loop.simps [of _ _ _ _ c] Let_def split: if_splits)
    qed
  next
    case False
    then show ?thesis using 1(3,4) by (simp add: transitions_loop.simps [of _ _ _ _ c])
  qed
qed

lemma expand_cursor_inv:
  assumes "\<And>t e s. t \<in> set ts \<Longrightarrow> P s \<Longrightarrow> P (fst (body t e s))" "P s"
    "expand_cursor provider ts node restart body c k s = (c', k', s', r)"
  shows "P s'"
  using assms(3) transitions_loop_inv [of ts P body s, OF assms(1,2)] assms(2)
  by (auto simp: expand_cursor_def Let_def split: if_splits)

text \<open>A result of the loop is the result of a call of the body.\<close>

lemma records_loop_result:
  assumes "\<And>e s. P s \<Longrightarrow> P (fst (body e s))" "P s" "records_loop body it s = (it', s', Some x)"
  shows "\<exists>e s0. P s0 \<and> body e s0 = (s', Some x)"
  using assms
proof (induction body it s rule: records_loop.induct)
  case (1 body it s)
  obtain j b where n: "iter_next it = (j, b)" by fastforce
  obtain s1 r1 where bd: "body (iter_entry j) s = (s1, r1)" by fastforce
  have P1: "P s1" using 1(2) [OF 1(3), of "iter_entry j"] bd by simp
  have b: "b" using 1(4) n by (cases b) (simp_all add: records_loop.simps [of _ it])
  show ?case
  proof (cases r1)
    case None
    then have "records_loop body j s1 = (it', s', Some x)"
      using 1(4) n b bd by (simp add: records_loop.simps [of _ it])
    from 1(1) [OF n [symmetric] _ bd [symmetric] None 1(2) P1 this] b show ?thesis by blast
  next
    case (Some y)
    then have "s1 = s'" "y = x" using 1(4) n b bd by (simp_all add: records_loop.simps [of _ it])
    then show ?thesis using 1(3) bd Some by blast
  qed
qed

lemma transitions_loop_result:
  assumes "\<And>t e s. t \<in> set ts \<Longrightarrow> P s \<Longrightarrow> P (fst (body t e s))" "P s"
    "transitions_loop provider ts node body c k s = (c', k', s', Some x)"
  shows "\<exists>t \<in> set ts. \<exists>e s0. P s0 \<and> body t e s0 = (s', Some x)"
  using assms
proof (induction provider ts node body c k s rule: transitions_loop.induct)
  case (1 provider ts node body c k s)
  obtain it s1 r1 where R: "records_loop (body (ts ! current_transition c)) (iter c) s = (it, s1, r1)"
    by (metis prod_cases3)
  have lt: "current_transition c < length ts"
    using 1(4) by (rule contrapos_pp) (simp add: transitions_loop.simps [of _ _ _ _ c])
  then have t: "ts ! current_transition c \<in> set ts" by simp
  have P1: "P s1" by (rule records_loop_inv [of P, OF _ 1(3) R]) (use 1(2) t in auto)
  show ?case
  proof (cases r1)
    case None
    let ?i = "Suc (current_transition c)"
    have i: "?i < length ts"
    proof (rule ccontr)
      assume "\<not> ?i < length ts"
      then show False using 1(4) lt R None by (simp add: transitions_loop.simps [of _ _ _ _ c] Let_def)
    qed
    then have "transitions_loop provider ts node body
        (c\<lparr>iter := transition_iter provider (ts ! ?i) node, current_transition := ?i\<rparr>) (Suc k) s1 = (c', k', s', Some x)"
      using 1(4) R None lt by (simp add: transitions_loop.simps [of _ _ _ _ c] Let_def)
    from 1(1) [OF lt R [symmetric] refl None refl i 1(2) P1 this] show ?thesis by blast
  next
    case (Some y)
    then have eq: "s1 = s'" "y = x" using 1(4) lt R by (simp_all add: transitions_loop.simps [of _ _ _ _ c])
    have "\<exists>e s0. P s0 \<and> body (ts ! current_transition c) e s0 = (s', Some x)"
      by (rule records_loop_result [of P, OF _ 1(3)]) (use 1(2) t R Some eq in auto)
    then show ?thesis using t by blast
  qed
qed

lemma expand_cursor_result:
  assumes "\<And>t e s. t \<in> set ts \<Longrightarrow> P s \<Longrightarrow> P (fst (body t e s))" "P s"
    "expand_cursor provider ts node restart body c k s = (c', k', s', Some x)"
  shows "\<exists>t \<in> set ts. \<exists>e s0. P s0 \<and> body t e s0 = (s', Some x)"
  using assms(3) transitions_loop_result [of ts P body s, OF assms(1,2)]
  by (auto simp: expand_cursor_def Let_def split: if_splits)

end
