(* ===== verification/SearchBase.thy ===== *)
theory SearchBase
  imports IndexIter
begin

text \<open>
  What the path iterators share: the attributes they get from the constructor, the states of
  \<open>any_shortest/search_state.h\<close>, the visited set, the product of graph and automaton and its
  walks, and the interface to the graph (\<open>graph_provider\<close>): the neighbour lists an index
  provider returns against the edges of the database.
\<close>

section \<open>Attributes of an iterator\<close>

text \<open>
  \<open>start\<close> and \<open>end\<close> are node ids or variables of the binding; \<open>begin\<close> and \<open>reset\<close>
  resolve them to the ids stored here.
\<close>

record path_query =
  automaton :: rpq_dfa
  provider :: get_iterator
  node_exists :: "object_id \<Rightarrow> bool"
  start_object_id :: object_id
  end_object_id :: object_id

definition null_object_id :: object_id where
  "null_object_id = 0"

definition transitions_from :: "path_query \<Rightarrow> nat \<Rightarrow> dfa_transition list" where
  "transitions_from Q q = slot (from_to_connections (automaton Q)) q"

definition is_final :: "path_query \<Rightarrow> nat \<Rightarrow> bool" where
  "is_final Q q \<longleftrightarrow> is_final_state (automaton Q) ! q"

section \<open>Search states\<close>

text \<open>
  All fields are \<open>const\<close> and the states live in a set with pointer stability, so the pointer
  \<open>previous\<close> is modelled by the state it points to.
\<close>

datatype search_state = SearchState (automaton_state: nat) (node_id: object_id)
  (previous: "search_state option") (inverse_direction: bool) (traversed_type: object_id)

type_synonym key = "nat \<times> object_id"

definition key_of_state :: "search_state \<Rightarrow> key" where
  "key_of_state s = (automaton_state s, node_id s)"

text \<open>
  \<open>visited\<close> is an unordered set whose equality looks at the automaton state and the node; the
  list keeps the states in order of insertion. \<open>insert\<close> returns the new element, if it is new.
\<close>

definition visited_insert :: "search_state \<Rightarrow> search_state list \<Rightarrow> search_state list \<times> search_state option" where
  "visited_insert s V =
     (if key_of_state s \<in> key_of_state ` set V then (V, None) else (V @ [s], Some s))"

definition visited_find :: "key \<Rightarrow> search_state list \<Rightarrow> search_state option" where
  "visited_find x V = find (\<lambda>s. key_of_state s = x) V"

definition start_state_of :: "path_query \<Rightarrow> search_state" where
  "start_state_of Q =
     SearchState (start_state (automaton Q)) (start_object_id Q) None True null_object_id"

fun depth :: "search_state \<Rightarrow> nat" where
  "depth (SearchState q n None d t) = 0"
| "depth (SearchState q n (Some p) d t) = Suc (depth p)"

text \<open>
  \<open>get_path\<close>: the vectors of nodes, types and directions, collected from the last state to the
  first, then printed from the start node on.
\<close>

fun collect_path :: "search_state \<Rightarrow> (object_id \<times> object_id \<times> bool) list" where
  "collect_path (SearchState q n None d t) = [(n, t, d)]"
| "collect_path (SearchState q n (Some p) d t) = (n, t, d) # collect_path p"

datatype path_piece = PathNode object_id | PathEdge object_id bool

definition get_path :: "search_state \<Rightarrow> path_piece list" where
  "get_path s =
     (case rev (collect_path s) of
        [] \<Rightarrow> []
      | (n, _, _) # steps \<Rightarrow> PathNode n # concat (map (\<lambda>(n, t, d). [PathEdge t d, PathNode n]) steps))"

section \<open>The product of graph and automaton\<close>

definition arrows_from :: "path_query \<Rightarrow> key \<Rightarrow> arrow list" where
  "arrows_from Q x = arrows (provider Q) (transitions_from Q (fst x)) (snd x)"

definition arrow_key :: "arrow \<Rightarrow> key" where
  "arrow_key a = (dfa_to (fst a), fst (snd a))"

definition product_step :: "path_query \<Rightarrow> (key \<times> key) set" where
  "product_step Q = {(x, y). \<exists>a \<in> set (arrows_from Q x). y = arrow_key a}"

definition start_key :: "path_query \<Rightarrow> key" where
  "start_key Q = (start_state (automaton Q), start_object_id Q)"

lemma key_start_state [simp]: "key_of_state (start_state_of Q) = start_key Q"
  by (simp add: key_of_state_def start_state_of_def start_key_def)

lemma arrows_from_transition: "a \<in> set (arrows_from Q x) \<Longrightarrow> fst a \<in> set (transitions_from Q (fst x))"
  by (auto simp: arrows_from_def arrows_def arrows_of_def)

text \<open>A state is linked when the whole chain of \<open>previous\<close> pointers is a walk from the start.\<close>

fun linked :: "path_query \<Rightarrow> search_state \<Rightarrow> bool" where
  "linked Q (SearchState q n None d t) = ((q, n) = start_key Q)"
| "linked Q (SearchState q n (Some p) d t) =
     (linked Q p \<and> (\<exists>e \<in> set (transitions_from Q (automaton_state p)). q = dfa_to e \<and> d = dfa_inverse e \<and>
        t = type_id e \<and> n \<in> fst ` set (iter_rest (transition_iter (provider Q) e (node_id p)))))"

lemma linked_walk: "linked Q s \<Longrightarrow> (start_key Q, key_of_state s) \<in> product_step Q ^^ depth s"
proof (induction s rule: depth.induct)
  case (1 q n d t)
  then show ?case by (simp add: key_of_state_def)
next
  case (2 q n p d t)
  then obtain e x where e: "e \<in> set (transitions_from Q (automaton_state p))" "q = dfa_to e"
    "x \<in> set (iter_rest (transition_iter (provider Q) e (node_id p)))" "n = fst x" by auto
  then have "(e, x) \<in> set (arrows_from Q (key_of_state p))"
    by (auto simp: arrows_from_def arrows_def arrows_of_def key_of_state_def)
  then have "(key_of_state p, (q, n)) \<in> product_step Q" using e(2,4) by (force simp: product_step_def arrow_key_def)
  with 2 show ?case by (auto simp: key_of_state_def intro: relcompI)
qed

section \<open>Walks of the graph\<close>

text \<open>Distances are 32-bit numbers.\<close>

lemma of_nat_32: "a < 2 ^ 32 \<Longrightarrow> b < 2 ^ 32 \<Longrightarrow> (of_nat a :: 32 word) = of_nat b \<longleftrightarrow> a = b"
  by (simp add: word_of_nat_eq_iff take_bit_nat_eq_self)

text \<open>An edge of the database: from, type, to, edge id. A step crosses it forwards or backwards.\<close>

type_synonym quad = "object_id \<times> object_id \<times> object_id \<times> object_id"

definition crosses :: "quad set \<Rightarrow> object_id \<Rightarrow> object_id \<times> bool \<Rightarrow> object_id \<Rightarrow> object_id \<Rightarrow> bool" where
  "crosses E n l m e \<longleftrightarrow> (if snd l then (m, fst l, n, e) \<in> E else (n, fst l, m, e) \<in> E)"

fun graph_walk :: "quad set \<Rightarrow> object_id \<Rightarrow> (object_id \<times> bool) list \<Rightarrow> object_id \<Rightarrow> bool" where
  "graph_walk E n [] m \<longleftrightarrow> n = m"
| "graph_walk E n (l # w) m \<longleftrightarrow> (\<exists>k e. crosses E n l k e \<and> graph_walk E k w m)"

text \<open>
  The interface of \<open>IndexProvider\<close>: fresh iterators over exactly the neighbours along an edge
  type and direction. \<open>edge_provider\<close> also promises the edge ids, each edge once.
\<close>

locale graph_provider =
  fixes prov :: get_iterator and E :: "quad set"
  assumes prov_ok: "provider_ok prov"
    and neighbours: "fst ` set (iter_rest (prov t d n)) = {m. \<exists>e. crosses E n (t, d) m e}"
begin

lemma arrow_iff:
  "(\<exists>a \<in> set (arrows prov ts n). dfa_to (fst a) = q \<and> fst (snd a) = m) \<longleftrightarrow>
   (\<exists>t \<in> set ts. dfa_to t = q \<and> (\<exists>e. crosses E n (type_id t, dfa_inverse t) m e))"
  (is "?L \<longleftrightarrow> ?R")
proof
  assume ?L
  then obtain t x where t: "t \<in> set ts" "x \<in> set (iter_rest (prov (type_id t) (dfa_inverse t) n))" "dfa_to t = q" "fst x = m"
    by (auto simp: arrows_def arrows_of_def transition_iter_def)
  then have "m \<in> fst ` set (iter_rest (prov (type_id t) (dfa_inverse t) n))" by blast
  with t show ?R unfolding neighbours by blast
next
  assume ?R
  then obtain t where t: "t \<in> set ts" "dfa_to t = q" "m \<in> fst ` set (iter_rest (prov (type_id t) (dfa_inverse t) n))"
    unfolding neighbours by blast
  then obtain x where "x \<in> set (iter_rest (prov (type_id t) (dfa_inverse t) n))" "fst x = m" by blast
  with t have "(t, x) \<in> set (arrows prov ts n)" by (auto simp: arrows_def arrows_of_def transition_iter_def)
  with t \<open>fst x = m\<close> show ?L by force
qed

lemma product_step_iff:
  assumes "provider Q = prov"
  shows "((p, n), (q, m)) \<in> product_step Q \<longleftrightarrow>
    (\<exists>t \<in> set (transitions_from Q p). dfa_to t = q \<and> (\<exists>e. crosses E n (type_id t, dfa_inverse t) m e))"
  using arrow_iff [of "transitions_from Q p" n q m] assms
  by (auto simp: product_step_def arrows_from_def arrow_key_def)

text \<open>A walk of the product is a walk of the graph whose labels the automaton reads.\<close>

lemma product_walk_iff:
  assumes "provider Q = prov"
  shows "((p, n), (q, m)) \<in> product_step Q ^^ k \<longleftrightarrow>
    (\<exists>w. length w = k \<and> dfa_run (automaton Q) p w q \<and> graph_walk E n w m)"
proof (induction k arbitrary: p n)
  case 0
  then show ?case by auto
next
  case (Suc k)
  have "((p, n), (q, m)) \<in> product_step Q ^^ Suc k \<longleftrightarrow>
      (\<exists>r l. ((p, n), (r, l)) \<in> product_step Q \<and> ((r, l), (q, m)) \<in> product_step Q ^^ k)"
    by (simp only: relpow.simps relpow_commute [symmetric]) (auto simp: relcomp_unfold)
  also have "\<dots> \<longleftrightarrow> (\<exists>r l t e w. t \<in> set (transitions_from Q p) \<and> dfa_to t = r \<and>
      crosses E n (type_id t, dfa_inverse t) l e \<and> length w = k \<and> dfa_run (automaton Q) r w q \<and> graph_walk E l w m)"
    unfolding product_step_iff [OF assms] Suc.IH by blast
  also have "\<dots> \<longleftrightarrow> (\<exists>w. length w = Suc k \<and> dfa_run (automaton Q) p w q \<and> graph_walk E n w m)" (is "?L \<longleftrightarrow> ?R")
  proof
    assume ?L
    then obtain r l t e w where "t \<in> set (transitions_from Q p)" "dfa_to t = r"
      "crosses E n (type_id t, dfa_inverse t) l e" "length w = k" "dfa_run (automaton Q) r w q" "graph_walk E l w m"
      by blast
    then show ?R
      by (intro exI [of _ "(type_id t, dfa_inverse t) # w"]) (auto simp: transitions_from_def)
  next
    assume ?R
    then obtain c d w where "length w = k" "dfa_run (automaton Q) p ((c, d) # w) q" "graph_walk E n ((c, d) # w) m"
      by (auto simp: length_Suc_conv)
    then show ?L by (fastforce simp: transitions_from_def)
  qed
  finally show ?case .
qed

end

text \<open>The steps of a state's path, in walking order: edge type, direction, node reached.\<close>

definition path_steps :: "search_state \<Rightarrow> (object_id \<times> object_id \<times> bool) list" where
  "path_steps s = tl (rev (collect_path s))"

definition step_label :: "object_id \<times> object_id \<times> bool \<Rightarrow> object_id \<times> bool" where
  "step_label x = (fst (snd x), snd (snd x))"

fun trace :: "quad set \<Rightarrow> object_id \<Rightarrow> (object_id \<times> object_id \<times> bool) list \<Rightarrow> object_id \<Rightarrow> bool" where
  "trace E n [] m \<longleftrightarrow> n = m"
| "trace E n (x # xs) m \<longleftrightarrow> (\<exists>e. crosses E n (step_label x) (fst x) e) \<and> trace E (fst x) xs m"

lemma trace_snoc: "trace E n (xs @ [x]) m \<longleftrightarrow> (\<exists>k. trace E n xs k \<and> (\<exists>e. crosses E k (step_label x) (fst x) e) \<and> m = fst x)"
  by (induction xs arbitrary: n) auto

lemma trace_walk: "trace E n xs m \<Longrightarrow> graph_walk E n (map step_label xs) m"
  by (induction xs arbitrary: n) auto

lemma dfa_run_snoc:
  "dfa_run D p (w @ [l]) q \<longleftrightarrow> (\<exists>r. dfa_run D p w r \<and>
     (\<exists>t \<in> set (slot (from_to_connections D) r). type_id t = fst l \<and> dfa_inverse t = snd l \<and> dfa_to t = q))"
  by (induction D p w q rule: dfa_run.induct) (cases l; auto)+

lemma collect_path_nonempty: "collect_path s \<noteq> []"
  by (cases s rule: collect_path.cases) auto

lemma path_steps_simps [simp]:
  "path_steps (SearchState q n None d t) = []"
  "path_steps (SearchState q n (Some p) d t) = path_steps p @ [(n, t, d)]"
  using collect_path_nonempty [of p] by (simp_all add: path_steps_def)

lemma length_path_steps [simp]: "length (path_steps s) = depth s"
  by (induction s rule: depth.induct) auto

text \<open>The first entry of the vectors is the start node: what \<open>get_path\<close> prints.\<close>

lemma linked_first: "linked Q s \<Longrightarrow> \<exists>t d. rev (collect_path s) = (start_object_id Q, t, d) # path_steps s"
proof (induction Q s rule: linked.induct)
  case (1 Q q n d t)
  then show ?case by (simp add: start_key_def)
next
  case (2 Q q n p d t)
  then obtain t' d' where "rev (collect_path p) = (start_object_id Q, t', d') # path_steps p" by auto
  then show ?case by simp
qed

lemma get_path_steps:
  "linked Q s \<Longrightarrow> get_path s =
     PathNode (start_object_id Q) # concat (map (\<lambda>(n, t, d). [PathEdge t d, PathNode n]) (path_steps s))"
  using linked_first [of Q s] by (auto simp: get_path_def)

context graph_provider begin

lemma linked_path:
  assumes "provider Q = prov"
  shows "linked Q s \<Longrightarrow> trace E (start_object_id Q) (path_steps s) (node_id s) \<and>
    dfa_run (automaton Q) (start_state (automaton Q)) (map step_label (path_steps s)) (automaton_state s)"
proof (induction s rule: depth.induct)
  case (1 q n d t)
  then show ?case by (simp add: start_key_def)
next
  case (2 q n p d t)
  then obtain e where e: "e \<in> set (transitions_from Q (automaton_state p))" "q = dfa_to e" "d = dfa_inverse e"
    "t = type_id e" "n \<in> fst ` set (iter_rest (prov (type_id e) (dfa_inverse e) (node_id p)))"
    by (auto simp: transition_iter_def assms)
  then have "\<exists>x. crosses E (node_id p) (t, d) n x" unfolding neighbours by simp
  with 2 e show ?case by (auto simp: trace_snoc dfa_run_snoc step_label_def transitions_from_def)
qed

end

locale edge_provider = graph_provider +
  assumes edge_entries: "set (iter_rest (prov t d n)) = {(m, Some e) | m e. crosses E n (t, d) m e}"
    and edge_distinct: "distinct (iter_rest (prov t d n))"

text \<open>\<open>counted_provider\<close> promises that a neighbour is listed once for every edge to it.\<close>

locale counted_provider = graph_provider +
  assumes entry_count: "length (filter (\<lambda>x. fst x = m) (iter_rest (prov t d n))) = card {e. crosses E n (t, d) m e}"
    and finite_edges: "finite E"

end
