(* ===== verification/BfsInvariant.thy ===== *)
theory BfsInvariant
  imports SearchBase
begin

text \<open>
  The invariant of a breadth-first search of the product, independent of the object that runs
  it: \<open>V\<close> are the visited states in order of insertion, \<open>k\<close> is the position of the front of
  the queue (the queue is \<open>drop k V\<close>), \<open>seen\<close> are the arrows of the front already looked at.
  Depths never decrease along \<open>V\<close>, so a state's depth is the length of a shortest walk.
\<close>

definition covered :: "search_state list \<Rightarrow> nat \<Rightarrow> key \<Rightarrow> bool" where
  "covered V d x \<longleftrightarrow> (\<exists>s \<in> set V. key_of_state s = x \<and> depth s \<le> d)"

definition bfs_ok :: "path_query \<Rightarrow> search_state list \<Rightarrow> nat \<Rightarrow> arrow set \<Rightarrow> bool" where
  "bfs_ok Q V k seen \<longleftrightarrow> V \<noteq> [] \<and> hd V = start_state_of Q \<and> distinct (map key_of_state V) \<and>
     (\<forall>s \<in> set V. linked Q s) \<and> sorted (map depth V) \<and> k \<le> length V \<and>
     (k < length V \<longrightarrow> (\<forall>s \<in> set V. depth s \<le> Suc (depth (V ! k)))) \<and>
     (\<forall>i < k. \<forall>a \<in> set (arrows_from Q (key_of_state (V ! i))). covered V (Suc (depth (V ! i))) (arrow_key a)) \<and>
     (\<forall>a \<in> seen. k < length V \<and> covered V (Suc (depth (V ! k))) (arrow_key a))"

definition arrow_state :: "search_state \<Rightarrow> arrow \<Rightarrow> search_state" where
  "arrow_state p a =
     SearchState (dfa_to (fst a)) (fst (snd a)) (Some p) (dfa_inverse (fst a)) (type_id (fst a))"

lemma arrow_state_simps [simp]:
  "key_of_state (arrow_state p a) = arrow_key a" "depth (arrow_state p a) = Suc (depth p)"
  "automaton_state (arrow_state p a) = dfa_to (fst a)" "node_id (arrow_state p a) = fst (snd a)"
  by (simp_all add: arrow_state_def key_of_state_def arrow_key_def)

lemma linked_arrow_state:
  "linked Q p \<Longrightarrow> a \<in> set (arrows_from Q (key_of_state p)) \<Longrightarrow> linked Q (arrow_state p a)"
  by (force simp: arrow_state_def arrows_from_def arrows_def arrows_of_def key_of_state_def)

lemma depth_start [simp]: "depth (start_state_of Q) = 0"
  by (simp add: start_state_of_def)

lemma linked_start [simp]: "linked Q (start_state_of Q)"
  by (simp add: start_state_of_def start_key_def)

lemma covered_mono: "covered V d x \<Longrightarrow> set V \<subseteq> set W \<Longrightarrow> d \<le> e \<Longrightarrow> covered W e x"
  unfolding covered_def by (meson le_trans subsetD)

lemma bfs_ok_start: "bfs_ok Q [start_state_of Q] 0 {}"
  by (simp add: bfs_ok_def)

lemma bfs_ok_old:
  assumes "bfs_ok Q V k seen" "k < length V" "arrow_key a \<in> key_of_state ` set V"
  shows "bfs_ok Q V k (insert a seen)"
proof -
  have "covered V (Suc (depth (V ! k))) (arrow_key a)"
    using assms by (auto simp: bfs_ok_def covered_def)
  with assms show ?thesis by (simp add: bfs_ok_def)
qed

lemma bfs_ok_new:
  assumes V: "bfs_ok Q V k seen" and k: "k < length V" and new: "arrow_key a \<notin> key_of_state ` set V"
    and a: "a \<in> set (arrows_from Q (key_of_state (V ! k)))"
  shows "bfs_ok Q (V @ [arrow_state (V ! k) a]) k (insert a seen)"
proof -
  let ?s = "arrow_state (V ! k) a" and ?W = "V @ [arrow_state (V ! k) a]"
  have nth: "i < length V \<Longrightarrow> ?W ! i = V ! i" for i by (simp add: nth_append)
  have d: "\<forall>s \<in> set V. depth s \<le> Suc (depth (V ! k))" using V k by (simp add: bfs_ok_def)
  have "linked Q ?s" using V k a by (intro linked_arrow_state) (auto simp: bfs_ok_def)
  moreover have "sorted (map depth ?W)" using V d by (simp add: bfs_ok_def sorted_append)
  moreover have "\<forall>i < k. \<forall>b \<in> set (arrows_from Q (key_of_state (?W ! i))). covered ?W (Suc (depth (?W ! i))) (arrow_key b)"
  proof (intro allI impI ballI)
    fix i b assume i: "i < k" "b \<in> set (arrows_from Q (key_of_state (?W ! i)))"
    then have "covered V (Suc (depth (V ! i))) (arrow_key b)" using V k nth by (simp add: bfs_ok_def)
    then have "covered ?W (Suc (depth (V ! i))) (arrow_key b)" by (rule covered_mono) auto
    then show "covered ?W (Suc (depth (?W ! i))) (arrow_key b)" using nth i k by simp
  qed
  moreover have "\<forall>b \<in> insert a seen. covered ?W (Suc (depth (V ! k))) (arrow_key b)"
  proof
    fix b assume "b \<in> insert a seen"
    then consider "b = a" | "covered V (Suc (depth (V ! k))) (arrow_key b)" using V by (auto simp: bfs_ok_def)
    then show "covered ?W (Suc (depth (V ! k))) (arrow_key b)"
    proof cases
      case 1 then show ?thesis by (auto simp: covered_def)
    next
      case 2 then show ?thesis by (rule covered_mono) auto
    qed
  qed
  ultimately show ?thesis using V k d new nth by (auto simp: bfs_ok_def)
qed

lemma bfs_ok_pop:
  assumes V: "bfs_ok Q V k seen" and k: "k < length V"
    and all: "set (arrows_from Q (key_of_state (V ! k))) \<subseteq> seen"
  shows "bfs_ok Q V (Suc k) {}"
proof -
  have "depth s \<le> Suc (depth (V ! Suc k))" if "s \<in> set V" "Suc k < length V" for s
  proof -
    have "depth s \<le> Suc (depth (V ! k))" using V k that by (simp add: bfs_ok_def)
    moreover have "depth (V ! k) \<le> depth (V ! Suc k)"
      using V that(2) sorted_nth_mono [of "map depth V" k "Suc k"] by (simp add: bfs_ok_def)
    ultimately show ?thesis by simp
  qed
  moreover have "\<forall>i < Suc k. \<forall>a \<in> set (arrows_from Q (key_of_state (V ! i))). covered V (Suc (depth (V ! i))) (arrow_key a)"
    using V all by (auto simp: bfs_ok_def less_Suc_eq)
  ultimately show ?thesis using V k by (simp add: bfs_ok_def)
qed

text \<open>Every walk that is not deeper than the front has been found, at no greater depth.\<close>

lemma bfs_ok_complete:
  assumes V: "bfs_ok Q V k seen" and w: "(start_key Q, x) \<in> product_step Q ^^ d"
    and d: "k = length V \<or> d \<le> depth (V ! k)"
  shows "covered V d x"
  using w d
proof (induction d arbitrary: x)
  case 0
  have "start_state_of Q \<in> set V" using V by (metis bfs_ok_def list.set_sel(1))
  then show ?case using 0 by (auto simp: covered_def intro!: bexI [of _ "start_state_of Q"])
next
  case (Suc d)
  then obtain y where y: "(start_key Q, y) \<in> product_step Q ^^ d" "(y, x) \<in> product_step Q" by auto
  obtain s where s: "s \<in> set V" "key_of_state s = y" "depth s \<le> d"
    using Suc.IH [OF y(1)] Suc.prems(2) by (auto simp: covered_def)
  then obtain i where i: "i < length V" "V ! i = s" by (auto simp: in_set_conv_nth)
  have "i < k"
  proof (rule ccontr)
    assume "\<not> i < k"
    then have "k < length V" "depth (V ! k) \<le> depth (V ! i)"
      using V i sorted_nth_mono [of "map depth V" k i] by (simp_all add: bfs_ok_def)
    then show False using Suc.prems(2) s(3) i(2) by simp
  qed
  obtain a where "a \<in> set (arrows_from Q y)" "x = arrow_key a" using y(2) by (auto simp: product_step_def)
  then have "covered V (Suc (depth s)) x" using V \<open>i < k\<close> i(2) s(2) by (auto simp: bfs_ok_def)
  then show ?case by (rule covered_mono) (use s(3) in auto)
qed

lemma bfs_ok_walk: "bfs_ok Q V k seen \<Longrightarrow> s \<in> set V \<Longrightarrow> (start_key Q, key_of_state s) \<in> product_step Q ^^ depth s"
  by (simp add: bfs_ok_def linked_walk)

text \<open>The final states of \<open>V\<close> that are the first with their node: what is reported.\<close>

fun first_finals :: "path_query \<Rightarrow> object_id set \<Rightarrow> search_state list \<Rightarrow> search_state list" where
  "first_finals Q N [] = []"
| "first_finals Q N (s # V) =
     (if is_final Q (automaton_state s) \<and> node_id s \<notin> N
      then s # first_finals Q (insert (node_id s) N) V else first_finals Q N V)"

definition final_nodes :: "path_query \<Rightarrow> search_state list \<Rightarrow> object_id set" where
  "final_nodes Q V = node_id ` {s \<in> set V. is_final Q (automaton_state s)}"

lemma final_nodes_simps [simp]:
  "final_nodes Q [] = {}"
  "final_nodes Q (s # V) = (if is_final Q (automaton_state s) then insert (node_id s) (final_nodes Q V) else final_nodes Q V)"
  "final_nodes Q (V @ W) = final_nodes Q V \<union> final_nodes Q W"
  by (auto simp: final_nodes_def)

lemma first_finals_snoc:
  "first_finals Q N (V @ [s]) = first_finals Q N V @
     (if is_final Q (automaton_state s) \<and> node_id s \<notin> N \<union> final_nodes Q V then [s] else [])"
  by (induction V arbitrary: N) auto

lemma first_finals_nodes: "node_id ` set (first_finals Q N V) = final_nodes Q V - N"
  by (induction V arbitrary: N) auto

lemma first_finals_distinct:
  "distinct (map node_id (first_finals Q N V)) \<and> N \<inter> node_id ` set (first_finals Q N V) = {}"
proof (induction V arbitrary: N)
  case (Cons s V)
  show ?case using Cons [of N] Cons [of "insert (node_id s) N"] by auto
qed simp

lemma first_finals_subset: "set (first_finals Q N V) \<subseteq> {s \<in> set V. is_final Q (automaton_state s)}"
  by (induction V arbitrary: N) auto

lemma first_finals_depth:
  "sorted (map depth V) \<Longrightarrow> s \<in> set (first_finals Q N V) \<Longrightarrow> s' \<in> set V \<Longrightarrow> is_final Q (automaton_state s') \<Longrightarrow>
   node_id s' = node_id s \<Longrightarrow> depth s \<le> depth s'"
proof (induction V arbitrary: N)
  case (Cons v V)
  consider "s = v" | M where "s \<in> set (first_finals Q M V)" "is_final Q (automaton_state v) \<longrightarrow> node_id v \<in> M"
    using Cons.prems(2) by (auto split: if_splits)
  then show ?case
  proof cases
    case 1 then show ?thesis using Cons.prems(1,3) by auto
  next
    case 2
    then have "node_id s \<notin> M" using first_finals_distinct [of Q M V] by auto
    then have "s' \<noteq> v" using 2(2) Cons.prems(4,5) by auto
    then show ?thesis using Cons.IH [OF _ 2(1)] Cons.prems by auto
  qed
qed simp

lemma first_finals_distance:
  assumes V: "bfs_ok Q V (length V) {}" and s: "s \<in> set (first_finals Q {} V)"
    and w: "(start_key Q, (q, node_id s)) \<in> product_step Q ^^ d" "is_final Q q"
  shows "depth s \<le> d"
proof -
  obtain s' where "s' \<in> set V" "key_of_state s' = (q, node_id s)" "depth s' \<le> d"
    using bfs_ok_complete [OF V w(1)] by (auto simp: covered_def)
  with first_finals_depth [of V s Q "{}" s'] V s w(2) show ?thesis
    by (auto simp: bfs_ok_def key_of_state_def)
qed

lemma final_nodes_iff:
  assumes V: "bfs_ok Q V (length V) {}"
  shows "n \<in> final_nodes Q V \<longleftrightarrow> (\<exists>q. is_final Q q \<and> (start_key Q, (q, n)) \<in> (product_step Q)\<^sup>*)"
proof
  assume "n \<in> final_nodes Q V"
  then obtain s where "s \<in> set V" "is_final Q (automaton_state s)" "node_id s = n" by (auto simp: final_nodes_def)
  with bfs_ok_walk [OF V] show "\<exists>q. is_final Q q \<and> (start_key Q, (q, n)) \<in> (product_step Q)\<^sup>*"
    by (metis key_of_state_def relpow_imp_rtrancl)
next
  assume "\<exists>q. is_final Q q \<and> (start_key Q, (q, n)) \<in> (product_step Q)\<^sup>*"
  then obtain q d where "is_final Q q" "(start_key Q, (q, n)) \<in> product_step Q ^^ d" by (metis rtrancl_imp_relpow)
  with bfs_ok_complete [OF V] show "n \<in> final_nodes Q V"
    by (fastforce simp: covered_def final_nodes_def key_of_state_def)
qed

end
