(* ===== verification/AnyShortest.thy ===== *)
theory AnyShortest
  imports BfsInvariant
begin

text \<open>
  \<open>Paths::AnyShortest::BFSEnum<MULTIPLE_FINAL>\<close> and \<open>BFSCheck\<close>: one path to every reachable
  node, by a breadth-first search of the product of graph and automaton. The search is
  pipelined: \<open>next\<close> returns at every result and resumes there. The record of \<open>bfs_enum\<close> is the
  object, \<open>bfs_next\<close> a call of \<open>next\<close>; its result is the state whose path is stored with
  \<open>set_path\<close> (the end node is the state's node), or \<open>None\<close> for \<open>false\<close>.
\<close>

section \<open>BFSEnum\<close>

record bfs_enum =
  visited :: "search_state list"
  open_queue :: "search_state list"
  cur :: cursor
  first_next :: bool
  reached_final :: "object_id list"
  results_found :: nat
  idx_searches :: nat

definition null_cursor :: cursor where
  "null_cursor = \<lparr>iter = NullIndexIterator, current_transition = 0\<rparr>"

text \<open>A fresh object; \<open>begin\<close> adds the start state, \<open>reset\<close> empties the containers first.\<close>

definition bfs_new :: bfs_enum where
  "bfs_new = \<lparr>visited = [], open_queue = [], cur = null_cursor, first_next = True,
     reached_final = [], results_found = 0, idx_searches = 0\<rparr>"

definition bfs_begin :: "path_query \<Rightarrow> bfs_enum \<Rightarrow> bfs_enum" where
  "bfs_begin Q B =
     (case visited_insert (start_state_of Q) (visited B) of
        (V, r) \<Rightarrow> B\<lparr>visited := V,
          open_queue := open_queue B @ [the (visited_find (start_key Q) V)],
          cur := (cur B)\<lparr>iter := NullIndexIterator\<rparr>\<rparr>)"

definition bfs_reset :: "bool \<Rightarrow> path_query \<Rightarrow> bfs_enum \<Rightarrow> bfs_enum" where
  "bfs_reset multiple_final Q B =
     (let B' = B\<lparr>open_queue := [], visited := [],
                 reached_final := (if multiple_final then [] else reached_final B), first_next := True\<rparr>
      in case visited_insert (start_state_of Q) (visited B') of
           (V, r) \<Rightarrow> B'\<lparr>visited := V,
             open_queue := open_queue B' @ [the (visited_find (start_key Q) V)],
             cur := (cur B')\<lparr>iter := NullIndexIterator\<rparr>\<rparr>)"

text \<open>The body of the loop over the records of one transition.\<close>

definition bfs_visit ::
  "bool \<Rightarrow> path_query \<Rightarrow> search_state \<Rightarrow> dfa_transition \<Rightarrow> entry \<Rightarrow> bfs_enum \<Rightarrow> bfs_enum \<times> search_state option" where
  "bfs_visit multiple_final Q current_state t x B =
     (let next_state = SearchState (dfa_to t) (fst x) (Some current_state) (dfa_inverse t) (type_id t) in
      case visited_insert next_state (visited B) of
        (V, None) \<Rightarrow> (B, None)
      | (V, Some reached_state) \<Rightarrow>
          (let B1 = B\<lparr>visited := V, open_queue := open_queue B @ [reached_state]\<rparr> in
           if is_final Q (automaton_state reached_state) then
             if multiple_final then
               if node_id reached_state \<notin> set (reached_final B1)
               then (B1\<lparr>reached_final := node_id reached_state # reached_final B1\<rparr>, Some reached_state)
               else (B1, None)
             else (B1, Some reached_state)
           else (B1, None)))"

definition bfs_expand_neighbors ::
  "bool \<Rightarrow> path_query \<Rightarrow> search_state \<Rightarrow> bfs_enum \<Rightarrow> bfs_enum \<times> search_state option" where
  "bfs_expand_neighbors multiple_final Q current_state B =
     (case expand_cursor (provider Q) (transitions_from Q (automaton_state current_state))
             (node_id current_state) True (bfs_visit multiple_final Q current_state)
             (cur B) (idx_searches B) B of
        (c, k, B', r) \<Rightarrow> (B'\<lparr>cur := c, idx_searches := k\<rparr>, r))"

text \<open>The keys that can still be visited: what makes the search finite.\<close>

definition all_keys :: "path_query \<Rightarrow> key set" where
  "all_keys Q = insert (start_key Q)
     {(dfa_to t, n) | t n. t \<in> set (concat (from_to_connections (automaton Q)))}"

definition bfs_potential :: "path_query \<Rightarrow> bfs_enum \<Rightarrow> nat" where
  "bfs_potential Q B = 2 * card (all_keys Q - key_of_state ` set (visited B)) + length (open_queue B)"

lemma finite_all_keys [simp]: "finite (all_keys Q)"
proof -
  have "{(dfa_to t, n) | t n. t \<in> set (concat (from_to_connections (automaton Q)))} =
      dfa_to ` set (concat (from_to_connections (automaton Q))) \<times> (UNIV :: object_id set)" by auto
  then show ?thesis by (simp add: all_keys_def)
qed

lemma transitions_from_all: "t \<in> set (transitions_from Q q) \<Longrightarrow> (dfa_to t, n) \<in> all_keys Q"
  using slot_subset [of "from_to_connections (automaton Q)" q] by (fastforce simp: transitions_from_def all_keys_def)

lemma card_unvisited:
  assumes "x \<in> all_keys Q" "x \<notin> K"
  shows "Suc (card (all_keys Q - insert x K)) = card (all_keys Q - K)"
proof -
  have "all_keys Q - insert x K = (all_keys Q - K) - {x}" by blast
  then show ?thesis using assms card.remove [of "all_keys Q - K" x] by simp
qed

lemma bfs_visit_potential:
  assumes "t \<in> set (transitions_from Q q)" and "bfs_visit mf Q p t x B = (B', r)"
  shows "bfs_potential Q B' \<le> bfs_potential Q B" "r \<noteq> None \<Longrightarrow> bfs_potential Q B' < bfs_potential Q B"
    "cur B' = cur B" "idx_searches B' = idx_searches B" "first_next B' = first_next B"
    "\<exists>new. open_queue B' = open_queue B @ new"
proof -
  let ?s = "SearchState (dfa_to t) (fst x) (Some p) (dfa_inverse t) (type_id t)"
  have k: "key_of_state ?s \<in> all_keys Q" using transitions_from_all [OF assms(1)] by (simp add: key_of_state_def)
  have "(bfs_potential Q B' \<le> bfs_potential Q B \<and> (r \<noteq> None \<longrightarrow> bfs_potential Q B' < bfs_potential Q B)) \<and>
    cur B' = cur B \<and> idx_searches B' = idx_searches B \<and> first_next B' = first_next B \<and>
    (\<exists>new. open_queue B' = open_queue B @ new)"
  proof (cases "key_of_state ?s \<in> key_of_state ` set (visited B)")
    case True
    then show ?thesis using assms(2) by (simp add: bfs_visit_def visited_insert_def Let_def)
  next
    case False
    then show ?thesis using assms(2) card_unvisited [OF k False]
      by (auto simp: bfs_visit_def visited_insert_def Let_def bfs_potential_def split: if_splits)
  qed
  then show "bfs_potential Q B' \<le> bfs_potential Q B" "r \<noteq> None \<Longrightarrow> bfs_potential Q B' < bfs_potential Q B"
    "cur B' = cur B" "idx_searches B' = idx_searches B" "first_next B' = first_next B"
    "\<exists>new. open_queue B' = open_queue B @ new" by blast+
qed

lemma bfs_expand_potential:
  assumes "bfs_expand_neighbors mf Q p B = (B', r)"
  shows "bfs_potential Q B' \<le> bfs_potential Q B \<and> first_next B' = first_next B \<and>
    (\<exists>new. open_queue B' = open_queue B @ new)"
proof -
  obtain c k B1 where E: "expand_cursor (provider Q) (transitions_from Q (automaton_state p)) (node_id p) True
      (bfs_visit mf Q p) (cur B) (idx_searches B) B = (c, k, B1, r)" "B' = B1\<lparr>cur := c, idx_searches := k\<rparr>"
    using assms by (auto simp: bfs_expand_neighbors_def split: prod.splits)
  let ?P = "\<lambda>C. bfs_potential Q C \<le> bfs_potential Q B \<and> first_next C = first_next B \<and>
      (\<exists>new. open_queue C = open_queue B @ new)"
  have "?P B1"
  proof (rule expand_cursor_inv [of _ ?P, OF _ _ E(1)])
    fix t x C assume t: "t \<in> set (transitions_from Q (automaton_state p))" and C: "?P C"
    obtain C' r' where v: "bfs_visit mf Q p t x C = (C', r')" by fastforce
    from bfs_visit_potential [OF t v] C show "?P (fst (bfs_visit mf Q p t x C))" by (auto simp: v)
  qed simp
  then show ?thesis by (simp add: E(2) bfs_potential_def)
qed

text \<open>The \<open>while (open.size() > 0)\<close> loop of \<open>next\<close>.\<close>

function bfs_loop :: "bool \<Rightarrow> path_query \<Rightarrow> bfs_enum \<Rightarrow> bfs_enum \<times> search_state option" where
  "bfs_loop multiple_final Q B =
     (case open_queue B of
        [] \<Rightarrow> (B, None)
      | current_state # _ \<Rightarrow>
          (case bfs_expand_neighbors multiple_final Q current_state B of
             (B', Some reached) \<Rightarrow> (B'\<lparr>results_found := Suc (results_found B')\<rparr>, Some reached)
           | (B', None) \<Rightarrow> bfs_loop multiple_final Q (B'\<lparr>open_queue := tl (open_queue B')\<rparr>)))"
  by pat_completeness auto
termination
proof (relation "measure (\<lambda>(mf, Q, B). bfs_potential Q B)", goal_cases)
  case (2 mf Q B p ps B' r)
  then have "bfs_expand_neighbors mf Q p B = (B', None)" by simp
  from bfs_expand_potential [OF this] 2 show ?case by (auto simp: bfs_potential_def)
qed simp

declare bfs_loop.simps [simp del]

definition bfs_next :: "bool \<Rightarrow> path_query \<Rightarrow> bfs_enum \<Rightarrow> bfs_enum \<times> search_state option" where
  "bfs_next multiple_final Q B =
     (if first_next B then
        (let B1 = B\<lparr>first_next := False\<rparr>; current_state = hd (open_queue B1) in
         if \<not> node_exists Q (node_id current_state) then (B1\<lparr>open_queue := tl (open_queue B1)\<rparr>, None)
         else if is_final Q (start_state (automaton Q)) then
           (let reached_state = SearchState (start_state (automaton Q)) (node_id current_state) None True null_object_id;
                B2 = (if multiple_final
                      then B1\<lparr>reached_final := node_id current_state # reached_final B1\<rparr> else B1);
                V = fst (visited_insert reached_state (visited B2))
            in (B2\<lparr>visited := V, results_found := Suc (results_found B2)\<rparr>,
                visited_find (key_of_state reached_state) V))
         else bfs_loop multiple_final Q B1)
      else bfs_loop multiple_final Q B)"

end
