(* ===== verification/AnyShortestCorrect.thy ===== *)
theory AnyShortestCorrect
  imports AnyShortest
begin

text \<open>
  \<open>BFSEnum\<close> enumerates, for every node with an accepted walk, exactly one path, and it is a
  shortest one. The object's invariant is \<open>bfs_ok\<close> with the queue as a suffix of the visited
  states and the cursor standing for the arrows of the front still to be looked at.
\<close>

section \<open>All results of an object\<close>

lemma bfs_loop_potential:
  "bfs_loop mf Q B = (B', Some s) \<Longrightarrow> bfs_potential Q B' < bfs_potential Q B \<and> first_next B' = first_next B"
proof (induction mf Q B rule: bfs_loop.induct)
  case (1 mf Q B)
  show ?case
  proof (cases "open_queue B")
    case Nil
    then show ?thesis using 1(2) by (simp add: bfs_loop.simps [of _ _ B])
  next
    case (Cons p ps)
    obtain B1 r where E: "bfs_expand_neighbors mf Q p B = (B1, r)" by fastforce
    note P = bfs_expand_potential [OF E]
    show ?thesis
    proof (cases r)
      case None
      let ?B = "B1\<lparr>open_queue := tl (open_queue B1)\<rparr>"
      have "bfs_loop mf Q ?B = (B', Some s)"
        using 1(2) E Cons None by (simp add: bfs_loop.simps [of _ _ B])
      from 1(1) [OF Cons E [symmetric] None this] P show ?thesis
        by (auto simp: bfs_potential_def)
    next
      case (Some x)
      have B': "B' = B1\<lparr>results_found := Suc (results_found B1)\<rparr>"
        using 1(2) E Cons Some by (simp add: bfs_loop.simps [of _ _ B])
      obtain c k B2 where X: "expand_cursor (provider Q) (transitions_from Q (automaton_state p)) (node_id p) True
          (bfs_visit mf Q p) (cur B) (idx_searches B) B = (c, k, B2, Some x)" "B1 = B2\<lparr>cur := c, idx_searches := k\<rparr>"
        using E Some by (auto simp: bfs_expand_neighbors_def split: prod.splits)
      let ?P = "\<lambda>C. bfs_potential Q C \<le> bfs_potential Q B"
      have "\<exists>t \<in> set (transitions_from Q (automaton_state p)). \<exists>e C. ?P C \<and> bfs_visit mf Q p t e C = (B2, Some x)"
      proof (rule expand_cursor_result [of _ ?P, OF _ _ X(1)])
        fix t e C assume t: "t \<in> set (transitions_from Q (automaton_state p))" and C: "?P C"
        obtain C' r' where v: "bfs_visit mf Q p t e C = (C', r')" by fastforce
        from bfs_visit_potential(1) [OF t v] C show "?P (fst (bfs_visit mf Q p t e C))" by (simp add: v)
      qed simp
      then obtain t e C where "t \<in> set (transitions_from Q (automaton_state p))" "?P C"
        "bfs_visit mf Q p t e C = (B2, Some x)" by blast
      with bfs_visit_potential(2) have "bfs_potential Q B2 < bfs_potential Q B" by fastforce
      then show ?thesis using B' X(2) P by (simp add: bfs_potential_def)
    qed
  qed
qed

lemma bfs_next_measure:
  assumes "bfs_next mf Q B = (B', Some s)"
  shows "bfs_potential Q B' + (if first_next B' then 1 else 0) < bfs_potential Q B + (if first_next B then 1 else 0)"
proof (cases "first_next B")
  case False
  then show ?thesis using assms bfs_loop_potential [of mf Q B B' s] by (simp add: bfs_next_def)
next
  case True
  let ?B = "B\<lparr>first_next := False\<rparr>" and ?p = "hd (open_queue B)"
  have ex: "node_exists Q (node_id ?p)" using assms True by (auto simp: bfs_next_def Let_def split: if_splits)
  show ?thesis
  proof (cases "is_final Q (start_state (automaton Q))")
    case False
    then have "bfs_loop mf Q ?B = (B', Some s)" using assms True ex by (simp add: bfs_next_def Let_def)
    from bfs_loop_potential [OF this] True show ?thesis by (simp add: bfs_potential_def)
  next
    case fin: True
    have K: "finite (all_keys Q - X)" for X by simp
    have "first_next B' = False" "open_queue B' = open_queue B" "set (visited B) \<subseteq> set (visited B')"
      using assms True ex fin
      by (cases mf; auto simp: bfs_next_def Let_def visited_insert_def split: if_splits)+
    moreover from this have "card (all_keys Q - key_of_state ` set (visited B')) \<le> card (all_keys Q - key_of_state ` set (visited B))"
      by (intro card_mono K) auto
    ultimately have "bfs_potential Q B' \<le> bfs_potential Q B" "first_next B' = False"
      by (simp_all add: bfs_potential_def)
    with True show ?thesis by simp
  qed
qed

text \<open>Calling \<open>next\<close> until it returns false.\<close>

function bfs_results :: "bool \<Rightarrow> path_query \<Rightarrow> bfs_enum \<Rightarrow> search_state list" where
  "bfs_results multiple_final Q B =
     (case bfs_next multiple_final Q B of
        (B', None) \<Rightarrow> []
      | (B', Some s) \<Rightarrow> s # bfs_results multiple_final Q B')"
  by pat_completeness auto
termination
  by (relation "measure (\<lambda>(mf, Q, B). bfs_potential Q B + (if first_next B then 1 else 0))")
    (use bfs_next_measure [OF sym] in auto)

declare bfs_results.simps [simp del]

section \<open>The invariant of the object\<close>

definition state_space :: "path_query \<Rightarrow> nat set" where
  "state_space Q = insert (start_state (automaton Q))
     (dfa_to ` set (concat (from_to_connections (automaton Q))))"

text \<open>\<open>BFSEnum<false>\<close> is for automata with a single final state.\<close>

definition final_mode_ok :: "bool \<Rightarrow> path_query \<Rightarrow> bool" where
  "final_mode_ok mf Q \<longleftrightarrow> mf \<or>
     (\<forall>q \<in> state_space Q. \<forall>q' \<in> state_space Q. is_final Q q \<and> is_final Q q' \<longrightarrow> q = q')"

lemma linked_state_space: "linked Q s \<Longrightarrow> automaton_state s \<in> state_space Q"
proof (cases s)
  case (SearchState q n p d t)
  assume l: "linked Q s"
  show ?thesis
  proof (cases p)
    case None
    then show ?thesis using l SearchState by (simp add: state_space_def start_key_def)
  next
    case (Some p')
    then obtain e where "e \<in> set (transitions_from Q (automaton_state p'))" "q = dfa_to e"
      using l SearchState by auto
    then show ?thesis using SearchState slot_subset [of "from_to_connections (automaton Q)" "automaton_state p'"]
      by (auto simp: state_space_def transitions_from_def)
  qed
qed

definition core_inv :: "bool \<Rightarrow> path_query \<Rightarrow> nat \<Rightarrow> arrow set \<Rightarrow> bfs_enum \<Rightarrow> bool" where
  "core_inv mf Q k seen B \<longleftrightarrow> bfs_ok Q (visited B) k seen \<and> open_queue B = drop k (visited B) \<and>
     (mf \<longrightarrow> set (reached_final B) = final_nodes Q (visited B))"

lemma bfs_visit_inv:
  assumes mode: "final_mode_ok mf Q" and inv: "core_inv mf Q k seen B" and k: "k < length (visited B)"
    and a: "(t, x) \<in> set (arrows_from Q (key_of_state (visited B ! k)))"
    and run: "bfs_visit mf Q (visited B ! k) t x B = (B', r)"
  shows "core_inv mf Q k (insert (t, x) seen) B' \<and> visited B' ! k = visited B ! k \<and> k < length (visited B') \<and>
    first_finals Q {} (visited B') = first_finals Q {} (visited B) @ (case r of None \<Rightarrow> [] | Some s \<Rightarrow> [s])"
proof -
  let ?p = "visited B ! k" and ?a = "(t, x)"
  have s: "SearchState (dfa_to t) (fst x) (Some ?p) (dfa_inverse t) (type_id t) = arrow_state ?p ?a"
    by (simp add: arrow_state_def)
  have V: "bfs_ok Q (visited B) k seen" "open_queue B = drop k (visited B)"
    "mf \<Longrightarrow> set (reached_final B) = final_nodes Q (visited B)"
    using inv by (simp_all add: core_inv_def)
  show ?thesis
  proof (cases "arrow_key ?a \<in> key_of_state ` set (visited B)")
    case True
    then have "B' = B" "r = None" using run by (auto simp: bfs_visit_def s visited_insert_def Let_def)
    then show ?thesis using bfs_ok_old [OF V(1) k True] V k by (simp add: core_inv_def)
  next
    case new: False
    let ?s = "arrow_state ?p ?a"
    let ?B = "B\<lparr>visited := visited B @ [?s], open_queue := open_queue B @ [?s]\<rparr>"
    let ?fin = "is_final Q (automaton_state ?s)"
    note W = bfs_ok_new [OF V(1) k new a]
    have single: "node_id ?s \<notin> final_nodes Q (visited B)" if "\<not> mf" ?fin
    proof
      assume "node_id ?s \<in> final_nodes Q (visited B)"
      then obtain s' where s': "s' \<in> set (visited B)" "is_final Q (automaton_state s')" "node_id s' = node_id ?s"
        by (auto simp: final_nodes_def)
      have "linked Q s'" "linked Q ?s" using W s'(1) by (simp_all add: bfs_ok_def)
      then have "automaton_state s' = automaton_state ?s"
        using mode that s'(2) linked_state_space unfolding final_mode_ok_def by blast
      then have "key_of_state s' = arrow_key ?a" using s'(3) by (simp add: key_of_state_def arrow_key_def)
      then show False using new s'(1) by (metis imageI)
    qed
    have vis: "visited B' = visited B @ [?s]" "open_queue B' = open_queue B @ [?s]"
      "reached_final B' = (if ?fin \<and> mf \<and> node_id ?s \<notin> set (reached_final B)
         then node_id ?s # reached_final B else reached_final B)"
      "r = (if ?fin \<and> (mf \<longrightarrow> node_id ?s \<notin> set (reached_final B)) then Some ?s else None)"
      using run new by (auto simp: bfs_visit_def s visited_insert_def Let_def split: if_splits)
    have "mf \<longrightarrow> set (reached_final B') = final_nodes Q (visited B')"
      using V(3) vis(1,3) by auto
    moreover have "first_finals Q {} (visited B') =
        first_finals Q {} (visited B) @ (case r of None \<Rightarrow> [] | Some s \<Rightarrow> [s])"
      using V(3) single vis(1,4) by (cases mf) (auto simp: first_finals_snoc)
    ultimately show ?thesis using W V(2) vis(1,2) k by (simp add: core_inv_def nth_append)
  qed
qed

lemma bfs_visit_scan:
  assumes mode: "final_mode_ok mf Q" and "core_inv mf Q k seen B" "k < length (visited B)" "visited B ! k = p"
    and "set xs \<subseteq> set (arrows_from Q (key_of_state p))"
    and "scan (step_of (bfs_visit mf Q p)) B xs = (B', rest, r)"
  shows "\<exists>zs. xs = zs @ rest \<and> core_inv mf Q k (seen \<union> set zs) B' \<and> visited B' ! k = p \<and> k < length (visited B') \<and>
    first_finals Q {} (visited B') = first_finals Q {} (visited B) @ (case r of None \<Rightarrow> [] | Some s \<Rightarrow> [s])"
  using assms(2-)
proof (induction xs arbitrary: B seen)
  case Nil
  then show ?case by (intro exI [of _ "[]"]) auto
next
  case (Cons a xs)
  obtain B1 r1 where v: "bfs_visit mf Q p (fst a) (snd a) B = (B1, r1)" by fastforce
  then have sv: "step_of (bfs_visit mf Q p) B a = (B1, r1)" by (simp add: step_of_def)
  have a: "(fst a, snd a) \<in> set (arrows_from Q (key_of_state (visited B ! k)))" using Cons.prems by simp
  have V: "core_inv mf Q k (insert a seen) B1 \<and> visited B1 ! k = p \<and> k < length (visited B1) \<and>
    first_finals Q {} (visited B1) = first_finals Q {} (visited B) @ (case r1 of None \<Rightarrow> [] | Some s \<Rightarrow> [s])"
    using bfs_visit_inv [OF mode Cons.prems(1,2) a, of B1 r1] v Cons.prems(3) by simp
  show ?case
  proof (cases r1)
    case None
    then have "scan (step_of (bfs_visit mf Q p)) B1 xs = (B', rest, r)"
      using Cons.prems(5) sv by simp
    then obtain zs where "xs = zs @ rest" "core_inv mf Q k (insert a seen \<union> set zs) B'" "visited B' ! k = p"
      "k < length (visited B')"
      "first_finals Q {} (visited B') = first_finals Q {} (visited B1) @ (case r of None \<Rightarrow> [] | Some s \<Rightarrow> [s])"
      using Cons.IH [of "insert a seen" B1] V Cons.prems(4) by auto
    then show ?thesis using V None by (intro exI [of _ "a # zs"]) simp
  next
    case (Some s)
    then have "B' = B1" "rest = xs" "r = Some s" using Cons.prems(5) sv by simp_all
    then show ?thesis using V Some by (intro exI [of _ "[a]"]) simp
  qed
qed

text \<open>Between two calls: what the cursor still has to look at is the unseen rest of the front's arrows.\<close>

definition enum_inv :: "bool \<Rightarrow> path_query \<Rightarrow> bfs_enum \<Rightarrow> bool" where
  "enum_inv mf Q B \<longleftrightarrow> (\<exists>k seen. core_inv mf Q k seen B \<and> iter_ok (iter (cur B)) \<and>
     (k = length (visited B) \<longrightarrow> at_end (iter (cur B))) \<and>
     (k < length (visited B) \<longrightarrow>
        (let p = visited B ! k; ts = transitions_from Q (automaton_state p) in
         cursor_ok ts (cur B) \<and>
         set (upcoming (provider Q) ts (node_id p) (cur B)) \<subseteq> set (arrows_from Q (key_of_state p)) \<and>
         set (arrows_from Q (key_of_state p)) \<subseteq>
           seen \<union> set (upcoming (provider Q) ts (node_id p) (cur B)))))"

lemma core_inv_cong:
  "visited B' = visited B \<Longrightarrow> open_queue B' = open_queue B \<Longrightarrow> reached_final B' = reached_final B \<Longrightarrow>
   core_inv mf Q k seen B' = core_inv mf Q k seen B"
  by (simp add: core_inv_def)

lemma bfs_expand_inv:
  assumes prov: "provider_ok (provider Q)" and mode: "final_mode_ok mf Q" and inv: "enum_inv mf Q B"
    and q: "open_queue B = p # ps" and run: "bfs_expand_neighbors mf Q p B = (B', r)"
  shows "first_finals Q {} (visited B') = first_finals Q {} (visited B) @ (case r of None \<Rightarrow> [] | Some s \<Rightarrow> [s])"
    "r \<noteq> None \<Longrightarrow> enum_inv mf Q B'"
    "r = None \<Longrightarrow> enum_inv mf Q (B'\<lparr>open_queue := tl (open_queue B')\<rparr>)"
proof -
  let ?ts = "transitions_from Q (automaton_state p)"
  obtain k seen where K: "core_inv mf Q k seen B" "iter_ok (iter (cur B))"
    "k < length (visited B) \<Longrightarrow>
        (let p = visited B ! k; ts = transitions_from Q (automaton_state p) in
         cursor_ok ts (cur B) \<and>
         set (upcoming (provider Q) ts (node_id p) (cur B)) \<subseteq> set (arrows_from Q (key_of_state p)) \<and>
         set (arrows_from Q (key_of_state p)) \<subseteq>
           seen \<union> set (upcoming (provider Q) ts (node_id p) (cur B)))"
    using inv unfolding enum_inv_def by blast
  have "drop k (visited B) = p # ps" using K(1) q by (simp add: core_inv_def)
  then have k: "k < length (visited B)" "visited B ! k = p"
    by (metis drop_all leI list.distinct(1), metis hd_drop_conv_nth drop_all leI list.distinct(1) list.sel(1))
  let ?up = "upcoming (provider Q) ?ts (node_id p) (cur B)"
  have up: "cursor_ok ?ts (cur B)" "set ?up \<subseteq> set (arrows_from Q (key_of_state p))"
    "set (arrows_from Q (key_of_state p)) \<subseteq> seen \<union> set ?up"
    using K(3) [OF k(1)] by (simp_all add: k(2) Let_def)
  obtain c i B1 where X: "expand_cursor (provider Q) ?ts (node_id p) True
      (bfs_visit mf Q p) (cur B) (idx_searches B) B = (c, i, B1, r)" "B' = B1\<lparr>cur := c, idx_searches := i\<rparr>"
    using run by (auto simp: bfs_expand_neighbors_def split: prod.splits)
  obtain rest where S: "scan (step_of (bfs_visit mf Q p)) B ?up = (B1, rest, r)" "cursor_ok ?ts c"
    "case r of None \<Rightarrow> at_end (iter c) \<and> rest = []
     | Some x \<Rightarrow> \<not> at_end (iter c) \<and> rest = upcoming (provider Q) ?ts (node_id p) c"
    using expand_cursor_scan [OF prov up(1) _ X(1)] by blast
  obtain zs where Z: "?up = zs @ rest" "core_inv mf Q k (seen \<union> set zs) B1" "visited B1 ! k = p" "k < length (visited B1)"
    "first_finals Q {} (visited B1) = first_finals Q {} (visited B) @ (case r of None \<Rightarrow> [] | Some s \<Rightarrow> [s])"
    using bfs_visit_scan [OF mode K(1) k up(2) S(1)] by blast
  then show "first_finals Q {} (visited B') = first_finals Q {} (visited B) @ (case r of None \<Rightarrow> [] | Some s \<Rightarrow> [s])"
    by (simp add: X(2))
  show "enum_inv mf Q B'" if "r \<noteq> None"
  proof -
    have c: "rest = upcoming (provider Q) ?ts (node_id p) c" using S(3) that by auto
    have "core_inv mf Q k (seen \<union> set zs) B'" using Z(2) core_inv_cong [of B' B1] by (simp add: X(2))
    moreover have "iter_ok (iter (cur B'))" using S(2) by (simp add: X(2) cursor_ok_def)
    moreover have "set (upcoming (provider Q) ?ts (node_id p) (cur B')) = set rest" by (simp add: X(2) c)
    moreover have "set rest \<subseteq> set (arrows_from Q (key_of_state p))"
      "set (arrows_from Q (key_of_state p)) \<subseteq> (seen \<union> set zs) \<union> set rest" using up(2,3) Z(1) by auto
    ultimately show ?thesis
      unfolding enum_inv_def by (intro exI [of _ k] exI [of _ "seen \<union> set zs"]) (use S(2) Z(3,4) in \<open>simp add: X(2) Let_def\<close>)
  qed
  show "enum_inv mf Q (B'\<lparr>open_queue := tl (open_queue B')\<rparr>)" if "r = None"
  proof -
    let ?C = "B'\<lparr>open_queue := tl (open_queue B')\<rparr>"
    have e: "at_end (iter c)" "rest = []" using S(3) that by auto
    have ok: "bfs_ok Q (visited B1) k (seen \<union> set zs)" using Z(2) by (simp add: core_inv_def)
    have all: "set (arrows_from Q (key_of_state (visited B1 ! k))) \<subseteq> seen \<union> set zs"
      using up(3) Z(1,3) e(2) by auto
    have "bfs_ok Q (visited ?C) (Suc k) {}" using bfs_ok_pop [OF ok Z(4) all] by (simp add: X(2))
    moreover have "open_queue ?C = drop (Suc k) (visited ?C)"
      using Z(2) by (simp add: X(2) core_inv_def drop_Suc tl_drop)
    ultimately have "core_inv mf Q (Suc k) {} ?C" using Z(2) by (simp add: core_inv_def X(2))
    moreover have "iter_ok (iter (cur ?C))" "at_end (iter (cur ?C))" using S(2) e(1) by (simp_all add: X(2) cursor_ok_def)
    ultimately show ?thesis
      unfolding enum_inv_def
      by (intro exI [of _ "Suc k"] exI [of _ "{}"]) (simp add: Let_def cursor_ok_def upcoming_def arrows_from_def key_of_state_def)
  qed
qed

lemma enum_inv_cong:
  "visited B' = visited B \<Longrightarrow> open_queue B' = open_queue B \<Longrightarrow> reached_final B' = reached_final B \<Longrightarrow> cur B' = cur B \<Longrightarrow>
   enum_inv mf Q B' = enum_inv mf Q B"
  by (simp add: enum_inv_def core_inv_def)

lemma bfs_loop_inv:
  assumes "provider_ok (provider Q)" "final_mode_ok mf Q" "enum_inv mf Q B" "bfs_loop mf Q B = (B', r)"
  shows "enum_inv mf Q B' \<and> first_next B' = first_next B \<and>
    first_finals Q {} (visited B') = first_finals Q {} (visited B) @ (case r of None \<Rightarrow> [] | Some s \<Rightarrow> [s]) \<and>
    (r = None \<longrightarrow> open_queue B' = [])"
  using assms
proof (induction mf Q B rule: bfs_loop.induct)
  case (1 mf Q B)
  show ?case
  proof (cases "open_queue B")
    case Nil
    then show ?thesis using 1 by (simp add: bfs_loop.simps [of _ _ B])
  next
    case (Cons p ps)
    obtain B1 r1 where E: "bfs_expand_neighbors mf Q p B = (B1, r1)" by fastforce
    note X = bfs_expand_inv [OF 1(2-4) Cons E]
    have f: "first_next B1 = first_next B" using bfs_expand_potential [OF E] by simp
    show ?thesis
    proof (cases r1)
      case None
      let ?B = "B1\<lparr>open_queue := tl (open_queue B1)\<rparr>"
      have "bfs_loop mf Q ?B = (B', r)" using 1(5) E Cons None by (simp add: bfs_loop.simps [of _ _ B])
      from 1(1) [OF Cons E [symmetric] None 1(2,3) X(3) [OF None] this] show ?thesis using X(1) None f by simp
    next
      case (Some s)
      have B': "B' = B1\<lparr>results_found := Suc (results_found B1)\<rparr>" "r = Some s"
        using 1(5) E Cons Some by (simp_all add: bfs_loop.simps [of _ _ B])
      have "enum_inv mf Q B'" using X(2) Some enum_inv_cong [of B' B1] B'(1) by simp
      then show ?thesis using X(1) Some f B' by simp
    qed
  qed
qed

lemma bfs_results_loop:
  assumes "provider_ok (provider Q)" "final_mode_ok mf Q" "enum_inv mf Q B" "\<not> first_next B"
  shows "\<exists>V. bfs_ok Q V (length V) {} \<and> first_finals Q {} (visited B) @ bfs_results mf Q B = first_finals Q {} V"
  using assms
proof (induction mf Q B rule: bfs_results.induct)
  case (1 mf Q B)
  obtain B' r where L: "bfs_loop mf Q B = (B', r)" by fastforce
  have n: "bfs_next mf Q B = (B', r)" using 1(5) L by (simp add: bfs_next_def)
  note I = bfs_loop_inv [OF 1(2-4) L]
  show ?case
  proof (cases r)
    case None
    then have "open_queue B' = []" using I by simp
    then obtain k seen where K: "bfs_ok Q (visited B') k seen" "length (visited B') \<le> k"
      using I unfolding enum_inv_def core_inv_def by force
    then have "bfs_ok Q (visited B') (length (visited B')) {}" by (auto simp: bfs_ok_def)
    moreover have "bfs_results mf Q B = []" using n None by (simp add: bfs_results.simps [of _ _ B])
    ultimately show ?thesis using I None by (intro exI [of _ "visited B'"]) simp
  next
    case (Some s)
    have "bfs_results mf Q B = s # bfs_results mf Q B'" using n Some by (simp add: bfs_results.simps [of _ _ B])
    moreover have "\<not> first_next B'" using I 1(5) by simp
    ultimately show ?thesis using 1(1) [OF n [symmetric] Some 1(2,3)] I Some by simp
  qed
qed

section \<open>The whole enumeration\<close>

text \<open>After \<open>begin\<close> on a fresh object, or after \<open>reset\<close> on any object.\<close>

definition ready :: "bool \<Rightarrow> path_query \<Rightarrow> bfs_enum \<Rightarrow> bool" where
  "ready mf Q B \<longleftrightarrow> visited B = [start_state_of Q] \<and> open_queue B = [start_state_of Q] \<and> first_next B \<and>
     (mf \<longrightarrow> reached_final B = []) \<and> iter (cur B) = NullIndexIterator"

lemma ready_begin: "ready mf Q (bfs_begin Q bfs_new)"
  by (simp add: ready_def bfs_begin_def bfs_new_def visited_insert_def visited_find_def null_cursor_def)

lemma ready_reset: "ready mf Q (bfs_reset mf Q B)"
  by (simp add: ready_def bfs_reset_def visited_insert_def visited_find_def Let_def)

lemma ready_enum_inv:
  assumes "ready mf Q B" and "visited C = visited B" "open_queue C = open_queue B" "cur C = cur B"
    and "mf \<longrightarrow> set (reached_final C) = final_nodes Q (visited B)"
  shows "enum_inv mf Q C"
  unfolding enum_inv_def
  by (intro exI [of _ 0] exI [of _ "{}"])
    (use assms in \<open>auto simp: ready_def core_inv_def bfs_ok_start cursor_ok_def upcoming_def arrows_from_def key_of_state_def Let_def\<close>)

lemma bfs_results_spec:
  assumes "provider_ok (provider Q)" "final_mode_ok mf Q" and B: "ready mf Q B"
  shows "if node_exists Q (start_object_id Q)
    then \<exists>V. bfs_ok Q V (length V) {} \<and> bfs_results mf Q B = first_finals Q {} V
    else bfs_results mf Q B = []"
proof -
  let ?B = "B\<lparr>first_next := False\<rparr>" and ?s = "start_state_of Q"
  have hd: "hd (open_queue B) = ?s" "first_next B" using B by (simp_all add: ready_def)
  have sn: "node_id ?s = start_object_id Q" "automaton_state ?s = start_state (automaton Q)"
    by (simp_all add: start_state_of_def)
  show ?thesis
  proof (cases "node_exists Q (start_object_id Q)")
    case False
    then show ?thesis using hd sn by (simp add: bfs_results.simps [of _ _ B] bfs_next_def Let_def)
  next
    case ex: True
    show ?thesis
    proof (cases "is_final Q (start_state (automaton Q))")
      case fin: True
      let ?C = "(if mf then ?B\<lparr>reached_final := start_object_id Q # reached_final ?B\<rparr> else ?B)
        \<lparr>results_found := Suc (results_found B)\<rparr>"
      have key: "SearchState (start_state (automaton Q)) (start_object_id Q) None True null_object_id = ?s"
        by (simp add: start_state_of_def)
      have vis: "visited B = [?s]" using B by (simp add: ready_def)
      have n: "bfs_next mf Q B = (?C, Some ?s)"
        using hd sn ex fin vis by (cases mf) (simp_all add: bfs_next_def Let_def key visited_insert_def visited_find_def)
      have "enum_inv mf Q ?C"
        by (rule ready_enum_inv [OF B]) (use B vis fin sn in \<open>auto simp: ready_def\<close>)
      moreover have "first_next ?C = False" "visited ?C = [?s]" using vis by simp_all
      moreover have "first_finals Q {} [?s] = [?s]" using fin sn by simp
      ultimately obtain V where "bfs_ok Q V (length V) {}" "?s # bfs_results mf Q ?C = first_finals Q {} V"
        using bfs_results_loop [OF assms(1,2), of ?C] by auto
      then show ?thesis using ex n by (auto simp: bfs_results.simps [of _ _ B])
    next
      case nf: False
      have "bfs_next mf Q B = bfs_next mf Q ?B"
        using hd sn ex nf by (simp add: bfs_next_def Let_def)
      then have "bfs_results mf Q B = bfs_results mf Q ?B"
        by (simp only: bfs_results.simps [of mf Q B] bfs_results.simps [of mf Q ?B])
      moreover have "enum_inv mf Q ?B"
        by (rule ready_enum_inv [OF B]) (use B nf sn in \<open>auto simp: ready_def\<close>)
      moreover have "first_finals Q {} (visited ?B) = []" using B nf sn by (simp add: ready_def)
      ultimately show ?thesis using bfs_results_loop [OF assms(1,2), of ?B] ex by simp
    qed
  qed
qed

section \<open>Against the graph\<close>

text \<open>A well-formed automaton, as \<open>transform_automaton\<close> builds it.\<close>

definition dfa_ok :: "rpq_dfa \<Rightarrow> bool" where
  "dfa_ok D \<longleftrightarrow> start_state D < dfa_total_states D \<and> length (is_final_state D) = dfa_total_states D \<and>
     (\<forall>t \<in> set (concat (from_to_connections D)). dfa_to t < dfa_total_states D) \<and>
     total_final_states D = length (filter id (is_final_state D))"

lemma dfa_ok_state_space: "dfa_ok (automaton Q) \<Longrightarrow> q \<in> state_space Q \<Longrightarrow> q < dfa_total_states (automaton Q)"
  by (auto simp: dfa_ok_def state_space_def)

text \<open>The planner's choice of the template argument.\<close>

lemma final_mode_ok_planner:
  assumes "dfa_ok (automaton Q)"
  shows "final_mode_ok (total_final_states (automaton Q) > 1) Q"
proof -
  let ?F = "is_final_state (automaton Q)"
  have "q = q'" if "length (filter id ?F) \<le> 1" "q < length ?F" "q' < length ?F" "?F ! q" "?F ! q'" for q q'
  proof -
    have "card {i. i < length ?F \<and> id (?F ! i)} \<le> 1" using that(1) by (simp only: length_filter_conv_card)
    moreover have "q \<in> {i. i < length ?F \<and> id (?F ! i)}" "q' \<in> {i. i < length ?F \<and> id (?F ! i)}" using that by auto
    ultimately show ?thesis by (metis (no_types, lifting) One_nat_def card_le_Suc0_iff_eq finite_nat_set_iff_bounded mem_Collect_eq)
  qed
  then show ?thesis
    using dfa_ok_state_space [OF assms] assms unfolding final_mode_ok_def is_final_def dfa_ok_def by auto
qed

lemma dfa_run_states:
  "dfa_ok D \<Longrightarrow> dfa_run D p w q \<Longrightarrow> p < dfa_total_states D \<Longrightarrow> q < dfa_total_states D"
proof (induction D p w q rule: dfa_run.induct)
  case (2 D p c d w q)
  then obtain t where t: "t \<in> set (slot (from_to_connections D) p)" "dfa_run D (dfa_to t) w q" by auto
  moreover have "dfa_to t < dfa_total_states D"
    using 2(2) t(1) slot_subset [of "from_to_connections D" p] by (auto simp: dfa_ok_def)
  ultimately show ?case using 2 by blast
qed simp

lemma dfa_lang_run:
  "dfa_ok (automaton Q) \<Longrightarrow> w \<in> dfa_lang (automaton Q) \<longleftrightarrow>
     (\<exists>q. dfa_run (automaton Q) (start_state (automaton Q)) w q \<and> is_final Q q)"
proof -
  assume D: "dfa_ok (automaton Q)"
  then have s: "start_state (automaton Q) < dfa_total_states (automaton Q)"
    and l: "length (is_final_state (automaton Q)) = dfa_total_states (automaton Q)" by (simp_all add: dfa_ok_def)
  have "q < dfa_total_states (automaton Q)" if "dfa_run (automaton Q) (start_state (automaton Q)) w q" for q
    using dfa_run_states [OF D that s] .
  then show ?thesis unfolding dfa_lang_def is_final_def using l by auto
qed

definition answers :: "quad set \<Rightarrow> path_query \<Rightarrow> object_id set" where
  "answers E Q = {m. \<exists>w \<in> dfa_lang (automaton Q). graph_walk E (start_object_id Q) w m}"

text \<open>A result: the path of the state is an accepted trace of the graph that ends in its node.\<close>

definition valid_result :: "quad set \<Rightarrow> path_query \<Rightarrow> search_state \<Rightarrow> bool" where
  "valid_result E Q s \<longleftrightarrow> trace E (start_object_id Q) (path_steps s) (node_id s) \<and>
     map step_label (path_steps s) \<in> dfa_lang (automaton Q) \<and>
     get_path s = PathNode (start_object_id Q) #
       concat (map (\<lambda>(n, t, d). [PathEdge t d, PathNode n]) (path_steps s))"

context graph_provider begin

lemma linked_valid:
  assumes "provider Q = prov" "dfa_ok (automaton Q)" "linked Q s" "is_final Q (automaton_state s)"
  shows "valid_result E Q s"
  using linked_path [OF assms(1,3)] get_path_steps [OF assms(3)] assms(4)
  by (auto simp: valid_result_def dfa_lang_run [OF assms(2)])

lemma reach_answers:
  assumes "provider Q = prov" "dfa_ok (automaton Q)"
  shows "(\<exists>q. is_final Q q \<and> (start_key Q, (q, n)) \<in> (product_step Q)\<^sup>*) \<longleftrightarrow> n \<in> answers E Q"
proof -
  have "(\<exists>q. is_final Q q \<and> (start_key Q, (q, n)) \<in> (product_step Q)\<^sup>*) \<longleftrightarrow>
      (\<exists>q k. is_final Q q \<and> (start_key Q, (q, n)) \<in> product_step Q ^^ k)" by (auto simp: rtrancl_power)
  also have "\<dots> \<longleftrightarrow> n \<in> answers E Q"
    unfolding start_key_def product_walk_iff [OF assms(1)] answers_def Bex_def mem_Collect_eq
      dfa_lang_run [OF assms(2)] by blast
  finally show ?thesis .
qed

lemma any_shortest_enum:
  assumes Q: "provider Q = prov" "dfa_ok (automaton Q)" and mf: "mf = (total_final_states (automaton Q) > 1)"
    and ready: "ready mf Q B" and ex: "node_exists Q (start_object_id Q)"
  shows "distinct (map node_id (bfs_results mf Q B)) \<and>
    node_id ` set (bfs_results mf Q B) = answers E Q \<and>
    (\<forall>s \<in> set (bfs_results mf Q B). valid_result E Q s \<and>
       (\<forall>w \<in> dfa_lang (automaton Q). graph_walk E (start_object_id Q) w (node_id s) \<longrightarrow> length (path_steps s) \<le> length w))"
proof -
  have p: "provider_ok (provider Q)" using prov_ok Q(1) by simp
  obtain V where V: "bfs_ok Q V (length V) {}" "bfs_results mf Q B = first_finals Q {} V"
    using bfs_results_spec [OF p final_mode_ok_planner [OF Q(2)] ready [unfolded mf]] ex mf by auto
  have d: "distinct (map node_id (bfs_results mf Q B))" using first_finals_distinct V(2) by simp
  have n: "node_id ` set (bfs_results mf Q B) = answers E Q"
    using reach_answers [OF Q] final_nodes_iff [OF V(1)] by (auto simp: V(2) first_finals_nodes)
  have "valid_result E Q s \<and>
       (\<forall>w \<in> dfa_lang (automaton Q). graph_walk E (start_object_id Q) w (node_id s) \<longrightarrow> length (path_steps s) \<le> length w)"
    if s: "s \<in> set (bfs_results mf Q B)" for s
  proof (intro conjI ballI impI)
    have s': "s \<in> set V" "is_final Q (automaton_state s)"
      using s first_finals_subset [of Q "{}" V] unfolding V(2) by auto
    then have "linked Q s" using V(1) by (simp add: bfs_ok_def)
    then show "valid_result E Q s" using linked_valid [OF Q] s'(2) by blast
    fix w assume w: "w \<in> dfa_lang (automaton Q)" "graph_walk E (start_object_id Q) w (node_id s)"
    then obtain q where q: "is_final Q q" "dfa_run (automaton Q) (start_state (automaton Q)) w q"
      by (auto simp: dfa_lang_run [OF Q(2)])
    then have "(start_key Q, (q, node_id s)) \<in> product_step Q ^^ length w"
      unfolding start_key_def product_walk_iff [OF Q(1)] using w(2) by blast
    from first_finals_distance [OF V(1) _ this q(1)] s V(2) show "length (path_steps s) \<le> length w" by simp
  qed
  with d n show ?thesis by blast
qed

lemma any_shortest_enum_missing:
  assumes "provider Q = prov" "dfa_ok (automaton Q)" and "mf = (total_final_states (automaton Q) > 1)"
    and "ready mf Q B" and "\<not> node_exists Q (start_object_id Q)"
  shows "bfs_results mf Q B = []"
  using bfs_results_spec [of Q mf B] prov_ok final_mode_ok_planner [of Q] assms by simp

end

end
