(* ===== verification/RpqCompile.thy ===== *)
theory RpqCompile
  imports RpqDfaLang PlainPath AnyShortestCorrect
begin

text \<open>From the path expression of a query to the automaton of the search:
  \<open>IPath::get_rpq_automaton\<close> (paths/path.h), that is \<open>get_rpq_base_automaton\<close> followed by
  \<open>RPQ_NFA::transform_automaton\<close>.  The outer result is the exception of the construction, the
  inner one \<open>None\<close> when a loop of the transformation does not end.\<close>

definition get_rpq_automaton :: "(string \<Rightarrow> object_id) \<Rightarrow> 'c path \<Rightarrow> path_error + rpq_dfa option" where
  "get_rpq_automaton f p =
     (case get_rpq_base_automaton p of Inl e \<Rightarrow> Inl e | Inr A \<Rightarrow> Inr (transform_automaton f A))"

section \<open>The automaton is well formed\<close>

lemma link_target: "(t, s) \<in> set gs \<Longrightarrow> snd ` set gs \<subseteq> dom m \<Longrightarrow> dfa_to (link f m q (t, s)) \<in> ran m"
  by (force simp: link_def ran_def dom_def)

lemma dfa_of_ok:
  assumes D: "dfa_of f A m D" "ran m = {..<dfa_total_states D}"
    "total_final_states D = length (filter id (is_final_state D))"
  shows "dfa_ok D"
  unfolding dfa_ok_def
proof (intro conjI ballI)
  show "start_state D < dfa_total_states D" "length (is_final_state D) = dfa_total_states D"
    using D(1) by (simp_all add: dfa_of_def)
  show "total_final_states D = length (filter id (is_final_state D))" by (rule D(3))
  fix t assume "t \<in> set (concat (from_to_connections D))"
  then obtain q where q: "q < length (from_to_connections D)" "t \<in> set (from_to_connections D ! q)"
    by (metis UN_iff in_set_conv_nth set_concat)
  then have "q \<in> ran m" using D by (simp add: dfa_of_def)
  then obtain s where s: "m s = Some q" by (auto simp: ran_def)
  with D(1) have g: "slot (from_to_connections D) q = map (link f m q) (groups_of A s)" "snd ` set (groups_of A s) \<subseteq> dom m"
    by (simp_all add: dfa_of_def)
  then have "t \<in> link f m q ` set (groups_of A s)" using q by (simp add: slot_def)
  then obtain x where "x \<in> set (groups_of A s)" "t = link f m q x" by auto
  then have "dfa_to t \<in> ran m" using link_target [of "fst x" "snd x"] g(2) by (metis prod.collapse)
  then show "dfa_to t < dfa_total_states D" using D(2) by simp
qed

section \<open>The language of the automaton\<close>

lemma get_rpq_automaton_cases:
  assumes "wf_path p"
  obtains A B D where "get_rpq_base_automaton p = Inr A" "base_spec p A" "nfa_ok A" "merge_step\<^sup>*\<^sup>* A B"
    "get_rpq_automaton f p = Inr (Some D)" "dfa_ok D" "dfa_lang D = map (read_label f) ` nfa_lang B"
    "inj_on f (path_types p) \<Longrightarrow> deterministic D"
proof -
  obtain A where A: "get_rpq_base_automaton p = Inr A" "base_spec p A"
    using get_rpq_base_automaton_spec [OF assms] by blast
  then have ok: "nfa_ok A" by (simp add: base_spec_def base_ok_nfa_ok)
  obtain B D m where B: "merge_step\<^sup>*\<^sup>* A B" "transform_automaton f A = Some D"
    "dfa_of f (delete_unreachable_states (delete_epsilon_transitions B)) m D"
    "ran m = {..<dfa_total_states D}" "dfa_lang D = map (read_label f) ` nfa_lang B"
    "inj_on f (nfa_types A) \<Longrightarrow> deterministic D" "total_final_states D = length (filter id (is_final_state D))"
    by (rule transform_automaton_spec [OF ok, of f]) blast
  show ?thesis
    using A ok B dfa_of_ok [OF B(3,4,7)] inj_on_subset [OF _ nfa_types_base [OF assms A(1)], of f]
    by (intro that) (simp_all add: get_rpq_automaton_def)
qed

lemma get_rpq_automaton_complete:
  assumes "wf_path p"
  shows "\<exists>D. get_rpq_automaton f p = Inr (Some D) \<and> dfa_ok D \<and> map (read_label f) ` path_lang p \<subseteq> dfa_lang D"
proof (rule get_rpq_automaton_cases [OF assms, of f], goal_cases)
  case (1 A B D)
  then have "path_lang p \<subseteq> nfa_lang B" using merge_steps_lang_mono [of A B] by (auto simp: base_spec_def)
  with 1 show ?thesis by blast
qed

lemma get_rpq_automaton_exact:
  assumes "plain p"
  shows "\<exists>D. get_rpq_automaton f p = Inr (Some D) \<and> dfa_ok D \<and> dfa_lang D = map (read_label f) ` path_lang p \<and>
    (inj_on f (path_types p) \<longrightarrow> deterministic D)"
proof (rule get_rpq_automaton_cases [OF conjunct1 [OF plain_props [OF assms]], of f], goal_cases)
  case (1 A B D)
  have "nfa_lang A = path_lang p" using 1(2) plain_props [OF assms] by (simp add: base_spec_def)
  moreover have "nfa_lang B = nfa_lang A"
    using merge_steps_exact [OF 1(4,3) plain_merge_inv [OF assms 1(1)]] by simp
  ultimately show ?thesis using 1 by auto
qed

lemma get_rpq_automaton_returns: "wf_path p \<Longrightarrow> \<exists>D. get_rpq_automaton f p = Inr (Some D) \<and> dfa_ok D"
  using get_rpq_automaton_complete by blast

end
