(* ===== verification/Tries.thy ===== *)
theory Tries
  imports IndexIter
begin

text \<open>
  The in-memory indexes of \<open>index_provider/trie\<close>: \<open>Trie\<close> and \<open>EdgeTrie\<close> (a sorted prefix level
  searched with \<open>lower_bound\<close>, offsets into the data level) and \<open>HashTrie\<close> (a hash map from a
  prefix to its range). They are filled once, in the order of the B+tree, and then only queried.
  Offsets are 32-bit words; a query returns the pair of data-level positions the code returns as
  pointers. Proved: a query of a filled index is the range of exactly the records of its prefix.
\<close>

section \<open>Trie and EdgeTrie\<close>

definition object_id_not_found :: object_id where
  "object_id_not_found = -1"

record 'd trie =
  prefix_lvl :: "object_id list"
  data_lvl :: "'d list"
  offsets :: "32 word list"
  data_count :: "32 word"
  last_offset :: "32 word"
  last_prefix :: object_id

definition new_trie :: "'d trie" where
  "new_trie = \<lparr>prefix_lvl = [], data_lvl = [], offsets = [], data_count = 0, last_offset = 0,
     last_prefix = object_id_not_found\<rparr>"

definition trie_insert :: "object_id \<Rightarrow> 'd \<Rightarrow> 'd trie \<Rightarrow> 'd trie" where
  "trie_insert prefix data T =
     (let T1 = (if prefix \<noteq> last_prefix T
                then T\<lparr>last_prefix := prefix, prefix_lvl := prefix_lvl T @ [prefix],
                       offsets := offsets T @ [last_offset T + data_count T],
                       last_offset := last_offset T + data_count T, data_count := 0\<rparr>
                else T)
      in T1\<lparr>data_lvl := data_lvl T1 @ [data], data_count := data_count T1 + 1\<rparr>)"

definition trie_end_inserts :: "'d trie \<Rightarrow> 'd trie" where
  "trie_end_inserts T = T\<lparr>offsets := offsets T @ [last_offset T + data_count T]\<rparr>"

lemma data_lvl_end_inserts [simp]: "data_lvl (trie_end_inserts T) = data_lvl T"
  by (simp add: trie_end_inserts_def)

text \<open>\<open>std::lower_bound\<close>: the first position whose element is not smaller.\<close>

definition lower_bound :: "'a::linorder list \<Rightarrow> 'a \<Rightarrow> nat" where
  "lower_bound xs x = length (takeWhile (\<lambda>y. y < x) xs)"

definition trie_query :: "'d trie \<Rightarrow> object_id \<Rightarrow> nat \<times> nat" where
  "trie_query T prefix =
     (let i = lower_bound (prefix_lvl T) prefix;
          found = (i < length (prefix_lvl T) \<and> prefix_lvl T ! i = prefix)
      in if \<not> found then (0, 0) else (unat (offsets T ! i), unat (offsets T ! (i + 1))))"

definition edge_trie_insert ::
  "object_id \<Rightarrow> object_id \<Rightarrow> object_id \<Rightarrow> (object_id \<times> object_id) trie \<Rightarrow> (object_id \<times> object_id) trie" where
  "edge_trie_insert prefix node_data edge_data T = trie_insert prefix (node_data, edge_data) T"

section \<open>HashTrie\<close>

record hash_trie =
  hash_offsets :: "(object_id, 32 word \<times> 32 word) std_map"
  hash_data_count :: "32 word"
  hash_last_offset :: "32 word"
  hash_data_lvl :: "object_id list"
  hash_last_prefix :: object_id

definition new_hash_trie :: hash_trie where
  "new_hash_trie = \<lparr>hash_offsets = [], hash_data_count = 0, hash_last_offset = 0, hash_data_lvl = [],
     hash_last_prefix = object_id_not_found\<rparr>"

text \<open>\<open>insert\<close> of the hash map keeps the entry of a key that is already there.\<close>

definition hash_trie_store :: "hash_trie \<Rightarrow> hash_trie" where
  "hash_trie_store T = T\<lparr>hash_offsets := map_insert (hash_last_prefix T)
     (hash_last_offset T, hash_last_offset T + hash_data_count T) (hash_offsets T)\<rparr>"

definition hash_trie_insert :: "object_id \<Rightarrow> object_id \<Rightarrow> hash_trie \<Rightarrow> hash_trie" where
  "hash_trie_insert prefix data T =
     (let T1 = (if prefix \<noteq> hash_last_prefix T
                then (hash_trie_store T)\<lparr>hash_last_offset := hash_last_offset T + hash_data_count T,
                       hash_data_count := 0, hash_last_prefix := prefix\<rparr>
                else T)
      in T1\<lparr>hash_data_lvl := hash_data_lvl T1 @ [data], hash_data_count := hash_data_count T1 + 1\<rparr>)"

definition hash_trie_end_inserts :: "hash_trie \<Rightarrow> hash_trie" where
  "hash_trie_end_inserts T = hash_trie_store T"

lemma hash_data_lvl_end_inserts [simp]: "hash_data_lvl (hash_trie_end_inserts T) = hash_data_lvl T"
  by (simp add: hash_trie_end_inserts_def hash_trie_store_def)

definition hash_trie_query :: "hash_trie \<Rightarrow> object_id \<Rightarrow> nat \<times> nat" where
  "hash_trie_query T prefix =
     (case map_of (hash_offsets T) prefix of
        None \<Rightarrow> (0, 0)
      | Some r \<Rightarrow> (unat (fst r), unat (snd r)))"

section \<open>Grouped insertions\<close>

text \<open>
  The insertions seen so far as groups of equal prefixes: the closed ones and the one being
  filled. Both structures store the start of a group when it is opened or closed.
\<close>

definition ungroup :: "('p \<times> 'd list) list \<Rightarrow> ('p \<times> 'd) list" where
  "ungroup gs = concat (map (\<lambda>g. map (Pair (fst g)) (snd g)) gs)"

definition group_size :: "('p \<times> 'd list) list \<Rightarrow> nat" where
  "group_size gs = sum_list (map (\<lambda>g. length (snd g)) gs)"

definition good_groups :: "('p::linorder \<times> 'd list) list \<Rightarrow> bool" where
  "good_groups gs \<longleftrightarrow> sorted_wrt (<) (map fst gs) \<and> (\<forall>g \<in> set gs. snd g \<noteq> [])"

lemma ungroup_simps [simp]:
  "ungroup [] = []" "ungroup (g # gs) = map (Pair (fst g)) (snd g) @ ungroup gs"
  "ungroup (gs @ hs) = ungroup gs @ ungroup hs"
  by (simp_all add: ungroup_def)

lemma group_size_simps [simp]:
  "group_size [] = 0" "group_size (g # gs) = length (snd g) + group_size gs"
  "group_size (gs @ hs) = group_size gs + group_size hs"
  by (simp_all add: group_size_def)

lemma map_snd_ungroup: "map snd (ungroup gs) = concat (map snd gs)"
  by (induction gs) (simp_all add: comp_def)

lemma length_ungroup: "length (ungroup gs) = group_size gs"
  by (induction gs) simp_all

lemma length_concat_group: "length (concat (map snd gs)) = group_size gs"
  by (induction gs) simp_all

lemma fst_ungroup: "fst ` set (ungroup gs) \<subseteq> fst ` set gs"
  by (induction gs) auto

lemma good_groups_fst: "good_groups gs \<Longrightarrow> fst ` set (ungroup gs) = fst ` set gs"
  by (induction gs) (auto simp: good_groups_def image_Un image_image image_constant_conv)

lemma good_groups_snoc:
  "good_groups (gs @ [(p, ds)]) \<longleftrightarrow> good_groups gs \<and> ds \<noteq> [] \<and> (\<forall>q \<in> fst ` set gs. q < p)"
  by (auto simp: good_groups_def sorted_wrt_append)

text \<open>A new record joins the last group or opens one; the order of the prefixes is kept.\<close>

lemma good_groups_open:
  assumes "good_groups (gs @ [(q, ds)])" "sorted (map fst (ungroup (gs @ [(q, ds)])) @ [p])" "p \<noteq> q"
  shows "good_groups ((gs @ [(q, ds)]) @ [(p, [d])])"
proof -
  have "\<forall>r \<in> fst ` set (ungroup (gs @ [(q, ds)])). r \<le> p"
    using assms(2) by (auto simp: sorted_append)
  then have "\<forall>r \<in> fst ` set (gs @ [(q, ds)]). r \<le> p"
    unfolding good_groups_fst [OF assms(1)] .
  then have "q \<le> p" by auto
  with assms show ?thesis unfolding good_groups_snoc by force
qed

lemma filter_ungroup_notin: "p \<notin> fst ` set gs \<Longrightarrow> filter (\<lambda>r. fst r = p) (ungroup gs) = []"
  using fst_ungroup [of gs] by (auto simp: filter_empty_conv)

lemma filter_ungroup:
  "good_groups (as @ (p, ds) # bs) \<Longrightarrow>
     map snd (filter (\<lambda>r. fst r = p) (ungroup (as @ (p, ds) # bs))) = ds"
proof -
  assume "good_groups (as @ (p, ds) # bs)"
  then have "\<forall>q \<in> fst ` set as. q < p" "\<forall>q \<in> fst ` set bs. p < q"
    by (auto simp: good_groups_def sorted_wrt_append)
  then have "p \<notin> fst ` set as" "p \<notin> fst ` set bs" by auto
  then show ?thesis by (simp add: filter_ungroup_notin comp_def)
qed

lemma group_range:
  "map (\<lambda>i. concat (map snd (as @ (p, ds) # bs)) ! i) [group_size as..<group_size as + length ds] = ds"
  by (rule nth_equalityI) (auto simp: nth_append length_concat_group)

section \<open>The trie answers with the records of the prefix\<close>

definition group_starts :: "('p \<times> 'd list) list \<Rightarrow> 32 word list" where
  "group_starts gs = map (\<lambda>i. of_nat (group_size (take i gs))) [0..<length gs]"

lemma group_starts_snoc: "group_starts (gs @ [g]) = group_starts gs @ [of_nat (group_size gs)]"
  by (simp add: group_starts_def)

lemma group_starts_nth:
  "i \<le> length gs \<Longrightarrow> (group_starts gs @ [of_nat (group_size gs)]) ! i = of_nat (group_size (take i gs))"
  by (cases "i = length gs") (simp_all add: group_starts_def nth_append)

definition trie_of :: "(object_id \<times> 'd list) list \<Rightarrow> 'd trie \<Rightarrow> bool" where
  "trie_of gs T \<longleftrightarrow>
     (if gs = [] then T = new_trie
      else prefix_lvl T = map fst gs \<and> data_lvl T = concat (map snd gs) \<and> offsets T = group_starts gs \<and>
        last_offset T = of_nat (group_size (butlast gs)) \<and> data_count T = of_nat (length (snd (last gs))) \<and>
        last_prefix T = fst (last gs))"

lemma trie_of_insert:
  assumes T: "trie_of gs T" "good_groups gs" and s: "sorted (map fst (ungroup gs) @ [p])" and p: "p \<noteq> object_id_not_found"
  shows "\<exists>hs. trie_of hs (trie_insert p d T) \<and> good_groups hs \<and> ungroup hs = ungroup gs @ [(p, d)]"
proof (cases gs rule: rev_cases)
  case Nil
  with T p have "trie_of [(p, [d])] (trie_insert p d T)"
    by (simp add: trie_of_def trie_insert_def new_trie_def group_starts_def)
  then show ?thesis using Nil by (intro exI [of _ "[(p, [d])]"]) (simp add: good_groups_def)
next
  case (snoc cs g)
  obtain q ds where g: "g = (q, ds)" by force
  show ?thesis
  proof (cases "p = q")
    case True
    with T snoc g have "trie_of (cs @ [(q, ds @ [d])]) (trie_insert p d T)"
      by (simp add: trie_of_def trie_insert_def group_starts_snoc)
    then show ?thesis using T(2) True snoc g
      by (intro exI [of _ "cs @ [(q, ds @ [d])]"]) (simp add: good_groups_snoc)
  next
    case False
    with T snoc g have "trie_of ((cs @ [(q, ds)]) @ [(p, [d])]) (trie_insert p d T)"
      unfolding trie_of_def group_starts_snoc butlast_snoc last_snoc
      by (simp add: trie_insert_def group_starts_snoc)
    then show ?thesis
      using good_groups_open [of cs q ds p d] T(2) s False snoc g
      by (intro exI [of _ "(cs @ [(q, ds)]) @ [(p, [d])]"]) simp
  qed
qed

lemma trie_of_fold:
  assumes "sorted (map fst rs)" "object_id_not_found \<notin> fst ` set rs"
  shows "\<exists>gs. trie_of gs (fold (\<lambda>r. trie_insert (fst r) (snd r)) rs new_trie) \<and> good_groups gs \<and> ungroup gs = rs"
  using assms
proof (induction rs rule: rev_induct)
  case Nil
  then show ?case by (intro exI [of _ "[]"]) (simp add: trie_of_def good_groups_def)
next
  case (snoc r rs)
  then obtain gs where gs: "trie_of gs (fold (\<lambda>r. trie_insert (fst r) (snd r)) rs new_trie)" "good_groups gs" "ungroup gs = rs"
    by (auto simp: sorted_append)
  have "sorted (map fst (ungroup gs) @ [fst r])" using snoc.prems(1) gs(3) by simp
  from trie_of_insert [OF gs(1,2) this, of "snd r"] snoc.prems(2) gs(3) show ?case by auto
qed

lemma lower_bound_nth:
  assumes "sorted_wrt (<) (xs @ x # ys)" shows "lower_bound (xs @ x # ys) x = length xs"
proof -
  have "takeWhile (\<lambda>y. y < x) (xs @ x # ys) = xs" using assms by (simp add: sorted_wrt_append)
  then show ?thesis by (simp add: lower_bound_def)
qed

lemma group_size_of_nat:
  "group_size gs < 2 ^ 32 \<Longrightarrow> unat (of_nat (group_size gs) :: 32 word) = group_size gs"
  by (simp add: unat_of_nat)

lemma trie_of_end:
  assumes "trie_of gs T" "gs \<noteq> []"
  shows "offsets (trie_end_inserts T) = group_starts gs @ [of_nat (group_size gs)]"
proof (cases gs rule: rev_cases)
  case (snoc cs g)
  with assms show ?thesis
    unfolding trie_of_def snoc butlast_snoc last_snoc by (simp add: trie_end_inserts_def)
qed (use assms in simp)

lemma trie_query_groups:
  assumes T: "trie_of gs T" "good_groups gs" and n: "group_size gs < 2 ^ 32"
  shows "trie_query (trie_end_inserts T) p = (lo, hi) \<Longrightarrow>
    map (\<lambda>i. data_lvl T ! i) [lo..<hi] = map snd (filter (\<lambda>r. fst r = p) (ungroup gs)) \<and> lo \<le> hi \<and> hi \<le> length (data_lvl T)"
proof (cases "p \<in> fst ` set gs")
  case True
  then obtain as ds bs where g: "gs = as @ (p, ds) # bs" by (metis (no_types) imageE prod.collapse split_list)
  have pre: "prefix_lvl T = map fst as @ p # map fst bs" "data_lvl T = concat (map snd gs)" using T g by (simp_all add: trie_of_def)
  have off: "offsets (trie_end_inserts T) = group_starts gs @ [of_nat (group_size gs)]"
    using trie_of_end [OF T(1)] g by simp
  have "offsets (trie_end_inserts T) ! length as = of_nat (group_size as)"
    unfolding off using group_starts_nth [of "length as" gs] g by simp
  moreover have "offsets (trie_end_inserts T) ! (length as + 1) = of_nat (group_size (as @ [(p, ds)]))"
    unfolding off using group_starts_nth [of "length as + 1" gs] g by simp
  moreover have "lower_bound (prefix_lvl T) p = length as"
    using lower_bound_nth [of "map fst as" p "map fst bs"] T(2) g pre by (simp add: good_groups_def)
  moreover have "group_size as < 2 ^ 32" "group_size (as @ [(p, ds)]) < 2 ^ 32" using n g by simp_all
  ultimately have q: "trie_query (trie_end_inserts T) p = (group_size as, group_size as + length ds)"
    using pre group_size_of_nat [of as] group_size_of_nat [of "as @ [(p, ds)]"]
    by (simp add: trie_query_def trie_end_inserts_def Let_def nth_append)
  assume "trie_query (trie_end_inserts T) p = (lo, hi)"
  with q have l: "lo = group_size as" "hi = group_size as + length ds" by simp_all
  show ?thesis
    using group_range [of as p ds bs] filter_ungroup [of as p ds bs] T(2)
    unfolding l pre(2) g by (simp add: length_concat_group)
next
  case False
  then have "p \<notin> set (prefix_lvl T)" using T by (auto simp: trie_of_def new_trie_def split: if_splits)
  then have "\<not> (lower_bound (prefix_lvl T) p < length (prefix_lvl T) \<and>
      prefix_lvl T ! lower_bound (prefix_lvl T) p = p)" by (metis nth_mem)
  then have "trie_query (trie_end_inserts T) p = (0, 0)"
    by (simp add: trie_query_def trie_end_inserts_def Let_def)
  moreover assume "trie_query (trie_end_inserts T) p = (lo, hi)"
  ultimately show ?thesis using filter_ungroup_notin [OF False] by simp
qed

section \<open>The hash trie too\<close>

text \<open>The entries of the closed groups, and the empty range of the invalid prefix that the first
  insertion stores.\<close>

fun group_ranges :: "nat \<Rightarrow> ('p \<times> 'd list) list \<Rightarrow> ('p \<rightharpoonup> nat \<times> nat)" where
  "group_ranges n [] = Map.empty"
| "group_ranges n (g # gs) = (group_ranges (n + length (snd g)) gs)(fst g \<mapsto> (n, n + length (snd g)))"

lemma group_ranges_snoc:
  "p \<notin> fst ` set gs \<Longrightarrow> group_ranges n (gs @ [(p, ds)]) =
     (group_ranges n gs)(p \<mapsto> (n + group_size gs, n + group_size gs + length ds))"
  by (induction n gs rule: group_ranges.induct) (auto simp: fun_upd_twist add.assoc)

lemma group_ranges_at:
  "good_groups (as @ (p, ds) # bs) \<Longrightarrow>
     group_ranges n (as @ (p, ds) # bs) p = Some (n + group_size as, n + group_size as + length ds)"
  by (induction n as rule: group_ranges.induct) (auto simp: good_groups_def add.assoc)

lemma group_ranges_dom: "dom (group_ranges n gs) = fst ` set gs"
  by (induction n gs rule: group_ranges.induct) (simp_all del: fun_upd_apply)

definition words_of :: "nat \<times> nat \<Rightarrow> 32 word \<times> 32 word" where
  "words_of r = (of_nat (fst r), of_nat (snd r))"

definition hash_ranges :: "(object_id \<times> object_id list) list \<Rightarrow> (object_id \<rightharpoonup> 32 word \<times> 32 word)" where
  "hash_ranges gs p = (case group_ranges 0 gs p of
     Some r \<Rightarrow> Some (words_of r) | None \<Rightarrow> if p = object_id_not_found then Some (0, 0) else None)"

definition hash_trie_of :: "(object_id \<times> object_id list) list \<Rightarrow> hash_trie \<Rightarrow> bool" where
  "hash_trie_of gs T \<longleftrightarrow>
     (if gs = [] then T = new_hash_trie
      else hash_data_lvl T = concat (map snd gs) \<and> ordered_map (hash_offsets T) \<and>
        map_of (hash_offsets T) = hash_ranges (butlast gs) \<and>
        hash_last_offset T = of_nat (group_size (butlast gs)) \<and>
        hash_data_count T = of_nat (length (snd (last gs))) \<and> hash_last_prefix T = fst (last gs))"

lemma hash_ranges_snoc:
  assumes "p \<notin> fst ` set gs" "p \<noteq> object_id_not_found"
  shows "hash_ranges gs p = None"
    "hash_ranges (gs @ [(p, ds)]) = (hash_ranges gs)(p \<mapsto> (of_nat (group_size gs), of_nat (group_size gs) + of_nat (length ds)))"
proof -
  show "hash_ranges gs p = None"
    using assms group_ranges_dom [of 0 gs] by (auto simp: hash_ranges_def split: option.split)
  show "hash_ranges (gs @ [(p, ds)]) = (hash_ranges gs)(p \<mapsto> (of_nat (group_size gs), of_nat (group_size gs) + of_nat (length ds)))"
    using assms by (simp add: fun_eq_iff hash_ranges_def group_ranges_snoc words_of_def)
qed

lemma hash_trie_store_of:
  assumes "hash_trie_of (gs @ [(q, ds)]) T" "good_groups (gs @ [(q, ds)])" "q \<noteq> object_id_not_found"
  shows "map_of (hash_offsets (hash_trie_store T)) = hash_ranges (gs @ [(q, ds)])"
    "ordered_map (hash_offsets (hash_trie_store T))"
proof -
  have q: "q \<notin> fst ` set gs" using assms(2) by (auto simp: good_groups_snoc)
  have T: "ordered_map (hash_offsets T)" "map_of (hash_offsets T) = hash_ranges gs" "hash_last_prefix T = q"
    "hash_last_offset T = of_nat (group_size gs)" "hash_data_count T = of_nat (length ds)"
    using assms(1) by (simp_all add: hash_trie_of_def)
  then show "ordered_map (hash_offsets (hash_trie_store T))" by (simp add: hash_trie_store_def)
  show "map_of (hash_offsets (hash_trie_store T)) = hash_ranges (gs @ [(q, ds)])"
    using T hash_ranges_snoc [OF q assms(3)] by (simp add: hash_trie_store_def)
qed

lemma hash_trie_of_insert:
  assumes T: "hash_trie_of gs T" "good_groups gs" and s: "sorted (map fst (ungroup gs) @ [p])"
    and p: "p \<noteq> object_id_not_found" "object_id_not_found \<notin> fst ` set gs"
  shows "\<exists>hs. hash_trie_of hs (hash_trie_insert p d T) \<and> good_groups hs \<and> ungroup hs = ungroup gs @ [(p, d)]"
proof (cases gs rule: rev_cases)
  case Nil
  with T p have "hash_trie_of [(p, [d])] (hash_trie_insert p d T)"
    by (simp add: hash_trie_of_def hash_trie_insert_def new_hash_trie_def hash_trie_store_def hash_ranges_def fun_eq_iff)
  then show ?thesis using Nil by (intro exI [of _ "[(p, [d])]"]) (simp add: good_groups_def)
next
  case (snoc cs g)
  obtain q ds where g: "g = (q, ds)" by force
  show ?thesis
  proof (cases "p = q")
    case True
    with T snoc g have "hash_trie_of (cs @ [(q, ds @ [d])]) (hash_trie_insert p d T)"
      by (simp add: hash_trie_of_def hash_trie_insert_def)
    then show ?thesis using T(2) True snoc g
      by (intro exI [of _ "cs @ [(q, ds @ [d])]"]) (simp add: good_groups_snoc)
  next
    case False
    have st: "map_of (hash_offsets (hash_trie_store T)) = hash_ranges (cs @ [(q, ds)])"
      "ordered_map (hash_offsets (hash_trie_store T))"
      using hash_trie_store_of [of cs q ds T] T p(2) snoc g by auto
    with T snoc g False have "hash_trie_of ((cs @ [(q, ds)]) @ [(p, [d])]) (hash_trie_insert p d T)"
      unfolding hash_trie_of_def butlast_snoc last_snoc
      by (simp add: hash_trie_insert_def hash_trie_store_def)
    then show ?thesis
      using good_groups_open [of cs q ds p d] T(2) s False snoc g
      by (intro exI [of _ "(cs @ [(q, ds)]) @ [(p, [d])]"]) simp
  qed
qed

lemma hash_trie_of_fold:
  assumes "sorted (map fst rs)" "object_id_not_found \<notin> fst ` set rs"
  shows "\<exists>gs. hash_trie_of gs (fold (\<lambda>r. hash_trie_insert (fst r) (snd r)) rs new_hash_trie) \<and> good_groups gs \<and> ungroup gs = rs"
  using assms
proof (induction rs rule: rev_induct)
  case Nil
  then show ?case by (intro exI [of _ "[]"]) (simp add: hash_trie_of_def good_groups_def)
next
  case (snoc r rs)
  then obtain gs where gs: "hash_trie_of gs (fold (\<lambda>r. hash_trie_insert (fst r) (snd r)) rs new_hash_trie)"
    "good_groups gs" "ungroup gs = rs" by (auto simp: sorted_append)
  have "sorted (map fst (ungroup gs) @ [fst r])" using snoc.prems(1) gs(3) by simp
  from hash_trie_of_insert [OF gs(1,2) this, of "snd r"] snoc.prems(2) gs(3) good_groups_fst [OF gs(2)]
  show ?case by auto
qed

lemma hash_trie_query_groups:
  assumes T: "hash_trie_of gs T" "good_groups gs" and n: "group_size gs < 2 ^ 32"
    and p: "object_id_not_found \<notin> fst ` set gs"
  shows "hash_trie_query (hash_trie_end_inserts T) p = (lo, hi) \<Longrightarrow>
    map (\<lambda>i. hash_data_lvl T ! i) [lo..<hi] = map snd (filter (\<lambda>r. fst r = p) (ungroup gs)) \<and>
    lo \<le> hi \<and> hi \<le> length (hash_data_lvl T)"
proof -
  assume q: "hash_trie_query (hash_trie_end_inserts T) p = (lo, hi)"
  have m: "map_of (hash_offsets (hash_trie_store T)) = hash_ranges gs"
  proof (cases gs rule: rev_cases)
    case Nil
    then show ?thesis using T(1)
      by (simp add: hash_trie_of_def hash_trie_store_def new_hash_trie_def hash_ranges_def fun_eq_iff)
  next
    case (snoc cs g)
    then show ?thesis using hash_trie_store_of(1) [of cs "fst g" "snd g" T] T p by auto
  qed
  show ?thesis
  proof (cases "p \<in> fst ` set gs")
    case True
    then obtain as ds bs where g: "gs = as @ (p, ds) # bs" by (metis (no_types) imageE prod.collapse split_list)
    have "hash_ranges gs p = Some (words_of (group_size as, group_size as + length ds))"
      using group_ranges_at [of as p ds bs 0] T(2) g by (simp add: hash_ranges_def)
    then have "lo = unat (of_nat (group_size as) :: 32 word)" "hi = unat (of_nat (group_size (as @ [(p, ds)])) :: 32 word)"
      using q m by (simp_all add: hash_trie_query_def hash_trie_end_inserts_def words_of_def)
    moreover have "group_size as < 2 ^ 32" "group_size (as @ [(p, ds)]) < 2 ^ 32" using n g by simp_all
    ultimately have l: "lo = group_size as" "hi = group_size as + length ds"
      using group_size_of_nat [of as] group_size_of_nat [of "as @ [(p, ds)]"] by simp_all
    have d: "hash_data_lvl T = concat (map snd gs)" using T g by (simp add: hash_trie_of_def)
    show ?thesis
      using group_range [of as p ds bs] filter_ungroup [of as p ds bs] T(2)
      unfolding l d g by (simp add: length_concat_group)
  next
    case False
    then have "group_ranges 0 gs p = None" using group_ranges_dom [of 0 gs] by auto
    then have "lo = 0" "hi = 0"
      using q m by (auto simp: hash_trie_query_def hash_trie_end_inserts_def hash_ranges_def split: if_splits)
    then show ?thesis using filter_ungroup_notin [OF False] by simp
  qed
qed

end
