(* ===== verification/GraphIndex.thy ===== *)
theory GraphIndex
  imports Tries SearchBase "HOL-Library.Product_Lexorder"
begin

text \<open>
  \<open>QuadModelIndexProvider\<close> (path_index.cc) and the index cache of \<open>QuadModel\<close> (quad_model.cc):
  where the neighbours of a search come from. A B+tree is the sorted list of its records, and a
  range query the records between two bounds; the pages of the tree are not part of this model.
  The cache is state: \<open>get_index\<close> builds an index the first time a transition asks for it. Proved:
  whatever index serves a transition, the iterator enumerates the edges of the graph, and filling
  the cache does not change an answer. The statistics file and the interruption flag are left out.
\<close>

section \<open>State\<close>

datatype index_type = BTREE | TRIE | HASH_TRIE | EDGE_TRIE

datatype path_index =
  TrieIndex "object_id trie"
| EdgeTrieIndex "(object_id \<times> object_id) trie"
| HashTrieIndex hash_trie

record quad_store =
  nodes :: "object_id list"
  type_from_to_edge :: "record4 list"
  type_to_from_edge :: "record4 list"
  idx_map :: "object_id \<rightharpoonup> path_index"
  idx_inv_map :: "object_id \<rightharpoonup> path_index"

text \<open>The assignment of index types to the transitions of one query.\<close>

record index_info =
  t_info :: "object_id \<rightharpoonup> index_type"
  t_inv_info :: "object_id \<rightharpoonup> index_type"

section \<open>Range queries\<close>

definition key4 :: "record4 \<Rightarrow> object_id \<times> object_id \<times> object_id \<times> object_id" where
  "key4 r = (ids0 r, ids1 r, ids2 r, ids3 r)"

definition get_range :: "record4 list \<Rightarrow> record4 \<Rightarrow> record4 \<Rightarrow> record4 list" where
  "get_range rs min_ids max_ids = filter (\<lambda>r. key4 min_ids \<le> key4 r \<and> key4 r \<le> key4 max_ids) rs"

definition tree_of :: "quad_store \<Rightarrow> bool \<Rightarrow> record4 list" where
  "tree_of S invers = (if invers then type_to_from_edge S else type_from_to_edge S)"

definition get_btree_iterator :: "quad_store \<Rightarrow> object_id \<Rightarrow> bool \<Rightarrow> object_id \<Rightarrow> index_iterator" where
  "get_btree_iterator S tid invers node =
     BTreeIndexIterator (get_range (tree_of S invers) (Record4 tid node 0 0) (Record4 tid node (-1) (-1))) None False"

definition node_in_store :: "quad_store \<Rightarrow> object_id \<Rightarrow> bool" where
  "node_in_store S node = (filter (\<lambda>n. node \<le> n \<and> n \<le> node) (nodes S) \<noteq> [])"

section \<open>Indexes in memory\<close>

fun index_get_iterator :: "path_index \<Rightarrow> object_id \<Rightarrow> index_iterator" where
  "index_get_iterator (TrieIndex T) node =
     (case trie_query T node of (b, e) \<Rightarrow> TrieIndexIterator (data_lvl T) (int b - 1) (int e))"
| "index_get_iterator (EdgeTrieIndex T) node =
     (case trie_query T node of (b, e) \<Rightarrow> EdgeTrieIndexIterator (data_lvl T) (int b - 1) (int e))"
| "index_get_iterator (HashTrieIndex T) node =
     (case hash_trie_query T node of (b, e) \<Rightarrow> HashTrieIndexIterator (hash_data_lvl T) (int b - 1) (int e))"

fun build_index :: "index_type \<Rightarrow> record4 list \<Rightarrow> path_index" where
  "build_index TRIE rs =
     TrieIndex (trie_end_inserts (fold (\<lambda>r. trie_insert (ids1 r) (ids2 r)) rs new_trie))"
| "build_index EDGE_TRIE rs =
     EdgeTrieIndex (trie_end_inserts (fold (\<lambda>r. edge_trie_insert (ids1 r) (ids2 r) (ids3 r)) rs new_trie))"
| "build_index ty rs =
     HashTrieIndex (hash_trie_end_inserts (fold (\<lambda>r. hash_trie_insert (ids1 r) (ids2 r)) rs new_hash_trie))"

definition materialize_index :: "object_id \<Rightarrow> bool \<Rightarrow> index_type \<Rightarrow> quad_store \<Rightarrow> quad_store \<times> path_index" where
  "materialize_index tid invers ty S =
     (let idx = build_index ty (get_range (tree_of S invers) (Record4 tid 0 0 0) (Record4 tid (-1) (-1) (-1)))
      in if invers then (S\<lparr>idx_inv_map := (idx_inv_map S)(tid \<mapsto> idx)\<rparr>, idx)
         else (S\<lparr>idx_map := (idx_map S)(tid \<mapsto> idx)\<rparr>, idx))"

definition get_index :: "object_id \<Rightarrow> bool \<Rightarrow> index_type \<Rightarrow> quad_store \<Rightarrow> quad_store \<times> path_index" where
  "get_index tid invers ty S =
     (case (if invers then idx_inv_map S tid else idx_map S tid) of
        None \<Rightarrow> materialize_index tid invers ty S
      | Some idx \<Rightarrow> (S, idx))"

text \<open>\<open>None\<close>: \<open>assigned_index\<close> is \<open>end()\<close> and dereferencing it is undefined.\<close>

definition provider_get_iterator ::
  "index_info \<Rightarrow> object_id \<Rightarrow> bool \<Rightarrow> object_id \<Rightarrow> quad_store \<Rightarrow> (quad_store \<times> index_iterator) option" where
  "provider_get_iterator I tid invers node S =
     (case (if invers then t_inv_info I tid else t_info I tid) of
        None \<Rightarrow> None
      | Some BTREE \<Rightarrow> Some (S, get_btree_iterator S tid invers node)
      | Some ty \<Rightarrow>
          (case get_index tid invers ty S of (S', idx) \<Rightarrow> Some (S', index_get_iterator idx node)))"

section \<open>The stored graph\<close>

text \<open>
  The edges (from, type, to, edge). \<open>store_ok\<close>: the two trees are sorted and hold the same edges,
  no object has the reserved identifier, and the edges of a tree can be counted in 32 bits.
\<close>

definition quads :: "quad_store \<Rightarrow> quad set" where
  "quads S = (\<lambda>r. (ids1 r, ids0 r, ids2 r, ids3 r)) ` set (type_from_to_edge S)"

definition store_ok :: "quad_store \<Rightarrow> bool" where
  "store_ok S \<longleftrightarrow> sorted_wrt (<) (map key4 (type_from_to_edge S)) \<and> sorted_wrt (<) (map key4 (type_to_from_edge S)) \<and>
     quads S = (\<lambda>r. (ids2 r, ids0 r, ids1 r, ids3 r)) ` set (type_to_from_edge S) \<and>
     (\<forall>r \<in> set (type_from_to_edge S) \<union> set (type_to_from_edge S). ids1 r \<noteq> object_id_not_found) \<and>
     length (type_from_to_edge S) < 2 ^ 32 \<and> length (type_to_from_edge S) < 2 ^ 32"

lemma tree_edges:
  assumes "store_ok S"
  shows "Record4 t n m e \<in> set (tree_of S d) \<longleftrightarrow> crosses (quads S) n (t, d) m e"
proof -
  have Q: "quads S = (\<lambda>r. (ids2 r, ids0 r, ids1 r, ids3 r)) ` set (type_to_from_edge S)"
    using assms by (simp add: store_ok_def)
  have "(m, t, n, e) \<in> quads S \<longleftrightarrow> Record4 t n m e \<in> set (type_to_from_edge S)"
    unfolding Q by (force simp: image_iff intro: record4.expand)
  moreover have "(n, t, m, e) \<in> quads S \<longleftrightarrow> Record4 t n m e \<in> set (type_from_to_edge S)"
    unfolding quads_def by (force simp: image_iff intro: record4.expand)
  ultimately show ?thesis by (simp add: tree_of_def crosses_def)
qed

lemma range_type: "get_range rs (Record4 t 0 0 0) (Record4 t (-1) (-1) (-1)) = filter (\<lambda>r. ids0 r = t) rs"
  unfolding get_range_def by (rule filter_cong) (auto simp: key4_def)

lemma range_node:
  "get_range rs (Record4 t n 0 0) (Record4 t n (-1) (-1)) = filter (\<lambda>r. ids0 r = t \<and> ids1 r = n) rs"
  unfolding get_range_def by (rule filter_cong) (auto simp: key4_def)

text \<open>The records of one type are sorted by node: the order in which an index is filled.\<close>

lemma sorted_of_type: "sorted_wrt (<) (map key4 rs) \<Longrightarrow> sorted (map ids1 (filter (\<lambda>r. ids0 r = t) rs))"
  by (induction rs) (auto simp: key4_def less_prod_def)

lemma records_at:
  "set (filter (\<lambda>r. ids0 r = t \<and> ids1 r = n) rs) = {Record4 t n m e | m e. Record4 t n m e \<in> set rs}"
proof -
  have "ids0 r = t \<and> ids1 r = n \<longleftrightarrow> (\<exists>m e. r = Record4 t n m e)" for r by (cases r) auto
  then show ?thesis by auto
qed

section \<open>Every index answers with the edges\<close>

definition entries_of :: "bool \<Rightarrow> record4 list \<Rightarrow> entry list" where
  "entries_of with_edges rs = map (\<lambda>r. (ids2 r, if with_edges then Some (ids3 r) else None)) rs"

fun has_edges :: "index_type \<Rightarrow> bool" where
  "has_edges BTREE = True" | "has_edges EDGE_TRIE = True" | "has_edges TRIE = False" | "has_edges HASH_TRIE = False"

lemma fold_map: "fold f (map g xs) = fold (\<lambda>x. f (g x)) xs"
  by (induction xs) auto

lemma range_map: "map (\<lambda>i. d ! i) I = map h R \<Longrightarrow> map (\<lambda>i. g (d ! i)) I = map (\<lambda>r. g (h r)) R"
  by (drule arg_cong [of _ _ "map g"]) (simp add: comp_def)

lemma build_index_iterator:
  assumes ty: "ty \<noteq> BTREE" and s: "sorted (map ids1 rs)" and nf: "\<forall>r \<in> set rs. ids1 r \<noteq> object_id_not_found"
    and n: "length rs < 2 ^ 32"
  shows "iter_ok (index_get_iterator (build_index ty rs) p) \<and> \<not> at_end (index_get_iterator (build_index ty rs) p) \<and>
    iter_rest (index_get_iterator (build_index ty rs) p) = entries_of (has_edges ty) (filter (\<lambda>r. ids1 r = p) rs)"
proof -
  have pair: "sorted (map fst (map (\<lambda>r. (ids1 r, h r)) rs))" "object_id_not_found \<notin> fst ` set (map (\<lambda>r. (ids1 r, h r)) rs)" for h :: "record4 \<Rightarrow> 'x"
    using s nf by (auto simp: comp_def)
  have filt: "map snd (filter (\<lambda>r. fst r = p) (map (\<lambda>r. (ids1 r, h r)) rs)) = map h (filter (\<lambda>r. ids1 r = p) rs)" for h :: "record4 \<Rightarrow> 'x"
    by (induction rs) auto
  have size: "group_size gs < 2 ^ 32" if "ungroup gs = map (\<lambda>r. (ids1 r, h r)) rs" for gs and h :: "record4 \<Rightarrow> 'x"
    using n length_ungroup [of gs] that by simp
  show ?thesis
  proof (cases ty)
    case TRIE
    let ?T = "fold (\<lambda>r. trie_insert (ids1 r) (ids2 r)) rs new_trie"
    obtain gs where gs: "trie_of gs ?T" "good_groups gs" "ungroup gs = map (\<lambda>r. (ids1 r, ids2 r)) rs"
      using trie_of_fold [OF pair, of ids2] by (auto simp: fold_map)
    obtain lo hi where q: "trie_query (trie_end_inserts ?T) p = (lo, hi)" by force
    note R = trie_query_groups [OF gs(1,2) size [OF gs(3)] q, unfolded gs(3) filt]
    show ?thesis
      using R range_map [OF conjunct1 [OF R], of "\<lambda>x. (x, None)"] by (simp add: TRIE q entries_of_def)
  next
    case EDGE_TRIE
    let ?T = "fold (\<lambda>r. edge_trie_insert (ids1 r) (ids2 r) (ids3 r)) rs new_trie"
    obtain gs where gs: "trie_of gs ?T" "good_groups gs" "ungroup gs = map (\<lambda>r. (ids1 r, (ids2 r, ids3 r))) rs"
      using trie_of_fold [OF pair, of "\<lambda>r. (ids2 r, ids3 r)"] by (auto simp: fold_map edge_trie_insert_def [abs_def])
    obtain lo hi where q: "trie_query (trie_end_inserts ?T) p = (lo, hi)" by force
    note R = trie_query_groups [OF gs(1,2) size [OF gs(3)] q, unfolded gs(3) filt]
    show ?thesis
      using R range_map [OF conjunct1 [OF R], of "\<lambda>x. (fst x, Some (snd x))"] by (simp add: EDGE_TRIE q entries_of_def)
  next
    case HASH_TRIE
    let ?T = "fold (\<lambda>r. hash_trie_insert (ids1 r) (ids2 r)) rs new_hash_trie"
    obtain gs where gs: "hash_trie_of gs ?T" "good_groups gs" "ungroup gs = map (\<lambda>r. (ids1 r, ids2 r)) rs"
      using hash_trie_of_fold [OF pair, of ids2] by (auto simp: fold_map)
    obtain lo hi where q: "hash_trie_query (hash_trie_end_inserts ?T) p = (lo, hi)" by force
    have nf': "object_id_not_found \<notin> fst ` set gs"
      using good_groups_fst [OF gs(2)] nf unfolding gs(3) by force
    note R = hash_trie_query_groups [OF gs(1,2) size [OF gs(3)] nf' q, unfolded gs(3) filt]
    show ?thesis
      using R range_map [OF conjunct1 [OF R], of "\<lambda>x. (x, None)"] by (simp add: HASH_TRIE q entries_of_def)
  qed (use ty in simp)
qed

section \<open>The cache\<close>

definition assigned :: "index_info \<Rightarrow> bool \<Rightarrow> object_id \<Rightarrow> index_type option" where
  "assigned I invers tid = (if invers then t_inv_info I tid else t_info I tid)"

definition cached :: "quad_store \<Rightarrow> bool \<Rightarrow> object_id \<Rightarrow> path_index option" where
  "cached S invers tid = (if invers then idx_inv_map S tid else idx_map S tid)"

definition fresh_index :: "quad_store \<Rightarrow> bool \<Rightarrow> index_type \<Rightarrow> object_id \<Rightarrow> path_index" where
  "fresh_index S invers ty tid =
     build_index ty (get_range (tree_of S invers) (Record4 tid 0 0 0) (Record4 tid (-1) (-1) (-1)))"

text \<open>What is cached for a transition is the index of the type its query asks for. The code does not
  check this: the cache is keyed by the edge type only.\<close>

definition cache_ok :: "index_info \<Rightarrow> quad_store \<Rightarrow> bool" where
  "cache_ok I S \<longleftrightarrow> (\<forall>d t ty idx. assigned I d t = Some ty \<longrightarrow> ty \<noteq> BTREE \<longrightarrow> cached S d t = Some idx \<longrightarrow>
     idx = fresh_index S d ty t)"

text \<open>The iterator without the effect on the cache; an unassigned transition, undefined in the code,
  is given the B+tree here (\<open>get_provider\<close> of the planner assigns every transition).\<close>

definition provider_of :: "index_info \<Rightarrow> quad_store \<Rightarrow> get_iterator" where
  "provider_of I S tid invers node =
     (case provider_get_iterator I tid invers node S of
        Some (S', it) \<Rightarrow> it | None \<Rightarrow> get_btree_iterator S tid invers node)"

definition same_graph :: "quad_store \<Rightarrow> quad_store \<Rightarrow> bool" where
  "same_graph S S' \<longleftrightarrow> nodes S' = nodes S \<and> type_from_to_edge S' = type_from_to_edge S \<and>
     type_to_from_edge S' = type_to_from_edge S"

lemma same_graph_tree: "same_graph S S' \<Longrightarrow> tree_of S' = tree_of S"
  by (simp add: same_graph_def tree_of_def fun_eq_iff)

lemma same_graph_fresh: "same_graph S S' \<Longrightarrow> fresh_index S' = fresh_index S"
  by (simp add: fresh_index_def same_graph_tree fun_eq_iff)

lemma materialize_index_spec:
  assumes "materialize_index t d ty S = (S', idx)"
  shows "same_graph S S'" "idx = fresh_index S d ty t" "cached S' d' t' = (if d' = d \<and> t' = t then Some idx else cached S d' t')"
  using assms by (auto simp: materialize_index_def same_graph_def fresh_index_def cached_def Let_def split: if_splits)

lemma get_index_spec:
  assumes "cache_ok I S" "assigned I d t = Some ty" "ty \<noteq> BTREE" "get_index t d ty S = (S', idx)"
  shows "same_graph S S' \<and> idx = fresh_index S d ty t \<and> cache_ok I S'"
proof (cases "cached S d t")
  case None
  then have m: "materialize_index t d ty S = (S', idx)" using assms(4) by (auto simp: get_index_def cached_def split: if_splits)
  note M = materialize_index_spec [OF m]
  have "cache_ok I S'"
    unfolding cache_ok_def same_graph_fresh [OF M(1)] M(3)
    using assms(1,2) M(2) by (auto simp: cache_ok_def)
  then show ?thesis using M by simp
next
  case (Some i)
  then have "S' = S" "idx = i" using assms(4) by (auto simp: get_index_def cached_def split: if_splits)
  moreover have "i = fresh_index S d ty t" using assms(1-3) Some unfolding cache_ok_def by blast
  ultimately show ?thesis using assms(1) by (simp add: same_graph_def)
qed

lemma assigned_iterator:
  "provider_get_iterator I t d n S = (case assigned I d t of
     None \<Rightarrow> None
   | Some ty \<Rightarrow> if ty = BTREE then Some (S, get_btree_iterator S t d n)
       else (case get_index t d ty S of (S', idx) \<Rightarrow> Some (S', index_get_iterator idx n)))"
  by (auto simp: provider_get_iterator_def assigned_def split: option.split index_type.split)

lemma provider_get_iterator_spec:
  assumes "cache_ok I S" "provider_get_iterator I t d n S = Some (S', it)"
  shows "same_graph S S' \<and> cache_ok I S' \<and> (\<exists>ty. assigned I d t = Some ty \<and>
    it = (if ty = BTREE then get_btree_iterator S t d n else index_get_iterator (fresh_index S d ty t) n))"
proof -
  obtain ty where ty: "assigned I d t = Some ty" using assms(2) by (auto simp: assigned_iterator split: option.splits)
  show ?thesis
  proof (cases "ty = BTREE")
    case True
    with assms ty have "S' = S" "it = get_btree_iterator S t d n" by (auto simp: assigned_iterator)
    with True assms ty show ?thesis by (simp add: same_graph_def)
  next
    case False
    obtain S1 idx where g: "get_index t d ty S = (S1, idx)" by force
    from get_index_spec [OF assms(1) ty False g] assms(2) ty False g show ?thesis
      by (simp add: assigned_iterator)
  qed
qed

lemma provider_of_eq:
  assumes "cache_ok I S"
  shows "provider_of I S t d n = (case assigned I d t of
     None \<Rightarrow> get_btree_iterator S t d n
   | Some ty \<Rightarrow> if ty = BTREE then get_btree_iterator S t d n else index_get_iterator (fresh_index S d ty t) n)"
proof (cases "provider_get_iterator I t d n S")
  case None
  then show ?thesis by (auto simp: provider_of_def assigned_iterator split: option.splits if_splits prod.splits)
next
  case (Some x)
  obtain S' it where x: "x = (S', it)" by force
  with provider_get_iterator_spec [OF assms, of t d n S' it] Some show ?thesis
    by (auto simp: provider_of_def)
qed

text \<open>Only the requested transition can get a new entry in the cache.\<close>

lemma provider_get_iterator_cached:
  assumes "provider_get_iterator I t d n S = Some (S', it)" "\<not> (d' = d \<and> t' = t)"
  shows "cached S' d' t' = cached S d' t'"
proof -
  obtain ty where ty: "assigned I d t = Some ty" using assms(1) by (auto simp: assigned_iterator split: option.splits)
  show ?thesis
  proof (cases "ty = BTREE \<or> cached S d t \<noteq> None")
    case True
    then have "S' = S" using assms(1) ty
      by (auto simp: assigned_iterator get_index_def cached_def split: if_splits prod.splits)
    then show ?thesis by simp
  next
    case False
    then obtain idx where "materialize_index t d ty S = (S', idx)" using assms(1) ty
      by (auto simp: assigned_iterator get_index_def cached_def split: if_splits prod.splits)
    then show ?thesis using materialize_index_spec(3) assms(2) by metis
  qed
qed

text \<open>
  Two assignments agree on a transition when the second leaves it to the B+tree (or does not name it) or
  asks for the index the first one asks for.
\<close>

definition agree_on :: "index_info \<Rightarrow> index_info \<Rightarrow> bool \<Rightarrow> object_id \<Rightarrow> bool" where
  "agree_on I J d t \<longleftrightarrow> assigned J d t \<in> {None, Some BTREE, assigned I d t}"

lemma agree_on_self [simp]: "agree_on I I d t"
  by (simp add: agree_on_def)

lemma cache_ok_later:
  assumes I: "cache_ok I S" "provider_get_iterator I t d n S = Some (S', it)" and J: "cache_ok J S" "agree_on I J d t"
  shows "cache_ok J S'"
  unfolding cache_ok_def
proof (intro allI impI)
  have S': "same_graph S S'" "cache_ok I S'" using provider_get_iterator_spec [OF I] by simp_all
  fix d' t' ty idx
  assume a: "assigned J d' t' = Some ty" "ty \<noteq> BTREE" "cached S' d' t' = Some idx"
  show "idx = fresh_index S' d' ty t'"
  proof (cases "d' = d \<and> t' = t")
    case True
    then have "assigned I d' t' = Some ty" using J(2) a(1,2) by (simp add: agree_on_def)
    then show ?thesis using S'(2) a(2,3) unfolding cache_ok_def by blast
  next
    case False
    then have "cached S d' t' = Some idx" using provider_get_iterator_cached [OF I(2)] a(3) by simp
    then show ?thesis using J(1) a(1,2) unfolding cache_ok_def same_graph_fresh [OF S'(1)] by blast
  qed
qed

text \<open>Asking for one iterator leaves the answers to all later requests as they are.\<close>

lemma provider_of_later:
  assumes S': "same_graph S S'" "cache_ok I S" "cache_ok I S'"
  shows "provider_of I S' = provider_of I S"
proof (intro ext)
  fix t d n
  have "get_btree_iterator S' = get_btree_iterator S"
    by (simp add: fun_eq_iff get_btree_iterator_def same_graph_tree [OF S'(1)])
  then have B: "get_btree_iterator S' t d n = get_btree_iterator S t d n" for t d n by simp
  show "provider_of I S' t d n = provider_of I S t d n"
    by (cases "assigned I d t")
      (simp_all add: provider_of_eq [OF S'(2)] provider_of_eq [OF S'(3)] same_graph_fresh [OF S'(1)] B)
qed

lemma provider_of_stable:
  assumes "cache_ok I S" "provider_get_iterator I t d n S = Some (S', it)"
  shows "provider_of I S' = provider_of I S" "cache_ok I S'" "same_graph S S'"
proof -
  have S': "same_graph S S'" "cache_ok I S'" using provider_get_iterator_spec [OF assms] by simp_all
  then show "cache_ok I S'" "same_graph S S'" by simp_all
  show "provider_of I S' = provider_of I S" by (rule provider_of_later [OF S'(1) assms(1) S'(2)])
qed

section \<open>The provider keeps its promises\<close>

definition edge_flag :: "index_info \<Rightarrow> bool \<Rightarrow> object_id \<Rightarrow> bool" where
  "edge_flag I d t = (case assigned I d t of None \<Rightarrow> True | Some ty \<Rightarrow> has_edges ty)"

lemma provider_of_entries:
  assumes "store_ok S" "cache_ok I S"
  shows "iter_ok (provider_of I S t d n) \<and> \<not> at_end (provider_of I S t d n) \<and> iter_rest (provider_of I S t d n) =
    entries_of (edge_flag I d t) (filter (\<lambda>r. ids0 r = t \<and> ids1 r = n) (tree_of S d))"
proof -
  let ?rs = "filter (\<lambda>r. ids0 r = t) (tree_of S d)"
  have s: "sorted (map ids1 ?rs)" using assms(1) sorted_of_type by (auto simp: store_ok_def tree_of_def)
  have nf: "\<forall>r \<in> set ?rs. ids1 r \<noteq> object_id_not_found" using assms(1) by (auto simp: store_ok_def tree_of_def)
  have "length ?rs \<le> length (tree_of S d)" by simp
  also have "\<dots> < 2 ^ 32" using assms(1) by (simp add: store_ok_def tree_of_def)
  finally have n: "length ?rs < 2 ^ 32" .
  have f: "filter (\<lambda>r. ids1 r = n) ?rs = filter (\<lambda>r. ids0 r = t \<and> ids1 r = n) (tree_of S d)"
    by (simp add: conj_commute)
  have B: "iter_ok (get_btree_iterator S t d n) \<and> \<not> at_end (get_btree_iterator S t d n) \<and> iter_rest (get_btree_iterator S t d n) =
      entries_of True (filter (\<lambda>r. ids0 r = t \<and> ids1 r = n) (tree_of S d))"
    by (simp add: get_btree_iterator_def range_node entries_of_def)
  show ?thesis
  proof (cases "assigned I d t")
    case None
    with B show ?thesis by (simp add: provider_of_eq [OF assms(2)] edge_flag_def)
  next
    case (Some ty)
    with B build_index_iterator [OF _ s nf n, of ty n, unfolded f] show ?thesis
      by (auto simp: provider_of_eq [OF assms(2)] edge_flag_def fresh_index_def range_type)
  qed
qed

lemma provider_of_graph:
  assumes "store_ok S" "cache_ok I S"
  shows "graph_provider (provider_of I S) (quads S)"
proof
  show "provider_ok (provider_of I S)" using provider_of_entries [OF assms] by (simp add: provider_ok_def)
  fix t d n
  have "fst ` set (iter_rest (provider_of I S t d n)) = {m. \<exists>e. Record4 t n m e \<in> set (tree_of S d)}"
    unfolding conjunct2 [OF conjunct2 [OF provider_of_entries [OF assms]]] entries_of_def
    unfolding set_map records_at by force
  then show "fst ` set (iter_rest (provider_of I S t d n)) = {m. \<exists>e. crosses (quads S) n (t, d) m e}"
    unfolding tree_edges [OF assms(1)] .
qed

lemma provider_of_edges:
  assumes "store_ok S" "cache_ok I S" and e: "\<forall>t d. edge_flag I d t"
  shows "edge_provider (provider_of I S) (quads S)"
proof (rule edge_provider.intro [OF provider_of_graph [OF assms(1,2)]], unfold_locales)
  fix t d n
  have r: "iter_rest (provider_of I S t d n) =
      map (\<lambda>r. (ids2 r, Some (ids3 r))) (filter (\<lambda>r. ids0 r = t \<and> ids1 r = n) (tree_of S d))"
    using provider_of_entries [OF assms(1,2), of t d n] e by (simp add: entries_of_def)
  have "set (iter_rest (provider_of I S t d n)) = {(m, Some e) | m e. Record4 t n m e \<in> set (tree_of S d)}"
    unfolding r set_map records_at by force
  then show "set (iter_rest (provider_of I S t d n)) = {(m, Some e) | m e. crosses (quads S) n (t, d) m e}"
    unfolding tree_edges [OF assms(1)] .
  have "distinct (tree_of S d)"
    using assms(1) by (auto simp: store_ok_def tree_of_def strict_sorted_iff distinct_map)
  then show "distinct (iter_rest (provider_of I S t d n))"
    unfolding r by (auto simp: distinct_map inj_on_def intro: record4.expand)
qed

lemma provider_of_counted:
  assumes "store_ok S" "cache_ok I S"
  shows "counted_provider (provider_of I S) (quads S)"
proof (rule counted_provider.intro [OF provider_of_graph [OF assms]], unfold_locales)
  show "finite (quads S)" by (simp add: quads_def)
  fix m t d n
  let ?rs = "filter (\<lambda>r. ids0 r = t \<and> ids1 r = n \<and> ids2 r = m) (tree_of S d)"
  have "distinct (tree_of S d)"
    using assms(1) by (auto simp: store_ok_def tree_of_def strict_sorted_iff distinct_map)
  then have "distinct (map ids3 ?rs)"
    by (auto simp: distinct_map inj_on_def intro: record4.expand)
  from distinct_card [OF this] have "length ?rs = card (ids3 ` set ?rs)" by (simp only: set_map length_map)
  also have "ids3 ` set ?rs = {e. Record4 t n m e \<in> set (tree_of S d)}"
  proof (intro equalityI subsetI)
    fix e assume "e \<in> ids3 ` set ?rs"
    then obtain r where r: "r \<in> set (tree_of S d)" "ids0 r = t" "ids1 r = n" "ids2 r = m" "e = ids3 r" by auto
    have "Record4 (ids0 r) (ids1 r) (ids2 r) (ids3 r) \<in> set (tree_of S d)" using r(1) by simp
    then show "e \<in> {e. Record4 t n m e \<in> set (tree_of S d)}" unfolding r(2-4) r(5) [symmetric] by simp
  next
    fix e assume "e \<in> {e. Record4 t n m e \<in> set (tree_of S d)}"
    then have "Record4 t n m e \<in> set ?rs" by simp
    then show "e \<in> ids3 ` set ?rs" by (rule rev_image_eqI) simp
  qed
  also have "\<dots> = {e. crosses (quads S) n (t, d) m e}" using tree_edges [OF assms(1)] by simp
  finally show "length (filter (\<lambda>x. fst x = m) (iter_rest (provider_of I S t d n))) = card {e. crosses (quads S) n (t, d) m e}"
    using provider_of_entries [OF assms, of t d n]
    by (simp add: entries_of_def filter_map comp_def conj_assoc)
qed

section \<open>Databases\<close>

text \<open>A database with the index assignment of a query: the model the searches are run on.\<close>

definition empty_store :: quad_store where
  "empty_store = \<lparr>nodes = [], type_from_to_edge = [], type_to_from_edge = [], idx_map = Map.empty, idx_inv_map = Map.empty\<rparr>"

typedef graph_db = "{(I, S). store_ok S \<and> cache_ok I S}"
proof
  show "(\<lparr>t_info = Map.empty, t_inv_info = Map.empty\<rparr>, empty_store) \<in> {(I, S). store_ok S \<and> cache_ok I S}"
    by (simp add: store_ok_def cache_ok_def assigned_def empty_store_def quads_def)
qed

typedef edge_db = "{G. \<forall>t d. edge_flag (fst (Rep_graph_db G)) d t}"
proof -
  have "edge_flag \<lparr>t_info = Map.empty, t_inv_info = Map.empty\<rparr> d t" for d t
    by (simp add: edge_flag_def assigned_def)
  moreover have "(\<lparr>t_info = Map.empty, t_inv_info = Map.empty\<rparr>, empty_store) \<in> {(I, S). store_ok S \<and> cache_ok I S}"
    by (simp add: store_ok_def cache_ok_def assigned_def empty_store_def quads_def)
  ultimately show ?thesis
    by (intro exI [of _ "Abs_graph_db (\<lparr>t_info = Map.empty, t_inv_info = Map.empty\<rparr>, empty_store)"])
      (simp add: Abs_graph_db_inverse)
qed

definition db_provider :: "graph_db \<Rightarrow> get_iterator" where
  "db_provider G = (case Rep_graph_db G of (I, S) \<Rightarrow> provider_of I S)"

definition db_quads :: "graph_db \<Rightarrow> quad set" where
  "db_quads G = quads (snd (Rep_graph_db G))"

interpretation db: graph_provider "db_provider G" "db_quads G" for G
  using Rep_graph_db [of G] by (auto simp: db_provider_def db_quads_def intro: provider_of_graph)

interpretation cdb: counted_provider "db_provider G" "db_quads G" for G
  using Rep_graph_db [of G] by (auto simp: db_provider_def db_quads_def intro: provider_of_counted)

interpretation edb: edge_provider "db_provider (Rep_edge_db G)" "db_quads (Rep_edge_db G)" for G
proof -
  obtain I S where IS: "Rep_graph_db (Rep_edge_db G) = (I, S)" by force
  then have "store_ok S" "cache_ok I S" "\<forall>t d. edge_flag I d t"
    using Rep_graph_db [of "Rep_edge_db G"] Rep_edge_db [of G] by auto
  then show "edge_provider (db_provider (Rep_edge_db G)) (db_quads (Rep_edge_db G))"
    using IS by (simp add: db_provider_def db_quads_def provider_of_edges)
qed

end
