(* ===== verification/PathPlan.thy ===== *)
theory PathPlan
  imports RpqCompile GraphIndex
begin

text \<open>
  \<open>PathPlan\<close> (query_optimizer/quad_model/plan/basic/path_plan.cc): from a path of the query to the iterator
  that finds its paths. A plan knows which ends of the path are bound, chooses the index of every
  edge type of the automaton (\<open>get_provider\<close>) and the iterator of the path semantics
  (\<open>get_binding_id_iter\<close>), and searches the inverted path when only the right end is bound. Costs and
  printing are left out, the prepared iterator is a value instead of an object.
\<close>

section \<open>The settings of the database\<close>

datatype path_mode = BFS | DFS

datatype index_mode = NAIVE | CACHE

record quad_settings =
  path_mode :: path_mode
  index_mode :: index_mode
  default_index_type :: index_type
  default_trails_index_type :: index_type
  use_default_index :: bool

text \<open>The constructor of \<open>QuadModel\<close>: the command line flags.\<close>

definition quad_settings_of :: "string \<Rightarrow> string \<Rightarrow> string \<Rightarrow> quad_settings" where
  "quad_settings_of s_path_mode s_index_mode s_index_type =
     \<lparr>path_mode = (if s_path_mode = ''bfs'' then BFS else if s_path_mode = ''dfs'' then DFS else BFS),
      index_mode = (if s_index_mode = ''cache'' then CACHE else if s_index_mode = ''naive'' then NAIVE else CACHE),
      default_index_type = (if s_index_type = ''trie'' then TRIE else BTREE),
      default_trails_index_type = (if s_index_type = ''trie'' then EDGE_TRIE else BTREE),
      use_default_index = True\<rparr>"

section \<open>Path semantics\<close>

datatype path_semantic =
  ALL_COUNT | ALL_SHORTEST | ALL_SHORTEST_ACYCLIC | ALL_SHORTEST_SIMPLE | ALL_SHORTEST_TRAILS
| ANY | ANY_ACYCLIC | ANY_SIMPLE | ANY_TRAILS | ACYCLIC | SIMPLE | TRAILS

text \<open>\<open>visitPath\<close> of the query visitor: the path type, in lower case; any other text means \<open>ALL_SHORTEST\<close>.\<close>

definition semantic_names :: "(string \<times> path_semantic) list" where
  "semantic_names =
     [(''any'', ANY), (''any_simple'', ANY_SIMPLE), (''simple'', SIMPLE), (''any_trails'', ANY_TRAILS), (''trails'', TRAILS),
      (''any_acyclic'', ANY_ACYCLIC), (''acyclic'', ACYCLIC), (''all_count'', ALL_COUNT),
      (''all_shortest_acyclic'', ALL_SHORTEST_ACYCLIC), (''all_shortest_simple'', ALL_SHORTEST_SIMPLE),
      (''all_shortest_trails'', ALL_SHORTEST_TRAILS)]"

definition visit_semantic :: "string option \<Rightarrow> path_semantic" where
  "visit_semantic path_type =
     (case path_type of
        None \<Rightarrow> ANY
      | Some s \<Rightarrow> (case map_of semantic_names s of Some sem \<Rightarrow> sem | None \<Rightarrow> ALL_SHORTEST))"

section \<open>Plans\<close>

text \<open>\<open>Id\<close>: a variable of the binding or an object.\<close>

datatype node_ref = VarId nat | ObjectId object_id

fun is_object :: "node_ref \<Rightarrow> bool" where
  "is_object (ObjectId n) = True"
| "is_object (VarId v) = False"

record path_plan =
  path_var :: nat
  plan_from :: node_ref
  plan_to :: node_ref
  plan_path :: "unit path"
  from_assigned :: bool
  to_assigned :: bool
  path_semantic :: path_semantic

definition path_plan_new :: "nat \<Rightarrow> node_ref \<Rightarrow> node_ref \<Rightarrow> unit path \<Rightarrow> path_semantic \<Rightarrow> path_plan" where
  "path_plan_new v a b p sem = \<lparr>path_var = v, plan_from = a, plan_to = b, plan_path = p,
     from_assigned = is_object a, to_assigned = is_object b, path_semantic = sem\<rparr>"

fun set_input_var :: "nat set \<Rightarrow> node_ref \<Rightarrow> bool \<Rightarrow> bool" where
  "set_input_var vars (VarId v) b = (v \<in> vars \<or> b)"
| "set_input_var vars (ObjectId n) b = b"

definition set_input_vars :: "nat set \<Rightarrow> path_plan \<Rightarrow> path_plan" where
  "set_input_vars vars P =
     P\<lparr>from_assigned := set_input_var vars (plan_from P) (from_assigned P),
       to_assigned := set_input_var vars (plan_to P) (to_assigned P)\<rparr>"

fun ref_vars :: "node_ref \<Rightarrow> nat set" where
  "ref_vars (VarId v) = {v}"
| "ref_vars (ObjectId n) = {}"

definition get_vars :: "path_plan \<Rightarrow> nat set" where
  "get_vars P = (if from_assigned P then {} else ref_vars (plan_from P)) \<union>
     (if to_assigned P then {} else ref_vars (plan_to P))"

section \<open>The index of every edge type\<close>

definition trails_semantic :: "path_semantic \<Rightarrow> bool" where
  "trails_semantic sem \<longleftrightarrow> sem = TRAILS \<or> sem = ANY_TRAILS \<or> sem = ALL_SHORTEST_TRAILS"

definition index_type_of :: "quad_settings \<Rightarrow> path_semantic \<Rightarrow> index_type" where
  "index_type_of M sem =
     (if use_default_index M
      then if trails_semantic sem then default_trails_index_type M else default_index_type M
      else BTREE)"

definition assign_index :: "index_type \<Rightarrow> dfa_transition \<Rightarrow> index_info \<Rightarrow> index_info" where
  "assign_index ty t I =
     (if dfa_inverse t
      then if type_id t \<in> dom (t_inv_info I) then I else I\<lparr>t_inv_info := (t_inv_info I)(type_id t \<mapsto> ty)\<rparr>
      else if type_id t \<in> dom (t_info I) then I else I\<lparr>t_info := (t_info I)(type_id t \<mapsto> ty)\<rparr>)"

definition get_provider :: "quad_settings \<Rightarrow> path_semantic \<Rightarrow> rpq_dfa \<Rightarrow> index_info" where
  "get_provider M sem D =
     fold (assign_index (index_type_of M sem)) (concat (from_to_connections D)) \<lparr>t_info = Map.empty, t_inv_info = Map.empty\<rparr>"

section \<open>The iterator of a plan\<close>

text \<open>The classes of path iterators with their template arguments.\<close>

datatype iterator_class =
  AnyShortest_BFSCheck | AnyShortest_BFSEnum bool | Any_DFSCheck | Any_DFSEnum bool | AnyShortest_UnfixedComposite
| AllShortest_BFSCheck | AllShortest_BFSEnum bool | AllShortestCount_BFSCheck | AllShortestCount_BFSEnum bool
| AllSimple_BFSCheck bool | AllSimple_BFSEnum bool | AllSimple_DFSCheck bool | AllSimple_DFSEnum bool
| AnySimple_BFSCheck bool | AnySimple_BFSEnum bool | AnySimple_DFSCheck bool | AnySimple_DFSEnum bool
| AllTrails_BFSCheck | AllTrails_BFSEnum | AllTrails_DFSCheck | AllTrails_DFSEnum
| AnyTrails_BFSCheck | AnyTrails_BFSEnum | AnyTrails_DFSCheck | AnyTrails_DFSEnum
| AllShortestSimple_BFSCheck bool | AllShortestSimple_BFSEnum bool | AllShortestTrails_BFSCheck | AllShortestTrails_BFSEnum

record path_iter =
  iter_class :: iterator_class
  iter_start :: node_ref
  iter_end :: node_ref
  iter_automaton :: rpq_dfa
  iter_provider :: index_info

text \<open>What can go wrong: the exceptions of the automaton and of the planner, \<open>std::get\<close> of the wrong
  alternative, and an automaton construction that does not end.\<close>

datatype plan_error = PathError path_error | QuerySemanticException string | BadVariantAccess | NoAutomaton

definition compile_path :: "(string \<Rightarrow> object_id) \<Rightarrow> unit path \<Rightarrow> plan_error + rpq_dfa" where
  "compile_path f p =
     (case get_rpq_automaton f p of
        Inl e \<Rightarrow> Inl (PathError e) | Inr None \<Rightarrow> Inl NoAutomaton | Inr (Some D) \<Rightarrow> Inr D)"

definition make_iter ::
  "quad_settings \<Rightarrow> path_plan \<Rightarrow> iterator_class \<Rightarrow> node_ref \<Rightarrow> node_ref \<Rightarrow> rpq_dfa \<Rightarrow> plan_error + path_iter" where
  "make_iter M P c a b D =
     Inr \<lparr>iter_class = c, iter_start = a, iter_end = b, iter_automaton = D, iter_provider = get_provider M (path_semantic P) D\<rparr>"

text \<open>An enumeration binds the variable of its end: \<open>std::get<VarId>\<close>.\<close>

definition make_enum ::
  "quad_settings \<Rightarrow> path_plan \<Rightarrow> iterator_class \<Rightarrow> node_ref \<Rightarrow> node_ref \<Rightarrow> rpq_dfa \<Rightarrow> plan_error + path_iter" where
  "make_enum M P c a b D = (if is_object b then Inl BadVariantAccess else make_iter M P c a b D)"

text \<open>The cases that every semantics has: both ends bound, the left end, the right end, or none.\<close>

definition plan_ends ::
  "(string \<Rightarrow> object_id) \<Rightarrow> quad_settings \<Rightarrow> path_plan \<Rightarrow> iterator_class \<Rightarrow> (rpq_dfa \<Rightarrow> iterator_class) \<Rightarrow>
     plan_error + path_iter \<Rightarrow> plan_error + path_iter" where
  "plan_ends f M P chk enm unbound =
     (if from_assigned P then
        case compile_path f (plan_path P) of
          Inl e \<Rightarrow> Inl e
        | Inr D \<Rightarrow>
            if to_assigned P then make_iter M P chk (plan_from P) (plan_to P) D
            else make_enum M P (enm D) (plan_from P) (plan_to P) D
      else if to_assigned P then
        case compile_path f (invert (plan_path P)) of
          Inl e \<Rightarrow> Inl e
        | Inr D \<Rightarrow> make_enum M P (enm D) (plan_to P) (plan_from P) D
      else unbound)"

definition many_finals :: "rpq_dfa \<Rightarrow> bool" where
  "many_finals D \<longleftrightarrow> total_final_states D > 1"

definition by_mode :: "quad_settings \<Rightarrow> 'x \<Rightarrow> 'x \<Rightarrow> 'x" where
  "by_mode M x y = (case path_mode M of BFS \<Rightarrow> x | DFS \<Rightarrow> y)"

definition one_node_fixed :: "string \<Rightarrow> plan_error + path_iter" where
  "one_node_fixed name =
     Inl (QuerySemanticException (''property paths with '' @ name @ '' semantics must have at least 1 node fixed.''))"

definition plan_any :: "(string \<Rightarrow> object_id) \<Rightarrow> quad_settings \<Rightarrow> path_plan \<Rightarrow> plan_error + path_iter" where
  "plan_any f M P =
     plan_ends f M P (by_mode M AnyShortest_BFSCheck Any_DFSCheck)
       (\<lambda>D. by_mode M (AnyShortest_BFSEnum (many_finals D)) (Any_DFSEnum (many_finals D)))
       (if nullable (plan_path P)
        then Inl (QuerySemanticException ''Nullable property paths must have at least 1 node fixed'')
        else case compile_path f (plan_path P) of
               Inl e \<Rightarrow> Inl e
             | Inr D \<Rightarrow>
                 if is_object (plan_from P) then Inl BadVariantAccess
                 else make_enum M P AnyShortest_UnfixedComposite (plan_from P) (plan_to P) D)"

definition plan_all_shortest :: "(string \<Rightarrow> object_id) \<Rightarrow> quad_settings \<Rightarrow> path_plan \<Rightarrow> plan_error + path_iter" where
  "plan_all_shortest f M P =
     plan_ends f M P AllShortest_BFSCheck (\<lambda>D. AllShortest_BFSEnum (many_finals D)) (one_node_fixed ''ALL_SHORTEST'')"

definition plan_all_count :: "(string \<Rightarrow> object_id) \<Rightarrow> quad_settings \<Rightarrow> path_plan \<Rightarrow> plan_error + path_iter" where
  "plan_all_count f M P =
     plan_ends f M P AllShortestCount_BFSCheck (\<lambda>D. AllShortestCount_BFSEnum (many_finals D)) (one_node_fixed ''ALL_COUNT'')"

definition plan_acyclic :: "(string \<Rightarrow> object_id) \<Rightarrow> quad_settings \<Rightarrow> path_plan \<Rightarrow> plan_error + path_iter" where
  "plan_acyclic f M P =
     plan_ends f M P (by_mode M (AllSimple_BFSCheck False) (AllSimple_DFSCheck False))
       (\<lambda>D. by_mode M (AllSimple_BFSEnum False) (AllSimple_DFSEnum False)) (one_node_fixed ''ACYCLIC'')"

definition plan_simple :: "(string \<Rightarrow> object_id) \<Rightarrow> quad_settings \<Rightarrow> path_plan \<Rightarrow> plan_error + path_iter" where
  "plan_simple f M P =
     plan_ends f M P (by_mode M (AllSimple_BFSCheck True) (AllSimple_DFSCheck True))
       (\<lambda>D. by_mode M (AllSimple_BFSEnum True) (AllSimple_DFSEnum True)) (one_node_fixed ''SIMPLE'')"

definition plan_trails :: "(string \<Rightarrow> object_id) \<Rightarrow> quad_settings \<Rightarrow> path_plan \<Rightarrow> plan_error + path_iter" where
  "plan_trails f M P =
     plan_ends f M P (by_mode M AllTrails_BFSCheck AllTrails_DFSCheck)
       (\<lambda>D. by_mode M AllTrails_BFSEnum AllTrails_DFSEnum) (one_node_fixed ''TRAILS'')"

definition plan_any_acyclic :: "(string \<Rightarrow> object_id) \<Rightarrow> quad_settings \<Rightarrow> path_plan \<Rightarrow> plan_error + path_iter" where
  "plan_any_acyclic f M P =
     plan_ends f M P (by_mode M (AnySimple_BFSCheck False) (AnySimple_DFSCheck False))
       (\<lambda>D. by_mode M (AnySimple_BFSEnum False) (AnySimple_DFSEnum False)) (one_node_fixed ''ANY_ACYCLIC'')"

definition plan_any_simple :: "(string \<Rightarrow> object_id) \<Rightarrow> quad_settings \<Rightarrow> path_plan \<Rightarrow> plan_error + path_iter" where
  "plan_any_simple f M P =
     plan_ends f M P (by_mode M (AnySimple_BFSCheck True) (AnySimple_DFSCheck True))
       (\<lambda>D. by_mode M (AnySimple_BFSEnum True) (AnySimple_DFSEnum True)) (one_node_fixed ''ANY_SIMPLE'')"

definition plan_any_trails :: "(string \<Rightarrow> object_id) \<Rightarrow> quad_settings \<Rightarrow> path_plan \<Rightarrow> plan_error + path_iter" where
  "plan_any_trails f M P =
     plan_ends f M P (by_mode M AnyTrails_BFSCheck AnyTrails_DFSCheck)
       (\<lambda>D. by_mode M AnyTrails_BFSEnum AnyTrails_DFSEnum) (one_node_fixed ''ANY_TRAILS'')"

definition plan_all_shortest_acyclic :: "(string \<Rightarrow> object_id) \<Rightarrow> quad_settings \<Rightarrow> path_plan \<Rightarrow> plan_error + path_iter" where
  "plan_all_shortest_acyclic f M P =
     plan_ends f M P (AllShortestSimple_BFSCheck False) (\<lambda>D. AllShortestSimple_BFSEnum False)
       (one_node_fixed ''ALL_SHORTEST_ACYCLIC'')"

definition plan_all_shortest_simple :: "(string \<Rightarrow> object_id) \<Rightarrow> quad_settings \<Rightarrow> path_plan \<Rightarrow> plan_error + path_iter" where
  "plan_all_shortest_simple f M P =
     plan_ends f M P (AllShortestSimple_BFSCheck True) (\<lambda>D. AllShortestSimple_BFSEnum True)
       (one_node_fixed ''ALL_SHORTEST_SIMPLE'')"

definition plan_all_shortest_trails :: "(string \<Rightarrow> object_id) \<Rightarrow> quad_settings \<Rightarrow> path_plan \<Rightarrow> plan_error + path_iter" where
  "plan_all_shortest_trails f M P =
     plan_ends f M P AllShortestTrails_BFSCheck (\<lambda>D. AllShortestTrails_BFSEnum) (one_node_fixed ''ALL_SHORTEST_TRAILS'')"

definition get_binding_id_iter :: "(string \<Rightarrow> object_id) \<Rightarrow> quad_settings \<Rightarrow> path_plan \<Rightarrow> plan_error + path_iter" where
  "get_binding_id_iter f M P =
     (case path_semantic P of
        ANY \<Rightarrow> plan_any f M P
      | ALL_SHORTEST \<Rightarrow> plan_all_shortest f M P
      | ALL_COUNT \<Rightarrow> plan_all_count f M P
      | ACYCLIC \<Rightarrow> plan_acyclic f M P
      | SIMPLE \<Rightarrow> plan_simple f M P
      | TRAILS \<Rightarrow> plan_trails f M P
      | ANY_ACYCLIC \<Rightarrow> plan_any_acyclic f M P
      | ANY_SIMPLE \<Rightarrow> plan_any_simple f M P
      | ANY_TRAILS \<Rightarrow> plan_any_trails f M P
      | ALL_SHORTEST_ACYCLIC \<Rightarrow> plan_all_shortest_acyclic f M P
      | ALL_SHORTEST_SIMPLE \<Rightarrow> plan_all_shortest_simple f M P
      | ALL_SHORTEST_TRAILS \<Rightarrow> plan_all_shortest_trails f M P)"

lemmas plan_case_defs = plan_any_def plan_all_shortest_def plan_all_count_def plan_acyclic_def plan_simple_def
  plan_trails_def plan_any_acyclic_def plan_any_simple_def plan_any_trails_def plan_all_shortest_acyclic_def
  plan_all_shortest_simple_def plan_all_shortest_trails_def

section \<open>Every transition has an index\<close>

lemma assign_index_assigned:
  "assigned (assign_index ty t I) d x =
     (if assigned I d x \<noteq> None then assigned I d x else if d = dfa_inverse t \<and> x = type_id t then Some ty else None)"
  by (auto simp: assign_index_def assigned_def)

lemma fold_assign_index:
  "assigned (fold (assign_index ty) ts I) d x =
     (if assigned I d x \<noteq> None then assigned I d x
      else if \<exists>t \<in> set ts. dfa_inverse t = d \<and> type_id t = x then Some ty else None)"
  by (induction ts arbitrary: I) (auto simp: assign_index_assigned)

lemma get_provider_assigned:
  "assigned (get_provider M sem D) d x =
     (if \<exists>t \<in> set (concat (from_to_connections D)). dfa_inverse t = d \<and> type_id t = x
      then Some (index_type_of M sem) else None)"
proof -
  have "assigned \<lparr>t_info = Map.empty, t_inv_info = Map.empty\<rparr> d x = None" by (simp add: assigned_def)
  then show ?thesis unfolding get_provider_def fold_assign_index by simp
qed

lemma settings_edges: "trails_semantic sem \<Longrightarrow> has_edges (index_type_of (quad_settings_of pm im it) sem)"
  by (simp add: index_type_of_def quad_settings_of_def)

lemma get_provider_edges:
  "trails_semantic sem \<Longrightarrow> edge_flag (get_provider (quad_settings_of pm im it) sem D) d x"
  by (simp add: edge_flag_def get_provider_assigned settings_edges)

section \<open>Which plans have an iterator\<close>

text \<open>A plan as the constructor and \<open>set_input_vars\<close> leave it: objects are bound.\<close>

definition plan_ok :: "path_plan \<Rightarrow> bool" where
  "plan_ok P \<longleftrightarrow> (is_object (plan_from P) \<longrightarrow> from_assigned P) \<and> (is_object (plan_to P) \<longrightarrow> to_assigned P)"

lemma plan_ok_new: "plan_ok (path_plan_new v a b p sem)"
  by (simp add: plan_ok_def path_plan_new_def)

lemma set_input_var_mono: "b \<Longrightarrow> set_input_var vars r b"
  by (cases r) auto

lemma plan_ok_input: "plan_ok P \<Longrightarrow> plan_ok (set_input_vars vars P)"
  by (auto simp: plan_ok_def set_input_vars_def intro: set_input_var_mono)

lemma compile_path_ok: "wf_path p \<Longrightarrow> \<exists>D. compile_path f p = Inr D \<and> get_rpq_automaton f p = Inr (Some D) \<and> dfa_ok D"
  using get_rpq_automaton_returns [of p f] by (auto simp: compile_path_def)

lemma compile_pathD: "compile_path f p = Inr D \<Longrightarrow> get_rpq_automaton f p = Inr (Some D)"
  by (auto simp: compile_path_def split: sum.splits option.splits)

text \<open>The shape of every case.\<close>

lemma get_binding_id_iter_ends:
  "path_semantic P \<noteq> ANY \<Longrightarrow> \<exists>c e m. get_binding_id_iter f M P = plan_ends f M P c e (one_node_fixed m)"
  by (cases "path_semantic P") (auto simp: get_binding_id_iter_def plan_case_defs)

lemma plan_ends_ok:
  assumes "plan_ok P" "wf_path (plan_path P)" "wf_path (invert (plan_path P))" "from_assigned P \<or> to_assigned P"
  shows "\<exists>it. plan_ends f M P c e u = Inr it"
  using assms compile_path_ok [OF assms(2), of f] compile_path_ok [OF assms(3), of f]
  by (auto simp: plan_ends_def make_iter_def make_enum_def plan_ok_def)

section \<open>The inverted path\<close>

lemma nullable_invert: "nullable (invert p) \<longleftrightarrow> nullable p"
  by (simp add: nullable_lang invert_lang image_iff) (metis rev_word_rev_word rev_word_simps(1))

lemma denull_id: "\<not> nullable p \<Longrightarrow> denull p = p"
  by (cases p) auto

lemma invert_star: "\<not> nullable p \<Longrightarrow> invert (PathKleeneStar p) = PathKleeneStar (invert p)"
  by (simp add: mk_kleene_star_def denull_id nullable_invert)

lemma wf_path_invert: "wf_path p \<Longrightarrow> wf_path (invert p)"
proof (induction p rule: wf_path.induct)
  case (4 p)
  then show ?case by (simp add: mk_kleene_star_def denull_id nullable_invert)
qed (auto simp: list_all_iff)

lemma flat_invert: "flat p \<Longrightarrow> flat (invert p)"
  by (induction p rule: flat.induct) (auto simp: list_all_iff)

lemma plain_invert: "plain p \<Longrightarrow> plain (invert p)"
proof (induction p rule: plain.induct)
  case (4 p)
  then have "invert (PathKleeneStar p) = PathKleeneStar (invert p)" using flat_props [of p] by (intro invert_star) simp
  then show ?case using 4 flat_invert by (simp del: invert.simps)
qed (auto simp: list_all_iff flat_invert)

section \<open>Errors\<close>

lemma get_binding_id_iter_ok:
  assumes P: "plan_ok P" "wf_path (plan_path P)" and ends: "from_assigned P \<or> to_assigned P"
  shows "\<exists>it. get_binding_id_iter f M P = Inr it"
proof (cases "path_semantic P = ANY")
  case True
  then show ?thesis
    using plan_ends_ok [OF P wf_path_invert [OF P(2)] ends] by (simp add: get_binding_id_iter_def plan_any_def)
next
  case False
  then obtain c e m where "get_binding_id_iter f M P = plan_ends f M P c e (one_node_fixed m)"
    using get_binding_id_iter_ends [of P f M] by blast
  then show ?thesis using plan_ends_ok [OF P wf_path_invert [OF P(2)] ends] by simp
qed

lemma get_binding_id_iter_unbound:
  assumes P: "plan_ok P" "wf_path (plan_path P)" and ends: "\<not> from_assigned P" "\<not> to_assigned P"
  shows "if path_semantic P = ANY \<and> \<not> nullable (plan_path P)
    then \<exists>it. get_binding_id_iter f M P = Inr it \<and> iter_class it = AnyShortest_UnfixedComposite
    else \<exists>m. get_binding_id_iter f M P = Inl (QuerySemanticException m)"
proof (cases "path_semantic P = ANY")
  case True
  obtain D where "compile_path f (plan_path P) = Inr D" using compile_path_ok [OF P(2)] by blast
  moreover have "\<not> is_object (plan_from P)" "\<not> is_object (plan_to P)" using P(1) ends by (auto simp: plan_ok_def)
  ultimately show ?thesis
    using True ends by (auto simp: get_binding_id_iter_def plan_any_def plan_ends_def make_enum_def make_iter_def)
next
  case False
  then obtain c e m where "get_binding_id_iter f M P = plan_ends f M P c e (one_node_fixed m)"
    using get_binding_id_iter_ends [of P f M] by blast
  then show ?thesis using ends False by (simp add: plan_ends_def one_node_fixed_def)
qed

section \<open>What a plan with a bound end contains\<close>

definition check_class :: "quad_settings \<Rightarrow> path_semantic \<Rightarrow> iterator_class" where
  "check_class M sem =
     (case sem of
        ANY \<Rightarrow> by_mode M AnyShortest_BFSCheck Any_DFSCheck
      | ALL_SHORTEST \<Rightarrow> AllShortest_BFSCheck
      | ALL_COUNT \<Rightarrow> AllShortestCount_BFSCheck
      | ACYCLIC \<Rightarrow> by_mode M (AllSimple_BFSCheck False) (AllSimple_DFSCheck False)
      | SIMPLE \<Rightarrow> by_mode M (AllSimple_BFSCheck True) (AllSimple_DFSCheck True)
      | TRAILS \<Rightarrow> by_mode M AllTrails_BFSCheck AllTrails_DFSCheck
      | ANY_ACYCLIC \<Rightarrow> by_mode M (AnySimple_BFSCheck False) (AnySimple_DFSCheck False)
      | ANY_SIMPLE \<Rightarrow> by_mode M (AnySimple_BFSCheck True) (AnySimple_DFSCheck True)
      | ANY_TRAILS \<Rightarrow> by_mode M AnyTrails_BFSCheck AnyTrails_DFSCheck
      | ALL_SHORTEST_ACYCLIC \<Rightarrow> AllShortestSimple_BFSCheck False
      | ALL_SHORTEST_SIMPLE \<Rightarrow> AllShortestSimple_BFSCheck True
      | ALL_SHORTEST_TRAILS \<Rightarrow> AllShortestTrails_BFSCheck)"

definition enum_of :: "quad_settings \<Rightarrow> path_semantic \<Rightarrow> rpq_dfa \<Rightarrow> iterator_class" where
  "enum_of M sem D =
     (case sem of
        ANY \<Rightarrow> by_mode M (AnyShortest_BFSEnum (many_finals D)) (Any_DFSEnum (many_finals D))
      | ALL_SHORTEST \<Rightarrow> AllShortest_BFSEnum (many_finals D)
      | ALL_COUNT \<Rightarrow> AllShortestCount_BFSEnum (many_finals D)
      | ACYCLIC \<Rightarrow> by_mode M (AllSimple_BFSEnum False) (AllSimple_DFSEnum False)
      | SIMPLE \<Rightarrow> by_mode M (AllSimple_BFSEnum True) (AllSimple_DFSEnum True)
      | TRAILS \<Rightarrow> by_mode M AllTrails_BFSEnum AllTrails_DFSEnum
      | ANY_ACYCLIC \<Rightarrow> by_mode M (AnySimple_BFSEnum False) (AnySimple_DFSEnum False)
      | ANY_SIMPLE \<Rightarrow> by_mode M (AnySimple_BFSEnum True) (AnySimple_DFSEnum True)
      | ANY_TRAILS \<Rightarrow> by_mode M AnyTrails_BFSEnum AnyTrails_DFSEnum
      | ALL_SHORTEST_ACYCLIC \<Rightarrow> AllShortestSimple_BFSEnum False
      | ALL_SHORTEST_SIMPLE \<Rightarrow> AllShortestSimple_BFSEnum True
      | ALL_SHORTEST_TRAILS \<Rightarrow> AllShortestTrails_BFSEnum)"

text \<open>The three shapes of a plan: the path checked between two nodes, or enumerated from the bound one.\<close>

lemma get_binding_id_iter_shape:
  assumes "get_binding_id_iter f M P = Inr it" "from_assigned P \<or> to_assigned P"
  obtains "from_assigned P" "to_assigned P" "iter_class it = check_class M (path_semantic P)"
      "iter_start it = plan_from P" "iter_end it = plan_to P" "get_rpq_automaton f (plan_path P) = Inr (Some (iter_automaton it))"
      "iter_provider it = get_provider M (path_semantic P) (iter_automaton it)"
  | "from_assigned P" "\<not> to_assigned P" "iter_class it = enum_of M (path_semantic P) (iter_automaton it)"
      "iter_start it = plan_from P" "iter_end it = plan_to P" "get_rpq_automaton f (plan_path P) = Inr (Some (iter_automaton it))"
      "iter_provider it = get_provider M (path_semantic P) (iter_automaton it)"
  | "\<not> from_assigned P" "to_assigned P" "iter_class it = enum_of M (path_semantic P) (iter_automaton it)"
      "iter_start it = plan_to P" "iter_end it = plan_from P"
      "get_rpq_automaton f (invert (plan_path P)) = Inr (Some (iter_automaton it))"
      "iter_provider it = get_provider M (path_semantic P) (iter_automaton it)"
proof -
  have "\<exists>u. get_binding_id_iter f M P =
      plan_ends f M P (check_class M (path_semantic P)) (enum_of M (path_semantic P)) u"
    by (cases "path_semantic P") (auto simp: get_binding_id_iter_def plan_case_defs check_class_def enum_of_def [abs_def])
  then obtain u where "Inr it = plan_ends f M P (check_class M (path_semantic P)) (enum_of M (path_semantic P)) u"
    using assms(1) by metis
  then show ?thesis
    using that assms(2)
    by (auto simp: plan_ends_def make_iter_def make_enum_def split: if_splits sum.splits dest!: compile_pathD)
qed

end
