(* ===== verification/SearchTree.thy ===== *)
theory SearchTree
  imports SearchBase
begin

text \<open>
  What the searches over whole paths share (all_simple, any_simple, all_trails, any_trails): the
  path states that point to their predecessor, the block memory they are allocated in, and the
  breadth-first loop. A search state is a path with an automaton state; the states form a tree, and
  a body, run on every neighbour of a state, may push a child and may report a path. Proved once:
  such a search ends, and its results are the reports in level order.
\<close>

section \<open>Enumerating with \<open>next\<close>\<close>

text \<open>\<open>drains nxt B rs B'\<close>: calling \<open>next\<close> until it answers false returns exactly \<open>rs\<close>. A call that does
  not end is \<open>None\<close>.\<close>

inductive drains :: "('o \<Rightarrow> ('o \<times> 'r option) option) \<Rightarrow> 'o \<Rightarrow> 'r list \<Rightarrow> 'o \<Rightarrow> bool" for nxt where
  drains_Nil: "nxt B = Some (B', None) \<Longrightarrow> drains nxt B [] B'"
| drains_Cons: "nxt B = Some (B', Some r) \<Longrightarrow> drains nxt B' rs C \<Longrightarrow> drains nxt B (r # rs) C"

inductive_simps drains_Nil_iff: "drains nxt B [] C"
inductive_simps drains_Cons_iff: "drains nxt B (r # rs) C"

lemma drains_deterministic: "drains nxt B rs C \<Longrightarrow> drains nxt B rs' C' \<Longrightarrow> rs' = rs \<and> C' = C"
proof (induction arbitrary: rs' C' rule: drains.induct)
  case (drains_Nil B B')
  from drains_Nil(2) show ?case by (cases rule: drains.cases) (use drains_Nil(1) in auto)
next
  case (drains_Cons B B' r rs C)
  from drains_Cons(4) show ?case
  proof (cases rule: drains.cases)
    case (drains_Cons B2 r2 rs2)
    with \<open>nxt B = Some (B', Some r)\<close> have "rs' = r # rs2" "drains nxt B' rs2 C'" by auto
    then show ?thesis using drains_Cons.IH by blast
  qed (use drains_Cons(1) in auto)
qed

section \<open>Path states\<close>

text \<open>\<open>PathState\<close>; the searches for simple paths do not store the edge.\<close>

datatype path_state =
  PathState (path_node: object_id) (path_edge: "object_id option") (path_type: object_id) (path_inverse: bool)
    (prev_state: "path_state option")

datatype tree_state = TreeState (path_state: path_state) (tree_automaton: nat)

text \<open>The two checks walk backwards over the path.\<close>

fun is_simple_path :: "path_state option \<Rightarrow> object_id \<Rightarrow> bool" where
  "is_simple_path None new_node = True"
| "is_simple_path (Some (PathState n e t d prev)) new_node = (n \<noteq> new_node \<and> is_simple_path prev new_node)"

fun is_trail :: "path_state option \<Rightarrow> object_id option \<Rightarrow> bool" where
  "is_trail None new_edge = True"
| "is_trail (Some (PathState n e t d prev)) new_edge = (e \<noteq> new_edge \<and> is_trail prev new_edge)"

fun path_nodes :: "path_state \<Rightarrow> object_id list" where
  "path_nodes (PathState n e t d None) = [n]"
| "path_nodes (PathState n e t d (Some p)) = n # path_nodes p"

fun path_edges :: "path_state \<Rightarrow> object_id option list" where
  "path_edges (PathState n e t d None) = [e]"
| "path_edges (PathState n e t d (Some p)) = e # path_edges p"

lemma is_simple_path_iff: "is_simple_path (Some p) m \<longleftrightarrow> m \<notin> set (path_nodes p)"
  by (induction p rule: path_nodes.induct) auto

lemma is_trail_iff: "is_trail (Some p) e \<longleftrightarrow> e \<notin> set (path_edges p)"
  by (induction p rule: path_edges.induct) auto

lemma path_node_in: "path_node p \<in> set (path_nodes p)"
  by (cases p rule: path_nodes.cases) auto

text \<open>\<open>get_path\<close>: the vectors are filled backwards, then printed from the last entry.\<close>

fun collect_states :: "path_state \<Rightarrow> (object_id \<times> object_id \<times> bool) list" where
  "collect_states (PathState n e t d None) = [(n, t, d)]"
| "collect_states (PathState n e t d (Some p)) = (n, t, d) # collect_states p"

definition print_path :: "path_state \<Rightarrow> path_piece list" where
  "print_path p =
     (case rev (collect_states p) of
        [] \<Rightarrow> []
      | (n0, _, _) # steps \<Rightarrow> PathNode n0 # concat (map (\<lambda>(n, t, d). [PathEdge t d, PathNode n]) steps))"

text \<open>The steps of the path with the edge crossed: type, direction, edge, node reached.\<close>

type_synonym step = "(object_id \<times> bool) \<times> object_id option \<times> object_id"

fun steps_of :: "path_state \<Rightarrow> step list" where
  "steps_of (PathState n e t d None) = []"
| "steps_of (PathState n e t d (Some p)) = steps_of p @ [((t, d), e, n)]"

fun origin :: "path_state \<Rightarrow> object_id" where
  "origin (PathState n e t d None) = n"
| "origin (PathState n e t d (Some p)) = origin p"

lemma collect_states_steps:
  "\<exists>t d. rev (collect_states p) = (origin p, t, d) # map (\<lambda>((t, d), e, n). (n, t, d)) (steps_of p)"
  by (induction p rule: collect_states.induct) auto

lemma print_path_steps:
  "print_path p = PathNode (origin p) # concat (map (\<lambda>((t, d), e, n). [PathEdge t d, PathNode n]) (steps_of p))"
  using collect_states_steps [of p] by (auto simp: print_path_def comp_def case_prod_unfold)

section \<open>Block memory\<close>

text \<open>\<open>Visited\<close> hands out path states from blocks of 4096. \<open>clear\<close> deletes the blocks and keeps the
  index, so that a later \<open>add\<close> may take \<open>back()\<close> of an empty vector: undefined behaviour, which
  the field \<open>broken\<close> records. The model continues as if the memory were there.\<close>

record visited_store =
  blocks :: nat
  current_index :: nat
  broken :: bool

definition new_visited :: visited_store where
  "new_visited = \<lparr>blocks = 1, current_index = 0, broken = False\<rparr>"

definition visited_add :: "visited_store \<Rightarrow> visited_store" where
  "visited_add V =
     (let V1 = (if current_index V \<ge> 4096 then V\<lparr>blocks := Suc (blocks V), current_index := 0\<rparr> else V) in
      V1\<lparr>broken := (broken V1 \<or> blocks V1 = 0), current_index := Suc (current_index V1)\<rparr>)"

definition visited_clear :: "visited_store \<Rightarrow> visited_store" where
  "visited_clear V = V\<lparr>blocks := 0\<rparr>"

definition visited_safe :: "visited_store \<Rightarrow> bool" where
  "visited_safe V \<longleftrightarrow> \<not> broken V \<and> 0 < blocks V"

lemma visited_safe_new [simp]: "visited_safe new_visited"
  by (simp add: visited_safe_def new_visited_def)

lemma visited_safe_add [simp]: "visited_safe V \<Longrightarrow> visited_safe (visited_add V)"
  by (simp add: visited_safe_def visited_add_def Let_def)

section \<open>The breadth-first object\<close>

record tree_bfs =
  bfs_visited :: visited_store
  bfs_open :: "tree_state list"
  bfs_cur :: cursor
  bfs_first :: bool
  bfs_reached :: "object_id list"
  bfs_found :: nat
  bfs_searches :: nat

definition tree_bfs_new :: tree_bfs where
  "tree_bfs_new = \<lparr>bfs_visited = new_visited, bfs_open = [], bfs_cur = \<lparr>iter = NullIndexIterator, current_transition = 0\<rparr>,
     bfs_first = True, bfs_reached = [], bfs_found = 0, bfs_searches = 0\<rparr>"

text \<open>\<open>expand_neighbors\<close> with the body of its loop as a parameter.\<close>

definition tree_expand ::
  "(tree_state \<Rightarrow> dfa_transition \<Rightarrow> entry \<Rightarrow> tree_bfs \<Rightarrow> tree_bfs \<times> path_state option) \<Rightarrow>
     path_query \<Rightarrow> tree_state \<Rightarrow> tree_bfs \<Rightarrow> tree_bfs \<times> path_state option" where
  "tree_expand body Q s B =
     (case expand_cursor (provider Q) (transitions_from Q (tree_automaton s)) (path_node (path_state s)) True
             (body s) (bfs_cur B) (bfs_searches B) B of
        (c, k, B', r) \<Rightarrow> (B'\<lparr>bfs_cur := c, bfs_searches := k\<rparr>, r))"

text \<open>\<open>while (open.size() > 0)\<close> of \<open>next\<close>.\<close>

partial_function (option) tree_loop ::
  "(tree_state \<Rightarrow> tree_bfs \<Rightarrow> tree_bfs \<times> path_state option) \<Rightarrow> tree_bfs \<Rightarrow> (tree_bfs \<times> path_state option) option" where
  "tree_loop expand B =
     (case bfs_open B of
        [] \<Rightarrow> Some (B, None)
      | current_state # _ \<Rightarrow>
          (case expand current_state B of
             (B', Some reached) \<Rightarrow> Some (B'\<lparr>bfs_found := Suc (bfs_found B')\<rparr>, Some reached)
           | (B', None) \<Rightarrow> tree_loop expand (B'\<lparr>bfs_open := tl (bfs_open B')\<rparr>)))"

declare tree_loop.simps [code]

text \<open>The searches for a single path empty the queue when they return it.\<close>

definition clear_on_result :: "(tree_bfs \<times> path_state option) option \<Rightarrow> (tree_bfs \<times> path_state option) option" where
  "clear_on_result res =
     (case res of Some (D, Some p) \<Rightarrow> Some (D\<lparr>bfs_open := []\<rparr>, Some p) | _ \<Rightarrow> res)"

section \<open>Trees and their level order\<close>

text \<open>A forest given by the children of a state, with a rank that falls along every branch.\<close>

fun tree_size :: "('s \<Rightarrow> 's list) \<Rightarrow> nat \<Rightarrow> 's \<Rightarrow> nat" where
  "tree_size kids 0 s = 1"
| "tree_size kids (Suc n) s = Suc (sum_list (map (tree_size kids n) (kids s)))"

fun level_order :: "('s \<Rightarrow> 's list) \<Rightarrow> ('s \<Rightarrow> 'r list) \<Rightarrow> nat \<Rightarrow> 's list \<Rightarrow> 'r list" where
  "level_order kids reps 0 q = []"
| "level_order kids reps (Suc n) [] = []"
| "level_order kids reps (Suc n) (s # q) = reps s @ level_order kids reps n (q @ kids s)"

definition ranked :: "('s \<Rightarrow> 's list) \<Rightarrow> ('s \<Rightarrow> nat) \<Rightarrow> bool" where
  "ranked kids rank \<longleftrightarrow> (\<forall>s. \<forall>c \<in> set (kids s). rank c < rank s)"

definition forest_size :: "('s \<Rightarrow> 's list) \<Rightarrow> ('s \<Rightarrow> nat) \<Rightarrow> 's list \<Rightarrow> nat" where
  "forest_size kids rank q = sum_list (map (\<lambda>s. tree_size kids (rank s) s) q)"

definition levels :: "('s \<Rightarrow> 's list) \<Rightarrow> ('s \<Rightarrow> nat) \<Rightarrow> ('s \<Rightarrow> 'r list) \<Rightarrow> 's list \<Rightarrow> 'r list" where
  "levels kids rank reps q = level_order kids reps (forest_size kids rank q) q"

lemma ranked_leaf: "ranked kids rank \<Longrightarrow> rank s = 0 \<Longrightarrow> kids s = []"
  unfolding ranked_def by (metis length_greater_0_conv not_less0 nth_mem)

lemma tree_size_enough:
  "ranked kids rank \<Longrightarrow> rank s \<le> n \<Longrightarrow> rank s \<le> m \<Longrightarrow> tree_size kids n s = tree_size kids m s"
proof (induction n arbitrary: m s)
  case 0
  then show ?case by (cases m) (simp_all add: ranked_leaf)
next
  case (Suc n)
  show ?case
  proof (cases m)
    case 0
    then show ?thesis using Suc.prems by (simp add: ranked_leaf)
  next
    case m: (Suc k)
    have "tree_size kids n c = tree_size kids k c" if "c \<in> set (kids s)" for c
    proof -
      have "rank c < rank s" using that Suc.prems(1) by (simp add: ranked_def)
      then show ?thesis using Suc.IH [of c k] Suc.prems m by simp
    qed
    then have "map (tree_size kids n) (kids s) = map (tree_size kids k) (kids s)" by simp
    then show ?thesis unfolding m tree_size.simps by (simp only:)
  qed
qed

lemma forest_size_simps [simp]:
  "forest_size kids rank [] = 0"
  "forest_size kids rank (q @ q') = forest_size kids rank q + forest_size kids rank q'"
  by (simp_all add: forest_size_def)

lemma forest_size_Cons:
  assumes "ranked kids rank"
  shows "forest_size kids rank (s # q) = Suc (forest_size kids rank (q @ kids s))"
proof (cases "rank s")
  case 0
  then show ?thesis using ranked_leaf [OF assms] by (simp add: forest_size_def)
next
  case (Suc n)
  have "tree_size kids n c = tree_size kids (rank c) c" if "c \<in> set (kids s)" for c
    using that assms Suc tree_size_enough [OF assms] by (force simp: ranked_def)
  then have "map (tree_size kids n) (kids s) = map (\<lambda>c. tree_size kids (rank c) c) (kids s)" by simp
  then have "tree_size kids (rank s) s = Suc (forest_size kids rank (kids s))"
    unfolding Suc tree_size.simps forest_size_def by (simp only:)
  then show ?thesis by (simp add: forest_size_def)
qed

lemma levels_Nil [simp]: "levels kids rank reps [] = []"
  by (simp add: levels_def)

lemma levels_Cons: "ranked kids rank \<Longrightarrow> levels kids rank reps (s # q) = reps s @ levels kids rank reps (q @ kids s)"
  by (simp add: levels_def forest_size_Cons)

text \<open>Every state of the forest is visited.\<close>

definition child_rel :: "('s \<Rightarrow> 's list) \<Rightarrow> ('s \<times> 's) set" where
  "child_rel kids = {(s, c). c \<in> set (kids s)}"

lemma levels_set:
  "ranked kids rank \<Longrightarrow> set (levels kids rank reps q) = (\<Union>s \<in> (child_rel kids)\<^sup>* `` set q. set (reps s))"
proof (induction "forest_size kids rank q" arbitrary: q)
  case 0
  then show ?case by (cases q) (simp_all add: forest_size_Cons)
next
  case (Suc n)
  then obtain s q' where q: "q = s # q'" by (cases q) auto
  have "forest_size kids rank (q' @ kids s) = n" using Suc.hyps(2) Suc.prems q by (simp add: forest_size_Cons)
  then have IH: "set (levels kids rank reps (q' @ kids s)) = (\<Union>s \<in> (child_rel kids)\<^sup>* `` set (q' @ kids s). set (reps s))"
    using Suc by blast
  have "(child_rel kids)\<^sup>* `` {s} = insert s ((child_rel kids)\<^sup>* `` set (kids s))"
    by (auto simp: child_rel_def elim: converse_rtranclE intro: converse_rtrancl_into_rtrancl)
  then have "(child_rel kids)\<^sup>* `` set q = insert s ((child_rel kids)\<^sup>* `` set (q' @ kids s))" unfolding q by auto
  then show ?case unfolding q levels_Cons [OF Suc.prems] using IH by (simp add: q)
qed

end
