(* ===== verification/AnyDfs.thy ===== *)
theory AnyDfs
  imports AnyShortestCorrect SearchTree
begin

text \<open>
  The depth-first searches for one path per node: \<open>Paths::Any::DFSEnum<MULTIPLE_FINAL>\<close> and
  \<open>Paths::Any::DFSCheck\<close>. The visited states are those of \<open>any_shortest\<close>; a frame of the stack is a
  node and an automaton state with a cursor. Shown: the searches end, every reachable final node is
  returned once and with an accepted path.
\<close>

section \<open>DFSEnum\<close>

record dfs_search_state =
  ds_node :: object_id
  ds_state :: nat
  ds_cur :: cursor

record any_dfs =
  any_visited :: "search_state list"
  any_open :: "dfs_search_state list"
  any_first :: bool
  any_reached :: "object_id list"
  any_end :: object_id
  any_found :: nat
  any_searches :: nat

definition any_dfs_new :: any_dfs where
  "any_dfs_new = \<lparr>any_visited = [], any_open = [], any_first = True, any_reached = [], any_end = 0, any_found = 0, any_searches = 0\<rparr>"

definition new_frame :: "object_id \<Rightarrow> nat \<Rightarrow> dfs_search_state" where
  "new_frame n q = \<lparr>ds_node = n, ds_state = q, ds_cur = null_cursor\<rparr>"

definition any_dfs_begin :: "path_query \<Rightarrow> any_dfs \<Rightarrow> any_dfs" where
  "any_dfs_begin Q S = S\<lparr>any_first := True,
     any_open := new_frame (start_object_id Q) (start_state (automaton Q)) # any_open S,
     any_visited := fst (visited_insert (start_state_of Q) (any_visited S))\<rparr>"

definition any_dfs_reset :: "bool \<Rightarrow> path_query \<Rightarrow> any_dfs \<Rightarrow> any_dfs" where
  "any_dfs_reset multiple_final Q S = S\<lparr>any_first := True,
     any_reached := (if multiple_final then [] else any_reached S),
     any_open := [new_frame (start_object_id Q) (start_state (automaton Q))],
     any_visited := fst (visited_insert (start_state_of Q) [])\<rparr>"

text \<open>The body of the loop over the records: \<open>visited.find\<close> gives the pointer to the state itself.\<close>

definition any_dfs_visit ::
  "dfs_search_state \<Rightarrow> dfa_transition \<Rightarrow> entry \<Rightarrow> search_state list \<Rightarrow> search_state list \<times> search_state option" where
  "any_dfs_visit f t x V =
     visited_insert (SearchState (dfa_to t) (fst x) (visited_find (ds_state f, ds_node f) V) (dfa_inverse t) (type_id t)) V"

definition any_dfs_expand :: "path_query \<Rightarrow> dfs_search_state \<Rightarrow> any_dfs \<Rightarrow> any_dfs \<times> search_state option" where
  "any_dfs_expand Q f S =
     (case expand_cursor (provider Q) (transitions_from Q (ds_state f)) (ds_node f) True (any_dfs_visit f)
             (ds_cur f) (any_searches S) (any_visited S) of
        (c, k, V, r) \<Rightarrow>
          (S\<lparr>any_visited := V, any_searches := k, any_open := f\<lparr>ds_cur := c\<rparr> # tl (any_open S)\<rparr>, r))"

partial_function (option) any_dfs_loop :: "bool \<Rightarrow> path_query \<Rightarrow> any_dfs \<Rightarrow> (any_dfs \<times> search_state option) option" where
  "any_dfs_loop multiple_final Q S =
     (case any_open S of
        [] \<Rightarrow> Some (S, None)
      | f # _ \<Rightarrow>
          (case any_dfs_expand Q f S of
             (S', None) \<Rightarrow> any_dfs_loop multiple_final Q (S'\<lparr>any_open := tl (any_open S')\<rparr>)
           | (S', Some reached) \<Rightarrow>
               (let S1 = S'\<lparr>any_open := new_frame (node_id reached) (automaton_state reached) # any_open S'\<rparr> in
                if is_final Q (automaton_state reached) then
                  if multiple_final then
                    if node_id reached \<notin> set (any_reached S1)
                    then Some (S1\<lparr>any_reached := node_id reached # any_reached S1, any_found := Suc (any_found S1)\<rparr>, Some reached)
                    else any_dfs_loop multiple_final Q S1
                  else Some (S1\<lparr>any_found := Suc (any_found S1)\<rparr>, Some reached)
                else any_dfs_loop multiple_final Q S1)))"

declare any_dfs_loop.simps [code]

definition any_dfs_next :: "bool \<Rightarrow> path_query \<Rightarrow> any_dfs \<Rightarrow> (any_dfs \<times> search_state option) option" where
  "any_dfs_next multiple_final Q S =
     (if any_first S then
        (let S1 = S\<lparr>any_first := False\<rparr>; current = hd (any_open S1) in
         if \<not> node_exists Q (ds_node current) then Some (S1\<lparr>any_open := tl (any_open S1)\<rparr>, None)
         else if is_final Q (start_state (automaton Q)) then
           (let reached = SearchState (start_state (automaton Q)) (ds_node current) None True null_object_id;
                S2 = (if multiple_final then S1\<lparr>any_reached := ds_node current # any_reached S1\<rparr> else S1);
                V = fst (visited_insert reached (any_visited S2))
            in Some (S2\<lparr>any_visited := V, any_found := Suc (any_found S2)\<rparr>, visited_find (key_of_state reached) V))
         else any_dfs_loop multiple_final Q S1)
      else any_dfs_loop multiple_final Q S)"

section \<open>DFSCheck\<close>

text \<open>\<open>begin\<close> stores the id of the end node; \<open>reset\<close> does not.\<close>

definition any_dfs_check_begin :: "path_query \<Rightarrow> any_dfs \<Rightarrow> any_dfs" where
  "any_dfs_check_begin Q S = (any_dfs_begin Q S)\<lparr>any_end := end_object_id Q\<rparr>"

definition any_dfs_check_reset :: "path_query \<Rightarrow> any_dfs \<Rightarrow> any_dfs" where
  "any_dfs_check_reset Q S = S\<lparr>any_first := True,
     any_open := [new_frame (start_object_id Q) (start_state (automaton Q))],
     any_visited := fst (visited_insert (start_state_of Q) [])\<rparr>"

partial_function (option) any_dfs_check_loop :: "path_query \<Rightarrow> any_dfs \<Rightarrow> (any_dfs \<times> search_state option) option" where
  "any_dfs_check_loop Q S =
     (case any_open S of
        [] \<Rightarrow> Some (S, None)
      | f # _ \<Rightarrow>
          (case any_dfs_expand Q f S of
             (S', None) \<Rightarrow> any_dfs_check_loop Q (S'\<lparr>any_open := tl (any_open S')\<rparr>)
           | (S', Some reached) \<Rightarrow>
               (let S1 = S'\<lparr>any_open := new_frame (node_id reached) (automaton_state reached) # any_open S'\<rparr> in
                if is_final Q (automaton_state reached) \<and> node_id reached = any_end S1
                then Some (S1\<lparr>any_open := [], any_found := Suc (any_found S1)\<rparr>, Some reached)
                else any_dfs_check_loop Q S1)))"

declare any_dfs_check_loop.simps [code]

definition any_dfs_check_next :: "path_query \<Rightarrow> any_dfs \<Rightarrow> (any_dfs \<times> search_state option) option" where
  "any_dfs_check_next Q S =
     (if any_first S then
        (let S1 = S\<lparr>any_first := False\<rparr>; current = hd (any_open S1) in
         if \<not> node_exists Q (ds_node current) then Some (S1\<lparr>any_open := tl (any_open S1)\<rparr>, None)
         else if is_final Q (start_state (automaton Q)) \<and> ds_node current = any_end S1 then
           (let reached = SearchState (start_state (automaton Q)) (ds_node current) None True null_object_id;
                V = fst (visited_insert reached (any_visited S1))
            in Some (S1\<lparr>any_visited := V, any_open := [], any_found := Suc (any_found S1)\<rparr>,
                     visited_find (key_of_state reached) V))
         else any_dfs_check_loop Q S1)
      else any_dfs_check_loop Q S)"

section \<open>The invariant\<close>

definition frame_key :: "dfs_search_state \<Rightarrow> key" where
  "frame_key f = (ds_state f, ds_node f)"

definition to_visit :: "path_query \<Rightarrow> dfs_search_state \<Rightarrow> arrow list" where
  "to_visit Q f = upcoming (provider Q) (transitions_from Q (ds_state f)) (ds_node f) (ds_cur f)"

definition any_inv :: "path_query \<Rightarrow> search_state list \<Rightarrow> dfs_search_state list \<Rightarrow> bool" where
  "any_inv Q V fs \<longleftrightarrow> start_state_of Q \<in> set V \<and> distinct (map key_of_state V) \<and> (\<forall>s \<in> set V. linked Q s) \<and>
     (\<forall>f \<in> set fs. cursor_ok (transitions_from Q (ds_state f)) (ds_cur f) \<and> frame_key f \<in> key_of_state ` set V) \<and>
     (\<forall>x \<in> key_of_state ` set V. \<forall>a \<in> set (arrows_from Q x).
        arrow_key a \<in> key_of_state ` set V \<or> (\<exists>f \<in> set fs. frame_key f = x \<and> a \<in> set (to_visit Q f)))"

lemma visited_find_key:
  assumes "distinct (map key_of_state V)" "s \<in> set V"
  shows "visited_find (key_of_state s) V = Some s"
proof -
  have "\<exists>s'. visited_find (key_of_state s) V = Some s'"
    unfolding visited_find_def using assms(2) by (metis (mono_tags, lifting) find_None_iff not_Some_eq)
  then obtain s' where s': "visited_find (key_of_state s) V = Some s'" by blast
  then have "s' \<in> set V" "key_of_state s' = key_of_state s"
    unfolding visited_find_def by (auto simp: find_Some_iff)
  then have "s' = s" using assms by (simp add: distinct_map inj_on_def)
  with s' show ?thesis by simp
qed

text \<open>The scan for an unvisited neighbour.\<close>

lemma scan_any_visit:
  assumes p: "visited_find (frame_key f) V = Some p"
    and sc: "scan (step_of (any_dfs_visit f)) V P = (V', rest, r)"
  shows "case r of
      None \<Rightarrow> V' = V \<and> (\<forall>a \<in> set P. arrow_key a \<in> key_of_state ` set V)
    | Some s \<Rightarrow> \<exists>P1 a. P = P1 @ a # rest \<and> (\<forall>b \<in> set P1. arrow_key b \<in> key_of_state ` set V) \<and>
        s = arrow_state p a \<and> arrow_key a \<notin> key_of_state ` set V \<and> V' = V @ [s]"
  using sc
proof (induction P)
  case (Cons a P)
  have v: "any_dfs_visit f (fst a) (snd a) V = visited_insert (arrow_state p a) V"
    using p by (simp add: any_dfs_visit_def arrow_state_def frame_key_def)
  show ?case
  proof (cases "arrow_key a \<in> key_of_state ` set V")
    case True
    then have "any_dfs_visit f (fst a) (snd a) V = (V, None)" by (simp add: v visited_insert_def)
    then have "scan (step_of (any_dfs_visit f)) V P = (V', rest, r)" using Cons.prems by (simp add: step_of_def [abs_def])
    from Cons.IH [OF this] True show ?thesis
      by (cases r) (auto intro: exI [of _ "a # _"])
  next
    case False
    then have "any_dfs_visit f (fst a) (snd a) V = (V @ [arrow_state p a], Some (arrow_state p a))"
      by (simp add: v visited_insert_def)
    then have "V' = V @ [arrow_state p a]" "rest = P" "r = Some (arrow_state p a)" using Cons.prems by (simp_all add: step_of_def)
    then show ?thesis using False by (auto intro!: exI [of _ "[]"])
  qed
qed auto

lemma arrows_from_frame: "at_end (iter (ds_cur f)) \<Longrightarrow> to_visit Q f = arrows_from Q (frame_key f)"
  by (simp add: to_visit_def upcoming_def arrows_from_def frame_key_def)

lemma any_inv_pop:
  assumes inv: "any_inv Q V (f # fs)" and all: "\<forall>a \<in> set (to_visit Q f). arrow_key a \<in> key_of_state ` set V"
  shows "any_inv Q V fs"
proof -
  have "arrow_key a \<in> key_of_state ` set V \<or> (\<exists>h \<in> set fs. frame_key h = x \<and> a \<in> set (to_visit Q h))"
    if x: "x \<in> key_of_state ` set V" and a: "a \<in> set (arrows_from Q x)" for x a
  proof -
    have "arrow_key a \<in> key_of_state ` set V \<or> (\<exists>h \<in> set (f # fs). frame_key h = x \<and> a \<in> set (to_visit Q h))"
      using inv x a unfolding any_inv_def by blast
    then show ?thesis using all by auto
  qed
  then show ?thesis using inv unfolding any_inv_def by simp
qed

text \<open>One expansion of the top frame. In addition to the invariant, what it visits comes from the
  frame: \<open>below\<close> says that the pending pairs of every frame are pairs of its key.\<close>

definition frames_below :: "path_query \<Rightarrow> dfs_search_state list \<Rightarrow> bool" where
  "frames_below Q fs \<longleftrightarrow> (\<forall>f \<in> set fs. set (to_visit Q f) \<subseteq> set (arrows_from Q (frame_key f)))"

lemma any_dfs_expand_spec:
  assumes prov: "provider_ok (provider Q)" and inv: "any_inv Q (any_visited S) (f # fs)" and below: "frames_below Q (f # fs)"
    and front: "any_open S = f # fs" and run: "any_dfs_expand Q f S = (S', r)"
  shows "\<exists>f'. any_open S' = f' # fs \<and> any_first S' = any_first S \<and> any_reached S' = any_reached S \<and> any_end S' = any_end S \<and>
    (case r of
       None \<Rightarrow> any_visited S' = any_visited S \<and> any_inv Q (any_visited S) fs
     | Some s \<Rightarrow> any_visited S' = any_visited S @ [s] \<and> linked Q s \<and> key_of_state s \<in> all_keys Q \<and>
         key_of_state s \<notin> key_of_state ` set (any_visited S) \<and>
         any_inv Q (any_visited S @ [s]) (new_frame (node_id s) (automaton_state s) # f' # fs) \<and>
         frames_below Q (new_frame (node_id s) (automaton_state s) # f' # fs))"
proof -
  let ?V = "any_visited S" and ?ts = "transitions_from Q (ds_state f)"
  obtain c k V' where X: "expand_cursor (provider Q) ?ts (ds_node f) True (any_dfs_visit f) (ds_cur f) (any_searches S) ?V = (c, k, V', r)"
    and S': "S' = S\<lparr>any_visited := V', any_searches := k, any_open := f\<lparr>ds_cur := c\<rparr> # tl (any_open S)\<rparr>"
    using run by (auto simp: any_dfs_expand_def split: prod.splits)
  let ?f = "f\<lparr>ds_cur := c\<rparr>"
  have cok: "cursor_ok ?ts (ds_cur f)" and fk: "frame_key f \<in> key_of_state ` set ?V" and d: "distinct (map key_of_state ?V)"
    using inv by (simp_all add: any_inv_def)
  obtain rest where sc: "scan (step_of (any_dfs_visit f)) ?V (to_visit Q f) = (V', rest, r)" "cursor_ok ?ts c"
    "case r of None \<Rightarrow> at_end (iter c) \<and> rest = []
     | Some x \<Rightarrow> \<not> at_end (iter c) \<and> rest = upcoming (provider Q) ?ts (ds_node f) c"
    using expand_cursor_scan [OF prov cok _ X] by (auto simp: to_visit_def)
  obtain p where p: "p \<in> set ?V" "key_of_state p = frame_key f" using fk by auto
  have fp: "visited_find (frame_key f) ?V = Some p" using visited_find_key [OF d p(1)] p(2) by simp
  note V = scan_any_visit [OF fp sc(1)]
  have k: "frame_key ?f = frame_key f" by (simp add: frame_key_def)
  show ?thesis
  proof (cases r)
    case None
    then have "V' = ?V" "\<forall>a \<in> set (to_visit Q f). arrow_key a \<in> key_of_state ` set ?V" using V by simp_all
    moreover from this(2) have "any_inv Q ?V fs" by (rule any_inv_pop [OF inv])
    ultimately show ?thesis using S' front None by (intro exI [of _ ?f]) simp
  next
    case (Some s)
    then obtain P1 a where P: "to_visit Q f = P1 @ a # rest" "\<forall>b \<in> set P1. arrow_key b \<in> key_of_state ` set ?V"
      "s = arrow_state p a" "arrow_key a \<notin> key_of_state ` set ?V" "V' = ?V @ [s]" using V by auto
    have rest: "to_visit Q ?f = rest" using sc(3) Some by (simp add: to_visit_def)
    have af: "set (to_visit Q f) \<subseteq> set (arrows_from Q (frame_key f))" using below by (simp add: frames_below_def)
    have a: "a \<in> set (arrows_from Q (key_of_state p))" using af P(1) p(2) by auto
    let ?g = "new_frame (node_id s) (automaton_state s)"
    have g: "to_visit Q ?g = arrows_from Q (key_of_state s)" "frame_key ?g = key_of_state s"
      "cursor_ok (transitions_from Q (ds_state ?g)) (ds_cur ?g)"
      by (simp_all add: to_visit_def new_frame_def null_cursor_def upcoming_def arrows_from_def frame_key_def key_of_state_def cursor_ok_def)
    have sk: "key_of_state s = arrow_key a" by (simp add: P(3))
    have l: "linked Q s" unfolding P(3) by (rule linked_arrow_state) (use inv p(1) a in \<open>simp_all add: any_inv_def\<close>)
    have ak: "key_of_state s \<in> all_keys Q"
      unfolding sk arrow_key_def by (rule transitions_from_all [OF arrows_from_transition [OF a]])
    have cl: "arrow_key b \<in> key_of_state ` set (?V @ [s]) \<or> (\<exists>h \<in> set (?g # ?f # fs). frame_key h = x \<and> b \<in> set (to_visit Q h))"
      if x: "x \<in> key_of_state ` set (?V @ [s])" and b: "b \<in> set (arrows_from Q x)" for x b
    proof (cases "x = key_of_state s")
      case True
      then show ?thesis using b g by simp
    next
      case False
      then have "x \<in> key_of_state ` set ?V" using x by simp
      then consider "arrow_key b \<in> key_of_state ` set ?V" | h where "h \<in> set (f # fs)" "frame_key h = x" "b \<in> set (to_visit Q h)"
        using inv b unfolding any_inv_def by blast
      then show ?thesis
      proof cases
        case 2
        have "b \<in> set P1 \<or> b = a \<or> b \<in> set rest" if "h = f" using 2(3) unfolding that P(1) set_append list.set by blast
        then consider "h \<in> set fs" | "b \<in> set P1" | "b = a" | "b \<in> set rest" "h = f" using 2(1) by fastforce
        then show ?thesis
        proof cases
          case 4
          then show ?thesis using 2(2) rest k by simp
        qed (use 2 P(2) sk in auto)
      qed simp
    qed
    have "any_inv Q (?V @ [s]) (?g # ?f # fs)"
      unfolding any_inv_def
    proof (intro conjI ballI)
      fix h assume "h \<in> set (?g # ?f # fs)"
      then show "cursor_ok (transitions_from Q (ds_state h)) (ds_cur h)" "frame_key h \<in> key_of_state ` set (?V @ [s])"
        using inv g k sc(2) fk unfolding any_inv_def by auto
    next
      fix x b assume "x \<in> key_of_state ` set (?V @ [s])" "b \<in> set (arrows_from Q x)"
      then show "arrow_key b \<in> key_of_state ` set (?V @ [s]) \<or> (\<exists>h \<in> set (?g # ?f # fs). frame_key h = x \<and> b \<in> set (to_visit Q h))"
        by (rule cl)
    qed (use inv l P(4) sk in \<open>auto simp: any_inv_def\<close>)
    moreover have "frames_below Q (?g # ?f # fs)" using below g rest P(1) k by (auto simp: frames_below_def)
    ultimately show ?thesis
      using S' front Some P(4,5) l ak sk by (intro exI [of _ ?f]) simp
  qed
qed

section \<open>The loops\<close>

definition any_weight :: "path_query \<Rightarrow> any_dfs \<Rightarrow> nat" where
  "any_weight Q S = 2 * card (all_keys Q - key_of_state ` set (any_visited S)) + length (any_open S)"

definition any_state_ok :: "bool \<Rightarrow> path_query \<Rightarrow> any_dfs \<Rightarrow> bool" where
  "any_state_ok mf Q S \<longleftrightarrow> any_inv Q (any_visited S) (any_open S) \<and> frames_below Q (any_open S) \<and>
     (mf \<longrightarrow> set (any_reached S) = final_nodes Q (any_visited S))"

text \<open>With a single final state a new final state has a new node.\<close>

lemma new_final_node:
  assumes "final_mode_ok mf Q" "\<not> mf" "\<forall>s \<in> set V. linked Q s" "linked Q s"
    and "key_of_state s \<notin> key_of_state ` set V" "is_final Q (automaton_state s)"
  shows "node_id s \<notin> final_nodes Q V"
proof
  assume "node_id s \<in> final_nodes Q V"
  then obtain s' where s': "s' \<in> set V" "is_final Q (automaton_state s')" "node_id s' = node_id s"
    by (auto simp: final_nodes_def)
  have "automaton_state s' = automaton_state s"
    using assms(1,2) s'(2) assms(6) linked_state_space [of Q s'] linked_state_space [OF assms(4)] assms(3) s'(1)
    unfolding final_mode_ok_def by blast
  then have "key_of_state s' = key_of_state s" using s'(3) by (simp add: key_of_state_def)
  then show False using assms(5) s'(1) by (metis image_eqI)
qed

lemma any_dfs_loop_spec:
  assumes prov: "provider_ok (provider Q)" and mode: "final_mode_ok mf Q"
  shows "any_state_ok mf Q S \<Longrightarrow> \<exists>S' r. any_dfs_loop mf Q S = Some (S', r) \<and> any_first S' = any_first S \<and> any_state_ok mf Q S' \<and>
    (case r of
       None \<Rightarrow> first_finals Q {} (any_visited S') = first_finals Q {} (any_visited S) \<and> any_open S' = []
     | Some s \<Rightarrow> first_finals Q {} (any_visited S') = first_finals Q {} (any_visited S) @ [s] \<and> any_weight Q S' < any_weight Q S)"
proof (induction "any_weight Q S" arbitrary: S rule: less_induct)
  case less
  let ?V = "any_visited S"
  show ?case
  proof (cases "any_open S")
    case Nil
    then show ?thesis using less.prems
      by (intro exI [of _ S] exI [of _ None]) (simp add: any_dfs_loop.simps [of _ _ S])
  next
    case (Cons f fs)
    obtain T r where e: "any_dfs_expand Q f S = (T, r)" by fastforce
    have inv: "any_inv Q ?V (f # fs)" "frames_below Q (f # fs)" "mf \<longrightarrow> set (any_reached S) = final_nodes Q ?V"
      using less.prems Cons by (simp_all add: any_state_ok_def)
    obtain f' where E: "any_open T = f' # fs" "any_first T = any_first S" "any_reached T = any_reached S"
      "case r of
         None \<Rightarrow> any_visited T = ?V \<and> any_inv Q ?V fs
       | Some s \<Rightarrow> any_visited T = ?V @ [s] \<and> linked Q s \<and> key_of_state s \<in> all_keys Q \<and>
           key_of_state s \<notin> key_of_state ` set ?V \<and>
           any_inv Q (?V @ [s]) (new_frame (node_id s) (automaton_state s) # f' # fs) \<and>
           frames_below Q (new_frame (node_id s) (automaton_state s) # f' # fs)"
      using any_dfs_expand_spec [OF prov inv(1,2) Cons e] by blast
    show ?thesis
    proof (cases r)
      case None
      let ?S = "T\<lparr>any_open := fs\<rparr>"
      have l: "any_dfs_loop mf Q S = any_dfs_loop mf Q ?S" using Cons e None E(1) by (simp add: any_dfs_loop.simps [of _ _ S])
      have w: "any_weight Q ?S < any_weight Q S" using E(4) None Cons by (simp add: any_weight_def)
      have ok: "any_state_ok mf Q ?S" using E None inv by (simp add: any_state_ok_def frames_below_def)
      have q: "any_first ?S = any_first S" "any_visited ?S = ?V" using E(2,4) None by simp_all
      obtain S' r' where R: "any_dfs_loop mf Q ?S = Some (S', r')" "any_first S' = any_first S" "any_state_ok mf Q S'"
        "case r' of
           None \<Rightarrow> first_finals Q {} (any_visited S') = first_finals Q {} ?V \<and> any_open S' = []
         | Some s \<Rightarrow> first_finals Q {} (any_visited S') = first_finals Q {} ?V @ [s] \<and> any_weight Q S' < any_weight Q ?S"
        using less.hyps [OF w ok] unfolding q by blast
      then show ?thesis unfolding l using w by (intro exI [of _ S'] exI [of _ r']) (auto split: option.splits)
    next
      case (Some s)
      note G = E(4) [unfolded Some option.case]
      let ?fs = "new_frame (node_id s) (automaton_state s) # f' # fs"
      let ?S = "T\<lparr>any_open := ?fs\<rparr>"
      have w: "any_weight Q ?S < any_weight Q S"
        using G Cons card_unvisited [of "key_of_state s" Q "key_of_state ` set ?V"] by (simp add: any_weight_def)
      have lk: "\<forall>s \<in> set ?V. linked Q s" using inv(1) by (simp add: any_inv_def)
      define found where "found \<longleftrightarrow> is_final Q (automaton_state s) \<and> (mf \<longrightarrow> node_id s \<notin> set (any_reached S))"
      have ff: "first_finals Q {} (?V @ [s]) = first_finals Q {} ?V @ (if found then [s] else [])"
        using new_final_node [OF mode _ lk, of s] G inv(3) by (auto simp: first_finals_snoc found_def)
      let ?R = "?S\<lparr>any_reached := (if mf then node_id s # any_reached S else any_reached S), any_found := Suc (any_found T)\<rparr>"
      have l: "any_dfs_loop mf Q S = (if found then Some (?R, Some s) else any_dfs_loop mf Q ?S)"
        using Cons e Some E(1,3) by (simp add: any_dfs_loop.simps [of _ _ S] Let_def found_def)
      show ?thesis
      proof (cases found)
        case True
        have "any_state_ok mf Q ?R" using G inv(3) True by (auto simp: any_state_ok_def found_def)
        moreover have "any_weight Q ?R < any_weight Q S" using w by (simp add: any_weight_def)
        moreover have "first_finals Q {} (any_visited ?R) = first_finals Q {} ?V @ [s]" using ff True G by simp
        moreover have "any_first ?R = any_first S" using E(2) by simp
        ultimately show ?thesis unfolding l using True by (intro exI [of _ ?R] exI [of _ "Some s"]) simp
      next
        case False
        have ok: "any_state_ok mf Q ?S" using G inv(3) False E(3) by (auto simp: any_state_ok_def found_def)
        have q: "any_first ?S = any_first S" "first_finals Q {} (any_visited ?S) = first_finals Q {} ?V"
          using E(2) G ff False by simp_all
        obtain S' r' where R: "any_dfs_loop mf Q ?S = Some (S', r')" "any_first S' = any_first S" "any_state_ok mf Q S'"
          "case r' of
             None \<Rightarrow> first_finals Q {} (any_visited S') = first_finals Q {} ?V \<and> any_open S' = []
           | Some s \<Rightarrow> first_finals Q {} (any_visited S') = first_finals Q {} ?V @ [s] \<and> any_weight Q S' < any_weight Q ?S"
          using less.hyps [OF w ok] unfolding q by blast
        then show ?thesis unfolding l using w False by (intro exI [of _ S'] exI [of _ r']) (auto split: option.splits)
      qed
    qed
  qed
qed

section \<open>What is visited\<close>

lemma any_inv_reachable:
  assumes inv: "any_inv Q V []"
  shows "key_of_state ` set V = (product_step Q)\<^sup>* `` {start_key Q}"
proof (intro equalityI subsetI)
  fix x assume "x \<in> key_of_state ` set V"
  then obtain s where s: "s \<in> set V" "x = key_of_state s" by blast
  then have "linked Q s" using inv by (simp add: any_inv_def)
  from linked_walk [OF this] show "x \<in> (product_step Q)\<^sup>* `` {start_key Q}" using s(2) by (auto dest: relpow_imp_rtrancl)
next
  fix x assume "x \<in> (product_step Q)\<^sup>* `` {start_key Q}"
  then have "(start_key Q, x) \<in> (product_step Q)\<^sup>*" by simp
  then show "x \<in> key_of_state ` set V"
  proof (induction rule: rtrancl_induct)
    case base
    have "start_state_of Q \<in> set V" using inv by (simp add: any_inv_def)
    then have "key_of_state (start_state_of Q) \<in> key_of_state ` set V" by (rule imageI)
    then show ?case by simp
  next
    case (step x y)
    then obtain a where "a \<in> set (arrows_from Q x)" "y = arrow_key a" by (auto simp: product_step_def)
    then show ?case using step.IH inv unfolding any_inv_def by auto
  qed
qed

lemma any_inv_final_nodes:
  assumes "any_inv Q V []"
  shows "final_nodes Q V = {n. \<exists>q. is_final Q q \<and> (start_key Q, (q, n)) \<in> (product_step Q)\<^sup>*}"
proof -
  have "n \<in> final_nodes Q V \<longleftrightarrow> (\<exists>q. is_final Q q \<and> (q, n) \<in> key_of_state ` set V)" for n
    by (force simp: final_nodes_def key_of_state_def)
  then show ?thesis unfolding any_inv_reachable [OF assms] by auto
qed

section \<open>Results\<close>

lemma any_dfs_drains:
  assumes prov: "provider_ok (provider Q)" and mode: "final_mode_ok mf Q"
  shows "any_state_ok mf Q S \<Longrightarrow> \<not> any_first S \<Longrightarrow>
    \<exists>rs S'. drains (any_dfs_next mf Q) S rs S' \<and> any_state_ok mf Q S' \<and> any_open S' = [] \<and>
      first_finals Q {} (any_visited S') = first_finals Q {} (any_visited S) @ rs"
proof (induction "any_weight Q S" arbitrary: S rule: less_induct)
  case less
  obtain S' r where L: "any_dfs_loop mf Q S = Some (S', r)" "any_first S' = any_first S" "any_state_ok mf Q S'"
    "case r of
       None \<Rightarrow> first_finals Q {} (any_visited S') = first_finals Q {} (any_visited S) \<and> any_open S' = []
     | Some s \<Rightarrow> first_finals Q {} (any_visited S') = first_finals Q {} (any_visited S) @ [s] \<and> any_weight Q S' < any_weight Q S"
    using any_dfs_loop_spec [OF prov mode less.prems(1)] by blast
  have n: "any_dfs_next mf Q S = Some (S', r)" using L(1) less.prems(2) by (simp add: any_dfs_next_def)
  show ?case
  proof (cases r)
    case None
    then have "drains (any_dfs_next mf Q) S [] S'" using n by (auto intro: drains_Nil)
    then show ?thesis using L(3,4) None by (intro exI [of _ "[]"] exI [of _ S']) simp
  next
    case (Some s)
    then obtain rs T where "drains (any_dfs_next mf Q) S' rs T" "any_state_ok mf Q T" "any_open T = []"
      "first_finals Q {} (any_visited T) = first_finals Q {} (any_visited S') @ rs"
      using less.hyps [of S'] L less.prems(2) by auto
    moreover from this(1) have "drains (any_dfs_next mf Q) S (s # rs) T" using n Some by (auto intro: drains_Cons)
    ultimately show ?thesis using L(4) Some by auto
  qed
qed

text \<open>The object after \<open>begin\<close> or \<open>reset\<close>.\<close>

definition any_fresh :: "bool \<Rightarrow> path_query \<Rightarrow> any_dfs \<Rightarrow> bool" where
  "any_fresh mf Q S \<longleftrightarrow> any_first S \<and> any_open S = [new_frame (start_object_id Q) (start_state (automaton Q))] \<and>
     any_visited S = [start_state_of Q] \<and> (mf \<longrightarrow> any_reached S = [])"

lemma any_fresh_begin: "any_fresh mf Q (any_dfs_begin Q any_dfs_new)"
  by (simp add: any_fresh_def any_dfs_begin_def any_dfs_new_def visited_insert_def)

lemma any_fresh_reset: "any_fresh mf Q (any_dfs_reset mf Q S)"
  by (simp add: any_fresh_def any_dfs_reset_def visited_insert_def)

lemma any_start_inv:
  "any_inv Q [start_state_of Q] [new_frame (start_object_id Q) (start_state (automaton Q))] \<and>
   frames_below Q [new_frame (start_object_id Q) (start_state (automaton Q))]"
proof -
  let ?f = "new_frame (start_object_id Q) (start_state (automaton Q))"
  have "frame_key ?f = start_key Q" "to_visit Q ?f = arrows_from Q (start_key Q)"
    "cursor_ok (transitions_from Q (ds_state ?f)) (ds_cur ?f)"
    by (simp_all add: frame_key_def new_frame_def start_key_def to_visit_def null_cursor_def upcoming_def arrows_from_def cursor_ok_def)
  then show ?thesis by (simp add: any_inv_def frames_below_def)
qed

lemma start_find: "visited_find (start_key Q) [start_state_of Q] = Some (start_state_of Q)"
  by (simp add: visited_find_def)

lemma start_again: "SearchState (start_state (automaton Q)) (start_object_id Q) None True null_object_id = start_state_of Q"
  by (simp add: start_state_of_def)

lemma any_dfs_results:
  assumes prov: "provider_ok (provider Q)" and mode: "final_mode_ok mf Q"
    and S: "any_fresh mf Q S" and ex: "node_exists Q (start_object_id Q)"
  shows "\<exists>rs S' V. drains (any_dfs_next mf Q) S rs S' \<and> any_inv Q V [] \<and> rs = first_finals Q {} V"
proof -
  let ?s = "start_state_of Q" and ?c = "is_final Q (start_state (automaton Q))"
  let ?R = "if mf then start_object_id Q # any_reached S else any_reached S"
  let ?T = "S\<lparr>any_first := False\<rparr>"
  let ?U = "?T\<lparr>any_reached := ?R, any_found := Suc (any_found S)\<rparr>"
  have V: "any_visited S = [?s]" "any_open S = [new_frame (start_object_id Q) (start_state (automaton Q))]"
    "mf \<longrightarrow> any_reached S = []" "any_first S" using S by (simp_all add: any_fresh_def)
  have fin: "final_nodes Q [?s] = (if ?c then {start_object_id Q} else {})" by (simp add: start_state_of_def)
  have ff: "first_finals Q {} [?s] = (if ?c then [?s] else [])" by (simp add: start_state_of_def)
  show ?thesis
  proof (cases ?c)
    case True
    have n: "any_dfs_next mf Q S = Some (?U, Some ?s)"
      using V ex True start_find
      by (simp add: any_dfs_next_def new_frame_def Let_def start_again visited_insert_def)
    have "any_state_ok mf Q ?U"
      using any_start_inv [of Q] V fin True by (simp add: any_state_ok_def)
    then obtain rs S' where "drains (any_dfs_next mf Q) ?U rs S'" "any_inv Q (any_visited S') []"
      "first_finals Q {} (any_visited S') = ?s # rs"
      using any_dfs_drains [OF prov mode, of ?U] V ff True by (auto simp: any_state_ok_def)
    then show ?thesis using n by (metis drains_Cons)
  next
    case False
    have n: "any_dfs_next mf Q S = any_dfs_next mf Q ?T"
      using V ex False by (simp add: any_dfs_next_def new_frame_def Let_def)
    have "any_state_ok mf Q ?T" using any_start_inv [of Q] V fin False by (simp add: any_state_ok_def)
    then obtain rs S' where D: "drains (any_dfs_next mf Q) ?T rs S'" "any_inv Q (any_visited S') []"
      "first_finals Q {} (any_visited S') = rs"
      using any_dfs_drains [OF prov mode, of ?T] V ff False by (auto simp: any_state_ok_def)
    from D(1) have "drains (any_dfs_next mf Q) S rs S'"
      by (cases rule: drains.cases) (auto simp: n intro: drains.intros)
    then show ?thesis using D by blast
  qed
qed

context graph_provider begin

lemma any_dfs_enum:
  assumes Q: "provider Q = prov" "dfa_ok (automaton Q)" and mf: "mf = (total_final_states (automaton Q) > 1)"
    and S: "any_fresh mf Q S" and ex: "node_exists Q (start_object_id Q)"
  shows "\<exists>rs S'. drains (any_dfs_next mf Q) S rs S' \<and> distinct (map node_id rs) \<and>
    node_id ` set rs = answers E Q \<and> (\<forall>r \<in> set rs. valid_result E Q r)"
proof -
  have p: "provider_ok (provider Q)" using prov_ok Q(1) by simp
  have m: "final_mode_ok mf Q" using final_mode_ok_planner [OF Q(2)] mf by simp
  obtain rs S' V where D: "drains (any_dfs_next mf Q) S rs S'" "any_inv Q V []" "rs = first_finals Q {} V"
    using any_dfs_results [OF p m S ex] by blast
  have n: "node_id ` set rs = answers E Q"
    using reach_answers [OF Q] any_inv_final_nodes [OF D(2)] by (auto simp: D(3) first_finals_nodes)
  have v: "valid_result E Q r" if r: "r \<in> set rs" for r
  proof -
    have "r \<in> set V" "is_final Q (automaton_state r)" using r first_finals_subset [of Q "{}" V] D(3) by auto
    moreover from this(1) have "linked Q r" using D(2) by (simp add: any_inv_def)
    ultimately show ?thesis using linked_valid [OF Q] by blast
  qed
  have "distinct (map node_id rs)" using first_finals_distinct D(3) by simp
  then show ?thesis using D(1) n v by blast
qed

end

section \<open>The check\<close>

definition any_hit :: "path_query \<Rightarrow> object_id \<Rightarrow> search_state \<Rightarrow> bool" where
  "any_hit Q e s \<longleftrightarrow> is_final Q (automaton_state s) \<and> node_id s = e"

lemma any_dfs_check_loop_spec:
  assumes prov: "provider_ok (provider Q)"
  shows "any_inv Q (any_visited S) (any_open S) \<Longrightarrow> frames_below Q (any_open S) \<Longrightarrow>
    \<forall>s \<in> set (any_visited S). \<not> any_hit Q (any_end S) s \<Longrightarrow>
    \<exists>S' r. any_dfs_check_loop Q S = Some (S', r) \<and> any_open S' = [] \<and> any_first S' = any_first S \<and>
    (case r of
       None \<Rightarrow> any_inv Q (any_visited S') [] \<and> (\<forall>s \<in> set (any_visited S'). \<not> any_hit Q (any_end S) s)
     | Some s \<Rightarrow> linked Q s \<and> any_hit Q (any_end S) s)"
proof (induction "any_weight Q S" arbitrary: S rule: less_induct)
  case less
  let ?V = "any_visited S"
  show ?case
  proof (cases "any_open S")
    case Nil
    then show ?thesis using less.prems
      by (intro exI [of _ S] exI [of _ None]) (simp add: any_dfs_check_loop.simps [of _ S])
  next
    case (Cons f fs)
    obtain T r where e: "any_dfs_expand Q f S = (T, r)" by fastforce
    have inv: "any_inv Q ?V (f # fs)" "frames_below Q (f # fs)" using less.prems Cons by simp_all
    obtain f' where E: "any_open T = f' # fs" "any_first T = any_first S" "any_end T = any_end S"
      "case r of
         None \<Rightarrow> any_visited T = ?V \<and> any_inv Q ?V fs
       | Some s \<Rightarrow> any_visited T = ?V @ [s] \<and> linked Q s \<and> key_of_state s \<in> all_keys Q \<and>
           key_of_state s \<notin> key_of_state ` set ?V \<and>
           any_inv Q (?V @ [s]) (new_frame (node_id s) (automaton_state s) # f' # fs) \<and>
           frames_below Q (new_frame (node_id s) (automaton_state s) # f' # fs)"
      using any_dfs_expand_spec [OF prov inv(1,2) Cons e] by blast
    show ?thesis
    proof (cases r)
      case None
      let ?S = "T\<lparr>any_open := fs\<rparr>"
      have l: "any_dfs_check_loop Q S = any_dfs_check_loop Q ?S"
        using Cons e None E(1) by (simp add: any_dfs_check_loop.simps [of _ S])
      have w: "any_weight Q ?S < any_weight Q S" using E(4) None Cons by (simp add: any_weight_def)
      have q: "any_end ?S = any_end S" "any_first ?S = any_first S" "any_visited ?S = ?V" "any_open ?S = fs"
        using E(2-4) None by simp_all
      show ?thesis unfolding l
        using less.hyps [OF w, unfolded q] less.prems(3) E(4) None inv(2) by (simp add: frames_below_def)
    next
      case (Some s)
      note G = E(4) [unfolded Some option.case]
      let ?S = "T\<lparr>any_open := new_frame (node_id s) (automaton_state s) # f' # fs\<rparr>"
      have w: "any_weight Q ?S < any_weight Q S"
        using G Cons card_unvisited [of "key_of_state s" Q "key_of_state ` set ?V"] by (simp add: any_weight_def)
      have l: "any_dfs_check_loop Q S =
        (if any_hit Q (any_end S) s then Some (?S\<lparr>any_open := [], any_found := Suc (any_found T)\<rparr>, Some s)
         else any_dfs_check_loop Q ?S)"
        using Cons e Some E(1,3) by (simp add: any_dfs_check_loop.simps [of _ S] any_hit_def Let_def)
      show ?thesis
      proof (cases "any_hit Q (any_end S) s")
        case True
        then show ?thesis unfolding l using G E(2) by simp
      next
        case False
        have q: "any_end ?S = any_end S" "any_first ?S = any_first S" "any_visited ?S = ?V @ [s]"
          "any_open ?S = new_frame (node_id s) (automaton_state s) # f' # fs"
          using E(2,3) G by simp_all
        show ?thesis unfolding l using less.hyps [OF w, unfolded q] less.prems(3) G False by simp
      qed
    qed
  qed
qed

lemma any_check_drained: "\<not> any_first S \<Longrightarrow> any_open S = [] \<Longrightarrow> drains (any_dfs_check_next Q) S [] S"
  by (rule drains_Nil) (simp add: any_dfs_check_next_def any_dfs_check_loop.simps [of _ S])

text \<open>The search ends with one accepted path to the end node that the object holds, or with none.\<close>

lemma any_dfs_check_results:
  assumes prov: "provider_ok (provider Q)" and S: "any_fresh False Q S" and ex: "node_exists Q (start_object_id Q)"
  shows "\<exists>rs S'. drains (any_dfs_check_next Q) S rs S' \<and> length rs \<le> 1 \<and>
    (\<forall>r \<in> set rs. linked Q r \<and> any_hit Q (any_end S) r) \<and>
    (rs = [] \<longrightarrow> (\<exists>V. any_inv Q V [] \<and> (\<forall>s \<in> set V. \<not> any_hit Q (any_end S) s)))"
proof -
  let ?s = "start_state_of Q"
  let ?T = "S\<lparr>any_first := False\<rparr>"
  have V: "any_visited S = [?s]" "any_open S = [new_frame (start_object_id Q) (start_state (automaton Q))]" "any_first S"
    using S by (simp_all add: any_fresh_def)
  have hit: "any_hit Q (any_end S) ?s \<longleftrightarrow> is_final Q (start_state (automaton Q)) \<and> start_object_id Q = any_end S"
    by (simp add: any_hit_def start_state_of_def)
  show ?thesis
  proof (cases "any_hit Q (any_end S) ?s")
    case True
    let ?U = "?T\<lparr>any_open := [], any_found := Suc (any_found S)\<rparr>"
    have "is_final Q (start_state (automaton Q))" "any_end S = start_object_id Q" using True hit by simp_all
    then have "any_dfs_check_next Q S = Some (?U, Some ?s)"
      using V ex start_find
      by (simp add: any_dfs_check_next_def new_frame_def Let_def start_again visited_insert_def)
    then have "drains (any_dfs_check_next Q) S [?s] ?U" using any_check_drained [of ?U Q] by (auto intro: drains_Cons)
    then show ?thesis using True linked_start [of Q] by (intro exI [of _ "[?s]"] exI [of _ ?U]) simp
  next
    case False
    have n: "any_dfs_check_next Q S = any_dfs_check_loop Q ?T"
      using V ex False [unfolded hit] by (auto simp: any_dfs_check_next_def new_frame_def Let_def)
    have T: "any_visited ?T = [?s]" "any_open ?T = [new_frame (start_object_id Q) (start_state (automaton Q))]"
      "any_end ?T = any_end S" "any_first ?T = False" using V by simp_all
    obtain S' r where L: "any_dfs_check_loop Q ?T = Some (S', r)" "any_open S' = []" "\<not> any_first S'"
      "case r of
         None \<Rightarrow> any_inv Q (any_visited S') [] \<and> (\<forall>s \<in> set (any_visited S'). \<not> any_hit Q (any_end S) s)
       | Some s \<Rightarrow> linked Q s \<and> any_hit Q (any_end S) s"
      using any_dfs_check_loop_spec [OF prov, of ?T, unfolded T] any_start_inv [of Q] False by auto
    show ?thesis
    proof (cases r)
      case None
      then have "drains (any_dfs_check_next Q) S [] S'" using n L(1) by (intro drains_Nil) simp
      then show ?thesis using L(4) None by (intro exI [of _ "[]"] exI [of _ S']) auto
    next
      case (Some s)
      then have "drains (any_dfs_check_next Q) S [s] S'"
        using n L(1) any_check_drained [OF L(3,2)] by (auto intro: drains_Cons)
      then show ?thesis using L(4) Some by (intro exI [of _ "[s]"] exI [of _ S']) simp
    qed
  qed
qed

lemma any_check_fresh_begin:
  "any_fresh False Q (any_dfs_check_begin Q any_dfs_new)" "any_end (any_dfs_check_begin Q S) = end_object_id Q"
  using any_fresh_begin [of False Q] by (simp_all add: any_dfs_check_begin_def any_fresh_def)

lemma any_check_fresh_reset:
  "any_fresh False Q (any_dfs_check_reset Q S)" "any_end (any_dfs_check_reset Q S) = any_end S"
  by (simp_all add: any_fresh_def any_dfs_check_reset_def visited_insert_def)

context graph_provider begin

lemma any_dfs_check_answers:
  assumes Q: "provider Q = prov" "dfa_ok (automaton Q)"
    and S: "any_fresh False Q S" and ex: "node_exists Q (start_object_id Q)"
  shows "\<exists>rs S'. drains (any_dfs_check_next Q) S rs S' \<and> length rs \<le> 1 \<and> (rs = [] \<longleftrightarrow> any_end S \<notin> answers E Q) \<and>
    (\<forall>r \<in> set rs. valid_result E Q r \<and> node_id r = any_end S)"
proof -
  have p: "provider_ok (provider Q)" using prov_ok Q(1) by simp
  obtain rs S' where R: "drains (any_dfs_check_next Q) S rs S'" "length rs \<le> 1"
    "\<forall>r \<in> set rs. linked Q r \<and> any_hit Q (any_end S) r"
    "rs = [] \<longrightarrow> (\<exists>V. any_inv Q V [] \<and> (\<forall>s \<in> set V. \<not> any_hit Q (any_end S) s))"
    using any_dfs_check_results [OF p S ex] by blast
  have v: "valid_result E Q r \<and> node_id r = any_end S" if "r \<in> set rs" for r
    using R(3) that linked_valid [OF Q] by (auto simp: any_hit_def)
  have "node_id r \<in> answers E Q" if "r \<in> set rs" for r
    using v [OF that] trace_walk unfolding answers_def valid_result_def by blast
  then have "any_end S \<notin> answers E Q \<longrightarrow> rs = []" using v by (cases rs) auto
  moreover have "any_end S \<notin> answers E Q" if e: "rs = []"
  proof -
    obtain V where V: "any_inv Q V []" "\<forall>s \<in> set V. \<not> any_hit Q (any_end S) s" using R(4) e by blast
    have "any_end S \<notin> final_nodes Q V" using V(2) by (auto simp: final_nodes_def any_hit_def)
    then show ?thesis using any_inv_final_nodes [OF V(1)] reach_answers [OF Q] by blast
  qed
  ultimately show ?thesis using R(1,2) v by blast
qed

end

end
