(* ===== verification/AnyCheck.thy ===== *)
theory AnyCheck
  imports AnyDfs
begin

text \<open>
  \<open>Paths::AnyShortest::BFSCheck\<close>: one shortest path to the node that \<open>begin\<close> or \<open>reset\<close> stored. The
  search is not pipelined: a call of \<open>next\<close> expands whole states, and the first solution empties the queue.
  The iterator is set before every use, so it is not a field of the record.
\<close>

section \<open>A loop over all transitions\<close>

text \<open>\<open>for (transition : connections) { set_iter; while (iter->next()) body }\<close>, where the body may return;
  the number is \<open>idx_searches\<close>.\<close>

fun for_transitions ::
  "get_iterator \<Rightarrow> object_id \<Rightarrow> (dfa_transition \<Rightarrow> entry \<Rightarrow> 's \<Rightarrow> 's \<times> 'r option) \<Rightarrow> dfa_transition list \<Rightarrow> nat \<Rightarrow> 's \<Rightarrow>
     nat \<times> 's \<times> 'r option" where
  "for_transitions prov node body [] k s = (k, s, None)"
| "for_transitions prov node body (t # ts) k s =
     (case records_loop (body t) (transition_iter prov t node) s of (it, s', r) \<Rightarrow>
        (case r of Some x \<Rightarrow> (Suc k, s', Some x) | None \<Rightarrow> for_transitions prov node body ts (Suc k) s'))"

lemma for_transitions_scan:
  assumes "provider_ok prov" and "for_transitions prov node body ts k s = (k', s', r)"
  shows "\<exists>rest. scan (step_of body) s (arrows prov ts node) = (s', rest, r)"
  using assms(2)
proof (induction ts arbitrary: k s)
  case (Cons t ts)
  obtain it s1 r1 where L: "records_loop (body t) (transition_iter prov t node) s = (it, s1, r1)"
    by (metis prod_cases3)
  have ok: "iter_ok (transition_iter prov t node)" using assms(1) by (simp add: provider_ok_def transition_iter_def)
  have S: "scan (step_of body) s (arrows_of prov node t) = (s1, map (Pair t) (iter_rest it), r1)"
    using records_loop_scan [where body = body and t = t, OF ok L] by (simp add: arrows_of_def)
  have a: "arrows prov (t # ts) node = arrows_of prov node t @ arrows prov ts node"
    by (simp add: arrows_def)
  show ?case
  proof (cases r1)
    case None
    then obtain rest where "scan (step_of body) s1 (arrows prov ts node) = (s', rest, r)"
      using Cons.IH Cons.prems L by auto
    then show ?thesis using S None scan_None_rest [of "step_of body" s "arrows_of prov node t" s1]
      unfolding a scan_append by auto
  next
    case (Some x)
    then show ?thesis using Cons.prems L S unfolding a scan_append by auto
  qed
qed auto

section \<open>BFSCheck\<close>

record bfs_check =
  bc_visited :: "search_state list"
  bc_open :: "search_state list"
  bc_first :: bool
  bc_end :: object_id
  bc_found :: nat
  bc_searches :: nat

definition bfs_check_new :: bfs_check where
  "bfs_check_new = \<lparr>bc_visited = [], bc_open = [], bc_first = True, bc_end = 0, bc_found = 0, bc_searches = 0\<rparr>"

definition bfs_check_begin :: "path_query \<Rightarrow> bfs_check \<Rightarrow> bfs_check" where
  "bfs_check_begin Q B =
     (let V = fst (visited_insert (start_state_of Q) (bc_visited B))
      in B\<lparr>bc_visited := V, bc_open := bc_open B @ [the (visited_find (start_key Q) V)], bc_end := end_object_id Q\<rparr>)"

definition bfs_check_reset :: "path_query \<Rightarrow> bfs_check \<Rightarrow> bfs_check" where
  "bfs_check_reset Q B =
     (let V = fst (visited_insert (start_state_of Q) [])
      in B\<lparr>bc_visited := V, bc_open := [the (visited_find (start_key Q) V)], bc_first := True, bc_end := end_object_id Q\<rparr>)"

definition bfs_check_visit ::
  "path_query \<Rightarrow> search_state \<Rightarrow> dfa_transition \<Rightarrow> entry \<Rightarrow> bfs_check \<Rightarrow> bfs_check \<times> search_state option" where
  "bfs_check_visit Q current_state t x B =
     (let next_state = SearchState (dfa_to t) (fst x) (Some current_state) (dfa_inverse t) (type_id t) in
      case visited_insert next_state (bc_visited B) of
        (V, None) \<Rightarrow> (B, None)
      | (V, Some s) \<Rightarrow>
          (let B1 = B\<lparr>bc_visited := V, bc_open := bc_open B @ [s]\<rparr> in
           if is_final Q (automaton_state next_state) \<and> node_id next_state = bc_end B1
           then (B1\<lparr>bc_open := [], bc_found := Suc (bc_found B1)\<rparr>, Some s)
           else (B1, None)))"

partial_function (option) bfs_check_loop :: "path_query \<Rightarrow> bfs_check \<Rightarrow> (bfs_check \<times> search_state option) option" where
  "bfs_check_loop Q B =
     (case bc_open B of
        [] \<Rightarrow> Some (B, None)
      | p # _ \<Rightarrow>
          (case for_transitions (provider Q) (node_id p) (bfs_check_visit Q p)
                  (transitions_from Q (automaton_state p)) (bc_searches B) B of
             (k, B', None) \<Rightarrow> bfs_check_loop Q (B'\<lparr>bc_searches := k, bc_open := tl (bc_open B')\<rparr>)
           | (k, B', Some s) \<Rightarrow> Some (B'\<lparr>bc_searches := k\<rparr>, Some s)))"

declare bfs_check_loop.simps [code]

definition bfs_check_next :: "path_query \<Rightarrow> bfs_check \<Rightarrow> (bfs_check \<times> search_state option) option" where
  "bfs_check_next Q B =
     (if bc_first B then
        (let B1 = B\<lparr>bc_first := False\<rparr>; current = hd (bc_open B1) in
         if \<not> node_exists Q (node_id current) then Some (B1\<lparr>bc_open := tl (bc_open B1)\<rparr>, None)
         else if is_final Q (start_state (automaton Q)) \<and> node_id current = bc_end B1
         then Some (B1\<lparr>bc_open := [], bc_found := Suc (bc_found B1)\<rparr>, Some current)
         else bfs_check_loop Q B1)
      else bfs_check_loop Q B)"

section \<open>Correctness\<close>

definition check_inv :: "path_query \<Rightarrow> nat \<Rightarrow> arrow set \<Rightarrow> bfs_check \<Rightarrow> bool" where
  "check_inv Q k seen B \<longleftrightarrow> bfs_ok Q (bc_visited B) k seen \<and> bc_open B = drop k (bc_visited B) \<and>
     (\<forall>s \<in> set (bc_visited B). \<not> any_hit Q (bc_end B) s)"

text \<open>The state that a solution reached is no further away than any other accepted walk to the end node.\<close>

definition nearest :: "path_query \<Rightarrow> object_id \<Rightarrow> search_state \<Rightarrow> bool" where
  "nearest Q e s \<longleftrightarrow> linked Q s \<and> any_hit Q e s \<and>
     (\<forall>q d. is_final Q q \<longrightarrow> (start_key Q, (q, e)) \<in> product_step Q ^^ d \<longrightarrow> depth s \<le> d)"

lemma nearest_new:
  assumes V: "bfs_ok Q V k seen" and k: "k < length V" and no: "\<forall>s \<in> set V. \<not> any_hit Q e s"
    and s: "linked Q s" "any_hit Q e s" "depth s = Suc (depth (V ! k))"
  shows "nearest Q e s"
  unfolding nearest_def
proof (intro conjI allI impI)
  fix q d assume q: "is_final Q q" "(start_key Q, (q, e)) \<in> product_step Q ^^ d"
  show "depth s \<le> d"
  proof (rule ccontr)
    assume "\<not> depth s \<le> d"
    then have "covered V d (q, e)" using bfs_ok_complete [OF V q(2)] s(3) by simp
    then obtain s' where "s' \<in> set V" "key_of_state s' = (q, e)" by (auto simp: covered_def)
    then show False using no q(1) by (auto simp: any_hit_def key_of_state_def)
  qed
qed (use s in simp_all)

lemma bfs_check_visit_inv:
  assumes inv: "check_inv Q k seen B" and k: "k < length (bc_visited B)" "bc_visited B ! k = p"
    and a: "a \<in> set (arrows_from Q (key_of_state p))" and run: "bfs_check_visit Q p (fst a) (snd a) B = (B', r)"
  shows "bc_end B' = bc_end B \<and> bc_first B' = bc_first B \<and>
    (case r of
       None \<Rightarrow> check_inv Q k (insert a seen) B' \<and> k < length (bc_visited B') \<and> bc_visited B' ! k = p \<and>
         2 * card (all_keys Q - key_of_state ` set (bc_visited B')) + length (bc_open B') \<le>
         2 * card (all_keys Q - key_of_state ` set (bc_visited B)) + length (bc_open B)
     | Some s \<Rightarrow> nearest Q (bc_end B) s \<and> bc_open B' = [])"
proof -
  let ?V = "bc_visited B" and ?s = "arrow_state p a"
  have s: "SearchState (dfa_to (fst a)) (fst (snd a)) (Some p) (dfa_inverse (fst a)) (type_id (fst a)) = ?s"
    by (simp add: arrow_state_def)
  have V: "bfs_ok Q ?V k seen" "bc_open B = drop k ?V" "\<forall>s \<in> set ?V. \<not> any_hit Q (bc_end B) s"
    using inv by (simp_all add: check_inv_def)
  show ?thesis
  proof (cases "arrow_key a \<in> key_of_state ` set ?V")
    case True
    then have "B' = B" "r = None" using run by (auto simp: bfs_check_visit_def s visited_insert_def Let_def)
    then show ?thesis using bfs_ok_old [OF V(1) k(1) True] V k by (simp add: check_inv_def)
  next
    case new: False
    have lk: "linked Q p" using V(1) k by (auto simp: bfs_ok_def)
    have W: "bfs_ok Q (?V @ [?s]) k (insert a seen)" using bfs_ok_new [OF V(1) k(1) new] a unfolding k(2) by blast
    let ?B = "B\<lparr>bc_visited := ?V @ [?s], bc_open := bc_open B @ [?s]\<rparr>"
    have run': "(B', r) = (if any_hit Q (bc_end B) ?s then (?B\<lparr>bc_open := [], bc_found := Suc (bc_found B)\<rparr>, Some ?s) else (?B, None))"
      using run [symmetric] new by (simp add: bfs_check_visit_def s visited_insert_def Let_def any_hit_def)
    show ?thesis
    proof (cases "any_hit Q (bc_end B) ?s")
      case True
      have "nearest Q (bc_end B) ?s"
        by (rule nearest_new [OF V(1) k(1) V(3) linked_arrow_state [OF lk a] True]) (simp add: k(2))
      then show ?thesis using run' True by simp
    next
      case False
      have ak: "arrow_key a \<in> all_keys Q"
        unfolding arrow_key_def by (rule transitions_from_all [OF arrows_from_transition [OF a]])
      have c: "Suc (card (all_keys Q - insert (arrow_key a) (key_of_state ` set ?V))) = card (all_keys Q - key_of_state ` set ?V)"
        by (rule card_unvisited [OF ak new])
      show ?thesis using run' False W V(2,3) k c by (auto simp: check_inv_def nth_append)
    qed
  qed
qed

definition check_weight :: "path_query \<Rightarrow> bfs_check \<Rightarrow> nat" where
  "check_weight Q B = 2 * card (all_keys Q - key_of_state ` set (bc_visited B)) + length (bc_open B)"

lemma bfs_check_scan:
  assumes "check_inv Q k seen B" "k < length (bc_visited B)" "bc_visited B ! k = p"
    and "set xs \<subseteq> set (arrows_from Q (key_of_state p))"
    and "scan (step_of (bfs_check_visit Q p)) B xs = (B', rest, r)"
  shows "bc_end B' = bc_end B \<and> bc_first B' = bc_first B \<and>
    (case r of
       None \<Rightarrow> check_inv Q k (seen \<union> set xs) B' \<and> k < length (bc_visited B') \<and> bc_visited B' ! k = p \<and>
         check_weight Q B' \<le> check_weight Q B
     | Some s \<Rightarrow> nearest Q (bc_end B) s \<and> bc_open B' = [])"
  using assms
proof (induction xs arbitrary: B seen)
  case (Cons a xs)
  obtain B1 r1 where v: "bfs_check_visit Q p (fst a) (snd a) B = (B1, r1)" by fastforce
  have a: "a \<in> set (arrows_from Q (key_of_state p))" using Cons.prems(4) by simp
  note I = bfs_check_visit_inv [OF Cons.prems(1-3) a v]
  show ?case
  proof (cases r1)
    case None
    have "scan (step_of (bfs_check_visit Q p)) B1 xs = (B', rest, r)"
      using Cons.prems(5) v None by (simp add: step_of_def [abs_def])
    with Cons.IH [of "insert a seen" B1] I None Cons.prems(4) show ?thesis
      by (auto simp: check_weight_def split: option.splits)
  next
    case (Some s)
    then have "B' = B1" "r = Some s" using Cons.prems(5) v by (simp_all add: step_of_def)
    then show ?thesis using I Some by simp
  qed
qed auto

lemma bfs_check_loop_spec:
  assumes prov: "provider_ok (provider Q)"
  shows "check_inv Q k {} B \<Longrightarrow>
    \<exists>B' r. bfs_check_loop Q B = Some (B', r) \<and> bc_open B' = [] \<and> bc_first B' = bc_first B \<and>
    (case r of
       None \<Rightarrow> \<exists>V. bfs_ok Q V (length V) {} \<and> (\<forall>s \<in> set V. \<not> any_hit Q (bc_end B) s)
     | Some s \<Rightarrow> nearest Q (bc_end B) s)"
proof (induction "check_weight Q B" arbitrary: B k rule: less_induct)
  case less
  note inv = less.prems [unfolded check_inv_def]
  show ?case
  proof (cases "bc_open B")
    case Nil
    then have "bfs_ok Q (bc_visited B) (length (bc_visited B)) {}"
      using inv by (metis bfs_ok_def drop_eq_Nil le_antisym)
    then show ?thesis using Nil inv
      by (intro exI [of _ B] exI [of _ None]) (auto simp: bfs_check_loop.simps [of _ B])
  next
    case (Cons p ps)
    have k: "k < length (bc_visited B)" "bc_visited B ! k = p"
      using inv Cons by (metis drop_all leI list.distinct(1), metis hd_drop_conv_nth drop_all leI list.distinct(1) list.sel(1))
    let ?ts = "transitions_from Q (automaton_state p)"
    obtain i B1 r where F: "for_transitions (provider Q) (node_id p) (bfs_check_visit Q p) ?ts (bc_searches B) B = (i, B1, r)"
      by (metis prod_cases3)
    let ?xs = "arrows_from Q (key_of_state p)"
    obtain rest where S: "scan (step_of (bfs_check_visit Q p)) B ?xs = (B1, rest, r)"
      using for_transitions_scan [OF prov F] by (auto simp: arrows_from_def key_of_state_def)
    note I = bfs_check_scan [OF less.prems k order.refl S]
    show ?thesis
    proof (cases r)
      case None
      let ?C = "B1\<lparr>bc_searches := i, bc_open := tl (bc_open B1)\<rparr>"
      have J: "check_inv Q k (set ?xs) B1" "k < length (bc_visited B1)" "bc_visited B1 ! k = p"
        "check_weight Q B1 \<le> check_weight Q B" "bc_end B1 = bc_end B" "bc_first B1 = bc_first B"
        using I None by simp_all
      have ok: "bfs_ok Q (bc_visited B1) (Suc k) {}"
        using J(1-3) by (intro bfs_ok_pop [of Q _ k "set ?xs"]) (simp_all add: check_inv_def)
      have inv': "check_inv Q (Suc k) {} ?C" using J(1) ok by (simp add: check_inv_def drop_Suc tl_drop)
      have "bc_open B1 \<noteq> []" using J(1,2) by (simp add: check_inv_def)
      then have w: "check_weight Q ?C < check_weight Q B" using J(4) by (cases "bc_open B1") (simp_all add: check_weight_def)
      have e: "bc_end ?C = bc_end B" "bc_first ?C = bc_first B" using J by simp_all
      have l: "bfs_check_loop Q B = bfs_check_loop Q ?C" using Cons F None by (simp add: bfs_check_loop.simps [of _ B])
      show ?thesis unfolding l using less.hyps [OF w inv'] unfolding e .
    next
      case (Some s)
      then show ?thesis using Cons F I by (simp add: bfs_check_loop.simps [of _ B])
    qed
  qed
qed

text \<open>The object after \<open>begin\<close> on a new object or \<open>reset\<close> on any.\<close>

definition check_fresh :: "path_query \<Rightarrow> bfs_check \<Rightarrow> bool" where
  "check_fresh Q B \<longleftrightarrow> bc_first B \<and> bc_open B = [start_state_of Q] \<and> bc_visited B = [start_state_of Q] \<and>
     bc_end B = end_object_id Q"

lemma check_fresh_begin: "check_fresh Q (bfs_check_begin Q bfs_check_new)"
  by (simp add: check_fresh_def bfs_check_begin_def bfs_check_new_def visited_insert_def visited_find_def Let_def)

lemma check_fresh_reset: "check_fresh Q (bfs_check_reset Q B)"
  by (simp add: check_fresh_def bfs_check_reset_def visited_insert_def visited_find_def Let_def)

lemma bfs_check_drained: "\<not> bc_first B \<Longrightarrow> bc_open B = [] \<Longrightarrow> drains (bfs_check_next Q) B [] B"
  by (rule drains_Nil) (simp add: bfs_check_next_def bfs_check_loop.simps [of _ B])

lemma bfs_check_results:
  assumes prov: "provider_ok (provider Q)" and B: "check_fresh Q B" and ex: "node_exists Q (start_object_id Q)"
  shows "\<exists>rs B'. drains (bfs_check_next Q) B rs B' \<and> length rs \<le> 1 \<and> (\<forall>r \<in> set rs. nearest Q (end_object_id Q) r) \<and>
    (rs = [] \<longrightarrow> (\<exists>V. bfs_ok Q V (length V) {} \<and> (\<forall>s \<in> set V. \<not> any_hit Q (end_object_id Q) s)))"
proof -
  let ?s = "start_state_of Q" and ?e = "end_object_id Q"
  let ?T = "B\<lparr>bc_first := False\<rparr>"
  have V: "bc_first B" "bc_open B = [?s]" "bc_visited B = [?s]" "bc_end B = ?e" using B by (simp_all add: check_fresh_def)
  have hit: "any_hit Q ?e ?s \<longleftrightarrow> is_final Q (start_state (automaton Q)) \<and> start_object_id Q = ?e"
    "node_id ?s = start_object_id Q" by (simp_all add: any_hit_def start_state_of_def)
  show ?thesis
  proof (cases "any_hit Q ?e ?s")
    case True
    let ?U = "?T\<lparr>bc_open := [], bc_found := Suc (bc_found B)\<rparr>"
    have "bfs_check_next Q B = Some (?U, Some ?s)"
      using V ex True [unfolded hit(1)] hit(2) by (simp add: bfs_check_next_def Let_def)
    then have "drains (bfs_check_next Q) B [?s] ?U" using bfs_check_drained [of ?U Q] by (auto intro: drains_Cons)
    then show ?thesis using True by (intro exI [of _ "[?s]"] exI [of _ ?U]) (simp add: nearest_def)
  next
    case False
    have n: "bfs_check_next Q B = bfs_check_loop Q ?T"
      using V ex False [unfolded hit(1)] hit(2) by (auto simp: bfs_check_next_def Let_def)
    have e: "bc_end ?T = ?e" "bc_first ?T = False" using V by simp_all
    have "check_inv Q 0 {} ?T" using V False by (simp add: check_inv_def bfs_ok_start)
    then obtain B' r where L: "bfs_check_loop Q ?T = Some (B', r)" "bc_open B' = []" "\<not> bc_first B'"
      "case r of
         None \<Rightarrow> \<exists>V. bfs_ok Q V (length V) {} \<and> (\<forall>s \<in> set V. \<not> any_hit Q ?e s)
       | Some s \<Rightarrow> nearest Q ?e s"
      using bfs_check_loop_spec [OF prov, of 0 ?T, unfolded e] by auto
    show ?thesis
    proof (cases r)
      case None
      then have "drains (bfs_check_next Q) B [] B'" using n L(1) by (intro drains_Nil) simp
      then show ?thesis using L(4) None by (intro exI [of _ "[]"] exI [of _ B']) auto
    next
      case (Some s)
      then have "drains (bfs_check_next Q) B [s] B'"
        using n L(1) bfs_check_drained [OF L(3,2)] by (auto intro: drains_Cons)
      then show ?thesis using L(4) Some by (intro exI [of _ "[s]"] exI [of _ B']) simp
    qed
  qed
qed

context graph_provider begin

lemma bfs_check_answers:
  assumes Q: "provider Q = prov" "dfa_ok (automaton Q)"
    and B: "check_fresh Q B" and ex: "node_exists Q (start_object_id Q)"
  shows "\<exists>rs B'. drains (bfs_check_next Q) B rs B' \<and> length rs \<le> 1 \<and> (rs = [] \<longleftrightarrow> end_object_id Q \<notin> answers E Q) \<and>
    (\<forall>r \<in> set rs. valid_result E Q r \<and> node_id r = end_object_id Q \<and>
       (\<forall>w \<in> dfa_lang (automaton Q). graph_walk E (start_object_id Q) w (node_id r) \<longrightarrow> length (path_steps r) \<le> length w))"
proof -
  let ?e = "end_object_id Q"
  have p: "provider_ok (provider Q)" using prov_ok Q(1) by simp
  obtain rs B' where R: "drains (bfs_check_next Q) B rs B'" "length rs \<le> 1" "\<forall>r \<in> set rs. nearest Q ?e r"
    "rs = [] \<longrightarrow> (\<exists>V. bfs_ok Q V (length V) {} \<and> (\<forall>s \<in> set V. \<not> any_hit Q ?e s))"
    using bfs_check_results [OF p B ex] by blast
  have v: "valid_result E Q r \<and> node_id r = ?e" if "r \<in> set rs" for r
    using R(3) that linked_valid [OF Q] by (auto simp: any_hit_def nearest_def)
  have short: "length (path_steps r) \<le> length w"
    if r: "r \<in> set rs" and w: "w \<in> dfa_lang (automaton Q)" "graph_walk E (start_object_id Q) w (node_id r)" for r w
  proof -
    obtain q where q: "is_final Q q" "dfa_run (automaton Q) (start_state (automaton Q)) w q"
      using w(1) by (auto simp: dfa_lang_run [OF Q(2)])
    then have "(start_key Q, (q, ?e)) \<in> product_step Q ^^ length w"
      unfolding start_key_def product_walk_iff [OF Q(1)] using w(2) v [OF r] by auto
    then show ?thesis using R(3) r q(1) by (simp add: nearest_def)
  qed
  have "node_id r \<in> answers E Q" if "r \<in> set rs" for r
    using v [OF that] trace_walk unfolding answers_def valid_result_def by blast
  then have "?e \<notin> answers E Q \<longrightarrow> rs = []" using v by (cases rs) auto
  moreover have "?e \<notin> answers E Q" if e: "rs = []"
  proof -
    obtain V where V: "bfs_ok Q V (length V) {}" "\<forall>s \<in> set V. \<not> any_hit Q ?e s" using R(4) e by blast
    have "?e \<notin> final_nodes Q V" using V(2) by (auto simp: final_nodes_def any_hit_def)
    then show ?thesis using final_nodes_iff [OF V(1)] reach_answers [OF Q] by blast
  qed
  ultimately have "rs = [] \<longleftrightarrow> ?e \<notin> answers E Q" by blast
  then show ?thesis using R(1,2) v short by (intro exI [of _ rs] exI [of _ B']) simp
qed

end

end
