(* ===== verification/BfsObject.thy ===== *)
theory BfsObject
  imports SearchTree
begin

text \<open>
  The interface of a breadth-first object: a queue of states, a cursor into the records of the front
  state, and \<open>expand_neighbors\<close> and \<open>next\<close> written with the loops of \<open>IndexIter\<close>. Every search over
  whole paths provides it with its own record. Proved once from it: what is still to be reported is
  a function of the queue and the cursor, and every call of \<open>next\<close> takes its first result away.
\<close>

locale bfs_object =
  fixes queue :: "'b \<Rightarrow> 's list" and cursor_of :: "'b \<Rightarrow> cursor" and searches :: "'b \<Rightarrow> nat"
    and is_first :: "'b \<Rightarrow> bool" and is_safe :: "'b \<Rightarrow> bool"
    and resume :: "cursor \<Rightarrow> nat \<Rightarrow> 'b \<Rightarrow> 'b" and pop :: "'b \<Rightarrow> 'b" and count :: "'b \<Rightarrow> 'b"
    and node_of :: "'s \<Rightarrow> object_id" and automaton_of :: "'s \<Rightarrow> nat"
    and expand :: "('s \<Rightarrow> dfa_transition \<Rightarrow> entry \<Rightarrow> 'b \<Rightarrow> 'b \<times> 'p option) \<Rightarrow> path_query \<Rightarrow> 's \<Rightarrow> 'b \<Rightarrow> 'b \<times> 'p option"
    and loop :: "('s \<Rightarrow> 'b \<Rightarrow> 'b \<times> 'p option) \<Rightarrow> 'b \<Rightarrow> ('b \<times> 'p option) option"
  assumes resume: "queue (resume c k B) = queue B" "cursor_of (resume c k B) = c"
      "is_first (resume c k B) = is_first B" "is_safe (resume c k B) = is_safe B"
    and pop: "queue (pop B) = tl (queue B)" "cursor_of (pop B) = cursor_of B"
      "is_first (pop B) = is_first B" "is_safe (pop B) = is_safe B"
    and count: "queue (count B) = queue B" "cursor_of (count B) = cursor_of B"
      "is_first (count B) = is_first B" "is_safe (count B) = is_safe B"
    and expand: "expand body Q s B =
      (case expand_cursor (provider Q) (transitions_from Q (automaton_of s)) (node_of s) True
              (body s) (cursor_of B) (searches B) B of
         (c, k, B', r) \<Rightarrow> (resume c k B', r))"
    and loop: "loop f B =
      (case queue B of
         [] \<Rightarrow> Some (B, None)
       | s # _ \<Rightarrow>
           (case f s B of
              (B', Some p) \<Rightarrow> Some (count B', Some p)
            | (B', None) \<Rightarrow> loop f (pop B')))"
begin

text \<open>What a body promises on objects that satisfy \<open>ok\<close> and whose front state is \<open>s\<close>. It pushes the
  children \<open>kid s a\<close> and takes the reports \<open>rp s a\<close> of a neighbour, of which \<open>keeps B\<close> says which are
  returned. A body that is not \<open>full\<close> may drop the children when it returns a report. After a
  returned report the object satisfies \<open>ok'\<close>.\<close>

definition contract ::
  "bool \<Rightarrow> ('b \<Rightarrow> bool) \<Rightarrow> ('b \<Rightarrow> bool) \<Rightarrow> ('b \<Rightarrow> 'q list \<Rightarrow> 'p list) \<Rightarrow> ('s \<Rightarrow> arrow \<Rightarrow> 's list) \<Rightarrow>
     ('s \<Rightarrow> arrow \<Rightarrow> 'q list) \<Rightarrow> ('s \<Rightarrow> dfa_transition \<Rightarrow> entry \<Rightarrow> 'b \<Rightarrow> 'b \<times> 'p option) \<Rightarrow> bool" where
  "contract full ok ok' keeps kid rp body \<longleftrightarrow>
     (\<forall>B. keeps B [] = []) \<and>
     (\<forall>c k B. keeps (resume c k B) = keeps B \<and> keeps (pop B) = keeps B \<and> keeps (count B) = keeps B) \<and>
     (\<forall>c k B. ok B \<longrightarrow> ok (resume c k B) \<and> ok (pop B)) \<and>
     (\<forall>c k B. ok' B \<longrightarrow> ok' (resume c k B) \<and> ok' (count B)) \<and>
     (\<forall>s t x B B' r. ok B \<longrightarrow> (\<exists>q. queue B = s # q) \<longrightarrow> body s t x B = (B', r) \<longrightarrow>
        is_first B' = is_first B \<and> (is_safe B \<longrightarrow> is_safe B') \<and>
        (case r of
           None \<Rightarrow> queue B' = queue B @ kid s (t, x) \<and> ok B' \<and>
             (\<forall>cs. keeps B (rp s (t, x) @ cs) = keeps B' cs)
         | Some p \<Rightarrow> (queue B' = queue B @ kid s (t, x) \<or> \<not> full \<and> queue B' = queue B) \<and> ok' B' \<and>
             (\<forall>cs. keeps B (rp s (t, x) @ cs) = p # keeps B' cs)))"

lemma contract_simps:
  assumes "contract full ok ok' keeps kid rp body"
  shows "keeps B [] = []" "keeps (resume c k B) = keeps B" "keeps (pop B) = keeps B" "keeps (count B) = keeps B"
    "ok B \<Longrightarrow> ok (resume c k B)" "ok B \<Longrightarrow> ok (pop B)" "ok' B \<Longrightarrow> ok' (resume c k B)" "ok' B \<Longrightarrow> ok' (count B)"
  using assms unfolding contract_def by blast+

lemma contract_step:
  assumes "contract full ok ok' keeps kid rp body" "ok B" "queue B = s # q" "step_of (body s) B a = (B', r)"
  shows "is_first B' = is_first B" "is_safe B \<Longrightarrow> is_safe B'"
    "r = None \<Longrightarrow> queue B' = queue B @ kid s a \<and> ok B' \<and> (\<forall>cs. keeps B (rp s a @ cs) = keeps B' cs)"
    "r = Some p \<Longrightarrow> (queue B' = queue B @ kid s a \<or> \<not> full \<and> queue B' = queue B) \<and> ok' B' \<and>
      (\<forall>cs. keeps B (rp s a @ cs) = p # keeps B' cs)"
proof -
  obtain t x where a: "a = (t, x)" by (cases a)
  have "body s t x B = (B', r)" using assms(4) by (simp add: step_of_def a)
  from conjunct2 [OF conjunct2 [OF conjunct2 [OF conjunct2 [OF assms(1) [unfolded contract_def]]]],
      rule_format, OF assms(2) exI [of _ q] this] assms(3)
  show "is_first B' = is_first B" "is_safe B \<Longrightarrow> is_safe B'"
    "r = None \<Longrightarrow> queue B' = queue B @ kid s a \<and> ok B' \<and> (\<forall>cs. keeps B (rp s a @ cs) = keeps B' cs)"
    "r = Some p \<Longrightarrow> (queue B' = queue B @ kid s a \<or> \<not> full \<and> queue B' = queue B) \<and> ok' B' \<and>
      (\<forall>cs. keeps B (rp s a @ cs) = p # keeps B' cs)"
    unfolding a by simp_all
qed

text \<open>A scan of the pending neighbours. The neighbour \<open>a\<close> that gave the report is the last one read.\<close>

definition scanned ::
  "bool \<Rightarrow> ('b \<Rightarrow> bool) \<Rightarrow> ('b \<Rightarrow> bool) \<Rightarrow> ('b \<Rightarrow> 'q list \<Rightarrow> 'p list) \<Rightarrow> ('s \<Rightarrow> arrow \<Rightarrow> 's list) \<Rightarrow> ('s \<Rightarrow> arrow \<Rightarrow> 'q list) \<Rightarrow>
     's \<Rightarrow> 'b \<Rightarrow> arrow list \<Rightarrow> 'b \<Rightarrow> arrow list \<Rightarrow> 'p option \<Rightarrow> bool" where
  "scanned full ok ok' keeps kid rp s B P B' rest r \<longleftrightarrow>
     is_first B' = is_first B \<and> (is_safe B \<longrightarrow> is_safe B') \<and>
     (case r of
        None \<Rightarrow> rest = [] \<and> queue B' = queue B @ concat (map (kid s) P) \<and> ok B' \<and>
          (\<forall>cs. keeps B (concat (map (rp s) P) @ cs) = keeps B' cs)
      | Some p \<Rightarrow> (\<exists>P1 a. P = P1 @ a # rest \<and>
          (queue B' = queue B @ concat (map (kid s) (P1 @ [a])) \<or> \<not> full \<and> queue B' = queue B @ concat (map (kid s) P1)) \<and>
          ok' B' \<and>
          (\<forall>cs. keeps B (concat (map (rp s) P) @ cs) = p # keeps B' (concat (map (rp s) rest) @ cs))))"

lemma scan_contract:
  assumes con: "contract full ok ok' keeps kid rp body"
  shows "ok B \<Longrightarrow> queue B = s # q \<Longrightarrow> scan (step_of (body s)) B P = (B', rest, r) \<Longrightarrow>
    scanned full ok ok' keeps kid rp s B P B' rest r"
proof (induction P arbitrary: B q)
  case (Cons a P)
  obtain C r1 where v: "step_of (body s) B a = (C, r1)" by fastforce
  note c = contract_step [OF con Cons.prems(1,2) v]
  show ?case
  proof (cases r1)
    case None
    note c = c(1,2) conjunct1 [OF c(3) [OF None]] conjunct2 [OF c(3) [OF None]]
    have "scan (step_of (body s)) C P = (B', rest, r)" using Cons.prems(3) v None by simp
    from Cons.IH [OF _ _ this] c(3,4) Cons.prems(2) have I: "scanned full ok ok' keeps kid rp s C P B' rest r" by auto
    show ?thesis
    proof (cases r)
      case None
      then show ?thesis using I c by (simp add: scanned_def)
    next
      case (Some p)
      then obtain P1 b where P1: "P = P1 @ b # rest"
        "queue B' = queue C @ concat (map (kid s) (P1 @ [b])) \<or> \<not> full \<and> queue B' = queue C @ concat (map (kid s) P1)"
        "ok' B'" "\<forall>cs. keeps C (concat (map (rp s) P) @ cs) = p # keeps B' (concat (map (rp s) rest) @ cs)"
        "is_first B' = is_first C" "is_safe C \<longrightarrow> is_safe B'"
        using I by (auto simp: scanned_def)
      show ?thesis
        unfolding scanned_def Some option.case
        by (intro conjI exI [of _ "a # P1"] exI [of _ b]) (use P1 c in auto)
    qed
  next
    case (Some p)
    with Cons.prems(3) v have e: "B' = C" "rest = P" "r = Some p" by simp_all
    show ?thesis
      unfolding scanned_def e option.case
      by (intro conjI exI [of _ "[]"] exI [of _ a]) (use c(1,2) c(4) [OF Some] in auto)
  qed
qed (simp add: scanned_def)

lemma scanned_resume:
  assumes con: "contract full ok ok' keeps kid rp body" and sc: "scanned full ok ok' keeps kid rp s B P C rest r"
  shows "scanned full ok ok' keeps kid rp s B P (resume c k C) rest r"
proof (cases r)
  case None
  then show ?thesis using sc by (simp add: scanned_def resume contract_simps [OF con])
next
  case (Some p)
  then show ?thesis
    using sc contract_simps(7) [OF con, of C c k]
    unfolding scanned_def Some option.case resume contract_simps(2) [OF con] by blast
qed

section \<open>The invariant and the results to come\<close>

definition kin_arrows :: "path_query \<Rightarrow> 's \<Rightarrow> arrow list" where
  "kin_arrows Q s = arrows (provider Q) (transitions_from Q (automaton_of s)) (node_of s)"

definition kids_of :: "path_query \<Rightarrow> ('s \<Rightarrow> arrow \<Rightarrow> 's list) \<Rightarrow> 's \<Rightarrow> 's list" where
  "kids_of Q kid s = concat (map (kid s) (kin_arrows Q s))"

definition reports_of :: "path_query \<Rightarrow> ('s \<Rightarrow> arrow \<Rightarrow> 'q list) \<Rightarrow> 's \<Rightarrow> 'q list" where
  "reports_of Q rp s = concat (map (rp s) (kin_arrows Q s))"

definition pending_at :: "path_query \<Rightarrow> 's \<Rightarrow> 'b \<Rightarrow> arrow list" where
  "pending_at Q s B = upcoming (provider Q) (transitions_from Q (automaton_of s)) (node_of s) (cursor_of B)"

definition poised :: "path_query \<Rightarrow> 'b \<Rightarrow> bool" where
  "poised Q B \<longleftrightarrow> iter_ok (iter (cursor_of B)) \<and>
     (case queue B of [] \<Rightarrow> True | s # q \<Rightarrow> cursor_ok (transitions_from Q (automaton_of s)) (cursor_of B))"

definition coming ::
  "path_query \<Rightarrow> ('s \<Rightarrow> arrow \<Rightarrow> 's list) \<Rightarrow> ('s \<Rightarrow> arrow \<Rightarrow> 'q list) \<Rightarrow> ('s \<Rightarrow> nat) \<Rightarrow> 'b \<Rightarrow> 'q list" where
  "coming Q kid rp rank B =
     (case queue B of
        [] \<Rightarrow> []
      | s # q \<Rightarrow> concat (map (rp s) (pending_at Q s B)) @
          levels (kids_of Q kid) rank (reports_of Q rp) (q @ concat (map (kid s) (pending_at Q s B))))"

definition work_left :: "path_query \<Rightarrow> ('s \<Rightarrow> arrow \<Rightarrow> 's list) \<Rightarrow> ('s \<Rightarrow> nat) \<Rightarrow> 'b \<Rightarrow> nat" where
  "work_left Q kid rank B =
     (case queue B of
        [] \<Rightarrow> 0
      | s # q \<Rightarrow> Suc (forest_size (kids_of Q kid) rank (q @ concat (map (kid s) (pending_at Q s B)))))"

lemma expand_scanned:
  assumes prov: "provider_ok (provider Q)" and con: "contract full ok ok' keeps kid rp body" and ok: "ok B"
    and inv: "poised Q B" and front: "queue B = s # q" and run: "expand body Q s B = (B', r)"
  shows "\<exists>rest. scanned full ok ok' keeps kid rp s B (pending_at Q s B) B' rest r \<and>
    cursor_ok (transitions_from Q (automaton_of s)) (cursor_of B') \<and>
    (case r of None \<Rightarrow> at_end (iter (cursor_of B')) | Some p \<Rightarrow> rest = pending_at Q s B')"
proof -
  let ?ts = "transitions_from Q (automaton_of s)"
  obtain c k C where X: "expand_cursor (provider Q) ?ts (node_of s) True (body s) (cursor_of B) (searches B) B = (c, k, C, r)"
    "B' = resume c k C"
    using run by (auto simp: expand split: prod.splits)
  have c: "cursor_ok ?ts (cursor_of B)" using inv front by (simp add: poised_def)
  obtain rest where S: "scan (step_of (body s)) B (pending_at Q s B) = (C, rest, r)" "cursor_ok ?ts c"
    "case r of None \<Rightarrow> at_end (iter c) \<and> rest = [] | Some x \<Rightarrow> \<not> at_end (iter c) \<and> rest = upcoming (provider Q) ?ts (node_of s) c"
    using expand_cursor_scan [OF prov c _ X(1)] by (auto simp: pending_at_def)
  have "scanned full ok ok' keeps kid rp s B (pending_at Q s B) C rest r" by (rule scan_contract [OF con ok front S(1)])
  from scanned_resume [OF con this] show ?thesis
    using S(2,3) X(2) by (intro exI [of _ rest]) (simp add: pending_at_def resume split: option.splits)
qed

lemma coming_fresh:
  assumes "ranked (kids_of Q kid) rank" "at_end (iter (cursor_of B))"
  shows "coming Q kid rp rank B = levels (kids_of Q kid) rank (reports_of Q rp) (queue B)"
    "work_left Q kid rank B = forest_size (kids_of Q kid) rank (queue B)"
proof -
  have f: "pending_at Q s B = kin_arrows Q s" for s
    using assms(2) by (simp add: pending_at_def upcoming_def kin_arrows_def)
  show "coming Q kid rp rank B = levels (kids_of Q kid) rank (reports_of Q rp) (queue B)"
    "work_left Q kid rank B = forest_size (kids_of Q kid) rank (queue B)"
    by (auto simp: coming_def work_left_def f levels_Cons [OF assms(1)] forest_size_Cons [OF assms(1)]
        kids_of_def reports_of_def split: list.split)
qed

section \<open>The loop\<close>

text \<open>What one call of \<open>next\<close> does. After a report the front state stays in the queue with the rest of
  its neighbours; the queue holds the children of those that were read, the last one perhaps not.\<close>

definition called ::
  "bool \<Rightarrow> ('b \<Rightarrow> bool) \<Rightarrow> ('b \<Rightarrow> 'q list \<Rightarrow> 'p list) \<Rightarrow> ('s \<Rightarrow> arrow \<Rightarrow> 's list) \<Rightarrow> ('s \<Rightarrow> arrow \<Rightarrow> 'q list) \<Rightarrow>
     ('s \<Rightarrow> nat) \<Rightarrow> path_query \<Rightarrow> 'b \<Rightarrow> 'b \<Rightarrow> 'p option \<Rightarrow> bool" where
  "called full ok' keeps kid rp rank Q B B' r \<longleftrightarrow>
     poised Q B' \<and> is_first B' = is_first B \<and> (is_safe B \<longrightarrow> is_safe B') \<and>
     (case r of
        None \<Rightarrow> keeps B (coming Q kid rp rank B) = [] \<and> queue B' = []
      | Some p \<Rightarrow> ok' B' \<and> (\<exists>s q a ks cs fs. queue B' = s # q \<and> (ks = [] \<or> ks = kid s a \<and> \<not> full) \<and>
          fs = concat (map (rp s) (pending_at Q s B')) @
            levels (kids_of Q kid) rank (reports_of Q rp) (q @ ks @ concat (map (kid s) (pending_at Q s B'))) \<and>
          coming Q kid rp rank B = cs @ fs \<and> keeps B (coming Q kid rp rank B) = p # keeps B' fs))"

lemma loop_called:
  assumes prov: "provider_ok (provider Q)" and con: "contract full ok ok' keeps kid rp body"
    and rank: "ranked (kids_of Q kid) rank"
  shows "poised Q B \<Longrightarrow> ok B \<Longrightarrow>
    \<exists>B' r. loop (expand body Q) B = Some (B', r) \<and> called full ok' keeps kid rp rank Q B B' r"
proof (induction "work_left Q kid rank B" arbitrary: B rule: less_induct)
  case less
  note simps = contract_simps [OF con]
  show ?case
  proof (cases "queue B")
    case Nil
    then show ?thesis using less.prems simps(1)
      by (intro exI [of _ B] exI [of _ None]) (simp add: loop [of _ B] called_def coming_def)
  next
    case (Cons s q)
    let ?P = "pending_at Q s B"
    obtain C r where e: "expand body Q s B = (C, r)" by fastforce
    obtain rest where E: "scanned full ok ok' keeps kid rp s B ?P C rest r"
      "cursor_ok (transitions_from Q (automaton_of s)) (cursor_of C)"
      "case r of None \<Rightarrow> at_end (iter (cursor_of C)) | Some p \<Rightarrow> rest = pending_at Q s C"
      using expand_scanned [OF prov con less.prems(2,1) Cons e] by blast
    have F: "coming Q kid rp rank B = concat (map (rp s) ?P) @
        levels (kids_of Q kid) rank (reports_of Q rp) (q @ concat (map (kid s) ?P))"
      using Cons by (simp add: coming_def)
    show ?thesis
    proof (cases r)
      case (Some p)
      let ?C = "count C"
      obtain P1 a where S: "?P = P1 @ a # rest"
        "queue C = queue B @ concat (map (kid s) (P1 @ [a])) \<or> \<not> full \<and> queue C = queue B @ concat (map (kid s) P1)"
        "ok' C" "\<forall>cs. keeps B (concat (map (rp s) ?P) @ cs) = p # keeps C (concat (map (rp s) rest) @ cs)"
        "is_first C = is_first B" "is_safe B \<longrightarrow> is_safe C"
        using E(1) Some by (auto simp: scanned_def)
      have l: "loop (expand body Q) B = Some (?C, Some p)" using Cons e Some by (simp add: loop [of _ B])
      have fp: "pending_at Q s ?C = rest" using E(3) Some by (simp add: pending_at_def count)
      have inv: "poised Q ?C" using E(2) S(2) Cons by (auto simp: poised_def cursor_ok_def count)
      let ?ks = "if queue C = queue B @ concat (map (kid s) (P1 @ [a])) then [] else kid s a"
      let ?q = "if queue C = queue B @ concat (map (kid s) (P1 @ [a])) then q @ concat (map (kid s) (P1 @ [a]))
        else q @ concat (map (kid s) P1)"
      let ?fs = "concat (map (rp s) (pending_at Q s ?C)) @
          levels (kids_of Q kid) rank (reports_of Q rp) (?q @ ?ks @ concat (map (kid s) (pending_at Q s ?C)))"
      have fs: "keeps B (coming Q kid rp rank B) = p # keeps ?C ?fs"
        "coming Q kid rp rank B = concat (map (rp s) (P1 @ [a])) @ ?fs"
        unfolding F using S(1,4) simps(4) fp by simp_all
      have q: "queue ?C = s # ?q" "?ks = [] \<or> ?ks = kid s a \<and> \<not> full" using S(2) Cons by (auto simp: count)
      have "called full ok' keeps kid rp rank Q B ?C (Some p)"
        unfolding called_def option.case
        using inv S(3,5,6) simps(8)
        by (intro conjI exI [of _ s] exI [of _ ?q] exI [of _ a] exI [of _ ?ks] exI [of _ "concat (map (rp s) (P1 @ [a]))"]
            exI [of _ ?fs] q fs refl) (simp_all only: count simp_thms)
      then show ?thesis using l by blast
    next
      case None
      let ?C = "pop C"
      have S: "rest = []" "queue C = s # q @ concat (map (kid s) ?P)" "ok C"
        "\<And>cs. keeps B (concat (map (rp s) ?P) @ cs) = keeps C cs" "is_first C = is_first B" "is_safe B \<longrightarrow> is_safe C"
        using E(1) None Cons by (auto simp: scanned_def)
      have ended: "at_end (iter (cursor_of ?C))" using E(3) None by (simp add: pop)
      have l: "loop (expand body Q) B = loop (expand body Q) ?C"
        using Cons e None by (simp add: loop [of _ B])
      have op: "queue ?C = q @ concat (map (kid s) ?P)" using S(2) by (simp add: pop)
      note fr = coming_fresh [OF rank ended]
      have a: "poised Q ?C" using E(2) ended by (auto simp: poised_def cursor_ok_def pop split: list.split)
      have b: "work_left Q kid rank ?C < work_left Q kid rank B"
        unfolding fr(2) op using Cons by (simp add: work_left_def)
      have c: "keeps B (coming Q kid rp rank B) = keeps ?C (coming Q kid rp rank ?C)"
        unfolding F S(4) fr(1) op simps(3) ..
      have d: "coming Q kid rp rank B = concat (map (rp s) ?P) @ coming Q kid rp rank ?C"
        unfolding F fr(1) op ..
      have "ok ?C" using S(3) simps(6) by simp
      from less.hyps [OF b a this] obtain B' r' where I: "loop (expand body Q) ?C = Some (B', r')"
        "called full ok' keeps kid rp rank Q ?C B' r'" by blast
      have "called full ok' keeps kid rp rank Q B B' r'"
        using I(2) S(5,6) c d unfolding called_def by (simp add: pop split: option.splits) (metis append.assoc)
      then show ?thesis using l I(1) by auto
    qed
  qed
qed

text \<open>A full body: the results are those that \<open>keeps\<close> selects, one per call.\<close>

lemma loop_full:
  assumes "provider_ok (provider Q)" "contract True ok ok keeps kid rp body" "ranked (kids_of Q kid) rank" "poised Q B" "ok B"
  shows "\<exists>B' r. loop (expand body Q) B = Some (B', r) \<and> poised Q B' \<and> is_first B' = is_first B \<and> (is_safe B \<longrightarrow> is_safe B') \<and>
    (case r of
       None \<Rightarrow> keeps B (coming Q kid rp rank B) = [] \<and> queue B' = []
     | Some p \<Rightarrow> ok B' \<and> keeps B (coming Q kid rp rank B) = p # keeps B' (coming Q kid rp rank B'))"
proof -
  obtain B' r where L: "loop (expand body Q) B = Some (B', r)" "called True ok keeps kid rp rank Q B B' r"
    using loop_called [OF assms] by blast
  then show ?thesis
    by (intro exI [of _ B'] exI [of _ r]) (auto simp: called_def coming_def split: option.splits)
qed

lemma loop_drains:
  assumes prov: "provider_ok (provider Q)" and con: "contract True ok ok keeps kid rp body"
    and rank: "ranked (kids_of Q kid) rank"
    and nxt: "\<And>B. \<not> is_first B \<Longrightarrow> nxt B = loop (expand body Q) B"
  shows "poised Q B \<Longrightarrow> ok B \<Longrightarrow> \<not> is_first B \<Longrightarrow>
    \<exists>B'. drains nxt B (keeps B (coming Q kid rp rank B)) B' \<and> (is_safe B \<longrightarrow> is_safe B')"
proof (induction "length (keeps B (coming Q kid rp rank B))" arbitrary: B rule: less_induct)
  case less
  obtain B' r where L: "loop (expand body Q) B = Some (B', r)" "poised Q B'" "is_first B' = is_first B"
    "is_safe B \<longrightarrow> is_safe B'"
    "case r of
       None \<Rightarrow> keeps B (coming Q kid rp rank B) = [] \<and> queue B' = []
     | Some p \<Rightarrow> ok B' \<and> keeps B (coming Q kid rp rank B) = p # keeps B' (coming Q kid rp rank B')"
    using loop_full [OF prov con rank less.prems(1,2)] by blast
  have n: "nxt B = Some (B', r)" using nxt less.prems(3) L(1) by simp
  show ?case
  proof (cases r)
    case None
    then show ?thesis using n L(4,5) by (auto intro: drains_Nil)
  next
    case (Some p)
    then have "\<exists>C. drains nxt B' (keeps B' (coming Q kid rp rank B')) C \<and> (is_safe B' \<longrightarrow> is_safe C)"
      using less.hyps [of B'] L(2,3,5) less.prems(3) by simp
    then show ?thesis using n Some L(4,5) by (auto intro: drains_Cons)
  qed
qed

end

end
