(* ===== verification/TreeBfs.thy ===== *)
theory TreeBfs
  imports BfsObject
begin

text \<open>
  The breadth-first search of \<open>SearchTree\<close> for any body that pushes children and reports paths as
  functions of the state and the neighbour. \<open>any\<close> is the template behaviour of the searches that
  return a single path per node: a report is dropped when its node is already in \<open>reached_final\<close>.
\<close>

section \<open>Bodies\<close>

definition tree_arrows :: "path_query \<Rightarrow> tree_state \<Rightarrow> arrow list" where
  "tree_arrows Q s = arrows (provider Q) (transitions_from Q (tree_automaton s)) (path_node (path_state s))"

definition all_kids :: "path_query \<Rightarrow> (tree_state \<Rightarrow> arrow \<Rightarrow> tree_state list) \<Rightarrow> tree_state \<Rightarrow> tree_state list" where
  "all_kids Q kid s = concat (map (kid s) (tree_arrows Q s))"

definition all_reports :: "path_query \<Rightarrow> (tree_state \<Rightarrow> arrow \<Rightarrow> path_state list) \<Rightarrow> tree_state \<Rightarrow> path_state list" where
  "all_reports Q rp s = concat (map (rp s) (tree_arrows Q s))"

text \<open>The first report of every node.\<close>

fun pick :: "bool \<Rightarrow> object_id set \<Rightarrow> path_state list \<Rightarrow> path_state list" where
  "pick any R [] = []"
| "pick any R (p # ps) =
     (if any \<and> path_node p \<in> R then pick any R ps else p # pick any (insert (path_node p) R) ps)"

lemma pick_False [simp]: "pick False R ps = ps"
  by (induction ps arbitrary: R) auto

lemma pick_subset: "set (pick any R ps) \<subseteq> set ps"
  by (induction any R ps rule: pick.induct) auto

lemma pick_any_distinct:
  "distinct (map path_node (pick True R ps)) \<and> R \<inter> path_node ` set (pick True R ps) = {}"
proof (induction ps arbitrary: R)
  case (Cons p ps)
  show ?case using Cons [of R] Cons [of "insert (path_node p) R"] by auto
qed simp

lemma pick_any_nodes: "path_node ` set (pick True R ps) = path_node ` set ps - R"
  by (induction ps arbitrary: R) auto

definition visit_contract ::
  "bool \<Rightarrow> (tree_state \<Rightarrow> arrow \<Rightarrow> tree_state list) \<Rightarrow> (tree_state \<Rightarrow> arrow \<Rightarrow> path_state list) \<Rightarrow>
     (tree_state \<Rightarrow> dfa_transition \<Rightarrow> entry \<Rightarrow> tree_bfs \<Rightarrow> tree_bfs \<times> path_state option) \<Rightarrow> bool" where
  "visit_contract any kid rp body \<longleftrightarrow> (\<forall>s t x B B' r. body s t x B = (B', r) \<longrightarrow>
     bfs_open B' = bfs_open B @ kid s (t, x) \<and> bfs_first B' = bfs_first B \<and>
     (visited_safe (bfs_visited B) \<longrightarrow> visited_safe (bfs_visited B')) \<and>
     (case r of
        None \<Rightarrow> pick any (set (bfs_reached B)) (rp s (t, x)) = [] \<and> set (bfs_reached B') = set (bfs_reached B)
      | Some p \<Rightarrow> rp s (t, x) = [p] \<and> (any \<longrightarrow> path_node p \<notin> set (bfs_reached B) \<and>
          set (bfs_reached B') = insert (path_node p) (set (bfs_reached B)))))"

lemma pick_drop: "pick any R xs = [] \<Longrightarrow> pick any R (xs @ ys) = pick any R ys"
  by (induction xs) (auto split: if_splits)

section \<open>The object as a breadth-first object\<close>

interpretation tb: bfs_object bfs_open bfs_cur bfs_searches bfs_first "\<lambda>B. visited_safe (bfs_visited B)"
  "\<lambda>c k B. B\<lparr>bfs_cur := c, bfs_searches := k\<rparr>" "\<lambda>B. B\<lparr>bfs_open := tl (bfs_open B)\<rparr>"
  "\<lambda>B. B\<lparr>bfs_found := Suc (bfs_found B)\<rparr>" "\<lambda>s. path_node (path_state s)" tree_automaton tree_expand tree_loop
proof unfold_locales
  show "tree_expand body Q s B =
    (case expand_cursor (provider Q) (transitions_from Q (tree_automaton s)) (path_node (path_state s)) True
            (body s) (bfs_cur B) (bfs_searches B) B of
       (c, k, B', r) \<Rightarrow> (B'\<lparr>bfs_cur := c, bfs_searches := k\<rparr>, r))" for body Q s B
    by (rule tree_expand_def)
  show "tree_loop f B =
    (case bfs_open B of
       [] \<Rightarrow> Some (B, None)
     | s # _ \<Rightarrow>
         (case f s B of
            (B', Some p) \<Rightarrow> Some (B'\<lparr>bfs_found := Suc (bfs_found B')\<rparr>, Some p)
          | (B', None) \<Rightarrow> tree_loop f (B'\<lparr>bfs_open := tl (bfs_open B')\<rparr>)))" for f B
    by (simp only: tree_loop.simps [of f B] prod.case_distrib option.case_distrib cong: list.case_cong prod.case_cong option.case_cong)
qed simp_all

lemma tb_kids_of [simp]: "tb.kids_of Q kid = all_kids Q kid" "tb.reports_of Q rp = all_reports Q rp"
  by (auto simp: tb.kids_of_def tb.reports_of_def tb.kin_arrows_def all_kids_def all_reports_def tree_arrows_def)

lemma visit_contract_full:
  assumes "visit_contract any kid rp body"
  shows "tb.contract True (\<lambda>B. True) (\<lambda>B. True) (\<lambda>B. pick any (set (bfs_reached B))) kid rp body"
  unfolding tb.contract_def
proof (intro conjI allI impI)
  fix s t x B B' r assume "body s t x B = (B', r)"
  then have c: "bfs_open B' = bfs_open B @ kid s (t, x)" "bfs_first B' = bfs_first B"
    "visited_safe (bfs_visited B) \<longrightarrow> visited_safe (bfs_visited B')"
    "case r of None \<Rightarrow> pick any (set (bfs_reached B)) (rp s (t, x)) = [] \<and> set (bfs_reached B') = set (bfs_reached B)
      | Some p \<Rightarrow> rp s (t, x) = [p] \<and> (any \<longrightarrow> path_node p \<notin> set (bfs_reached B) \<and>
          set (bfs_reached B') = insert (path_node p) (set (bfs_reached B)))"
    using assms unfolding visit_contract_def by blast+
  then show "bfs_first B' = bfs_first B" "visited_safe (bfs_visited B) \<Longrightarrow> visited_safe (bfs_visited B')"
    by blast+
  show "case r of
      None \<Rightarrow> bfs_open B' = bfs_open B @ kid s (t, x) \<and> True \<and>
        (\<forall>cs. pick any (set (bfs_reached B)) (rp s (t, x) @ cs) = pick any (set (bfs_reached B')) cs)
    | Some p \<Rightarrow> (bfs_open B' = bfs_open B @ kid s (t, x) \<or> \<not> True \<and> bfs_open B' = bfs_open B) \<and> True \<and>
        (\<forall>cs. pick any (set (bfs_reached B)) (rp s (t, x) @ cs) = p # pick any (set (bfs_reached B')) cs)"
    using c(1,4) by (cases r; cases any) (simp_all add: pick_drop)
qed simp_all

section \<open>The loop\<close>

lemma tree_loop_spec:
  assumes "provider_ok (provider Q)" "visit_contract any kid rp body" "ranked (all_kids Q kid) rank" "tb.poised Q B"
  shows "\<exists>B' r. tree_loop (tree_expand body Q) B = Some (B', r) \<and> tb.poised Q B' \<and>
    bfs_first B' = bfs_first B \<and> (visited_safe (bfs_visited B) \<longrightarrow> visited_safe (bfs_visited B')) \<and>
    (case r of
       None \<Rightarrow> pick any (set (bfs_reached B)) (tb.coming Q kid rp rank B) = [] \<and> bfs_open B' = []
     | Some p \<Rightarrow> pick any (set (bfs_reached B)) (tb.coming Q kid rp rank B) =
         p # pick any (set (bfs_reached B')) (tb.coming Q kid rp rank B'))"
proof -
  have "ranked (tb.kids_of Q kid) rank" using assms(3) by simp
  from tb.loop_full [OF assms(1) visit_contract_full [OF assms(2)] this assms(4) TrueI] show ?thesis
    by (simp only: simp_thms)
qed

lemma tb_coming_fresh:
  assumes "ranked (all_kids Q kid) rank" "at_end (iter (bfs_cur B))"
  shows "tb.coming Q kid rp rank B = levels (all_kids Q kid) rank (all_reports Q rp) (bfs_open B)"
proof -
  have "ranked (tb.kids_of Q kid) rank" using assms(1) by simp
  from tb.coming_fresh(1) [OF this assms(2), of rp] show ?thesis by (simp only: tb_kids_of)
qed

text \<open>Draining an object whose first call is behind it.\<close>

lemma tree_loop_drains:
  assumes "provider_ok (provider Q)" "visit_contract any kid rp body" "ranked (all_kids Q kid) rank"
    and "\<And>B. \<not> bfs_first B \<Longrightarrow> nxt B = tree_loop (tree_expand body Q) B"
    and "tb.poised Q B" "\<not> bfs_first B"
  shows "\<exists>B'. drains nxt B (pick any (set (bfs_reached B)) (tb.coming Q kid rp rank B)) B' \<and>
    (visited_safe (bfs_visited B) \<longrightarrow> visited_safe (bfs_visited B'))"
  using tb.loop_drains [OF assms(1) visit_contract_full [OF assms(2)] _ assms(4,5) TrueI assms(6)] assms(3) by simp

end
