(* ===== verification/PathTree.thy ===== *)
theory PathTree
  imports TreeBfs AnyShortestCorrect
begin

text \<open>
  The tree of paths that the searches for simple paths and trails walk: a state is extended by every
  neighbour that an admission test allows. The states of the tree are the walks of graph and automaton
  whose prefixes pass the test, and the reports of a search are the words of the automaton among them.
\<close>

section \<open>Steps\<close>

text \<open>A step holds the edge only when the search stores edges (\<open>keep\<close>).\<close>

definition arrow_step :: "bool \<Rightarrow> arrow \<Rightarrow> step" where
  "arrow_step keep a =
     ((type_id (fst a), dfa_inverse (fst a)), (if keep then snd (snd a) else None), fst (snd a))"

definition extend :: "path_state \<Rightarrow> step \<Rightarrow> path_state" where
  "extend p x = PathState (snd (snd x)) (fst (snd x)) (fst (fst x)) (snd (fst x)) (Some p)"

fun extend_all :: "path_state \<Rightarrow> step list \<Rightarrow> path_state" where
  "extend_all p [] = p"
| "extend_all p (x # xs) = extend_all (extend p x) xs"

lemma extend_simps [simp]:
  "path_node (extend p x) = snd (snd x)" "steps_of (extend p x) = steps_of p @ [x]" "origin (extend p x) = origin p"
  "path_nodes (extend p x) = snd (snd x) # path_nodes p" "path_edges (extend p x) = fst (snd x) # path_edges p"
  by (simp_all add: extend_def)

lemma extend_all_snoc: "extend_all p (xs @ [x]) = extend (extend_all p xs) x"
  by (induction xs arbitrary: p) simp_all

lemma extend_all_simps [simp]:
  "steps_of (extend_all p xs) = steps_of p @ xs" "origin (extend_all p xs) = origin p"
  by (induction xs arbitrary: p) simp_all

lemma extend_all_sets:
  "set (path_nodes (extend_all p xs)) = set (path_nodes p) \<union> (snd \<circ> snd) ` set xs"
  "set (path_edges (extend_all p xs)) = set (path_edges p) \<union> (fst \<circ> snd) ` set xs"
  by (induction xs arbitrary: p) auto

definition step_kid :: "bool \<Rightarrow> (path_state \<Rightarrow> step \<Rightarrow> bool) \<Rightarrow> tree_state \<Rightarrow> arrow \<Rightarrow> tree_state list" where
  "step_kid keep admit s a =
     (if admit (path_state s) (arrow_step keep a)
      then [TreeState (extend (path_state s) (arrow_step keep a)) (dfa_to (fst a))] else [])"

definition step_report ::
  "bool \<Rightarrow> path_query \<Rightarrow> (path_state \<Rightarrow> step \<Rightarrow> bool) \<Rightarrow> tree_state \<Rightarrow> arrow \<Rightarrow> path_state list" where
  "step_report keep Q select s a =
     (if is_final Q (dfa_to (fst a)) \<and> select (path_state s) (arrow_step keep a)
      then [extend (path_state s) (arrow_step keep a)] else [])"

lemma step_kid_iff:
  "c \<in> set (step_kid keep admit s a) \<longleftrightarrow> admit (path_state s) (arrow_step keep a) \<and>
     c = TreeState (extend (path_state s) (arrow_step keep a)) (dfa_to (fst a))"
  by (auto simp: step_kid_def)

lemma step_report_iff:
  "r \<in> set (step_report keep Q select s a) \<longleftrightarrow> is_final Q (dfa_to (fst a)) \<and>
     select (path_state s) (arrow_step keep a) \<and> r = extend (path_state s) (arrow_step keep a)"
  by (auto simp: step_report_def)

section \<open>Steps of the graph\<close>

definition step_in :: "quad set \<Rightarrow> bool \<Rightarrow> object_id \<Rightarrow> step \<Rightarrow> bool" where
  "step_in E keep n x \<longleftrightarrow>
     (if keep then \<exists>e. fst (snd x) = Some e \<and> crosses E n (fst x) (snd (snd x)) e
      else fst (snd x) = None \<and> (\<exists>e. crosses E n (fst x) (snd (snd x)) e))"

fun step_walk :: "quad set \<Rightarrow> bool \<Rightarrow> object_id \<Rightarrow> step list \<Rightarrow> object_id \<Rightarrow> bool" where
  "step_walk E keep n [] m \<longleftrightarrow> n = m"
| "step_walk E keep n (x # xs) m \<longleftrightarrow> step_in E keep n x \<and> step_walk E keep (snd (snd x)) xs m"

lemma step_walk_snoc:
  "step_walk E keep n (xs @ [x]) m \<longleftrightarrow> (\<exists>k. step_walk E keep n xs k \<and> step_in E keep k x \<and> m = snd (snd x))"
  by (induction xs arbitrary: n) auto

lemma step_walk_end: "step_walk E keep n xs m \<Longrightarrow> m = (if xs = [] then n else snd (snd (last xs)))"
  by (induction xs arbitrary: n) auto

lemma step_walk_unique: "step_walk E keep n xs m \<Longrightarrow> step_walk E keep n xs m' \<Longrightarrow> m = m'"
  by (induction xs arbitrary: n) auto

lemma step_walk_node: "step_walk E keep (path_node p) xs m \<Longrightarrow> m = path_node (extend_all p xs)"
  by (induction xs arbitrary: p) auto

lemma Pair_eq_iff: "(a, b) = x \<longleftrightarrow> a = fst x \<and> b = snd x"
  by auto

lemma step_walk_graph: "step_walk E keep n xs m \<Longrightarrow> graph_walk E n (map fst xs) m"
  by (induction xs arbitrary: n) (auto simp: step_in_def split: if_splits)

text \<open>Every walk of the graph is one of steps, with or without edges.\<close>

lemma graph_walk_kept: "graph_walk E n w m \<longleftrightarrow> (\<exists>xs. step_walk E keep n xs m \<and> map fst xs = w)"
proof
  show "graph_walk E n w m \<Longrightarrow> \<exists>xs. step_walk E keep n xs m \<and> map fst xs = w"
  proof (induction w arbitrary: n)
    case Nil
    then show ?case by (intro exI [of _ "[]"]) simp
  next
    case (Cons l w)
    then obtain k e xs where "crosses E n l k e" "step_walk E keep k xs m" "map fst xs = w" by fastforce
    then show ?case by (intro exI [of _ "(l, (if keep then Some e else None), k) # xs"]) (auto simp: step_in_def)
  qed
qed (use step_walk_graph in blast)

text \<open>What the searches need of the index provider, with or without edges.\<close>

definition exact_arrows :: "quad set \<Rightarrow> bool \<Rightarrow> get_iterator \<Rightarrow> bool" where
  "exact_arrows E keep prov \<longleftrightarrow> (\<forall>ts n q x.
     (\<exists>a \<in> set (arrows prov ts n). dfa_to (fst a) = q \<and> arrow_step keep a = x) \<longleftrightarrow>
     (\<exists>t \<in> set ts. dfa_to t = q \<and> (type_id t, dfa_inverse t) = fst x \<and> step_in E keep n x))"

context graph_provider begin

lemma exact_nodes: "exact_arrows E False prov"
  unfolding exact_arrows_def
proof (intro allI)
  fix ts n q and x :: step
  have "(\<exists>a \<in> set (arrows prov ts n). dfa_to (fst a) = q \<and> arrow_step False a = x) \<longleftrightarrow>
      (\<exists>t \<in> set ts. dfa_to t = q \<and> (type_id t, dfa_inverse t) = fst x \<and> fst (snd x) = None \<and>
         snd (snd x) \<in> fst ` set (iter_rest (prov (type_id t) (dfa_inverse t) n)))"
    unfolding arrows_def arrows_of_def transition_iter_def arrow_step_def set_concat set_map by (cases x) force
  then show "(\<exists>a \<in> set (arrows prov ts n). dfa_to (fst a) = q \<and> arrow_step False a = x) \<longleftrightarrow>
      (\<exists>t \<in> set ts. dfa_to t = q \<and> (type_id t, dfa_inverse t) = fst x \<and> step_in E False n x)"
    unfolding neighbours mem_Collect_eq step_in_def if_False by metis
qed

end

context edge_provider begin

lemma exact_edges: "exact_arrows E True prov"
  unfolding exact_arrows_def
proof (intro allI)
  fix ts n q and x :: step
  have "(\<exists>a \<in> set (arrows prov ts n). dfa_to (fst a) = q \<and> arrow_step True a = x) \<longleftrightarrow>
      (\<exists>t \<in> set ts. dfa_to t = q \<and> (type_id t, dfa_inverse t) = fst x \<and>
         (snd (snd x), fst (snd x)) \<in> set (iter_rest (prov (type_id t) (dfa_inverse t) n)))"
    by (cases x) (force simp: arrows_def arrows_of_def transition_iter_def arrow_step_def)
  then show "(\<exists>a \<in> set (arrows prov ts n). dfa_to (fst a) = q \<and> arrow_step True a = x) \<longleftrightarrow>
      (\<exists>t \<in> set ts. dfa_to t = q \<and> (type_id t, dfa_inverse t) = fst x \<and> step_in E True n x)"
    unfolding edge_entries step_in_def by auto
qed

end

section \<open>Reachable states\<close>

fun admitted :: "(path_state \<Rightarrow> step \<Rightarrow> bool) \<Rightarrow> path_state \<Rightarrow> step list \<Rightarrow> bool" where
  "admitted admit p [] = True"
| "admitted admit p (x # xs) = (admit p x \<and> admitted admit (extend p x) xs)"

fun tree_run ::
  "path_query \<Rightarrow> quad set \<Rightarrow> bool \<Rightarrow> (path_state \<Rightarrow> step \<Rightarrow> bool) \<Rightarrow> path_state \<Rightarrow> nat \<Rightarrow> step list \<Rightarrow> nat \<Rightarrow> bool" where
  "tree_run Q E keep admit p q [] r \<longleftrightarrow> q = r"
| "tree_run Q E keep admit p q (x # xs) r \<longleftrightarrow> (\<exists>t \<in> set (transitions_from Q q). (type_id t, dfa_inverse t) = fst x \<and>
     step_in E keep (path_node p) x \<and> admit p x \<and> tree_run Q E keep admit (extend p x) (dfa_to t) xs r)"

lemma tree_run_split:
  "tree_run Q E keep admit p q xs r \<longleftrightarrow> step_walk E keep (path_node p) xs (path_node (extend_all p xs)) \<and>
     dfa_run (automaton Q) q (map fst xs) r \<and> admitted admit p xs"
proof (induction xs arbitrary: p q)
  case (Cons x xs)
  then show ?case by (cases "fst x") (auto simp: transitions_from_def)
qed simp

lemma all_kids_iff:
  assumes "exact_arrows E keep (provider Q)"
  shows "c \<in> set (all_kids Q (step_kid keep admit) s) \<longleftrightarrow>
    (\<exists>x. \<exists>t \<in> set (transitions_from Q (tree_automaton s)). (type_id t, dfa_inverse t) = fst x \<and>
       step_in E keep (path_node (path_state s)) x \<and> admit (path_state s) x \<and>
       c = TreeState (extend (path_state s) x) (dfa_to t))"
proof -
  have "c \<in> set (all_kids Q (step_kid keep admit) s) \<longleftrightarrow>
      (\<exists>x q. (\<exists>a \<in> set (tree_arrows Q s). dfa_to (fst a) = q \<and> arrow_step keep a = x) \<and> admit (path_state s) x \<and>
         c = TreeState (extend (path_state s) x) q)"
    unfolding all_kids_def set_concat set_map UN_iff image_image bex_simps step_kid_iff by blast
  then show ?thesis
    using assms unfolding tree_arrows_def exact_arrows_def by (simp only:) blast
qed

lemma all_reports_iff:
  assumes "exact_arrows E keep (provider Q)"
  shows "r \<in> set (all_reports Q (step_report keep Q select) s) \<longleftrightarrow>
    (\<exists>x. \<exists>t \<in> set (transitions_from Q (tree_automaton s)). (type_id t, dfa_inverse t) = fst x \<and>
       step_in E keep (path_node (path_state s)) x \<and> select (path_state s) x \<and> is_final Q (dfa_to t) \<and>
       r = extend (path_state s) x)"
proof -
  have "r \<in> set (all_reports Q (step_report keep Q select) s) \<longleftrightarrow>
      (\<exists>x q. (\<exists>a \<in> set (tree_arrows Q s). dfa_to (fst a) = q \<and> arrow_step keep a = x) \<and> select (path_state s) x \<and>
         is_final Q q \<and> r = extend (path_state s) x)"
    unfolding all_reports_def set_concat set_map UN_iff image_image bex_simps step_report_iff by blast
  then show ?thesis
    using assms unfolding tree_arrows_def exact_arrows_def by (simp only:) blast
qed

lemma tree_reach:
  assumes X: "exact_arrows E keep (provider Q)"
  shows "(s, s') \<in> (child_rel (all_kids Q (step_kid keep admit)))\<^sup>* \<longleftrightarrow>
    (\<exists>xs. path_state s' = extend_all (path_state s) xs \<and>
       tree_run Q E keep admit (path_state s) (tree_automaton s) xs (tree_automaton s'))"
proof
  assume "(s, s') \<in> (child_rel (all_kids Q (step_kid keep admit)))\<^sup>*"
  then show "\<exists>xs. path_state s' = extend_all (path_state s) xs \<and>
      tree_run Q E keep admit (path_state s) (tree_automaton s) xs (tree_automaton s')"
  proof (induction rule: converse_rtrancl_induct)
    case base
    show ?case by (rule exI [of _ "[]"]) simp
  next
    case (step s c)
    then obtain x t xs where "t \<in> set (transitions_from Q (tree_automaton s))" "(type_id t, dfa_inverse t) = fst x"
      "step_in E keep (path_node (path_state s)) x" "admit (path_state s) x"
      "c = TreeState (extend (path_state s) x) (dfa_to t)" "path_state s' = extend_all (path_state c) xs"
      "tree_run Q E keep admit (path_state c) (tree_automaton c) xs (tree_automaton s')"
      unfolding child_rel_def mem_Collect_eq case_prod_conv all_kids_iff [OF X] by blast
    then show ?case by (intro exI [of _ "x # xs"]) auto
  qed
next
  assume "\<exists>xs. path_state s' = extend_all (path_state s) xs \<and>
      tree_run Q E keep admit (path_state s) (tree_automaton s) xs (tree_automaton s')"
  then obtain xs where "path_state s' = extend_all (path_state s) xs"
    "tree_run Q E keep admit (path_state s) (tree_automaton s) xs (tree_automaton s')" by blast
  then show "(s, s') \<in> (child_rel (all_kids Q (step_kid keep admit)))\<^sup>*"
  proof (induction xs arbitrary: s)
    case Nil
    then have "s = s'" by (cases s; cases s') simp
    then show ?case by simp
  next
    case (Cons x xs)
    then obtain t where t: "t \<in> set (transitions_from Q (tree_automaton s))" "(type_id t, dfa_inverse t) = fst x"
      "step_in E keep (path_node (path_state s)) x" "admit (path_state s) x"
      "tree_run Q E keep admit (extend (path_state s) x) (dfa_to t) xs (tree_automaton s')" by auto
    let ?c = "TreeState (extend (path_state s) x) (dfa_to t)"
    have "(s, ?c) \<in> child_rel (all_kids Q (step_kid keep admit))"
      unfolding child_rel_def mem_Collect_eq case_prod_conv all_kids_iff [OF X] using t by blast
    moreover have "(?c, s') \<in> (child_rel (all_kids Q (step_kid keep admit)))\<^sup>*"
      using Cons.IH [of ?c] Cons.prems(1) t(5) by simp
    ultimately show ?case by (rule converse_rtrancl_into_rtrancl)
  qed
qed

text \<open>The reports of the whole tree, as words of steps.\<close>

definition root_of :: "path_query \<Rightarrow> path_state \<Rightarrow> tree_state" where
  "root_of Q p = TreeState p (start_state (automaton Q))"

lemma tree_reports:
  assumes X: "exact_arrows E keep (provider Q)" and D: "dfa_ok (automaton Q)"
  shows "(\<Union>s \<in> (child_rel (all_kids Q (step_kid keep admit)))\<^sup>* `` {root_of Q p}. set (all_reports Q (step_report keep Q select) s)) =
    {extend_all p (xs @ [x]) | xs x. step_walk E keep (path_node p) (xs @ [x]) (snd (snd x)) \<and>
       map fst (xs @ [x]) \<in> dfa_lang (automaton Q) \<and> admitted admit p xs \<and> select (extend_all p xs) x}" (is "?L = ?R")
proof -
  have "r \<in> ?L \<longleftrightarrow> r \<in> ?R" for r
  proof -
    have "r \<in> ?L \<longleftrightarrow> (\<exists>s. (\<exists>xs. path_state s = extend_all p xs \<and>
          tree_run Q E keep admit p (start_state (automaton Q)) xs (tree_automaton s)) \<and>
        (\<exists>x. \<exists>t \<in> set (transitions_from Q (tree_automaton s)). (type_id t, dfa_inverse t) = fst x \<and>
          step_in E keep (path_node (path_state s)) x \<and> select (path_state s) x \<and> is_final Q (dfa_to t) \<and>
          r = extend (path_state s) x))"
      by (simp only: UN_iff Image_singleton_iff tree_reach [OF X] all_reports_iff [OF X] root_of_def tree_state.sel Bex_def)
    also have "\<dots> \<longleftrightarrow> (\<exists>xs x q t. tree_run Q E keep admit p (start_state (automaton Q)) xs q \<and>
        t \<in> set (transitions_from Q q) \<and> (type_id t, dfa_inverse t) = fst x \<and>
        step_in E keep (path_node (extend_all p xs)) x \<and> select (extend_all p xs) x \<and> is_final Q (dfa_to t) \<and>
        r = extend (extend_all p xs) x)" (is "?A \<longleftrightarrow> ?B")
    proof
      assume ?B
      then obtain xs x q t where B: "tree_run Q E keep admit p (start_state (automaton Q)) xs q" "t \<in> set (transitions_from Q q)"
        "(type_id t, dfa_inverse t) = fst x" "step_in E keep (path_node (extend_all p xs)) x"
        "select (extend_all p xs) x" "is_final Q (dfa_to t)" "r = extend (extend_all p xs) x" by blast
      show ?A
        unfolding Bex_def by (rule exI [of _ "TreeState (extend_all p xs) q"]) (use B in \<open>unfold tree_state.sel, blast\<close>)
    qed (metis (no_types, lifting))
    also have "\<dots> \<longleftrightarrow> (\<exists>xs x. step_walk E keep (path_node p) (xs @ [x]) (snd (snd x)) \<and>
       map fst (xs @ [x]) \<in> dfa_lang (automaton Q) \<and> admitted admit p xs \<and> select (extend_all p xs) x \<and>
       r = extend (extend_all p xs) x)"
      unfolding tree_run_split dfa_lang_run [OF D] map_append list.map dfa_run_snoc step_walk_snoc transitions_from_def
        Pair_eq_iff
      by (blast dest: step_walk_node)
    finally show ?thesis unfolding extend_all_snoc by blast
  qed
  then show ?thesis by blast
qed

text \<open>The answers of a query: accepted walks of the graph that satisfy \<open>good\<close> and end in \<open>ends\<close>.\<close>

definition good_answers ::
  "quad set \<Rightarrow> bool \<Rightarrow> path_query \<Rightarrow> (step list \<Rightarrow> bool) \<Rightarrow> object_id set \<Rightarrow> step list set" where
  "good_answers E keep Q good ends =
     {xs. \<exists>m \<in> ends. step_walk E keep (start_object_id Q) xs m \<and> map fst xs \<in> dfa_lang (automaton Q) \<and> good xs}"

lemma good_answers_snoc:
  "xs @ [x] \<in> good_answers E keep Q good ends \<longleftrightarrow> step_walk E keep (start_object_id Q) (xs @ [x]) (snd (snd x)) \<and>
     map fst (xs @ [x]) \<in> dfa_lang (automaton Q) \<and> snd (snd x) \<in> ends \<and> good (xs @ [x])"
  by (auto simp: good_answers_def step_walk_snoc)

lemma good_answers_Nil:
  assumes "dfa_ok (automaton Q)"
  shows "[] \<in> good_answers E keep Q good ends \<longleftrightarrow>
    is_final Q (start_state (automaton Q)) \<and> start_object_id Q \<in> ends \<and> good []"
  by (auto simp: good_answers_def dfa_lang_run [OF assms])

lemma tree_report_steps:
  assumes X: "exact_arrows E keep (provider Q)" and D: "dfa_ok (automaton Q)"
    and rank: "ranked (all_kids Q (step_kid keep admit)) rank"
    and p: "path_node p = start_object_id Q" "steps_of p = []"
    and cond: "\<And>xs x. admitted admit p xs \<and> select (extend_all p xs) x \<longleftrightarrow> snd (snd x) \<in> ends \<and> good (xs @ [x])"
  shows "steps_of ` set (levels (all_kids Q (step_kid keep admit)) rank (all_reports Q (step_report keep Q select))
      [root_of Q p]) = good_answers E keep Q good ends - {[]}" (is "steps_of ` ?S = ?R")
proof -
  have S: "?S = {extend_all p (xs @ [x]) | xs x. xs @ [x] \<in> good_answers E keep Q good ends}"
    unfolding levels_set [OF rank] list.set tree_reports [OF X D] p cond good_answers_snoc ..
  have "ys \<in> steps_of ` ?S \<longleftrightarrow> ys \<in> ?R" for ys
  proof (cases ys rule: rev_cases)
    case Nil
    then show ?thesis unfolding S by (auto simp: p)
  next
    case (snoc xs x)
    have "ys \<in> steps_of ` ?S" if "ys \<in> good_answers E keep Q good ends"
    proof -
      have "extend_all p (xs @ [x]) \<in> ?S" unfolding S using that snoc by blast
      then have "steps_of (extend_all p (xs @ [x])) \<in> steps_of ` ?S" by (rule imageI)
      then show ?thesis by (simp add: snoc p)
    qed
    moreover have "ys \<in> good_answers E keep Q good ends" if "ys \<in> steps_of ` ?S"
      using that unfolding S by (auto simp: p)
    ultimately show ?thesis using snoc by blast
  qed
  then show ?thesis by blast
qed

text \<open>A result is a walk of the graph from the start node to the node of the state.\<close>

definition path_result :: "quad set \<Rightarrow> bool \<Rightarrow> path_query \<Rightarrow> path_state \<Rightarrow> bool" where
  "path_result E keep Q r \<longleftrightarrow>
     origin r = start_object_id Q \<and> step_walk E keep (start_object_id Q) (steps_of r) (path_node r)"

lemma tree_report_result:
  assumes "exact_arrows E keep (provider Q)" "dfa_ok (automaton Q)" "ranked (all_kids Q (step_kid keep admit)) rank"
    and "path_node p = start_object_id Q" "steps_of p = []" "origin p = start_object_id Q"
    and "r \<in> set (levels (all_kids Q (step_kid keep admit)) rank (all_reports Q (step_report keep Q select)) [root_of Q p])"
  shows "path_result E keep Q r"
  using assms(7) unfolding levels_set [OF assms(3)] list.set tree_reports [OF assms(1,2)] path_result_def
  by (auto simp: extend_all_snoc assms(4-6))

section \<open>Draining a search from its start\<close>

lemma drains_cong: "nxt B = nxt C \<Longrightarrow> drains nxt B rs D \<Longrightarrow> drains nxt C rs D"
proof -
  assume eq: "nxt B = nxt C" and "drains nxt B rs D"
  from this(2) show "drains nxt C rs D"
    by (cases rule: drains.cases) (auto simp: eq intro: drains.intros)
qed

lemma sorted_const: "(\<And>x. x \<in> set xs \<Longrightarrow> f x = (c::nat)) \<Longrightarrow> sorted (map f xs)"
  by (induction xs) auto

lemma fresh_drains:
  assumes "provider_ok (provider Q)" "visit_contract any kid rp body" "ranked (all_kids Q kid) rank"
    and "\<And>B. \<not> bfs_first B \<Longrightarrow> nxt B = tree_loop (tree_expand body Q) B"
    and "bfs_open C = [s]" "iter (bfs_cur C) = NullIndexIterator" "\<not> bfs_first C"
  shows "\<exists>B'. drains nxt C (pick any (set (bfs_reached C)) (levels (all_kids Q kid) rank (all_reports Q rp) [s])) B' \<and>
    (visited_safe (bfs_visited C) \<longrightarrow> visited_safe (bfs_visited B'))"
proof -
  have "tb.poised Q C" using assms(5,6) by (simp add: tb.poised_def cursor_ok_def)
  from tree_loop_drains [OF assms(1-4) this assms(7)] show ?thesis
    using assms(5,6) by (simp add: tb_coming_fresh [OF assms(3)])
qed

lemma fresh_first:
  assumes prov: "provider_ok (provider Q)" and body: "visit_contract any kid rp body" and rank: "ranked (all_kids Q kid) rank"
    and nxt: "\<And>B. \<not> bfs_first B \<Longrightarrow> nxt B = clear_on_result (tree_loop (tree_expand body Q) B)"
    and C: "bfs_open C = [s]" "iter (bfs_cur C) = NullIndexIterator" "\<not> bfs_first C"
  shows "\<exists>B'. drains nxt C (take 1 (pick any (set (bfs_reached C)) (levels (all_kids Q kid) rank (all_reports Q rp) [s]))) B' \<and>
    (visited_safe (bfs_visited C) \<longrightarrow> visited_safe (bfs_visited B'))"
proof -
  have inv: "tb.poised Q C" using C by (simp add: tb.poised_def cursor_ok_def)
  have F: "tb.coming Q kid rp rank C = levels (all_kids Q kid) rank (all_reports Q rp) [s]"
    using C by (simp add: tb_coming_fresh [OF rank])
  obtain D r where L: "tree_loop (tree_expand body Q) C = Some (D, r)" "bfs_first D = bfs_first C"
    "visited_safe (bfs_visited C) \<longrightarrow> visited_safe (bfs_visited D)"
    "case r of
       None \<Rightarrow> pick any (set (bfs_reached C)) (tb.coming Q kid rp rank C) = [] \<and> bfs_open D = []
     | Some p \<Rightarrow> pick any (set (bfs_reached C)) (tb.coming Q kid rp rank C) =
         p # pick any (set (bfs_reached D)) (tb.coming Q kid rp rank D)"
    using tree_loop_spec [OF prov body rank inv] by blast
  have n: "nxt C = clear_on_result (Some (D, r))" using nxt C(3) L(1) by simp
  show ?thesis
  proof (cases r)
    case None
    then show ?thesis using n L(3,4) by (auto simp: clear_on_result_def F intro: drains_Nil)
  next
    case (Some p)
    let ?D = "D\<lparr>bfs_open := []\<rparr>"
    have "nxt ?D = Some (?D, None)"
      using nxt [of ?D] L(2) C(3) by (simp add: tree_loop.simps [of _ ?D] clear_on_result_def)
    then have "drains nxt C [p] ?D"
      using n Some by (auto simp: clear_on_result_def intro: drains.intros)
    then show ?thesis using L(3,4) Some by (auto simp: F)
  qed
qed

section \<open>Level order is by length\<close>

definition by_level :: "('s \<Rightarrow> nat) \<Rightarrow> 's list \<Rightarrow> bool" where
  "by_level dep q \<longleftrightarrow> sorted (map dep q) \<and> (\<forall>s \<in> set q. dep s \<le> Suc (dep (hd q)))"

lemma levels_sorted:
  assumes rank: "ranked kids rank" and kids: "\<And>s c. c \<in> set (kids s) \<Longrightarrow> dep c = Suc (dep s)"
    and reps: "\<And>s r. r \<in> set (reps s) \<Longrightarrow> len r = Suc (dep s)"
  shows "by_level dep q \<Longrightarrow> sorted (map len (levels kids rank reps q)) \<and>
    (\<forall>r \<in> set (levels kids rank reps q). Suc (dep (hd q)) \<le> len r)"
proof (induction "forest_size kids rank q" arbitrary: q)
  case 0
  then show ?case by (cases q) (simp_all add: forest_size_Cons [OF rank])
next
  case (Suc n)
  then obtain s q' where q: "q = s # q'" by (cases q) auto
  let ?q = "q' @ kids s"
  have n: "n = forest_size kids rank ?q" using Suc.hyps(2) q by (simp add: forest_size_Cons [OF rank])
  have ge: "dep s \<le> dep x" if "x \<in> set ?q" for x
    using that Suc.prems kids [of x s] by (auto simp: q by_level_def)
  have le: "dep x \<le> Suc (dep s)" if "x \<in> set ?q" for x
    using that Suc.prems kids [of x s] by (auto simp: q by_level_def)
  have "sorted (map dep (kids s))" by (rule sorted_const [OF kids])
  moreover have "\<forall>x \<in> set q'. \<forall>y \<in> set (kids s). dep x \<le> dep y" using le kids by fastforce
  moreover have "sorted (map dep q')" using Suc.prems by (simp add: q by_level_def)
  ultimately have so: "sorted (map dep ?q)" by (simp add: sorted_append)
  have b: "by_level dep ?q" unfolding by_level_def
  proof (intro conjI ballI so)
    fix x assume x: "x \<in> set ?q"
    then have "hd ?q \<in> set ?q" by (cases ?q) auto
    then show "dep x \<le> Suc (dep (hd ?q))" using ge le x by fastforce
  qed
  have "Suc (dep s) \<le> len r" if r: "r \<in> set (levels kids rank reps ?q)" for r
  proof -
    have "?q \<noteq> []" using r by auto
    then have "dep s \<le> dep (hd ?q)" using ge [OF list.set_sel(1)] by blast
    then show ?thesis using Suc.hyps(1) [OF n b] r by fastforce
  qed
  moreover have "sorted (map len (reps s))" by (rule sorted_const [OF reps])
  ultimately show ?case
    using Suc.hyps(1) [OF n b] reps
    by (auto simp: q levels_Cons [OF rank] sorted_append)
qed

text \<open>With one report per node, the report kept is a shortest one.\<close>

lemma pick_sorted: "sorted (map len ps) \<Longrightarrow> sorted (map len (pick any R ps))"
proof (induction any R ps rule: pick.induct)
  case (2 any R p ps)
  then show ?case using pick_subset [of any "insert (path_node p) R" ps] by auto
qed simp

lemma pick_first:
  "sorted (map len ps) \<Longrightarrow> p \<in> set (pick True R ps) \<Longrightarrow> p' \<in> set ps \<Longrightarrow> path_node p' = path_node p \<Longrightarrow> len p \<le> len p'"
proof (induction ps arbitrary: R)
  case (Cons a ps)
  show ?case
  proof (cases "path_node a \<in> R")
    case True
    then have p: "p \<in> set (pick True R ps)" using Cons.prems(2) by simp
    then have "path_node p \<notin> R" using pick_any_distinct [of R ps] by blast
    then have "p' \<noteq> a" using True Cons.prems(4) by auto
    then show ?thesis using Cons.IH [OF _ p] Cons.prems by simp
  next
    case False
    show ?thesis
    proof (cases "p = a")
      case True
      then show ?thesis using Cons.prems(1,3) by auto
    next
      case ne: False
      then have p: "p \<in> set (pick True (insert (path_node a) R) ps)" using False Cons.prems(2) by simp
      then have "path_node p \<noteq> path_node a" using pick_any_distinct [of "insert (path_node a) R" ps] by blast
      then have "p' \<noteq> a" using Cons.prems(4) by auto
      then show ?thesis using Cons.IH [OF _ p] Cons.prems by simp
    qed
  qed
qed simp

section \<open>All results of a search\<close>

text \<open>The list of all reports: the start state when it is a solution, then the levels.\<close>

lemma all_report_steps:
  assumes "steps_of ` set rs = A - {[]}" "steps_of p = []" "c \<longleftrightarrow> [] \<in> A"
  shows "steps_of ` set ((if c then [p] else []) @ rs) = A"
  using assms by auto

lemma all_report_sorted:
  assumes rank: "ranked (all_kids Q (step_kid keep admit)) rank" and p: "steps_of p = []"
  shows "sorted (map (\<lambda>r. length (steps_of r)) ((if c then [p] else []) @
    levels (all_kids Q (step_kid keep admit)) rank (all_reports Q (step_report keep Q select)) [root_of Q p]))"
proof -
  have kids: "length (steps_of (path_state b)) = Suc (length (steps_of (path_state s)))"
    if "b \<in> set (all_kids Q (step_kid keep admit) s)" for s b
    using that unfolding all_kids_def set_concat set_map UN_iff image_image bex_simps step_kid_iff by auto
  have reps: "length (steps_of r) = Suc (length (steps_of (path_state s)))"
    if "r \<in> set (all_reports Q (step_report keep Q select) s)" for s r
    using that unfolding all_reports_def set_concat set_map UN_iff image_image bex_simps step_report_iff by auto
  have "by_level (\<lambda>s. length (steps_of (path_state s))) [root_of Q p]" by (simp add: by_level_def)
  from levels_sorted [OF rank, where dep = "\<lambda>s. length (steps_of (path_state s))" and len = "\<lambda>r. length (steps_of r)",
      OF kids reps this] show ?thesis
    by (simp add: p)
qed

text \<open>One result per node.\<close>

lemma any_results:
  assumes steps: "steps_of ` set all = good_answers E keep Q good UNIV"
    and res: "\<And>r. r \<in> set all \<Longrightarrow> path_result E keep Q r"
  shows "distinct (map path_node (pick True {} all))"
    "path_node ` set (pick True {} all) = {m. good_answers E keep Q good {m} \<noteq> {}}"
    "\<And>r. r \<in> set (pick True {} all) \<Longrightarrow> path_result E keep Q r \<and> steps_of r \<in> good_answers E keep Q good {path_node r}"
proof -
  have at: "steps_of r \<in> good_answers E keep Q good {m} \<longleftrightarrow> path_node r = m" if "r \<in> set all" for r m
  proof -
    have "steps_of r \<in> good_answers E keep Q good UNIV" using that steps by blast
    moreover have "step_walk E keep (start_object_id Q) (steps_of r) (path_node r)" using res [OF that] by (simp add: path_result_def)
    ultimately show ?thesis unfolding good_answers_def by (auto dest: step_walk_end)
  qed
  have ends_at: "\<exists>r \<in> set all. path_node r = m" if "ys \<in> good_answers E keep Q good {m}" for ys m
  proof -
    have "ys \<in> steps_of ` set all" unfolding steps using that by (auto simp: good_answers_def)
    then show ?thesis using at that by auto
  qed
  show "distinct (map path_node (pick True {} all))" using pick_any_distinct by blast
  show "path_node ` set (pick True {} all) = {m. good_answers E keep Q good {m} \<noteq> {}}"
    unfolding pick_any_nodes using at ends_at by fastforce
  fix r assume r: "r \<in> set (pick True {} all)"
  then have ra: "r \<in> set all" using pick_subset by blast
  then show "path_result E keep Q r \<and> steps_of r \<in> good_answers E keep Q good {path_node r}"
    using res [OF ra] at [OF ra] by blast
qed

text \<open>In level order it is a shortest one.\<close>

lemma any_results_shortest:
  assumes steps: "steps_of ` set all = good_answers E keep Q good UNIV"
    and res: "\<And>r. r \<in> set all \<Longrightarrow> path_result E keep Q r"
    and sorted: "sorted (map (\<lambda>r. length (steps_of r)) all)"
    and r: "r \<in> set (pick True {} all)" and ys: "ys \<in> good_answers E keep Q good {path_node r}"
  shows "length (steps_of r) \<le> length ys"
proof -
  have "ys \<in> steps_of ` set all" unfolding steps using ys by (auto simp: good_answers_def)
  then obtain r' where r': "r' \<in> set all" "steps_of r' = ys" by blast
  then have "path_node r' = path_node r"
    using res [OF r'(1)] ys unfolding path_result_def good_answers_def by (auto dest!: step_walk_end)
  then show ?thesis using pick_first [OF sorted r r'(1)] r'(2) by simp
qed

text \<open>Draining an object after \<open>begin\<close> or \<open>reset\<close>.\<close>

lemma start_drains:
  assumes loop: "provider_ok (provider Q)" "visit_contract any kid rp body" "ranked (all_kids Q kid) rank"
      "\<And>B. \<not> bfs_first B \<Longrightarrow> nxt B = tree_loop (tree_expand body Q) B"
    and B: "bfs_open B = [s]" "iter (bfs_cur B) = NullIndexIterator" "bfs_reached B = []" "visited_safe (bfs_visited B)"
    and first: "nxt B = (if c then Some (B\<lparr>bfs_first := False, bfs_reached := R, bfs_found := k\<rparr>, Some p)
      else tree_loop (tree_expand body Q) (B\<lparr>bfs_first := False\<rparr>))" "any \<Longrightarrow> set R = {path_node p}"
  shows "\<exists>B'. drains nxt B (pick any {} ((if c then [p] else []) @ levels (all_kids Q kid) rank (all_reports Q rp) [s])) B' \<and>
    visited_safe (bfs_visited B')"
proof (cases c)
  case True
  let ?C = "B\<lparr>bfs_first := False, bfs_reached := R, bfs_found := k\<rparr>"
  obtain B' where "drains nxt ?C (pick any (set R) (levels (all_kids Q kid) rank (all_reports Q rp) [s])) B'"
    "visited_safe (bfs_visited B')"
    using fresh_drains [OF loop, of ?C s] B by auto
  moreover have "pick any {path_node p} xs = pick any (set R) xs" for xs
    using first(2) by (cases any) simp_all
  ultimately show ?thesis using first(1) True by (auto intro!: drains_Cons)
next
  case False
  let ?C = "B\<lparr>bfs_first := False\<rparr>"
  obtain B' where D: "drains nxt ?C (pick any {} (levels (all_kids Q kid) rank (all_reports Q rp) [s])) B'"
    "visited_safe (bfs_visited B')"
    using fresh_drains [OF loop, of ?C s] B by auto
  have "nxt ?C = nxt B" using loop(4) [of ?C] first(1) False by simp
  from drains_cong [OF this D(1)] D(2) False show ?thesis by auto
qed

lemma start_first:
  assumes loop: "provider_ok (provider Q)" "visit_contract False kid rp body" "ranked (all_kids Q kid) rank"
      "\<And>B. \<not> bfs_first B \<Longrightarrow> nxt B = clear_on_result (tree_loop (tree_expand body Q) B)"
    and B: "bfs_open B = [s]" "iter (bfs_cur B) = NullIndexIterator" "visited_safe (bfs_visited B)"
    and first: "nxt B = (if c then Some (B\<lparr>bfs_first := False, bfs_open := [], bfs_found := k\<rparr>, Some p)
      else clear_on_result (tree_loop (tree_expand body Q) (B\<lparr>bfs_first := False\<rparr>)))"
  shows "\<exists>B'. drains nxt B (take 1 ((if c then [p] else []) @ levels (all_kids Q kid) rank (all_reports Q rp) [s])) B' \<and>
    visited_safe (bfs_visited B')"
proof (cases c)
  case True
  let ?C = "B\<lparr>bfs_first := False, bfs_open := [], bfs_found := k\<rparr>"
  have "nxt ?C = Some (?C, None)" using loop(4) [of ?C] by (simp add: tree_loop.simps [of _ ?C] clear_on_result_def)
  then have "drains nxt B [p] ?C" using first True by (auto intro: drains.intros)
  then show ?thesis using True B(3) by auto
next
  case False
  let ?C = "B\<lparr>bfs_first := False\<rparr>"
  obtain B' where D: "drains nxt ?C (take 1 (levels (all_kids Q kid) rank (all_reports Q rp) [s])) B'"
    "visited_safe (bfs_visited B')"
    using fresh_first [OF loop, of ?C s] B by auto
  have "nxt ?C = nxt B" using loop(4) [of ?C] first False by simp
  from drains_cong [OF this D(1)] D(2) False show ?thesis by auto
qed

text \<open>A single result: a shortest answer, when there is one.\<close>

lemma first_result:
  assumes "steps_of ` set all = A" "\<And>r. r \<in> set all \<Longrightarrow> path_result E keep Q r"
    and "sorted (map (\<lambda>r. length (steps_of r)) all)"
  shows "length (take 1 all) \<le> 1" "take 1 all = [] \<longleftrightarrow> A = {}"
    "\<And>r. r \<in> set (take 1 all) \<Longrightarrow> path_result E keep Q r \<and> steps_of r \<in> A \<and> (\<forall>ys \<in> A. length (steps_of r) \<le> length ys)"
proof -
  show "length (take 1 all) \<le> 1" by simp
  show "take 1 all = [] \<longleftrightarrow> A = {}" using assms(1) by auto
  fix r assume "r \<in> set (take 1 all)"
  then obtain rs where "all = r # rs" by (cases all) auto
  then show "path_result E keep Q r \<and> steps_of r \<in> A \<and> (\<forall>ys \<in> A. length (steps_of r) \<le> length ys)"
    using assms by auto
qed

end
