(* ===== verification/TreeDfs.thy ===== *)
theory TreeDfs
  imports PathTree "HOL-Library.Multiset"
begin

text \<open>
  The depth-first searches over whole paths. A frame of the stack is a path state with its automaton
  state and the cursor over its neighbours; the path of a frame is the chain of the frames below it.
  Proved once: draining such a search returns the reports of the tree in preorder, which are the
  reports of the breadth-first search in another order.
\<close>

section \<open>The depth-first object\<close>

text \<open>\<open>SearchStateDFS\<close>. The fields that \<open>prev_state\<close> leads to never change, so the pointer is the
  path state below.\<close>

record frame =
  frame_state :: tree_state
  frame_cur :: cursor

record tree_dfs =
  dfs_open :: "frame list"
  dfs_first :: bool
  dfs_reached :: "object_id list"
  dfs_found :: nat
  dfs_searches :: nat

definition fresh_frame :: "tree_state \<Rightarrow> nat \<Rightarrow> frame" where
  "fresh_frame s transition = \<lparr>frame_state = s, frame_cur = \<lparr>iter = NullIndexIterator, current_transition = transition\<rparr>\<rparr>"

text \<open>A frame with an invalid transition: it holds a solution and is discarded before it is expanded.\<close>

definition spent_frame :: "path_query \<Rightarrow> tree_state \<Rightarrow> frame" where
  "spent_frame Q s = fresh_frame s (length (transitions_from Q (tree_automaton s)))"

definition tree_dfs_new :: tree_dfs where
  "tree_dfs_new = \<lparr>dfs_open = [], dfs_first = True, dfs_reached = [], dfs_found = 0, dfs_searches = 0\<rparr>"

definition frame_node :: "frame \<Rightarrow> object_id" where
  "frame_node f = path_node (path_state (frame_state f))"

definition frame_transitions :: "path_query \<Rightarrow> frame \<Rightarrow> dfa_transition list" where
  "frame_transitions Q f = transitions_from Q (tree_automaton (frame_state f))"

text \<open>\<open>expand_neighbors\<close>: the cursor lives in the frame; \<open>child\<close> is the frame that is pushed and
  returned for a neighbour, if any.\<close>

definition dfs_expand ::
  "(object_id list \<Rightarrow> tree_state \<Rightarrow> dfa_transition \<Rightarrow> entry \<Rightarrow> frame option) \<Rightarrow> path_query \<Rightarrow> frame \<Rightarrow>
     tree_dfs \<Rightarrow> tree_dfs \<times> frame option" where
  "dfs_expand child Q f S =
     (case expand_cursor (provider Q) (frame_transitions Q f) (frame_node f) False
             (\<lambda>t x u. (u, child (dfs_reached S) (frame_state f) t x)) (frame_cur f) (dfs_searches S) () of
        (c, k, _, r) \<Rightarrow>
          (S\<lparr>dfs_searches := k,
             dfs_open := (case r of None \<Rightarrow> [] | Some g \<Rightarrow> [g]) @ f\<lparr>frame_cur := c\<rparr> # tl (dfs_open S)\<rparr>, r))"

text \<open>\<open>while (open.size() > 0)\<close>. \<open>discard\<close>: the frame is popped before it is expanded; \<open>abort\<close>: the
  stack is emptied and the search ends; \<open>accept\<close>: the test for a solution, which may record the node.\<close>

partial_function (option) dfs_loop ::
  "(frame \<Rightarrow> bool) \<Rightarrow> (frame \<Rightarrow> bool) \<Rightarrow> (frame \<Rightarrow> tree_dfs \<Rightarrow> tree_dfs \<times> frame option) \<Rightarrow>
     (frame \<Rightarrow> tree_dfs \<Rightarrow> tree_dfs \<times> bool) \<Rightarrow> tree_dfs \<Rightarrow> (tree_dfs \<times> path_state option) option" where
  "dfs_loop discard abort expand accept S =
     (case dfs_open S of
        [] \<Rightarrow> Some (S, None)
      | f # _ \<Rightarrow>
          if abort f then Some (S\<lparr>dfs_open := []\<rparr>, None)
          else if discard f then dfs_loop discard abort expand accept (S\<lparr>dfs_open := tl (dfs_open S)\<rparr>)
          else
            (case expand f S of
               (S', Some g) \<Rightarrow>
                 (case accept g S' of (S'', solution) \<Rightarrow>
                    if solution then Some (S''\<lparr>dfs_found := Suc (dfs_found S'')\<rparr>, Some (path_state (frame_state g)))
                    else dfs_loop discard abort expand accept S'')
             | (S', None) \<Rightarrow> dfs_loop discard abort expand accept (S'\<lparr>dfs_open := tl (dfs_open S')\<rparr>)))"

declare dfs_loop.simps [code]

text \<open>\<open>transition >= size\<close>: a frame that has nothing to expand.\<close>

definition spent :: "path_query \<Rightarrow> frame \<Rightarrow> bool" where
  "spent Q f \<longleftrightarrow> length (frame_transitions Q f) \<le> current_transition (frame_cur f)"

section \<open>Preorder\<close>

fun preorder :: "('s \<Rightarrow> 'a list) \<Rightarrow> ('s \<Rightarrow> 'a \<Rightarrow> 's list) \<Rightarrow> ('s \<Rightarrow> 'a \<Rightarrow> 'r list) \<Rightarrow> nat \<Rightarrow> 's \<Rightarrow> 'r list" where
  "preorder arr kid rp 0 s = concat (map (rp s) (arr s))"
| "preorder arr kid rp (Suc n) s =
     concat (map (\<lambda>a. rp s a @ concat (map (preorder arr kid rp n) (kid s a))) (arr s))"

definition visits :: "path_query \<Rightarrow> (tree_state \<Rightarrow> arrow \<Rightarrow> tree_state list) \<Rightarrow> (tree_state \<Rightarrow> nat) \<Rightarrow>
    (tree_state \<Rightarrow> arrow \<Rightarrow> 'r list) \<Rightarrow> tree_state \<Rightarrow> 'r list" where
  "visits Q kid rank rp s = preorder (tree_arrows Q) kid rp (rank s) s"

definition arrow_visits :: "path_query \<Rightarrow> (tree_state \<Rightarrow> arrow \<Rightarrow> tree_state list) \<Rightarrow> (tree_state \<Rightarrow> nat) \<Rightarrow>
    (tree_state \<Rightarrow> arrow \<Rightarrow> 'r list) \<Rightarrow> tree_state \<Rightarrow> arrow \<Rightarrow> 'r list" where
  "arrow_visits Q kid rank rp s a = rp s a @ concat (map (visits Q kid rank rp) (kid s a))"

lemma concat_map_cong: "(\<And>x. x \<in> set xs \<Longrightarrow> f x = g x) \<Longrightarrow> concat (map f xs) = concat (map g xs)"
  by (induction xs) auto

lemma preorder_enough:
  assumes rank: "ranked (all_kids Q kid) rank"
  shows "rank s \<le> n \<Longrightarrow> rank s \<le> m \<Longrightarrow> preorder (tree_arrows Q) kid rp n s = preorder (tree_arrows Q) kid rp m s"
proof (induction n arbitrary: m s)
  case 0
  have e: "kid s a = []" if "a \<in> set (tree_arrows Q s)" for a
    using ranked_leaf [OF rank, of s] 0 that by (auto simp: all_kids_def)
  show ?case
  proof (cases m)
    case (Suc k)
    show ?thesis unfolding Suc preorder.simps by (rule concat_map_cong) (simp add: e)
  qed simp
next
  case (Suc n)
  have kid: "rank c < rank s" if "a \<in> set (tree_arrows Q s)" "c \<in> set (kid s a)" for a c
    using rank that by (auto simp: ranked_def all_kids_def)
  show ?case
  proof (cases m)
    case 0
    then have "kid s a = []" if "a \<in> set (tree_arrows Q s)" for a
      using kid [OF that] Suc.prems by (cases "kid s a") auto
    then show ?thesis unfolding 0 preorder.simps by (intro concat_map_cong) simp
  next
    case m: (Suc k)
    show ?thesis unfolding m preorder.simps
    proof (rule concat_map_cong)
      fix a assume a: "a \<in> set (tree_arrows Q s)"
      have "concat (map (preorder (tree_arrows Q) kid rp n) (kid s a)) =
          concat (map (preorder (tree_arrows Q) kid rp k) (kid s a))"
      proof (rule concat_map_cong)
        fix c assume "c \<in> set (kid s a)"
        then have "rank c < rank s" by (rule kid [OF a])
        then show "preorder (tree_arrows Q) kid rp n c = preorder (tree_arrows Q) kid rp k c"
          using Suc.IH [of c k] Suc.prems m by simp
      qed
      then show "rp s a @ concat (map (preorder (tree_arrows Q) kid rp n) (kid s a)) =
          rp s a @ concat (map (preorder (tree_arrows Q) kid rp k) (kid s a))" by simp
    qed
  qed
qed

lemma visits_eq:
  assumes rank: "ranked (all_kids Q kid) rank"
  shows "visits Q kid rank rp s = concat (map (arrow_visits Q kid rank rp s) (tree_arrows Q s))"
proof -
  have "visits Q kid rank rp s = preorder (tree_arrows Q) kid rp (Suc (rank s)) s"
    unfolding visits_def by (rule preorder_enough [OF rank]) simp_all
  also have "\<dots> = concat (map (arrow_visits Q kid rank rp s) (tree_arrows Q s))"
    unfolding preorder.simps
  proof (rule concat_map_cong)
    fix a assume a: "a \<in> set (tree_arrows Q s)"
    have "concat (map (preorder (tree_arrows Q) kid rp (rank s)) (kid s a)) = concat (map (visits Q kid rank rp) (kid s a))"
    proof (rule concat_map_cong)
      fix c assume "c \<in> set (kid s a)"
      then have "rank c < rank s" using rank a by (auto simp: ranked_def all_kids_def)
      then show "preorder (tree_arrows Q) kid rp (rank s) c = visits Q kid rank rp c"
        unfolding visits_def by (intro preorder_enough [OF rank]) simp_all
    qed
    then show "rp s a @ concat (map (preorder (tree_arrows Q) kid rp (rank s)) (kid s a)) = arrow_visits Q kid rank rp s a"
      by (simp add: arrow_visits_def)
  qed
  finally show ?thesis .
qed

text \<open>Preorder and level order hold the same reports.\<close>

lemma mset_concat_append:
  "mset (concat (map (\<lambda>a. f a @ g a) xs)) = mset (concat (map f xs)) + mset (concat (map g xs))"
  by (induction xs) simp_all

lemma concat_concat_map: "concat (concat (map (\<lambda>a. map v (k a)) xs)) = concat (map (\<lambda>a. concat (map v (k a))) xs)"
  by (induction xs) simp_all

lemma visits_mset:
  assumes rank: "ranked (all_kids Q kid) rank"
  shows "mset (concat (map (visits Q kid rank rp) q)) = mset (levels (all_kids Q kid) rank (all_reports Q rp) q)"
proof (induction "forest_size (all_kids Q kid) rank q" arbitrary: q)
  case 0
  then show ?case by (cases q) (simp_all add: forest_size_Cons [OF rank])
next
  case (Suc n)
  then obtain s q' where q: "q = s # q'" by (cases q) auto
  have "n = forest_size (all_kids Q kid) rank (q' @ all_kids Q kid s)"
    using Suc.hyps(2) q by (simp add: forest_size_Cons [OF rank])
  from Suc.hyps(1) [OF this]
  have IH: "mset (concat (map (visits Q kid rank rp) (q' @ all_kids Q kid s))) =
      mset (levels (all_kids Q kid) rank (all_reports Q rp) (q' @ all_kids Q kid s))" .
  have "mset (visits Q kid rank rp s) = mset (all_reports Q rp s) + mset (concat (map (visits Q kid rank rp) (all_kids Q kid s)))"
    unfolding visits_eq [OF rank, of rp s] arrow_visits_def mset_concat_append all_reports_def all_kids_def
    by (simp add: map_concat comp_def concat_concat_map)
  then show ?case using IH by (simp add: q levels_Cons [OF rank] add.commute)
qed

section \<open>The contract of a search\<close>

text \<open>The test for a solution accepts a frame exactly when its report is picked.\<close>

definition accept_ok ::
  "bool \<Rightarrow> (frame \<Rightarrow> tree_dfs \<Rightarrow> tree_dfs \<times> bool) \<Rightarrow> object_id list \<Rightarrow> path_state list \<Rightarrow> frame \<Rightarrow> bool" where
  "accept_ok any accept R rs g \<longleftrightarrow>
     (\<forall>S S' b. dfs_reached S = R \<longrightarrow> accept g S = (S', b) \<longrightarrow>
        dfs_open S' = dfs_open S \<and> dfs_first S' = dfs_first S \<and>
        (if b then rs = [path_state (frame_state g)] \<and>
           (any \<longrightarrow> frame_node g \<notin> set R \<and> set (dfs_reached S') = insert (frame_node g) (set R))
         else pick any (set R) rs = [] \<and> set (dfs_reached S') = set R))"

definition child_ok ::
  "bool \<Rightarrow> bool \<Rightarrow> path_query \<Rightarrow> (tree_state \<Rightarrow> arrow \<Rightarrow> tree_state list) \<Rightarrow> (tree_state \<Rightarrow> arrow \<Rightarrow> path_state list) \<Rightarrow>
     (frame \<Rightarrow> tree_dfs \<Rightarrow> tree_dfs \<times> bool) \<Rightarrow> object_id list \<Rightarrow> tree_state \<Rightarrow> arrow \<Rightarrow> frame option \<Rightarrow> bool" where
  "child_ok any cyc Q kid rp accept R s a r \<longleftrightarrow>
     (case r of
        None \<Rightarrow> kid s a = [] \<and> pick any (set R) (rp s a) = []
      | Some g \<Rightarrow>
          (kid s a = [frame_state g] \<and> g = fresh_frame (frame_state g) 0 \<or>
           cyc \<and> kid s a = [] \<and> g = fresh_frame (frame_state g) (length (frame_transitions Q g))) \<and>
          accept_ok any accept R (rp s a) g)"

lemma fresh_frame_simps [simp]:
  "frame_state (fresh_frame s k) = s" "frame_node (fresh_frame s k) = path_node (path_state s)"
  "frame_transitions Q (fresh_frame s k) = transitions_from Q (tree_automaton s)"
  by (simp_all add: fresh_frame_def frame_node_def frame_transitions_def)

lemma spent_frame_simps [simp]:
  "frame_state (spent_frame Q s) = s" "frame_node (spent_frame Q s) = path_node (path_state s)"
  "frame_transitions Q' (spent_frame Q s) = transitions_from Q' (tree_automaton s)"
  by (simp_all add: spent_frame_def)

lemma child_ok_simps:
  "child_ok any cyc Q kid rp accept R s a None \<longleftrightarrow> kid s a = [] \<and> pick any (set R) (rp s a) = []"
  "kid s a = [c] \<Longrightarrow> child_ok any cyc Q kid rp accept R s a (Some (fresh_frame c 0)) \<longleftrightarrow>
     accept_ok any accept R (rp s a) (fresh_frame c 0)"
  "cyc \<Longrightarrow> kid s a = [] \<Longrightarrow> child_ok any cyc Q kid rp accept R s a (Some (spent_frame Q c)) \<longleftrightarrow>
     accept_ok any accept R (rp s a) (spent_frame Q c)"
  by (auto simp: child_ok_def spent_frame_def)

definition dfs_contract where
  "dfs_contract any cyc Q kid rp child accept \<longleftrightarrow>
     (\<forall>R s t x. child_ok any cyc Q kid rp accept R s (t, x) (child R s t x))"

text \<open>Frames that abort the search are solutions.\<close>

definition abort_contract where
  "abort_contract abort child accept \<longleftrightarrow>
     (\<forall>R s t x g S. child R s t x = Some g \<longrightarrow> abort (frame_state g) \<longrightarrow> dfs_reached S = R \<longrightarrow> snd (accept g S))"

section \<open>The invariant and the results to come\<close>

definition frame_ok :: "bool \<Rightarrow> path_query \<Rightarrow> frame \<Rightarrow> bool" where
  "frame_ok cyc Q f \<longleftrightarrow> cursor_ok (frame_transitions Q f) (frame_cur f) \<and>
     (at_end (iter (frame_cur f)) \<longrightarrow> current_transition (frame_cur f) = 0 \<or> cyc \<and> spent Q f)"

definition frame_pending :: "path_query \<Rightarrow> frame \<Rightarrow> arrow list" where
  "frame_pending Q f =
     (if spent Q f then [] else upcoming (provider Q) (frame_transitions Q f) (frame_node f) (frame_cur f))"

definition frame_visits where
  "frame_visits Q kid rank rp f = concat (map (arrow_visits Q kid rank rp (frame_state f)) (frame_pending Q f))"

definition stack_visits where
  "stack_visits Q kid rank rp fs = concat (map (frame_visits Q kid rank rp) fs)"

lemma stack_visits_simps [simp]:
  "stack_visits Q kid rank rp [] = []"
  "stack_visits Q kid rank rp (f # fs) = frame_visits Q kid rank rp f @ stack_visits Q kid rank rp fs"
  by (simp_all add: stack_visits_def)

lemma fresh_frame_ok: "frame_ok cyc Q (fresh_frame s 0)"
  "cyc \<Longrightarrow> g = fresh_frame s (length (frame_transitions Q g)) \<Longrightarrow> frame_ok cyc Q g"
proof -
  show "frame_ok cyc Q (fresh_frame s 0)" by (simp add: frame_ok_def fresh_frame_def cursor_ok_def)
  assume c: cyc and g: "g = fresh_frame s (length (frame_transitions Q g))"
  have "frame_cur g = \<lparr>iter = NullIndexIterator, current_transition = length (frame_transitions Q g)\<rparr>"
    by (subst g) (simp add: fresh_frame_def)
  then show "frame_ok cyc Q g" using c by (simp add: frame_ok_def cursor_ok_def spent_def)
qed

lemma fresh_frame_visits:
  assumes "ranked (all_kids Q kid) rank"
  shows "frame_visits Q kid rank rp (fresh_frame s 0) = visits Q kid rank rp s"
proof -
  have "frame_pending Q (fresh_frame s 0) = tree_arrows Q s"
    by (auto simp: frame_pending_def fresh_frame_def spent_def frame_transitions_def frame_node_def upcoming_def tree_arrows_def)
  then show ?thesis by (simp add: frame_visits_def visits_eq [OF assms] fresh_frame_def)
qed

lemma spent_frame_visits: "g = fresh_frame s (length (frame_transitions Q g)) \<Longrightarrow> frame_visits Q kid rank rp g = []"
proof -
  assume g: "g = fresh_frame s (length (frame_transitions Q g))"
  have "current_transition (frame_cur g) = length (frame_transitions Q g)" by (subst g) (simp add: fresh_frame_def)
  then show ?thesis by (simp add: frame_visits_def frame_pending_def spent_def)
qed

text \<open>A scan for the next child.\<close>

lemma scan_child:
  "scan (step_of (\<lambda>t x u. (u, child R s t x))) () P = (u, rest, r) \<Longrightarrow>
    (case r of
       None \<Rightarrow> rest = [] \<and> (\<forall>a \<in> set P. child R s (fst a) (snd a) = None)
     | Some g \<Rightarrow> \<exists>P1 a. P = P1 @ a # rest \<and> (\<forall>b \<in> set P1. child R s (fst b) (snd b) = None) \<and> child R s (fst a) (snd a) = Some g)"
proof (induction P)
  case (Cons a P)
  show ?case
  proof (cases "child R s (fst a) (snd a)")
    case None
    then have "scan (step_of (\<lambda>t x u. (u, child R s t x))) () P = (u, rest, r)"
      using Cons.prems by (simp add: step_of_def [abs_def])
    note IH = Cons.IH [OF this]
    show ?thesis
    proof (cases r)
      case (Some g)
      then obtain P1 b where "P = P1 @ b # rest" "\<forall>b \<in> set P1. child R s (fst b) (snd b) = None"
        "child R s (fst b) (snd b) = Some g" using IH by auto
      then show ?thesis using None Some by (auto intro: exI [of _ "a # P1"])
    qed (use IH None in simp)
  next
    case (Some g)
    then have "rest = P" "r = Some g" using Cons.prems by (simp_all add: step_of_def)
    then show ?thesis using Some by (auto intro!: exI [of _ "[]"])
  qed
qed auto

lemma pick_no_child:
  assumes "dfs_contract any cyc Q kid rp child accept" "\<forall>a \<in> set P. child R s (fst a) (snd a) = None"
  shows "pick any (set R) (concat (map (arrow_visits Q kid rank rp s) P) @ ys) = pick any (set R) ys"
  using assms(2)
proof (induction P)
  case (Cons a P)
  have "child_ok any cyc Q kid rp accept R s a None"
    using assms(1) Cons.prems unfolding dfs_contract_def by (metis list.set_intros(1) prod.collapse)
  then show ?case using Cons by (simp add: child_ok_def arrow_visits_def pick_drop)
qed simp

section \<open>One expansion\<close>

lemma frame_pending_upcoming:
  assumes "frame_ok cyc Q f" "\<not> (cyc \<and> spent Q f)"
  shows "upcoming (provider Q) (frame_transitions Q f) (frame_node f) (frame_cur f) = frame_pending Q f"
    "current_transition (frame_cur f) = 0 \<or> \<not> at_end (iter (frame_cur f))"
proof -
  show z: "current_transition (frame_cur f) = 0 \<or> \<not> at_end (iter (frame_cur f))"
    using assms by (auto simp: frame_ok_def)
  have "frame_transitions Q f = []" "at_end (iter (frame_cur f))" if "spent Q f"
    using that assms z by (auto simp: spent_def frame_ok_def cursor_ok_def)
  then show "upcoming (provider Q) (frame_transitions Q f) (frame_node f) (frame_cur f) = frame_pending Q f"
    by (auto simp: frame_pending_def upcoming_def)
qed

lemma dfs_expand_spec:
  assumes prov: "provider_ok (provider Q)" and con: "dfs_contract any cyc Q kid rp child accept"
    and ok: "frame_ok cyc Q f" "\<not> (cyc \<and> spent Q f)"
    and run: "dfs_expand child Q f S = (S', r)"
  shows "\<exists>f'. frame_state f' = frame_state f \<and> dfs_first S' = dfs_first S \<and> dfs_reached S' = dfs_reached S \<and>
    (case r of
       None \<Rightarrow> dfs_open S' = f' # tl (dfs_open S) \<and>
         (\<forall>b \<in> set (frame_pending Q f). child (dfs_reached S) (frame_state f) (fst b) (snd b) = None)
     | Some g \<Rightarrow> dfs_open S' = g # f' # tl (dfs_open S) \<and> frame_ok cyc Q f' \<and> frame_ok cyc Q g \<and>
         (\<exists>P1 a. frame_pending Q f = P1 @ a # frame_pending Q f' \<and>
            (\<forall>b \<in> set P1. child (dfs_reached S) (frame_state f) (fst b) (snd b) = None) \<and>
            child (dfs_reached S) (frame_state f) (fst a) (snd a) = Some g))"
proof -
  let ?child = "\<lambda>t x u. (u :: unit, child (dfs_reached S) (frame_state f) t x)"
  obtain c k u where X: "expand_cursor (provider Q) (frame_transitions Q f) (frame_node f) False ?child
      (frame_cur f) (dfs_searches S) () = (c, k, u, r)"
    and S': "S' = S\<lparr>dfs_searches := k,
      dfs_open := (case r of None \<Rightarrow> [] | Some g \<Rightarrow> [g]) @ f\<lparr>frame_cur := c\<rparr> # tl (dfs_open S)\<rparr>"
    using run by (auto simp: dfs_expand_def split: prod.splits)
  have cok: "cursor_ok (frame_transitions Q f) (frame_cur f)" using ok(1) by (simp add: frame_ok_def)
  have r0: "False \<or> current_transition (frame_cur f) = 0 \<or> \<not> at_end (iter (frame_cur f))"
    using frame_pending_upcoming(2) [OF ok] by simp
  obtain rest where sc: "scan (step_of ?child) () (frame_pending Q f) = (u, rest, r)"
    and c: "cursor_ok (frame_transitions Q f) c"
      "case r of None \<Rightarrow> at_end (iter c) \<and> rest = []
       | Some x \<Rightarrow> \<not> at_end (iter c) \<and> rest = upcoming (provider Q) (frame_transitions Q f) (frame_node f) c"
    using expand_cursor_scan [OF prov cok r0 X] unfolding frame_pending_upcoming(1) [OF ok] by (elim exE conjE)
  note ch = scan_child [where child = child, OF sc]
  let ?f = "f\<lparr>frame_cur := c\<rparr>"
  show ?thesis
  proof (cases r)
    case None
    then show ?thesis using ch S' by (intro exI [of _ ?f]) simp
  next
    case (Some g)
    then have ne: "\<not> at_end (iter c)" "rest = upcoming (provider Q) (frame_transitions Q f) (frame_node f) c"
      using c(2) by simp_all
    have t: "frame_transitions Q ?f = frame_transitions Q f" "frame_node ?f = frame_node f"
      by (simp_all add: frame_transitions_def frame_node_def)
    have "rest = frame_pending Q ?f" "frame_ok cyc Q ?f"
      using ne c(1) by (auto simp: frame_pending_def spent_def cursor_ok_def frame_ok_def t)
    moreover obtain P1 a where P: "frame_pending Q f = P1 @ a # rest"
      "\<forall>b \<in> set P1. child (dfs_reached S) (frame_state f) (fst b) (snd b) = None"
      "child (dfs_reached S) (frame_state f) (fst a) (snd a) = Some g" using ch Some by auto
    moreover have "frame_ok cyc Q g"
    proof -
      have "child_ok any cyc Q kid rp accept (dfs_reached S) (frame_state f) (fst a, snd a) (Some g)"
        using con P(3) unfolding dfs_contract_def by metis
      then show ?thesis using fresh_frame_ok [where cyc = cyc and Q = Q] unfolding child_ok_def option.case by metis
    qed
    ultimately show ?thesis using Some S' by (intro exI [of _ ?f]) auto
  qed
qed

section \<open>The loop\<close>

text \<open>A measure: two units and a frame per neighbour still to visit, one for every frame.\<close>

definition dfs_weight :: "path_query \<Rightarrow> (tree_state \<Rightarrow> arrow \<Rightarrow> tree_state list) \<Rightarrow> (tree_state \<Rightarrow> nat) \<Rightarrow> frame list \<Rightarrow> nat" where
  "dfs_weight Q kid rank fs = length fs +
     length (stack_visits Q kid rank (\<lambda>s a. replicate (2 + length (kid s a)) ()) fs)"

lemma stack_weight:
  assumes "frame_pending Q f = P1 @ a # frame_pending Q f'" "frame_state f' = frame_state f"
    and "ranked (all_kids Q kid) rank"
    and "kid (frame_state f) a = [frame_state g] \<and> g = fresh_frame (frame_state g) 0 \<or>
      kid (frame_state f) a = [] \<and> g = fresh_frame (frame_state g) (length (frame_transitions Q g))"
  shows "dfs_weight Q kid rank (g # f' # fs) < dfs_weight Q kid rank (f # fs)"
proof -
  let ?rp = "\<lambda>s a. replicate (2 + length (kid s a)) ()"
  have "length (frame_visits Q kid rank ?rp g) + 2 \<le> length (arrow_visits Q kid rank ?rp (frame_state f) a)"
    using assms(4)
  proof (elim disjE conjE)
    assume k: "kid (frame_state f) a = [frame_state g]" and g: "g = fresh_frame (frame_state g) 0"
    have "frame_visits Q kid rank ?rp g = visits Q kid rank ?rp (frame_state g)"
      by (subst g) (rule fresh_frame_visits [OF assms(3)])
    then show ?thesis by (simp add: arrow_visits_def k)
  next
    assume "g = fresh_frame (frame_state g) (length (frame_transitions Q g))"
    then show ?thesis by (simp add: spent_frame_visits arrow_visits_def)
  qed
  moreover have "frame_visits Q kid rank ?rp f =
      concat (map (arrow_visits Q kid rank ?rp (frame_state f)) P1) @ arrow_visits Q kid rank ?rp (frame_state f) a @
      frame_visits Q kid rank ?rp f'"
    by (simp add: frame_visits_def assms(1,2))
  ultimately show ?thesis by (simp add: dfs_weight_def)
qed

text \<open>The arrows before the child bring nothing; the child's arrow brings the child's subtree and,
  when it is accepted, the child.\<close>

lemma pick_child:
  assumes con: "dfs_contract any cyc Q kid rp child accept" and rank: "ranked (all_kids Q kid) rank"
    and f: "frame_pending Q f = P1 @ a # frame_pending Q f'" "frame_state f' = frame_state f"
    and P1: "\<forall>b \<in> set P1. child (dfs_reached S) (frame_state f) (fst b) (snd b) = None"
    and g: "child (dfs_reached S) (frame_state f) (fst a) (snd a) = Some g"
    and acc: "accept g S = (S', b)"
  shows "pick any (set (dfs_reached S)) (stack_visits Q kid rank rp (f # fs)) =
      (if b then [path_state (frame_state g)] else []) @
      pick any (set (dfs_reached S')) (stack_visits Q kid rank rp (g # f' # fs))"
    "dfs_open S' = dfs_open S" "dfs_first S' = dfs_first S"
    "kid (frame_state f) a = [frame_state g] \<and> g = fresh_frame (frame_state g) 0 \<or>
      kid (frame_state f) a = [] \<and> g = fresh_frame (frame_state g) (length (frame_transitions Q g))"
proof -
  let ?s = "frame_state f" and ?R = "set (dfs_reached S)"
  have ok: "child_ok any cyc Q kid rp accept (dfs_reached S) ?s a (Some g)"
    using con g unfolding dfs_contract_def by (metis prod.collapse)
  show kid: "kid ?s a = [frame_state g] \<and> g = fresh_frame (frame_state g) 0 \<or>
      kid ?s a = [] \<and> g = fresh_frame (frame_state g) (length (frame_transitions Q g))"
    using ok unfolding child_ok_def option.case by blast
  have acc': "dfs_open S' = dfs_open S \<and> dfs_first S' = dfs_first S \<and>
      (if b then rp ?s a = [path_state (frame_state g)] \<and>
         (any \<longrightarrow> frame_node g \<notin> ?R \<and> set (dfs_reached S') = insert (frame_node g) ?R)
       else pick any ?R (rp ?s a) = [] \<and> set (dfs_reached S') = ?R)"
    using ok acc unfolding child_ok_def accept_ok_def option.case by blast
  then show "dfs_open S' = dfs_open S" "dfs_first S' = dfs_first S" by simp_all
  have kids: "concat (map (visits Q kid rank rp) (kid ?s a)) = frame_visits Q kid rank rp g"
    using kid
  proof (elim disjE conjE)
    assume k: "kid ?s a = [frame_state g]" and g: "g = fresh_frame (frame_state g) 0"
    show ?thesis unfolding k by (subst g) (simp add: fresh_frame_visits [OF rank])
  qed (simp add: spent_frame_visits)
  have "stack_visits Q kid rank rp (f # fs) = concat (map (arrow_visits Q kid rank rp ?s) P1) @
      rp ?s a @ stack_visits Q kid rank rp (g # f' # fs)"
    by (simp add: frame_visits_def f arrow_visits_def kids [unfolded frame_visits_def])
  then have "pick any ?R (stack_visits Q kid rank rp (f # fs)) =
      pick any ?R (rp ?s a @ stack_visits Q kid rank rp (g # f' # fs))"
    using pick_no_child [OF con P1] by simp
  also have "\<dots> = (if b then [path_state (frame_state g)] else []) @
      pick any (set (dfs_reached S')) (stack_visits Q kid rank rp (g # f' # fs))"
  proof (cases b)
    case True
    then show ?thesis using acc' by (cases any) (simp_all add: frame_node_def)
  next
    case False
    then show ?thesis using acc' by (simp add: pick_drop)
  qed
  finally show "pick any ?R (stack_visits Q kid rank rp (f # fs)) =
      (if b then [path_state (frame_state g)] else []) @
      pick any (set (dfs_reached S')) (stack_visits Q kid rank rp (g # f' # fs))" .
qed

lemma dfs_loop_spec:
  assumes prov: "provider_ok (provider Q)" and con: "dfs_contract any cyc Q kid rp child accept"
    and rank: "ranked (all_kids Q kid) rank" and ab: "abort_contract ab child accept"
  shows "\<forall>f \<in> set (dfs_open S). frame_ok cyc Q f \<and> \<not> ab (frame_state f) \<Longrightarrow>
    \<exists>S' r. dfs_loop (\<lambda>f. cyc \<and> spent Q f) (\<lambda>f. ab (frame_state f)) (dfs_expand child Q) accept S = Some (S', r) \<and>
      dfs_first S' = dfs_first S \<and> (\<forall>f \<in> set (dfs_open S'). frame_ok cyc Q f) \<and>
      (case r of
         None \<Rightarrow> pick any (set (dfs_reached S)) (stack_visits Q kid rank rp (dfs_open S)) = [] \<and> dfs_open S' = []
       | Some p \<Rightarrow> pick any (set (dfs_reached S)) (stack_visits Q kid rank rp (dfs_open S)) =
           p # pick any (set (dfs_reached S')) (stack_visits Q kid rank rp (dfs_open S')) \<and>
           (\<exists>g fs. dfs_open S' = g # fs \<and> path_state (frame_state g) = p \<and> (\<forall>f \<in> set fs. \<not> ab (frame_state f)) \<and>
              (\<exists>T. snd (accept g T))))"
proof (induction "dfs_weight Q kid rank (dfs_open S)" arbitrary: S rule: less_induct)
  case less
  let ?loop = "dfs_loop (\<lambda>f. cyc \<and> spent Q f) (\<lambda>f. ab (frame_state f)) (dfs_expand child Q) accept"
  show ?case
  proof (cases "dfs_open S")
    case Nil
    then show ?thesis
      by (intro exI [of _ S] exI [of _ None]) (simp add: dfs_loop.simps [of _ _ _ _ S])
  next
    case (Cons f fs)
    have f: "frame_ok cyc Q f" "\<not> ab (frame_state f)" using less.prems Cons by simp_all
    show ?thesis
    proof (cases "cyc \<and> spent Q f")
      case True
      let ?S = "S\<lparr>dfs_open := fs\<rparr>"
      have l: "?loop S = ?loop ?S" using Cons f(2) True by (simp add: dfs_loop.simps [of _ _ _ _ S])
      have v: "frame_visits Q kid rank r f = []" for r :: "tree_state \<Rightarrow> arrow \<Rightarrow> unit list"
        using True by (simp add: frame_visits_def frame_pending_def)
      have w: "dfs_weight Q kid rank (dfs_open ?S) < dfs_weight Q kid rank (dfs_open S)"
        using Cons by (simp add: dfs_weight_def v)
      have e: "stack_visits Q kid rank rp (dfs_open S) = stack_visits Q kid rank rp (dfs_open ?S)"
        using Cons True by (simp add: frame_visits_def frame_pending_def)
      have p: "\<forall>f \<in> set (dfs_open ?S). frame_ok cyc Q f \<and> \<not> ab (frame_state f)" using less.prems Cons by simp
      have q: "dfs_first ?S = dfs_first S" "dfs_reached ?S = dfs_reached S" by simp_all
      show ?thesis unfolding l e using less.hyps [OF w p] unfolding q .
    next
      case ns: False
      obtain T r where e: "dfs_expand child Q f S = (T, r)" by fastforce
      obtain f' where E: "frame_state f' = frame_state f" "dfs_first T = dfs_first S" "dfs_reached T = dfs_reached S"
        "case r of
           None \<Rightarrow> dfs_open T = f' # tl (dfs_open S) \<and>
             (\<forall>b \<in> set (frame_pending Q f). child (dfs_reached S) (frame_state f) (fst b) (snd b) = None)
         | Some g \<Rightarrow> dfs_open T = g # f' # tl (dfs_open S) \<and> frame_ok cyc Q f' \<and> frame_ok cyc Q g \<and>
             (\<exists>P1 a. frame_pending Q f = P1 @ a # frame_pending Q f' \<and>
                (\<forall>b \<in> set P1. child (dfs_reached S) (frame_state f) (fst b) (snd b) = None) \<and>
                child (dfs_reached S) (frame_state f) (fst a) (snd a) = Some g)"
        using dfs_expand_spec [OF prov con f(1) ns e] by blast
      show ?thesis
      proof (cases r)
        case None
        let ?S = "T\<lparr>dfs_open := fs\<rparr>"
        have l: "?loop S = ?loop ?S" using Cons f(2) ns e None E(4)
          by (cases cyc) (simp_all add: dfs_loop.simps [of _ _ _ _ S])
        have w: "dfs_weight Q kid rank (dfs_open ?S) < dfs_weight Q kid rank (dfs_open S)"
          using Cons by (simp add: dfs_weight_def)
        have v: "pick any (set (dfs_reached S)) (stack_visits Q kid rank rp (dfs_open S)) =
            pick any (set (dfs_reached ?S)) (stack_visits Q kid rank rp (dfs_open ?S))"
          using pick_no_child [OF con, of "frame_pending Q f" "dfs_reached S" "frame_state f"] E(3,4) None Cons
          by (simp add: frame_visits_def)
        have p: "\<forall>f \<in> set (dfs_open ?S). frame_ok cyc Q f \<and> \<not> ab (frame_state f)" using less.prems Cons by simp
        show ?thesis unfolding l v using less.hyps [OF w p] E(2) by simp
      next
        case (Some g)
        then obtain P1 a where G: "dfs_open T = g # f' # fs" "frame_ok cyc Q f'" "frame_ok cyc Q g"
          "frame_pending Q f = P1 @ a # frame_pending Q f'"
          "\<forall>b \<in> set P1. child (dfs_reached T) (frame_state f) (fst b) (snd b) = None"
          "child (dfs_reached T) (frame_state f) (fst a) (snd a) = Some g"
          using E(3,4) Cons by auto
        obtain U b where acc: "accept g T = (U, b)" by fastforce
        note C = pick_child [OF con rank G(4) E(1) G(5,6) acc]
        have oks: "\<forall>f \<in> set (dfs_open U). frame_ok cyc Q f" using C(2) G(1-3) less.prems Cons by auto
        have l: "?loop S = (if b then Some (U\<lparr>dfs_found := Suc (dfs_found U)\<rparr>, Some (path_state (frame_state g))) else ?loop U)"
          using Cons f(2) ns e Some acc by (cases cyc) (simp_all add: dfs_loop.simps [of _ _ _ _ S])
        have v: "pick any (set (dfs_reached S)) (stack_visits Q kid rank rp (dfs_open S)) =
            (if b then [path_state (frame_state g)] else []) @
            pick any (set (dfs_reached U)) (stack_visits Q kid rank rp (dfs_open U))"
          using C(1) [of fs] C(2) G(1) E(3) Cons by simp
        show ?thesis
        proof (cases b)
          case True
          have na: "\<forall>f \<in> set (f' # fs). \<not> ab (frame_state f)" using less.prems Cons f(2) E(1) by simp
          have ex: "\<exists>T. snd (accept g T)" using acc True by (intro exI [of _ T]) simp
          show ?thesis unfolding l v
            using True C(2,3) E(2) oks G(1) na ex
            by (intro exI [of _ "U\<lparr>dfs_found := Suc (dfs_found U)\<rparr>"] exI [of _ "Some (path_state (frame_state g))"]) auto
        next
          case False
          have w: "dfs_weight Q kid rank (dfs_open U) < dfs_weight Q kid rank (dfs_open S)"
            unfolding C(2) G(1) Cons by (rule stack_weight [where kid = kid, OF G(4) E(1) rank C(4)])
          have "\<not> ab (frame_state g)"
          proof
            assume "ab (frame_state g)"
            then have "snd (accept g T)" using ab G(6) unfolding abort_contract_def by blast
            then show False using acc False by simp
          qed
          then have p: "\<forall>f \<in> set (dfs_open U). frame_ok cyc Q f \<and> \<not> ab (frame_state f)"
            using oks C(2) G(1) less.prems Cons E(1) by auto
          have l': "?loop S = ?loop U" using l False by simp
          have v': "pick any (set (dfs_reached S)) (stack_visits Q kid rank rp (dfs_open S)) =
              pick any (set (dfs_reached U)) (stack_visits Q kid rank rp (dfs_open U))" using v False by simp
          have q: "dfs_first U = dfs_first S" using C(3) E(2) by simp
          show ?thesis unfolding l' v' using less.hyps [OF w p] unfolding q .
        qed
      qed
    qed
  qed
qed

section \<open>Draining\<close>

lemma dfs_loop_drains:
  assumes prov: "provider_ok (provider Q)" and con: "dfs_contract any cyc Q kid rp child accept"
    and rank: "ranked (all_kids Q kid) rank"
    and nxt: "\<And>S. \<not> dfs_first S \<Longrightarrow> nxt S = dfs_loop (\<lambda>f. cyc \<and> spent Q f) (\<lambda>f. False) (dfs_expand child Q) accept S"
  shows "\<forall>f \<in> set (dfs_open S). frame_ok cyc Q f \<Longrightarrow> \<not> dfs_first S \<Longrightarrow>
    \<exists>S'. drains nxt S (pick any (set (dfs_reached S)) (stack_visits Q kid rank rp (dfs_open S))) S'"
proof (induction "length (pick any (set (dfs_reached S)) (stack_visits Q kid rank rp (dfs_open S)))" arbitrary: S rule: less_induct)
  case less
  have ab: "abort_contract (\<lambda>s. False) child accept" by (simp add: abort_contract_def)
  obtain S' r where L: "dfs_loop (\<lambda>f. cyc \<and> spent Q f) (\<lambda>f. False) (dfs_expand child Q) accept S = Some (S', r)"
    "dfs_first S' = dfs_first S" "\<forall>f \<in> set (dfs_open S'). frame_ok cyc Q f"
    "case r of
       None \<Rightarrow> pick any (set (dfs_reached S)) (stack_visits Q kid rank rp (dfs_open S)) = []
     | Some p \<Rightarrow> pick any (set (dfs_reached S)) (stack_visits Q kid rank rp (dfs_open S)) =
         p # pick any (set (dfs_reached S')) (stack_visits Q kid rank rp (dfs_open S'))"
    using dfs_loop_spec [OF prov con rank ab, of S] less.prems(1) by (auto split: option.splits)
  have n: "nxt S = Some (S', r)" using nxt less.prems(2) L(1) by simp
  show ?case
  proof (cases r)
    case None
    then show ?thesis using n L(4) by (auto intro: drains_Nil)
  next
    case (Some p)
    then have "\<exists>T. drains nxt S' (pick any (set (dfs_reached S')) (stack_visits Q kid rank rp (dfs_open S'))) T"
      using less.hyps [of S'] L(2-4) less.prems(2) by simp
    then show ?thesis using n Some L(4) by (auto intro: drains_Cons)
  qed
qed

lemma dfs_start_drains:
  assumes loop: "provider_ok (provider Q)" "dfs_contract any cyc Q kid rp child accept" "ranked (all_kids Q kid) rank"
      "\<And>S. \<not> dfs_first S \<Longrightarrow> nxt S = dfs_loop (\<lambda>f. cyc \<and> spent Q f) (\<lambda>f. False) (dfs_expand child Q) accept S"
    and S: "dfs_open S = [fresh_frame s 0]" "dfs_reached S = []"
    and first: "nxt S = (if c then Some (S\<lparr>dfs_first := False, dfs_reached := R, dfs_found := k\<rparr>, Some p)
      else dfs_loop (\<lambda>f. cyc \<and> spent Q f) (\<lambda>f. False) (dfs_expand child Q) accept (S\<lparr>dfs_first := False\<rparr>))"
      "any \<Longrightarrow> set R = {path_node p}"
  shows "\<exists>S'. drains nxt S (pick any {} ((if c then [p] else []) @ visits Q kid rank rp s)) S'"
proof (cases c)
  case True
  let ?S = "S\<lparr>dfs_first := False, dfs_reached := R, dfs_found := k\<rparr>"
  obtain S' where "drains nxt ?S (pick any (set R) (visits Q kid rank rp s)) S'"
    using dfs_loop_drains [OF loop, of ?S] S by (auto simp: fresh_frame_ok fresh_frame_visits [OF loop(3)])
  moreover have "pick any {path_node p} xs = pick any (set R) xs" for xs
    using first(2) by (cases any) simp_all
  ultimately show ?thesis using first(1) True by (auto intro!: drains_Cons)
next
  case False
  let ?S = "S\<lparr>dfs_first := False\<rparr>"
  obtain S' where D: "drains nxt ?S (pick any {} (visits Q kid rank rp s)) S'"
    using dfs_loop_drains [OF loop, of ?S] S by (auto simp: fresh_frame_ok fresh_frame_visits [OF loop(3)])
  have "nxt ?S = nxt S" using loop(4) [of ?S] first(1) False by simp
  from drains_cong [OF this D] False show ?thesis by auto
qed

text \<open>A search that aborts at its solutions returns one.\<close>

lemma dfs_start_first:
  assumes prov: "provider_ok (provider Q)" and con: "dfs_contract False cyc Q kid rp child accept"
    and rank: "ranked (all_kids Q kid) rank" and ab: "abort_contract ab child accept"
    and acc: "\<And>g S. snd (accept g S) \<Longrightarrow> ab (frame_state g)"
    and nxt: "\<And>S. \<not> dfs_first S \<Longrightarrow>
      nxt S = dfs_loop (\<lambda>f. cyc \<and> spent Q f) (\<lambda>f. ab (frame_state f)) (dfs_expand child Q) accept S"
    and S: "dfs_open S = [fresh_frame s 0]"
    and first: "nxt S = (if ab s then Some (S\<lparr>dfs_first := False, dfs_found := k\<rparr>, Some p)
      else dfs_loop (\<lambda>f. cyc \<and> spent Q f) (\<lambda>f. ab (frame_state f)) (dfs_expand child Q) accept (S\<lparr>dfs_first := False\<rparr>))"
  shows "\<exists>S'. drains nxt S (take 1 ((if ab s then [p] else []) @ visits Q kid rank rp s)) S'"
proof -
  have stop: "drains nxt T [] (T\<lparr>dfs_open := []\<rparr>)" if "dfs_open T = g # fs" "ab (frame_state g)" "\<not> dfs_first T" for T g fs
    using nxt [OF that(3)] that(1,2) by (auto simp: dfs_loop.simps [of _ _ _ _ T] intro: drains_Nil)
  show ?thesis
  proof (cases "ab s")
    case True
    let ?S = "S\<lparr>dfs_first := False, dfs_found := k\<rparr>"
    have "drains nxt ?S [] (?S\<lparr>dfs_open := []\<rparr>)"
      using S True by (intro stop [of ?S "fresh_frame s 0" "[]"]) simp_all
    then show ?thesis using first True by (auto intro: drains_Cons)
  next
    case False
    let ?S = "S\<lparr>dfs_first := False\<rparr>"
    have ok: "\<forall>f \<in> set (dfs_open ?S). frame_ok cyc Q f \<and> \<not> ab (frame_state f)" using S False by (simp add: fresh_frame_ok)
    have v: "stack_visits Q kid rank rp (dfs_open ?S) = visits Q kid rank rp s"
      using S by (simp add: fresh_frame_visits [OF rank])
    obtain S' r where L: "dfs_loop (\<lambda>f. cyc \<and> spent Q f) (\<lambda>f. ab (frame_state f)) (dfs_expand child Q) accept ?S = Some (S', r)"
      "dfs_first S' = dfs_first ?S"
      "case r of
         None \<Rightarrow> pick False (set (dfs_reached ?S)) (stack_visits Q kid rank rp (dfs_open ?S)) = [] \<and> dfs_open S' = []
       | Some p \<Rightarrow> pick False (set (dfs_reached ?S)) (stack_visits Q kid rank rp (dfs_open ?S)) =
           p # pick False (set (dfs_reached S')) (stack_visits Q kid rank rp (dfs_open S')) \<and>
           (\<exists>g fs. dfs_open S' = g # fs \<and> path_state (frame_state g) = p \<and> (\<forall>f \<in> set fs. \<not> ab (frame_state f)) \<and>
              (\<exists>T. snd (accept g T)))"
      using dfs_loop_spec [OF prov con rank ab ok] by blast
    have n: "nxt S = Some (S', r)" using first False L(1) by simp
    show ?thesis
    proof (cases r)
      case None
      then show ?thesis using n L(3) False v by (auto intro: drains_Nil)
    next
      case (Some q)
      then obtain g fs where g: "dfs_open S' = g # fs" "ab (frame_state g)" using L(3) acc by auto
      have "visits Q kid rank rp s = q # stack_visits Q kid rank rp (dfs_open S')"
        using L(3) Some unfolding v by simp
      then have "take 1 (visits Q kid rank rp s) = [q]" by simp
      then show ?thesis using n Some False stop [OF g] L(2) by (auto intro: drains_Cons)
    qed
  qed
qed

text \<open>The reports of the whole tree, against those of the breadth-first search.\<close>

lemma visits_levels:
  "ranked (all_kids Q kid) rank \<Longrightarrow> mset (visits Q kid rank rp s) = mset (levels (all_kids Q kid) rank (all_reports Q rp) [s])"
  using visits_mset [of Q kid rank rp "[s]"] by simp

end
