(* ===== verification/SimpleBfs.thy ===== *)
theory SimpleBfs
  imports PathTree
begin

text \<open>
  The breadth-first searches for simple and acyclic paths: \<open>Paths::AllSimple::BFSEnum\<close> and
  \<open>BFSCheck\<close>, \<open>Paths::AnySimple::BFSEnum\<close> and \<open>BFSCheck\<close>. The template argument \<open>CYCLIC\<close> is the
  first argument of the definitions: a simple path may end where it starts, an acyclic path not.
\<close>

section \<open>Objects\<close>

definition simple_start :: "path_query \<Rightarrow> path_state" where
  "simple_start Q = PathState (start_object_id Q) None null_object_id False None"

definition simple_bfs_begin :: "path_query \<Rightarrow> tree_bfs \<Rightarrow> tree_bfs" where
  "simple_bfs_begin Q B = B\<lparr>bfs_first := True, bfs_cur := (bfs_cur B)\<lparr>iter := NullIndexIterator\<rparr>,
     bfs_visited := visited_add (bfs_visited B),
     bfs_open := bfs_open B @ [TreeState (simple_start Q) (start_state (automaton Q))]\<rparr>"

definition simple_bfs_reset :: "path_query \<Rightarrow> tree_bfs \<Rightarrow> tree_bfs" where
  "simple_bfs_reset Q B = B\<lparr>bfs_first := True, bfs_cur := (bfs_cur B)\<lparr>iter := NullIndexIterator\<rparr>,
     bfs_visited := visited_add (visited_clear (bfs_visited B)),
     bfs_open := [TreeState (simple_start Q) (start_state (automaton Q))]\<rparr>"

definition any_simple_bfs_reset :: "path_query \<Rightarrow> tree_bfs \<Rightarrow> tree_bfs" where
  "any_simple_bfs_reset Q B = simple_bfs_reset Q (B\<lparr>bfs_reached := []\<rparr>)"

section \<open>AllSimple::BFSEnum\<close>

definition simple_bfs_visit ::
  "bool \<Rightarrow> path_query \<Rightarrow> tree_state \<Rightarrow> dfa_transition \<Rightarrow> entry \<Rightarrow> tree_bfs \<Rightarrow> tree_bfs \<times> path_state option" where
  "simple_bfs_visit cyclic Q s t x B =
     (let child = PathState (fst x) None (type_id t) (dfa_inverse t) (Some (path_state s)) in
      if \<not> is_simple_path (Some (path_state s)) (fst x) then
        if cyclic \<and> is_final Q (dfa_to t) \<and> fst x = start_object_id Q
        then (B\<lparr>bfs_visited := visited_add (bfs_visited B)\<rparr>, Some child)
        else (B, None)
      else
        (let B1 = B\<lparr>bfs_visited := visited_add (bfs_visited B), bfs_open := bfs_open B @ [TreeState child (dfa_to t)]\<rparr>
         in if is_final Q (dfa_to t) then (B1, Some child) else (B1, None)))"

definition simple_bfs_expand :: "bool \<Rightarrow> path_query \<Rightarrow> tree_state \<Rightarrow> tree_bfs \<Rightarrow> tree_bfs \<times> path_state option" where
  "simple_bfs_expand cyclic Q = tree_expand (simple_bfs_visit cyclic Q) Q"

declare simple_bfs_expand_def [simp]

definition simple_bfs_next :: "bool \<Rightarrow> path_query \<Rightarrow> tree_bfs \<Rightarrow> (tree_bfs \<times> path_state option) option" where
  "simple_bfs_next cyclic Q B =
     (if bfs_first B then
        (let B1 = B\<lparr>bfs_first := False\<rparr>; current = path_state (hd (bfs_open B1)) in
         if \<not> node_exists Q (path_node current) then Some (B1\<lparr>bfs_open := tl (bfs_open B1)\<rparr>, None)
         else if is_final Q (start_state (automaton Q)) then Some (B1\<lparr>bfs_found := Suc (bfs_found B1)\<rparr>, Some current)
         else tree_loop (simple_bfs_expand cyclic Q) B1)
      else tree_loop (simple_bfs_expand cyclic Q) B)"

section \<open>AllSimple::BFSCheck\<close>

definition simple_check_visit ::
  "bool \<Rightarrow> path_query \<Rightarrow> tree_state \<Rightarrow> dfa_transition \<Rightarrow> entry \<Rightarrow> tree_bfs \<Rightarrow> tree_bfs \<times> path_state option" where
  "simple_check_visit cyclic Q s t x B =
     (let child = PathState (fst x) None (type_id t) (dfa_inverse t) (Some (path_state s));
          V = visited_add (bfs_visited B) in
      if \<not> is_simple_path (Some (path_state s)) (fst x) then
        if cyclic \<and> is_final Q (dfa_to t) \<and> start_object_id Q = end_object_id Q \<and> fst x = start_object_id Q
        then (B\<lparr>bfs_visited := V\<rparr>, Some child)
        else (B, None)
      else if fst x = end_object_id Q then
        if is_final Q (dfa_to t) then (B\<lparr>bfs_visited := V\<rparr>, Some child) else (B, None)
      else (B\<lparr>bfs_visited := V, bfs_open := bfs_open B @ [TreeState child (dfa_to t)]\<rparr>, None))"

definition simple_check_expand :: "bool \<Rightarrow> path_query \<Rightarrow> tree_state \<Rightarrow> tree_bfs \<Rightarrow> tree_bfs \<times> path_state option" where
  "simple_check_expand cyclic Q = tree_expand (simple_check_visit cyclic Q) Q"

declare simple_check_expand_def [simp]

definition simple_check_next :: "bool \<Rightarrow> path_query \<Rightarrow> tree_bfs \<Rightarrow> (tree_bfs \<times> path_state option) option" where
  "simple_check_next cyclic Q B =
     (let loop = tree_loop (simple_check_expand cyclic Q) in
      if bfs_first B then
        (let B1 = B\<lparr>bfs_first := False\<rparr>; current = path_state (hd (bfs_open B1)) in
         if \<not> node_exists Q (path_node current) then Some (B1\<lparr>bfs_open := tl (bfs_open B1)\<rparr>, None)
         else if path_node current = end_object_id Q then
           if is_final Q (start_state (automaton Q)) then
             Some (B1\<lparr>bfs_found := Suc (bfs_found B1), bfs_open := (if cyclic then bfs_open B1 else [])\<rparr>, Some current)
           else if \<not> cyclic then Some (B1\<lparr>bfs_open := []\<rparr>, None)
           else loop B1
         else loop B1)
      else loop B)"

section \<open>AnySimple::BFSEnum and BFSCheck\<close>

definition any_simple_bfs_visit ::
  "bool \<Rightarrow> path_query \<Rightarrow> tree_state \<Rightarrow> dfa_transition \<Rightarrow> entry \<Rightarrow> tree_bfs \<Rightarrow> tree_bfs \<times> path_state option" where
  "any_simple_bfs_visit cyclic Q s t x B =
     (let child = PathState (fst x) None (type_id t) (dfa_inverse t) (Some (path_state s)) in
      if \<not> is_simple_path (Some (path_state s)) (fst x) then
        if cyclic \<and> is_final Q (dfa_to t) \<and> fst x = start_object_id Q \<and> fst x \<notin> set (bfs_reached B)
        then (B\<lparr>bfs_reached := fst x # bfs_reached B, bfs_visited := visited_add (bfs_visited B)\<rparr>, Some child)
        else (B, None)
      else
        (let B1 = B\<lparr>bfs_visited := visited_add (bfs_visited B), bfs_open := bfs_open B @ [TreeState child (dfa_to t)]\<rparr>
         in if is_final Q (dfa_to t) \<and> path_node child \<notin> set (bfs_reached B1)
            then (B1\<lparr>bfs_reached := path_node child # bfs_reached B1\<rparr>, Some child) else (B1, None)))"

definition any_simple_bfs_expand :: "bool \<Rightarrow> path_query \<Rightarrow> tree_state \<Rightarrow> tree_bfs \<Rightarrow> tree_bfs \<times> path_state option" where
  "any_simple_bfs_expand cyclic Q = tree_expand (any_simple_bfs_visit cyclic Q) Q"

declare any_simple_bfs_expand_def [simp]

definition any_simple_bfs_next :: "bool \<Rightarrow> path_query \<Rightarrow> tree_bfs \<Rightarrow> (tree_bfs \<times> path_state option) option" where
  "any_simple_bfs_next cyclic Q B =
     (if bfs_first B then
        (let B1 = B\<lparr>bfs_first := False\<rparr>; current = path_state (hd (bfs_open B1)) in
         if \<not> node_exists Q (path_node current) then Some (B1\<lparr>bfs_open := tl (bfs_open B1)\<rparr>, None)
         else if is_final Q (start_state (automaton Q))
         then Some (B1\<lparr>bfs_reached := path_node current # bfs_reached B1, bfs_found := Suc (bfs_found B1)\<rparr>, Some current)
         else tree_loop (any_simple_bfs_expand cyclic Q) B1)
      else tree_loop (any_simple_bfs_expand cyclic Q) B)"

text \<open>The check returns its first solution and empties the queue.\<close>

definition any_simple_check_next :: "bool \<Rightarrow> path_query \<Rightarrow> tree_bfs \<Rightarrow> (tree_bfs \<times> path_state option) option" where
  "any_simple_check_next cyclic Q B =
     (let loop = (\<lambda>C. clear_on_result (tree_loop (simple_check_expand cyclic Q) C)) in
      if bfs_first B then
        (let B1 = B\<lparr>bfs_first := False\<rparr>; current = path_state (hd (bfs_open B1)) in
         if \<not> node_exists Q (path_node current) then Some (B1\<lparr>bfs_open := tl (bfs_open B1)\<rparr>, None)
         else if path_node current = end_object_id Q then
           if is_final Q (start_state (automaton Q)) then
             Some (B1\<lparr>bfs_found := Suc (bfs_found B1), bfs_open := []\<rparr>, Some current)
           else if \<not> cyclic then Some (B1\<lparr>bfs_open := []\<rparr>, None)
           else loop B1
         else loop B1)
      else loop B)"

section \<open>Children and reports\<close>

text \<open>\<open>avoid\<close>: nodes that are never expanded, the end node in a check.\<close>

definition simple_admit :: "object_id set \<Rightarrow> path_state \<Rightarrow> step \<Rightarrow> bool" where
  "simple_admit avoid p x \<longleftrightarrow> snd (snd x) \<notin> set (path_nodes p) \<and> snd (snd x) \<notin> avoid"

definition simple_select :: "bool \<Rightarrow> path_query \<Rightarrow> object_id set \<Rightarrow> path_state \<Rightarrow> step \<Rightarrow> bool" where
  "simple_select cyclic Q ends p x \<longleftrightarrow> snd (snd x) \<in> ends \<and>
     (snd (snd x) \<notin> set (path_nodes p) \<or> cyclic \<and> snd (snd x) = start_object_id Q)"

abbreviation "simple_kid avoid \<equiv> step_kid False (simple_admit avoid)"

abbreviation "simple_report cyclic Q ends \<equiv> step_report False Q (simple_select cyclic Q ends)"

lemmas simple_body_defs = simple_bfs_visit_def simple_check_visit_def any_simple_bfs_visit_def
  step_kid_def step_report_def simple_admit_def simple_select_def extend_def arrow_step_def is_simple_path_iff Let_def

lemma simple_bfs_contract:
  "visit_contract False (simple_kid {}) (simple_report cyclic Q UNIV) (simple_bfs_visit cyclic Q)"
  unfolding visit_contract_def simple_body_defs
  by (intro allI impI) (simp split: if_splits option.split; clarsimp)

lemma simple_check_contract:
  "visit_contract False (simple_kid {end_object_id Q}) (simple_report cyclic Q {end_object_id Q}) (simple_check_visit cyclic Q)"
  unfolding visit_contract_def simple_body_defs
  by (intro allI impI) (simp split: if_splits option.split; clarsimp)

lemma any_simple_bfs_contract:
  "visit_contract True (simple_kid {}) (simple_report cyclic Q UNIV) (any_simple_bfs_visit cyclic Q)"
  unfolding visit_contract_def simple_body_defs
  by (intro allI impI) (simp split: if_splits option.split; clarsimp)

definition simple_rank :: "tree_state \<Rightarrow> nat" where
  "simple_rank s = card (- set (path_nodes (path_state s)))"

lemma simple_ranked: "ranked (all_kids Q (simple_kid avoid)) simple_rank"
  unfolding ranked_def
proof (intro allI ballI)
  fix s c assume "c \<in> set (all_kids Q (simple_kid avoid) s)"
  then obtain a where "c \<in> set (simple_kid avoid s a)" by (auto simp: all_kids_def)
  then have "simple_admit avoid (path_state s) (arrow_step False a)"
    "path_state c = extend (path_state s) (arrow_step False a)"
    unfolding step_kid_iff by auto
  then have "- set (path_nodes (path_state c)) \<subset> - set (path_nodes (path_state s))"
    by (auto simp: simple_admit_def)
  then show "simple_rank c < simple_rank s" unfolding simple_rank_def by (intro psubset_card_mono) simp_all
qed

section \<open>Simple paths\<close>

definition step_nodes :: "step list \<Rightarrow> object_id list" where
  "step_nodes xs = map (\<lambda>x. snd (snd x)) xs"

definition simple_steps :: "bool \<Rightarrow> object_id \<Rightarrow> step list \<Rightarrow> bool" where
  "simple_steps cyclic s xs \<longleftrightarrow> distinct (s # step_nodes xs) \<or>
     cyclic \<and> xs \<noteq> [] \<and> last (step_nodes xs) = s \<and> distinct (step_nodes xs)"

lemma admitted_simple:
  "admitted (simple_admit avoid) p xs \<longleftrightarrow> distinct (step_nodes xs) \<and>
     set (step_nodes xs) \<inter> (set (path_nodes p) \<union> avoid) = {}"
  by (induction xs arbitrary: p) (auto simp: step_nodes_def simple_admit_def)

lemma simple_last:
  assumes "avoid = {} \<or> (\<exists>e. avoid = {e} \<and> ends = {e})"
  shows "(distinct ns \<and> set ns \<inter> ({s} \<union> avoid) = {}) \<and> n \<in> ends \<and> (n \<notin> {s} \<union> set ns \<or> cyclic \<and> n = s) \<longleftrightarrow>
    n \<in> ends \<and> (distinct (s # ns @ [n]) \<or> cyclic \<and> n = s \<and> distinct (ns @ [n]))"
  using assms by (elim disjE exE conjE) (simp; blast)+

lemma simple_cond:
  assumes "avoid = {} \<or> (\<exists>e. avoid = {e} \<and> ends = {e})"
  shows "admitted (simple_admit avoid) (simple_start Q) xs \<and> simple_select cyclic Q ends (extend_all (simple_start Q) xs) x \<longleftrightarrow>
    snd (snd x) \<in> ends \<and> simple_steps cyclic (start_object_id Q) (xs @ [x])"
  using simple_last [OF assms, of "step_nodes xs" "start_object_id Q" "snd (snd x)" cyclic]
  unfolding admitted_simple simple_select_def extend_all_sets simple_steps_def
  by (simp add: step_nodes_def comp_def simple_start_def)

lemma simple_start_simps [simp]:
  "path_node (simple_start Q) = start_object_id Q" "steps_of (simple_start Q) = []" "origin (simple_start Q) = start_object_id Q"
  by (simp_all add: simple_start_def)

abbreviation "simple_levels Q cyclic avoid ends \<equiv>
  levels (all_kids Q (simple_kid avoid)) simple_rank (all_reports Q (simple_report cyclic Q ends)) [root_of Q (simple_start Q)]"

abbreviation "simple_answers E Q cyclic ends \<equiv> good_answers E False Q (simple_steps cyclic (start_object_id Q)) ends"

lemma simple_levels_steps:
  assumes "exact_arrows E False (provider Q)" "dfa_ok (automaton Q)" "avoid = {} \<or> (\<exists>e. avoid = {e} \<and> ends = {e})"
  shows "steps_of ` set (simple_levels Q cyclic avoid ends) = simple_answers E Q cyclic ends - {[]}"
  by (rule tree_report_steps [OF assms(1,2) simple_ranked]) (use simple_cond [OF assms(3)] in simp_all)

section \<open>The results of the searches\<close>

text \<open>The object after \<open>begin\<close>.\<close>

definition simple_fresh :: "path_query \<Rightarrow> tree_bfs \<Rightarrow> bool" where
  "simple_fresh Q B \<longleftrightarrow> bfs_first B \<and> bfs_open B = [root_of Q (simple_start Q)] \<and>
     iter (bfs_cur B) = NullIndexIterator \<and> bfs_reached B = [] \<and> visited_safe (bfs_visited B)"

lemma simple_fresh_begin: "simple_fresh Q (simple_bfs_begin Q tree_bfs_new)"
  by (simp add: simple_fresh_def simple_bfs_begin_def tree_bfs_new_def root_of_def)

text \<open>\<open>reset\<close> brings the object back to this state, except for the block memory.\<close>

lemma simple_fresh_reset:
  "visited_safe (bfs_visited (any_simple_bfs_reset Q B)) \<Longrightarrow> simple_fresh Q (any_simple_bfs_reset Q B)"
  by (simp add: simple_fresh_def any_simple_bfs_reset_def simple_bfs_reset_def root_of_def)

lemma simple_steps_Nil [simp]: "simple_steps cyclic s []"
  by (simp add: simple_steps_def step_nodes_def)

abbreviation "simple_all Q cyclic c avoid ends \<equiv>
  (if c then [simple_start Q] else []) @ simple_levels Q cyclic avoid ends"

lemma simple_all_spec:
  assumes X: "exact_arrows E False (provider Q)" and D: "dfa_ok (automaton Q)"
    and avoid: "avoid = {} \<or> (\<exists>e. avoid = {e} \<and> ends = {e})"
    and c: "c \<longleftrightarrow> is_final Q (start_state (automaton Q)) \<and> start_object_id Q \<in> ends"
  shows "steps_of ` set (simple_all Q cyclic c avoid ends) = simple_answers E Q cyclic ends"
    "\<And>r. r \<in> set (simple_all Q cyclic c avoid ends) \<Longrightarrow> path_result E False Q r"
    "sorted (map (\<lambda>r. length (steps_of r)) (simple_all Q cyclic c avoid ends))"
proof -
  show "steps_of ` set (simple_all Q cyclic c avoid ends) = simple_answers E Q cyclic ends"
    by (rule all_report_steps [OF simple_levels_steps [OF X D avoid]]) (simp_all add: c good_answers_Nil [OF D])
  show "sorted (map (\<lambda>r. length (steps_of r)) (simple_all Q cyclic c avoid ends))"
    by (rule all_report_sorted [OF simple_ranked]) simp
  fix r assume "r \<in> set (simple_all Q cyclic c avoid ends)"
  then have "r = simple_start Q \<or> r \<in> set (simple_levels Q cyclic avoid ends)" by (auto split: if_splits)
  then show "path_result E False Q r"
    using tree_report_result [OF X D simple_ranked, of "simple_start Q"] by (auto simp: path_result_def)
qed

lemma all_simple_bfs_list:
  assumes prov: "provider_ok (provider Q)" and ex: "node_exists Q (start_object_id Q)" and B: "simple_fresh Q B"
  shows "\<exists>B'. drains (simple_bfs_next cyclic Q) B
      (simple_all Q cyclic (is_final Q (start_state (automaton Q))) {} UNIV) B' \<and> visited_safe (bfs_visited B')"
proof -
  have "\<exists>B'. drains (simple_bfs_next cyclic Q) B
      (pick False {} (simple_all Q cyclic (is_final Q (start_state (automaton Q))) {} UNIV)) B' \<and> visited_safe (bfs_visited B')"
    by (rule start_drains [OF prov simple_bfs_contract simple_ranked,
          where k = "Suc (bfs_found B)" and R = "bfs_reached B"])
      (use B ex in \<open>simp_all add: simple_fresh_def simple_bfs_next_def root_of_def Let_def\<close>)
  then show ?thesis unfolding pick_False .
qed

lemma all_simple_bfs_enum:
  assumes Q: "exact_arrows E False (provider Q)" "dfa_ok (automaton Q)" "provider_ok (provider Q)"
    and ex: "node_exists Q (start_object_id Q)" and B: "simple_fresh Q B"
  shows "\<exists>rs B'. drains (simple_bfs_next cyclic Q) B rs B' \<and> visited_safe (bfs_visited B') \<and>
    steps_of ` set rs = simple_answers E Q cyclic UNIV \<and> (\<forall>r \<in> set rs. path_result E False Q r) \<and>
    sorted (map (\<lambda>r. length (steps_of r)) rs)"
proof -
  let ?c = "is_final Q (start_state (automaton Q))"
  note S = simple_all_spec [OF Q(1,2) disjI1 [OF refl], where ends = UNIV and c = ?c and cyclic = cyclic]
  from all_simple_bfs_list [OF Q(3) ex B, of cyclic] S show ?thesis by blast
qed

lemma any_simple_bfs_enum:
  assumes Q: "exact_arrows E False (provider Q)" "dfa_ok (automaton Q)" "provider_ok (provider Q)"
    and ex: "node_exists Q (start_object_id Q)" and B: "simple_fresh Q B"
  shows "\<exists>rs B'. drains (any_simple_bfs_next cyclic Q) B rs B' \<and> visited_safe (bfs_visited B') \<and>
    distinct (map path_node rs) \<and> path_node ` set rs = {m. simple_answers E Q cyclic {m} \<noteq> {}} \<and>
    (\<forall>r \<in> set rs. path_result E False Q r \<and> steps_of r \<in> simple_answers E Q cyclic {path_node r} \<and>
       (\<forall>ys \<in> simple_answers E Q cyclic {path_node r}. length (steps_of r) \<le> length ys))"
proof -
  let ?c = "is_final Q (start_state (automaton Q))" and ?all = "simple_all Q cyclic (is_final Q (start_state (automaton Q))) {} UNIV"
  have D: "\<exists>B'. drains (any_simple_bfs_next cyclic Q) B (pick True {} ?all) B' \<and> visited_safe (bfs_visited B')"
    by (rule start_drains [OF Q(3) any_simple_bfs_contract simple_ranked,
          where k = "Suc (bfs_found B)" and R = "[start_object_id Q]"])
      (use B ex in \<open>simp_all add: simple_fresh_def any_simple_bfs_next_def root_of_def Let_def\<close>)
  have S: "steps_of ` set ?all = simple_answers E Q cyclic UNIV" "\<And>r. r \<in> set ?all \<Longrightarrow> path_result E False Q r"
    "sorted (map (\<lambda>r. length (steps_of r)) ?all)"
    using simple_all_spec [OF Q(1,2), where avoid = "{}" and ends = UNIV and c = ?c and cyclic = cyclic] by auto
  from D any_results [OF S(1,2)] any_results_shortest [OF S] show ?thesis by blast
qed

text \<open>An acyclic path to the start node is empty.\<close>

lemma acyclic_to_start:
  assumes "dfa_ok (automaton Q)" "end_object_id Q = start_object_id Q"
  shows "simple_answers E Q False {end_object_id Q} = (if is_final Q (start_state (automaton Q)) then {[]} else {})"
proof -
  have "xs = []" if "xs \<in> simple_answers E Q False {end_object_id Q}" for xs
  proof (cases xs rule: rev_cases)
    case (snoc ys x)
    then show ?thesis using that assms(2) by (auto simp: good_answers_snoc simple_steps_def step_nodes_def)
  qed
  moreover have "[] \<in> simple_answers E Q False {end_object_id Q} \<longleftrightarrow> is_final Q (start_state (automaton Q))"
    using good_answers_Nil [OF assms(1)] assms(2) by simp
  ultimately show ?thesis by auto
qed

lemma all_simple_bfs_check:
  assumes Q: "exact_arrows E False (provider Q)" "dfa_ok (automaton Q)" "provider_ok (provider Q)"
    and ex: "node_exists Q (start_object_id Q)" and B: "simple_fresh Q B"
  shows "\<exists>rs B'. drains (simple_check_next cyclic Q) B rs B' \<and> visited_safe (bfs_visited B') \<and>
    steps_of ` set rs = simple_answers E Q cyclic {end_object_id Q} \<and> (\<forall>r \<in> set rs. path_result E False Q r) \<and>
    sorted (map (\<lambda>r. length (steps_of r)) rs)"
proof (cases "cyclic \<or> end_object_id Q \<noteq> start_object_id Q")
  case True
  let ?c = "is_final Q (start_state (automaton Q)) \<and> start_object_id Q \<in> {end_object_id Q}"
  have D: "\<exists>B'. drains (simple_check_next cyclic Q) B (pick False {} (simple_all Q cyclic ?c {end_object_id Q} {end_object_id Q})) B' \<and>
      visited_safe (bfs_visited B')"
    by (rule start_drains [OF Q(3) simple_check_contract simple_ranked,
          where k = "Suc (bfs_found B)" and R = "bfs_reached B"])
      (use B ex True in \<open>auto simp: simple_fresh_def simple_check_next_def root_of_def Let_def\<close>)
  have avoid: "{end_object_id Q} = {} \<or> (\<exists>e. {end_object_id Q} = {e} \<and> {end_object_id Q} = {e})" by blast
  note S = simple_all_spec [OF Q(1,2) avoid, where c = ?c and cyclic = cyclic]
  from D [unfolded pick_False] S show ?thesis by blast
next
  case False
  then have a: "simple_answers E Q cyclic {end_object_id Q} = (if is_final Q (start_state (automaton Q)) then {[]} else {})"
    using acyclic_to_start [OF Q(2)] by simp
  let ?C = "B\<lparr>bfs_first := False, bfs_open := []\<rparr>"
  let ?D = "?C\<lparr>bfs_found := Suc (bfs_found B)\<rparr>"
  have emp: "simple_check_next cyclic Q ?D = Some (?D, None)"
    by (simp add: simple_check_next_def tree_loop.simps [of _ ?D])
  show ?thesis
  proof (cases "is_final Q (start_state (automaton Q))")
    case True
    have "simple_check_next cyclic Q B = Some (?D, Some (simple_start Q))"
      using B ex False True by (simp add: simple_fresh_def simple_check_next_def root_of_def Let_def)
    then have "drains (simple_check_next cyclic Q) B [simple_start Q] ?D" using emp by (auto intro: drains.intros)
    then show ?thesis using B True a
      by (intro exI [of _ "[simple_start Q]"] exI [of _ ?D]) (simp add: path_result_def simple_fresh_def)
  next
    case nf: False
    have "simple_check_next cyclic Q B = Some (?C, None)"
      using B ex False nf by (simp add: simple_fresh_def simple_check_next_def root_of_def Let_def)
    then have "drains (simple_check_next cyclic Q) B [] ?C" by (rule drains_Nil)
    then show ?thesis using B nf a by (intro exI [of _ "[]"] exI [of _ ?C]) (simp add: simple_fresh_def)
  qed
qed

lemma any_simple_bfs_check:
  assumes Q: "exact_arrows E False (provider Q)" "dfa_ok (automaton Q)" "provider_ok (provider Q)"
    and ex: "node_exists Q (start_object_id Q)" and B: "simple_fresh Q B"
  shows "\<exists>rs B'. drains (any_simple_check_next cyclic Q) B rs B' \<and> visited_safe (bfs_visited B') \<and>
    length rs \<le> 1 \<and> (rs = [] \<longleftrightarrow> simple_answers E Q cyclic {end_object_id Q} = {}) \<and>
    (\<forall>r \<in> set rs. path_result E False Q r \<and> steps_of r \<in> simple_answers E Q cyclic {end_object_id Q} \<and>
       (\<forall>ys \<in> simple_answers E Q cyclic {end_object_id Q}. length (steps_of r) \<le> length ys))"
proof (cases "\<not> cyclic \<and> end_object_id Q = start_object_id Q \<and> \<not> is_final Q (start_state (automaton Q))")
  case False
  let ?c = "is_final Q (start_state (automaton Q)) \<and> start_object_id Q \<in> {end_object_id Q}"
  have D: "\<exists>B'. drains (any_simple_check_next cyclic Q) B
      (take 1 (simple_all Q cyclic ?c {end_object_id Q} {end_object_id Q})) B' \<and> visited_safe (bfs_visited B')"
    by (rule start_first [OF Q(3) simple_check_contract simple_ranked, where k = "Suc (bfs_found B)"])
      (use B ex False in \<open>auto simp: simple_fresh_def any_simple_check_next_def root_of_def Let_def\<close>)
  have avoid: "{end_object_id Q} = {} \<or> (\<exists>e. {end_object_id Q} = {e} \<and> {end_object_id Q} = {e})" by blast
  note S = simple_all_spec [OF Q(1,2) avoid, where c = ?c and cyclic = cyclic, OF refl]
  from D first_result [OF S] show ?thesis by blast
next
  case True
  then have a: "simple_answers E Q cyclic {end_object_id Q} = {}"
    using acyclic_to_start [OF Q(2)] by simp
  let ?C = "B\<lparr>bfs_first := False, bfs_open := []\<rparr>"
  have "any_simple_check_next cyclic Q B = Some (?C, None)"
    using B ex True by (simp add: simple_fresh_def any_simple_check_next_def root_of_def Let_def)
  then have "drains (any_simple_check_next cyclic Q) B [] ?C" by (rule drains_Nil)
  then show ?thesis using B a by (intro exI [of _ "[]"] exI [of _ ?C]) (simp add: simple_fresh_def)
qed

section \<open>After a reset\<close>

text \<open>\<open>reset\<close> frees the blocks of path states but keeps \<open>current_index\<close>: the path state of the start
  node is then written through \<open>back()\<close> of an empty vector, unless the index happens to stand at
  the end of a block.\<close>

lemma simple_reset_broken:
  "broken (bfs_visited (simple_bfs_reset Q B)) \<longleftrightarrow>
     broken (bfs_visited B) \<or> current_index (bfs_visited B) < 4096"
  by (auto simp: simple_bfs_reset_def visited_add_def visited_clear_def Let_def)

end
