(* ===== verification/SimpleDfs.thy ===== *)
theory SimpleDfs
  imports TreeDfs SimpleBfs
begin

text \<open>
  The depth-first searches for simple and acyclic paths: \<open>Paths::AllSimple::DFSEnum\<close> and
  \<open>DFSCheck\<close>, \<open>Paths::AnySimple::DFSEnum\<close> and \<open>DFSCheck\<close>. The enumerations return what the
  breadth-first searches return, in another order. The checks empty the whole stack when a state of
  the end node comes to its top, and with it the branches that were not visited yet.
\<close>

section \<open>Begin and reset\<close>

definition simple_dfs_begin :: "path_query \<Rightarrow> tree_dfs \<Rightarrow> tree_dfs" where
  "simple_dfs_begin Q S = S\<lparr>dfs_first := True,
     dfs_open := fresh_frame (TreeState (simple_start Q) (start_state (automaton Q))) 0 # dfs_open S\<rparr>"

definition simple_dfs_reset :: "path_query \<Rightarrow> tree_dfs \<Rightarrow> tree_dfs" where
  "simple_dfs_reset Q S = S\<lparr>dfs_first := True,
     dfs_open := [fresh_frame (TreeState (simple_start Q) (start_state (automaton Q))) 0]\<rparr>"

definition any_simple_dfs_reset :: "path_query \<Rightarrow> tree_dfs \<Rightarrow> tree_dfs" where
  "any_simple_dfs_reset Q S = simple_dfs_reset Q (S\<lparr>dfs_reached := []\<rparr>)"

section \<open>AllSimple::DFSEnum\<close>

text \<open>A cyclic solution gets an invalid transition, so that it is discarded instead of expanded.\<close>

definition simple_dfs_child ::
  "bool \<Rightarrow> path_query \<Rightarrow> object_id list \<Rightarrow> tree_state \<Rightarrow> dfa_transition \<Rightarrow> entry \<Rightarrow> frame option" where
  "simple_dfs_child cyclic Q R s t x =
     (let child = TreeState (PathState (fst x) None (type_id t) (dfa_inverse t) (Some (path_state s))) (dfa_to t) in
      if \<not> is_simple_path (Some (path_state s)) (fst x) then
        if cyclic \<and> is_final Q (dfa_to t) \<and> fst x = start_object_id Q
        then Some (spent_frame Q child)
        else None
      else Some (fresh_frame child 0))"

definition accept_final :: "path_query \<Rightarrow> frame \<Rightarrow> tree_dfs \<Rightarrow> tree_dfs \<times> bool" where
  "accept_final Q g S = (S, is_final Q (tree_automaton (frame_state g)))"

definition simple_dfs_expand :: "bool \<Rightarrow> path_query \<Rightarrow> frame \<Rightarrow> tree_dfs \<Rightarrow> tree_dfs \<times> frame option" where
  "simple_dfs_expand cyclic Q = dfs_expand (simple_dfs_child cyclic Q) Q"

declare simple_dfs_expand_def [simp]

definition simple_dfs_loop :: "bool \<Rightarrow> path_query \<Rightarrow> tree_dfs \<Rightarrow> (tree_dfs \<times> path_state option) option" where
  "simple_dfs_loop cyclic Q =
     dfs_loop (\<lambda>f. cyclic \<and> spent Q f) (\<lambda>f. False) (simple_dfs_expand cyclic Q) (accept_final Q)"

definition simple_dfs_next :: "bool \<Rightarrow> path_query \<Rightarrow> tree_dfs \<Rightarrow> (tree_dfs \<times> path_state option) option" where
  "simple_dfs_next cyclic Q S =
     (if dfs_first S then
        (let S1 = S\<lparr>dfs_first := False\<rparr>; current = hd (dfs_open S1) in
         if \<not> node_exists Q (frame_node current) then Some (S1\<lparr>dfs_open := tl (dfs_open S1)\<rparr>, None)
         else if is_final Q (start_state (automaton Q))
         then Some (S1\<lparr>dfs_found := Suc (dfs_found S1)\<rparr>, Some (path_state (frame_state current)))
         else simple_dfs_loop cyclic Q S1)
      else simple_dfs_loop cyclic Q S)"

section \<open>AnySimple::DFSEnum\<close>

definition any_simple_dfs_child ::
  "bool \<Rightarrow> path_query \<Rightarrow> object_id list \<Rightarrow> tree_state \<Rightarrow> dfa_transition \<Rightarrow> entry \<Rightarrow> frame option" where
  "any_simple_dfs_child cyclic Q R s t x =
     (let child = TreeState (PathState (fst x) None (type_id t) (dfa_inverse t) (Some (path_state s))) (dfa_to t) in
      if \<not> is_simple_path (Some (path_state s)) (fst x) then
        if cyclic \<and> is_final Q (dfa_to t) \<and> fst x = start_object_id Q \<and> fst x \<notin> set R
        then Some (spent_frame Q child)
        else None
      else Some (fresh_frame child 0))"

definition accept_new :: "path_query \<Rightarrow> frame \<Rightarrow> tree_dfs \<Rightarrow> tree_dfs \<times> bool" where
  "accept_new Q g S =
     (if is_final Q (tree_automaton (frame_state g)) \<and> frame_node g \<notin> set (dfs_reached S)
      then (S\<lparr>dfs_reached := frame_node g # dfs_reached S\<rparr>, True) else (S, False))"

definition any_simple_dfs_expand :: "bool \<Rightarrow> path_query \<Rightarrow> frame \<Rightarrow> tree_dfs \<Rightarrow> tree_dfs \<times> frame option" where
  "any_simple_dfs_expand cyclic Q = dfs_expand (any_simple_dfs_child cyclic Q) Q"

declare any_simple_dfs_expand_def [simp]

definition any_simple_dfs_loop :: "bool \<Rightarrow> path_query \<Rightarrow> tree_dfs \<Rightarrow> (tree_dfs \<times> path_state option) option" where
  "any_simple_dfs_loop cyclic Q =
     dfs_loop (\<lambda>f. cyclic \<and> spent Q f) (\<lambda>f. False) (any_simple_dfs_expand cyclic Q) (accept_new Q)"

definition any_simple_dfs_next :: "bool \<Rightarrow> path_query \<Rightarrow> tree_dfs \<Rightarrow> (tree_dfs \<times> path_state option) option" where
  "any_simple_dfs_next cyclic Q S =
     (if dfs_first S then
        (let S1 = S\<lparr>dfs_first := False\<rparr>; current = hd (dfs_open S1) in
         if \<not> node_exists Q (frame_node current) then Some (S1\<lparr>dfs_open := tl (dfs_open S1)\<rparr>, None)
         else if is_final Q (start_state (automaton Q))
         then Some (S1\<lparr>dfs_reached := frame_node current # dfs_reached S1, dfs_found := Suc (dfs_found S1)\<rparr>,
                    Some (path_state (frame_state current)))
         else any_simple_dfs_loop cyclic Q S1)
      else any_simple_dfs_loop cyclic Q S)"

section \<open>The checks\<close>

definition simple_dfs_check_child ::
  "bool \<Rightarrow> path_query \<Rightarrow> object_id list \<Rightarrow> tree_state \<Rightarrow> dfa_transition \<Rightarrow> entry \<Rightarrow> frame option" where
  "simple_dfs_check_child cyclic Q R s t x =
     (let child = TreeState (PathState (fst x) None (type_id t) (dfa_inverse t) (Some (path_state s))) (dfa_to t) in
      if \<not> is_simple_path (Some (path_state s)) (fst x) then
        if cyclic \<and> is_final Q (dfa_to t) \<and> start_object_id Q = end_object_id Q \<and> fst x = start_object_id Q
        then Some (fresh_frame child 0)
        else None
      else Some (fresh_frame child 0))"

definition accept_end :: "path_query \<Rightarrow> frame \<Rightarrow> tree_dfs \<Rightarrow> tree_dfs \<times> bool" where
  "accept_end Q g S = (S, is_final Q (tree_automaton (frame_state g)) \<and> frame_node g = end_object_id Q)"

text \<open>The states that make \<open>AllSimple::DFSCheck\<close> empty its stack, and those of \<open>AnySimple::DFSCheck\<close>.\<close>

definition all_simple_abort :: "bool \<Rightarrow> path_query \<Rightarrow> frame \<Rightarrow> bool" where
  "all_simple_abort cyclic Q f \<longleftrightarrow>
     (if cyclic then frame_node f = end_object_id Q \<and> prev_state (path_state (frame_state f)) \<noteq> None
      else frame_node f = end_object_id Q)"

definition any_simple_abort :: "path_query \<Rightarrow> frame \<Rightarrow> bool" where
  "any_simple_abort Q f \<longleftrightarrow> frame_node f = end_object_id Q"

definition simple_dfs_check_expand :: "bool \<Rightarrow> path_query \<Rightarrow> frame \<Rightarrow> tree_dfs \<Rightarrow> tree_dfs \<times> frame option" where
  "simple_dfs_check_expand cyclic Q = dfs_expand (simple_dfs_check_child cyclic Q) Q"

declare simple_dfs_check_expand_def [simp]

definition all_simple_dfs_check_next :: "bool \<Rightarrow> path_query \<Rightarrow> tree_dfs \<Rightarrow> (tree_dfs \<times> path_state option) option" where
  "all_simple_dfs_check_next cyclic Q S =
     (let loop = dfs_loop (\<lambda>f. False) (all_simple_abort cyclic Q) (simple_dfs_check_expand cyclic Q) (accept_end Q) in
      if dfs_first S then
        (let S1 = S\<lparr>dfs_first := False\<rparr>; current = hd (dfs_open S1) in
         if \<not> node_exists Q (frame_node current) then Some (S1\<lparr>dfs_open := tl (dfs_open S1)\<rparr>, None)
         else if frame_node current = end_object_id Q then
           if is_final Q (start_state (automaton Q))
           then Some (S1\<lparr>dfs_found := Suc (dfs_found S1)\<rparr>, Some (path_state (frame_state current)))
           else if \<not> cyclic then Some (S1\<lparr>dfs_open := []\<rparr>, None)
           else loop S1
         else loop S1)
      else loop S)"

definition any_simple_dfs_check_next :: "bool \<Rightarrow> path_query \<Rightarrow> tree_dfs \<Rightarrow> (tree_dfs \<times> path_state option) option" where
  "any_simple_dfs_check_next cyclic Q S =
     (let loop = dfs_loop (\<lambda>f. False) (any_simple_abort Q) (simple_dfs_check_expand cyclic Q) (accept_end Q) in
      if dfs_first S then
        (let S1 = S\<lparr>dfs_first := False\<rparr>; current = hd (dfs_open S1) in
         if \<not> node_exists Q (frame_node current) then Some (S1\<lparr>dfs_open := tl (dfs_open S1)\<rparr>, None)
         else if frame_node current = end_object_id Q then
           if is_final Q (start_state (automaton Q))
           then Some (S1\<lparr>dfs_found := Suc (dfs_found S1)\<rparr>, Some (path_state (frame_state current)))
           else if \<not> cyclic then Some (S1\<lparr>dfs_open := tl (dfs_open S1)\<rparr>, None)
           else loop S1
         else loop S1)
      else loop S)"

section \<open>The enumerations\<close>

lemma accept_final_ok:
  "accept_ok False (accept_final Q) R (if is_final Q (tree_automaton (frame_state g)) then [path_state (frame_state g)] else []) g"
  by (auto simp: accept_ok_def accept_final_def)

lemma accept_new_ok:
  "accept_ok True (accept_new Q) R (if is_final Q (tree_automaton (frame_state g)) then [path_state (frame_state g)] else []) g"
  by (auto simp: accept_ok_def accept_new_def frame_node_def)

lemma simple_dfs_contract:
  "dfs_contract False cyclic Q (simple_kid {}) (simple_report cyclic Q UNIV) (simple_dfs_child cyclic Q) (accept_final Q)"
  unfolding dfs_contract_def
proof (intro allI)
  fix R s t and x :: entry
  let ?c = "TreeState (PathState (fst x) None (type_id t) (dfa_inverse t) (Some (path_state s))) (dfa_to t)"
  show "child_ok False cyclic Q (simple_kid {}) (simple_report cyclic Q UNIV) (accept_final Q) R s (t, x) (simple_dfs_child cyclic Q R s t x)"
    using accept_final_ok [of Q R "fresh_frame ?c 0"] accept_final_ok [of Q R "spent_frame Q ?c"]
    by (auto simp: simple_dfs_child_def simple_body_defs child_ok_simps split: if_splits)
qed

lemma any_simple_dfs_contract:
  "dfs_contract True cyclic Q (simple_kid {}) (simple_report cyclic Q UNIV) (any_simple_dfs_child cyclic Q) (accept_new Q)"
  unfolding dfs_contract_def
proof (intro allI)
  fix R s t and x :: entry
  let ?c = "TreeState (PathState (fst x) None (type_id t) (dfa_inverse t) (Some (path_state s))) (dfa_to t)"
  show "child_ok True cyclic Q (simple_kid {}) (simple_report cyclic Q UNIV) (accept_new Q) R s (t, x) (any_simple_dfs_child cyclic Q R s t x)"
    using accept_new_ok [of Q R "fresh_frame ?c 0"] accept_new_ok [of Q R "spent_frame Q ?c"]
    by (auto simp: any_simple_dfs_child_def simple_body_defs child_ok_simps split: if_splits)
qed

definition simple_dfs_fresh :: "path_query \<Rightarrow> tree_dfs \<Rightarrow> bool" where
  "simple_dfs_fresh Q S \<longleftrightarrow> dfs_first S \<and> dfs_open S = [fresh_frame (root_of Q (simple_start Q)) 0] \<and> dfs_reached S = []"

lemma simple_dfs_fresh_begin: "simple_dfs_fresh Q (simple_dfs_begin Q tree_dfs_new)"
  by (simp add: simple_dfs_fresh_def simple_dfs_begin_def tree_dfs_new_def root_of_def)

lemma simple_dfs_fresh_reset: "simple_dfs_fresh Q (any_simple_dfs_reset Q S)"
  by (simp add: simple_dfs_fresh_def any_simple_dfs_reset_def simple_dfs_reset_def root_of_def)

abbreviation "simple_visits Q cyclic \<equiv>
  visits Q (simple_kid {}) simple_rank (simple_report cyclic Q UNIV) (root_of Q (simple_start Q))"

abbreviation "simple_preorder Q cyclic \<equiv>
  (if is_final Q (start_state (automaton Q)) then [simple_start Q] else []) @ simple_visits Q cyclic"

text \<open>The reports of the breadth-first search.\<close>

lemma simple_preorder_levels:
  "mset (simple_preorder Q cyclic) = mset (simple_all Q cyclic (is_final Q (start_state (automaton Q))) {} UNIV)"
  unfolding mset_append visits_levels [OF simple_ranked] ..

lemma simple_preorder_spec:
  assumes "exact_arrows E False (provider Q)" "dfa_ok (automaton Q)"
  shows "steps_of ` set (simple_preorder Q cyclic) = simple_answers E Q cyclic UNIV"
    "\<And>r. r \<in> set (simple_preorder Q cyclic) \<Longrightarrow> path_result E False Q r"
proof -
  let ?c = "is_final Q (start_state (automaton Q))"
  have c: "?c \<longleftrightarrow> is_final Q (start_state (automaton Q)) \<and> start_object_id Q \<in> UNIV" by simp
  note A = simple_all_spec [OF assms disjI1 [OF refl] c, where cyclic = cyclic]
  note s = mset_eq_setD [OF simple_preorder_levels [of Q cyclic]]
  show "steps_of ` set (simple_preorder Q cyclic) = simple_answers E Q cyclic UNIV" unfolding s by (rule A(1))
  show "path_result E False Q r" if "r \<in> set (simple_preorder Q cyclic)" for r
    using that unfolding s by (rule A(2))
qed

lemma all_simple_dfs_enum:
  assumes "provider_ok (provider Q)" and ex: "node_exists Q (start_object_id Q)" and S: "simple_dfs_fresh Q S"
  shows "\<exists>S'. drains (simple_dfs_next cyclic Q) S (simple_preorder Q cyclic) S'"
proof -
  have "\<exists>S'. drains (simple_dfs_next cyclic Q) S (pick False {} (simple_preorder Q cyclic)) S'"
    by (rule dfs_start_drains [OF assms(1) simple_dfs_contract simple_ranked, where k = "Suc (dfs_found S)" and R = "dfs_reached S"])
      (use S ex in \<open>simp_all add: simple_dfs_fresh_def simple_dfs_next_def simple_dfs_loop_def root_of_def Let_def\<close>)
  then show ?thesis unfolding pick_False .
qed

lemma any_simple_dfs_enum:
  assumes Q: "exact_arrows E False (provider Q)" "dfa_ok (automaton Q)" "provider_ok (provider Q)"
    and ex: "node_exists Q (start_object_id Q)" and S: "simple_dfs_fresh Q S"
  shows "\<exists>rs S'. drains (any_simple_dfs_next cyclic Q) S rs S' \<and>
    distinct (map path_node rs) \<and> path_node ` set rs = {m. simple_answers E Q cyclic {m} \<noteq> {}} \<and>
    (\<forall>r \<in> set rs. path_result E False Q r \<and> steps_of r \<in> simple_answers E Q cyclic {path_node r})"
proof -
  have D: "\<exists>S'. drains (any_simple_dfs_next cyclic Q) S (pick True {} (simple_preorder Q cyclic)) S'"
    by (rule dfs_start_drains [OF Q(3) any_simple_dfs_contract simple_ranked, where k = "Suc (dfs_found S)" and R = "[start_object_id Q]"])
      (use S ex in \<open>simp_all add: simple_dfs_fresh_def any_simple_dfs_next_def any_simple_dfs_loop_def root_of_def Let_def\<close>)
  note S = simple_preorder_spec [OF Q(1,2), where cyclic = cyclic]
  from D any_results [OF S] show ?thesis by blast
qed

end
