(* ===== verification/TrailBfs.thy ===== *)
theory TrailBfs
  imports PathTree
begin

text \<open>
  The breadth-first searches for trails: \<open>Paths::AllTrails::BFSEnum\<close> and \<open>BFSCheck\<close>,
  \<open>Paths::AnyTrails::BFSEnum\<close> and \<open>BFSCheck\<close>. A trail crosses no edge twice. The searches read
  the edge of every record, so the planner has to give them indexes with edges: on an index without
  edges \<open>get_edge\<close> throws, which is outside the contract \<open>edge_provider\<close> of the results below.
  (The definitions go on with \<open>None\<close> there.)
\<close>

section \<open>Begin and reset\<close>

text \<open>The start state stores the null id as its edge.\<close>

definition trail_start :: "path_query \<Rightarrow> path_state" where
  "trail_start Q = PathState (start_object_id Q) (Some null_object_id) null_object_id False None"

definition trail_bfs_begin :: "path_query \<Rightarrow> tree_bfs \<Rightarrow> tree_bfs" where
  "trail_bfs_begin Q B = B\<lparr>bfs_first := True, bfs_cur := (bfs_cur B)\<lparr>iter := NullIndexIterator\<rparr>,
     bfs_visited := visited_add (bfs_visited B),
     bfs_open := bfs_open B @ [TreeState (trail_start Q) (start_state (automaton Q))]\<rparr>"

definition trail_bfs_reset :: "path_query \<Rightarrow> tree_bfs \<Rightarrow> tree_bfs" where
  "trail_bfs_reset Q B = B\<lparr>bfs_first := True, bfs_cur := (bfs_cur B)\<lparr>iter := NullIndexIterator\<rparr>,
     bfs_visited := visited_add (visited_clear (bfs_visited B)),
     bfs_open := [TreeState (trail_start Q) (start_state (automaton Q))]\<rparr>"

definition any_trail_bfs_reset :: "path_query \<Rightarrow> tree_bfs \<Rightarrow> tree_bfs" where
  "any_trail_bfs_reset Q B = trail_bfs_reset Q (B\<lparr>bfs_reached := []\<rparr>)"

section \<open>AllTrails\<close>

definition trail_bfs_visit ::
  "path_query \<Rightarrow> tree_state \<Rightarrow> dfa_transition \<Rightarrow> entry \<Rightarrow> tree_bfs \<Rightarrow> tree_bfs \<times> path_state option" where
  "trail_bfs_visit Q s t x B =
     (if \<not> is_trail (Some (path_state s)) (snd x) then (B, None)
      else
        (let child = PathState (fst x) (snd x) (type_id t) (dfa_inverse t) (Some (path_state s));
             B1 = B\<lparr>bfs_visited := visited_add (bfs_visited B), bfs_open := bfs_open B @ [TreeState child (dfa_to t)]\<rparr>
         in if is_final Q (dfa_to t) then (B1, Some child) else (B1, None)))"

definition trail_bfs_expand :: "path_query \<Rightarrow> tree_state \<Rightarrow> tree_bfs \<Rightarrow> tree_bfs \<times> path_state option" where
  "trail_bfs_expand Q = tree_expand (trail_bfs_visit Q) Q"

declare trail_bfs_expand_def [simp]

definition trail_bfs_next :: "path_query \<Rightarrow> tree_bfs \<Rightarrow> (tree_bfs \<times> path_state option) option" where
  "trail_bfs_next Q B =
     (let loop = tree_loop (trail_bfs_expand Q) in
      if bfs_first B then
        (let B1 = B\<lparr>bfs_first := False\<rparr>; current = path_state (hd (bfs_open B1)) in
         if \<not> node_exists Q (path_node current) then Some (B1\<lparr>bfs_open := tl (bfs_open B1)\<rparr>, None)
         else if is_final Q (start_state (automaton Q)) then Some (B1\<lparr>bfs_found := Suc (bfs_found B1)\<rparr>, Some current)
         else loop B1)
      else loop B)"

definition trail_check_visit ::
  "path_query \<Rightarrow> tree_state \<Rightarrow> dfa_transition \<Rightarrow> entry \<Rightarrow> tree_bfs \<Rightarrow> tree_bfs \<times> path_state option" where
  "trail_check_visit Q s t x B =
     (if \<not> is_trail (Some (path_state s)) (snd x) then (B, None)
      else
        (let child = PathState (fst x) (snd x) (type_id t) (dfa_inverse t) (Some (path_state s));
             B1 = B\<lparr>bfs_visited := visited_add (bfs_visited B), bfs_open := bfs_open B @ [TreeState child (dfa_to t)]\<rparr>
         in if is_final Q (dfa_to t) \<and> path_node child = end_object_id Q then (B1, Some child) else (B1, None)))"

definition trail_check_expand :: "path_query \<Rightarrow> tree_state \<Rightarrow> tree_bfs \<Rightarrow> tree_bfs \<times> path_state option" where
  "trail_check_expand Q = tree_expand (trail_check_visit Q) Q"

declare trail_check_expand_def [simp]

definition trail_check_next :: "path_query \<Rightarrow> tree_bfs \<Rightarrow> (tree_bfs \<times> path_state option) option" where
  "trail_check_next Q B =
     (let loop = tree_loop (trail_check_expand Q) in
      if bfs_first B then
        (let B1 = B\<lparr>bfs_first := False\<rparr>; current = path_state (hd (bfs_open B1)) in
         if \<not> node_exists Q (path_node current) then Some (B1\<lparr>bfs_open := tl (bfs_open B1)\<rparr>, None)
         else if is_final Q (start_state (automaton Q)) \<and> path_node current = end_object_id Q
         then Some (B1\<lparr>bfs_found := Suc (bfs_found B1)\<rparr>, Some current)
         else loop B1)
      else loop B)"

section \<open>AnyTrails\<close>

definition any_trail_bfs_visit ::
  "path_query \<Rightarrow> tree_state \<Rightarrow> dfa_transition \<Rightarrow> entry \<Rightarrow> tree_bfs \<Rightarrow> tree_bfs \<times> path_state option" where
  "any_trail_bfs_visit Q s t x B =
     (if \<not> is_trail (Some (path_state s)) (snd x) then (B, None)
      else
        (let child = PathState (fst x) (snd x) (type_id t) (dfa_inverse t) (Some (path_state s));
             B1 = B\<lparr>bfs_visited := visited_add (bfs_visited B), bfs_open := bfs_open B @ [TreeState child (dfa_to t)]\<rparr>
         in if is_final Q (dfa_to t) \<and> path_node child \<notin> set (bfs_reached B1)
            then (B1\<lparr>bfs_reached := path_node child # bfs_reached B1\<rparr>, Some child) else (B1, None)))"

definition any_trail_bfs_expand :: "path_query \<Rightarrow> tree_state \<Rightarrow> tree_bfs \<Rightarrow> tree_bfs \<times> path_state option" where
  "any_trail_bfs_expand Q = tree_expand (any_trail_bfs_visit Q) Q"

declare any_trail_bfs_expand_def [simp]

definition any_trail_bfs_next :: "path_query \<Rightarrow> tree_bfs \<Rightarrow> (tree_bfs \<times> path_state option) option" where
  "any_trail_bfs_next Q B =
     (let loop = tree_loop (any_trail_bfs_expand Q) in
      if bfs_first B then
        (let B1 = B\<lparr>bfs_first := False\<rparr>; current = path_state (hd (bfs_open B1)) in
         if \<not> node_exists Q (path_node current) then Some (B1\<lparr>bfs_open := tl (bfs_open B1)\<rparr>, None)
         else if is_final Q (start_state (automaton Q))
         then Some (B1\<lparr>bfs_reached := path_node current # bfs_reached B1, bfs_found := Suc (bfs_found B1)\<rparr>, Some current)
         else loop B1)
      else loop B)"

definition any_trail_check_next :: "path_query \<Rightarrow> tree_bfs \<Rightarrow> (tree_bfs \<times> path_state option) option" where
  "any_trail_check_next Q B =
     (let loop = (\<lambda>C. clear_on_result (tree_loop (trail_check_expand Q) C)) in
      if bfs_first B then
        (let B1 = B\<lparr>bfs_first := False\<rparr>; current = path_state (hd (bfs_open B1)) in
         if \<not> node_exists Q (path_node current) then Some (B1\<lparr>bfs_open := tl (bfs_open B1)\<rparr>, None)
         else if is_final Q (start_state (automaton Q)) \<and> path_node current = end_object_id Q
         then Some (B1\<lparr>bfs_open := [], bfs_found := Suc (bfs_found B1)\<rparr>, Some current)
         else loop B1)
      else loop B)"

section \<open>Children and reports\<close>

definition trail_admit :: "path_state \<Rightarrow> step \<Rightarrow> bool" where
  "trail_admit p x \<longleftrightarrow> fst (snd x) \<notin> set (path_edges p)"

definition trail_select :: "object_id set \<Rightarrow> path_state \<Rightarrow> step \<Rightarrow> bool" where
  "trail_select ends p x \<longleftrightarrow> snd (snd x) \<in> ends \<and> fst (snd x) \<notin> set (path_edges p)"

abbreviation "trail_kid \<equiv> step_kid True trail_admit"

abbreviation "trail_report Q ends \<equiv> step_report True Q (trail_select ends)"

lemmas trail_body_defs = trail_bfs_visit_def trail_check_visit_def any_trail_bfs_visit_def
  step_kid_def step_report_def trail_admit_def trail_select_def extend_def arrow_step_def is_trail_iff Let_def

lemma trail_bfs_contract: "visit_contract False trail_kid (trail_report Q UNIV) (trail_bfs_visit Q)"
  unfolding visit_contract_def trail_body_defs
  by (intro allI impI) (simp split: if_splits option.split; clarsimp)

lemma trail_check_contract: "visit_contract False trail_kid (trail_report Q {end_object_id Q}) (trail_check_visit Q)"
  unfolding visit_contract_def trail_body_defs
  by (intro allI impI) (simp split: if_splits option.split; clarsimp)

lemma any_trail_bfs_contract: "visit_contract True trail_kid (trail_report Q UNIV) (any_trail_bfs_visit Q)"
  unfolding visit_contract_def trail_body_defs
  by (intro allI impI) (simp split: if_splits option.split; clarsimp)

definition trail_rank :: "tree_state \<Rightarrow> nat" where
  "trail_rank s = card (- set (path_edges (path_state s)))"

lemma trail_ranked: "ranked (all_kids Q trail_kid) trail_rank"
  unfolding ranked_def
proof (intro allI ballI)
  fix s c assume "c \<in> set (all_kids Q trail_kid s)"
  then obtain a where "c \<in> set (trail_kid s a)" by (auto simp: all_kids_def)
  then have "trail_admit (path_state s) (arrow_step True a)" "path_state c = extend (path_state s) (arrow_step True a)"
    unfolding step_kid_iff by auto
  then have "- set (path_edges (path_state c)) \<subset> - set (path_edges (path_state s))"
    by (auto simp: trail_admit_def)
  then show "trail_rank c < trail_rank s" unfolding trail_rank_def by (intro psubset_card_mono) simp_all
qed

section \<open>Trails\<close>

definition step_edges :: "step list \<Rightarrow> object_id option list" where
  "step_edges xs = map (\<lambda>x. fst (snd x)) xs"

text \<open>No edge twice; the null id of the start state is no edge of a database.\<close>

definition trail_steps :: "step list \<Rightarrow> bool" where
  "trail_steps xs \<longleftrightarrow> distinct (Some null_object_id # step_edges xs)"

abbreviation "trail_answers E Q ends \<equiv> good_answers E True Q trail_steps ends"

lemma admitted_trail:
  "admitted trail_admit p xs \<longleftrightarrow> distinct (step_edges xs) \<and> set (step_edges xs) \<inter> set (path_edges p) = {}"
  by (induction xs arbitrary: p) (auto simp: step_edges_def trail_admit_def)

lemma trail_start_simps [simp]:
  "path_node (trail_start Q) = start_object_id Q" "steps_of (trail_start Q) = []" "origin (trail_start Q) = start_object_id Q"
  "path_edges (trail_start Q) = [Some null_object_id]"
  by (simp_all add: trail_start_def)

lemma trail_cond:
  "admitted trail_admit (trail_start Q) xs \<and> trail_select ends (extend_all (trail_start Q) xs) x \<longleftrightarrow>
    snd (snd x) \<in> ends \<and> trail_steps (xs @ [x])"
  unfolding admitted_trail trail_select_def extend_all_sets trail_steps_def
  by (auto simp: step_edges_def comp_def)

abbreviation "trail_levels Q ends \<equiv>
  levels (all_kids Q trail_kid) trail_rank (all_reports Q (trail_report Q ends)) [root_of Q (trail_start Q)]"

lemma trail_levels_steps:
  assumes "exact_arrows E True (provider Q)" "dfa_ok (automaton Q)"
  shows "steps_of ` set (trail_levels Q ends) = trail_answers E Q ends - {[]}"
  by (rule tree_report_steps [OF assms(1,2) trail_ranked]) (use trail_cond in simp_all)

section \<open>The results of the searches\<close>

definition trail_fresh :: "path_query \<Rightarrow> tree_bfs \<Rightarrow> bool" where
  "trail_fresh Q B \<longleftrightarrow> bfs_first B \<and> bfs_open B = [root_of Q (trail_start Q)] \<and>
     iter (bfs_cur B) = NullIndexIterator \<and> bfs_reached B = [] \<and> visited_safe (bfs_visited B)"

lemma trail_fresh_new: "trail_fresh Q (trail_bfs_begin Q tree_bfs_new)"
  by (simp add: trail_fresh_def trail_bfs_begin_def tree_bfs_new_def root_of_def)

lemma trail_fresh_reset:
  "visited_safe (bfs_visited (any_trail_bfs_reset Q B)) \<Longrightarrow> trail_fresh Q (any_trail_bfs_reset Q B)"
  by (simp add: trail_fresh_def any_trail_bfs_reset_def trail_bfs_reset_def root_of_def)

lemma trail_steps_Nil [simp]: "trail_steps []"
  by (simp add: trail_steps_def step_edges_def)

abbreviation "trail_all Q c ends \<equiv> (if c then [trail_start Q] else []) @ trail_levels Q ends"

lemma trail_all_spec:
  assumes X: "exact_arrows E True (provider Q)" and D: "dfa_ok (automaton Q)"
    and c: "c \<longleftrightarrow> is_final Q (start_state (automaton Q)) \<and> start_object_id Q \<in> ends"
  shows "steps_of ` set (trail_all Q c ends) = trail_answers E Q ends"
    "\<And>r. r \<in> set (trail_all Q c ends) \<Longrightarrow> path_result E True Q r"
    "sorted (map (\<lambda>r. length (steps_of r)) (trail_all Q c ends))"
proof -
  show "steps_of ` set (trail_all Q c ends) = trail_answers E Q ends"
    by (rule all_report_steps [OF trail_levels_steps [OF X D]]) (simp_all add: c good_answers_Nil [OF D])
  show "sorted (map (\<lambda>r. length (steps_of r)) (trail_all Q c ends))"
    by (rule all_report_sorted [OF trail_ranked]) simp
  fix r assume "r \<in> set (trail_all Q c ends)"
  then have "r = trail_start Q \<or> r \<in> set (trail_levels Q ends)" by (auto split: if_splits)
  then show "path_result E True Q r"
    using tree_report_result [OF X D trail_ranked, of "trail_start Q"] by (auto simp: path_result_def)
qed

abbreviation "trail_start_at_end Q \<equiv> is_final Q (start_state (automaton Q)) \<and> start_object_id Q \<in> {end_object_id Q}"

lemma all_trails_bfs_list:
  assumes prov: "provider_ok (provider Q)" and ex: "node_exists Q (start_object_id Q)" and B: "trail_fresh Q B"
  shows "\<exists>B'. drains (trail_bfs_next Q) B (trail_all Q (is_final Q (start_state (automaton Q))) UNIV) B' \<and>
      visited_safe (bfs_visited B')"
    "\<exists>B'. drains (trail_check_next Q) B (trail_all Q (trail_start_at_end Q) {end_object_id Q}) B' \<and>
      visited_safe (bfs_visited B')"
proof -
  have "\<exists>B'. drains (trail_bfs_next Q) B (pick False {} (trail_all Q (is_final Q (start_state (automaton Q))) UNIV)) B' \<and>
      visited_safe (bfs_visited B')"
    by (rule start_drains [OF prov trail_bfs_contract trail_ranked,
          where k = "Suc (bfs_found B)" and R = "bfs_reached B"])
      (use B ex in \<open>simp_all add: trail_fresh_def trail_bfs_next_def root_of_def Let_def\<close>)
  then show "\<exists>B'. drains (trail_bfs_next Q) B (trail_all Q (is_final Q (start_state (automaton Q))) UNIV) B' \<and>
      visited_safe (bfs_visited B')" unfolding pick_False .
  have "\<exists>B'. drains (trail_check_next Q) B (pick False {} (trail_all Q (trail_start_at_end Q) {end_object_id Q})) B' \<and>
      visited_safe (bfs_visited B')"
    by (rule start_drains [OF prov trail_check_contract trail_ranked,
          where k = "Suc (bfs_found B)" and R = "bfs_reached B"])
      (use B ex in \<open>simp_all add: trail_fresh_def trail_check_next_def root_of_def Let_def\<close>)
  then show "\<exists>B'. drains (trail_check_next Q) B (trail_all Q (trail_start_at_end Q) {end_object_id Q}) B' \<and>
      visited_safe (bfs_visited B')" unfolding pick_False .
qed

lemma all_trails_bfs_enum:
  assumes Q: "exact_arrows E True (provider Q)" "dfa_ok (automaton Q)" "provider_ok (provider Q)"
    and ex: "node_exists Q (start_object_id Q)" and B: "trail_fresh Q B"
  shows "\<exists>rs B'. drains (trail_bfs_next Q) B rs B' \<and> visited_safe (bfs_visited B') \<and>
    steps_of ` set rs = trail_answers E Q UNIV \<and> (\<forall>r \<in> set rs. path_result E True Q r) \<and>
    sorted (map (\<lambda>r. length (steps_of r)) rs)"
proof -
  note S = trail_all_spec [OF Q(1,2), where ends = UNIV and c = "is_final Q (start_state (automaton Q))"]
  from all_trails_bfs_list(1) [OF Q(3) ex B] S show ?thesis by blast
qed

lemma all_trails_bfs_check:
  assumes Q: "exact_arrows E True (provider Q)" "dfa_ok (automaton Q)" "provider_ok (provider Q)"
    and ex: "node_exists Q (start_object_id Q)" and B: "trail_fresh Q B"
  shows "\<exists>rs B'. drains (trail_check_next Q) B rs B' \<and> visited_safe (bfs_visited B') \<and>
    steps_of ` set rs = trail_answers E Q {end_object_id Q} \<and> (\<forall>r \<in> set rs. path_result E True Q r) \<and>
    sorted (map (\<lambda>r. length (steps_of r)) rs)"
proof -
  note S = trail_all_spec [OF Q(1,2), where ends = "{end_object_id Q}" and c = "trail_start_at_end Q"]
  from all_trails_bfs_list(2) [OF Q(3) ex B] S show ?thesis by blast
qed

lemma any_trails_bfs_enum:
  assumes Q: "exact_arrows E True (provider Q)" "dfa_ok (automaton Q)" "provider_ok (provider Q)"
    and ex: "node_exists Q (start_object_id Q)" and B: "trail_fresh Q B"
  shows "\<exists>rs B'. drains (any_trail_bfs_next Q) B rs B' \<and> visited_safe (bfs_visited B') \<and>
    distinct (map path_node rs) \<and> path_node ` set rs = {m. trail_answers E Q {m} \<noteq> {}} \<and>
    (\<forall>r \<in> set rs. path_result E True Q r \<and> steps_of r \<in> trail_answers E Q {path_node r} \<and>
       (\<forall>ys \<in> trail_answers E Q {path_node r}. length (steps_of r) \<le> length ys))"
proof -
  let ?c = "is_final Q (start_state (automaton Q))"
  have D: "\<exists>B'. drains (any_trail_bfs_next Q) B (pick True {} (trail_all Q ?c UNIV)) B' \<and> visited_safe (bfs_visited B')"
    by (rule start_drains [OF Q(3) any_trail_bfs_contract trail_ranked,
          where k = "Suc (bfs_found B)" and R = "[start_object_id Q]"])
      (use B ex in \<open>simp_all add: trail_fresh_def any_trail_bfs_next_def root_of_def Let_def\<close>)
  have c: "?c \<longleftrightarrow> is_final Q (start_state (automaton Q)) \<and> start_object_id Q \<in> UNIV" by simp
  note S = trail_all_spec [OF Q(1,2) c]
  from D any_results [OF S(1,2)] any_results_shortest [OF S] show ?thesis by blast
qed

lemma any_trails_bfs_check:
  assumes Q: "exact_arrows E True (provider Q)" "dfa_ok (automaton Q)" "provider_ok (provider Q)"
    and ex: "node_exists Q (start_object_id Q)" and B: "trail_fresh Q B"
  shows "\<exists>rs B'. drains (any_trail_check_next Q) B rs B' \<and> visited_safe (bfs_visited B') \<and>
    length rs \<le> 1 \<and> (rs = [] \<longleftrightarrow> trail_answers E Q {end_object_id Q} = {}) \<and>
    (\<forall>r \<in> set rs. path_result E True Q r \<and> steps_of r \<in> trail_answers E Q {end_object_id Q} \<and>
       (\<forall>ys \<in> trail_answers E Q {end_object_id Q}. length (steps_of r) \<le> length ys))"
proof -
  let ?c = "is_final Q (start_state (automaton Q)) \<and> start_object_id Q \<in> {end_object_id Q}"
  have D: "\<exists>B'. drains (any_trail_check_next Q) B (take 1 (trail_all Q ?c {end_object_id Q})) B' \<and> visited_safe (bfs_visited B')"
    by (rule start_first [OF Q(3) trail_check_contract trail_ranked, where k = "Suc (bfs_found B)"])
      (use B ex in \<open>auto simp: trail_fresh_def any_trail_check_next_def root_of_def Let_def\<close>)
  note S = trail_all_spec [OF Q(1,2), where ends = "{end_object_id Q}", OF refl]
  from D first_result [OF S] show ?thesis by blast
qed

end
