(* ===== verification/TrailDfs.thy ===== *)
theory TrailDfs
  imports TreeDfs TrailBfs
begin

text \<open>
  The depth-first searches for trails: \<open>Paths::AllTrails::DFSEnum\<close> and \<open>DFSCheck\<close>,
  \<open>Paths::AnyTrails::DFSEnum\<close> and \<open>DFSCheck\<close>. All of them share \<open>expand_neighbors\<close>.
  Every read of an edge is \<open>get_edge\<close> of the index iterator: \<open>None\<close> is an index without edges, where the code
  throws; the results below are for indexes with edges.
\<close>

section \<open>The searches\<close>

definition trail_dfs_begin :: "path_query \<Rightarrow> tree_dfs \<Rightarrow> tree_dfs" where
  "trail_dfs_begin Q S = S\<lparr>dfs_first := True,
     dfs_open := fresh_frame (TreeState (trail_start Q) (start_state (automaton Q))) 0 # dfs_open S\<rparr>"

definition trail_dfs_reset :: "path_query \<Rightarrow> tree_dfs \<Rightarrow> tree_dfs" where
  "trail_dfs_reset Q S = S\<lparr>dfs_first := True,
     dfs_open := [fresh_frame (TreeState (trail_start Q) (start_state (automaton Q))) 0]\<rparr>"

definition any_trail_dfs_reset :: "path_query \<Rightarrow> tree_dfs \<Rightarrow> tree_dfs" where
  "any_trail_dfs_reset Q S = trail_dfs_reset Q (S\<lparr>dfs_reached := []\<rparr>)"

definition trail_dfs_child :: "object_id list \<Rightarrow> tree_state \<Rightarrow> dfa_transition \<Rightarrow> entry \<Rightarrow> frame option" where
  "trail_dfs_child R s t x =
     (if \<not> is_trail (Some (path_state s)) (snd x) then None
      else Some (fresh_frame
        (TreeState (PathState (fst x) (snd x) (type_id t) (dfa_inverse t) (Some (path_state s))) (dfa_to t)) 0))"

text \<open>The tests for a solution; \<open>DFSEnum\<close> of \<open>any_trails\<close> inserts the node into \<open>reached_final\<close>.\<close>

definition trail_accept_final :: "path_query \<Rightarrow> frame \<Rightarrow> tree_dfs \<Rightarrow> tree_dfs \<times> bool" where
  "trail_accept_final Q g S = (S, is_final Q (tree_automaton (frame_state g)))"

definition trail_accept_new :: "path_query \<Rightarrow> frame \<Rightarrow> tree_dfs \<Rightarrow> tree_dfs \<times> bool" where
  "trail_accept_new Q g S =
     (if is_final Q (tree_automaton (frame_state g)) \<and> frame_node g \<notin> set (dfs_reached S)
      then (S\<lparr>dfs_reached := frame_node g # dfs_reached S\<rparr>, True) else (S, False))"

definition trail_accept_end :: "path_query \<Rightarrow> frame \<Rightarrow> tree_dfs \<Rightarrow> tree_dfs \<times> bool" where
  "trail_accept_end Q g S = (S, is_final Q (tree_automaton (frame_state g)) \<and> frame_node g = end_object_id Q)"

definition any_trail_abort :: "path_query \<Rightarrow> tree_state \<Rightarrow> bool" where
  "any_trail_abort Q s \<longleftrightarrow> path_node (path_state s) = end_object_id Q \<and> is_final Q (tree_automaton s)"

definition trail_dfs_expand :: "path_query \<Rightarrow> frame \<Rightarrow> tree_dfs \<Rightarrow> tree_dfs \<times> frame option" where
  "trail_dfs_expand Q = dfs_expand trail_dfs_child Q"

declare trail_dfs_expand_def [simp]

definition trail_dfs_loop ::
  "(tree_state \<Rightarrow> bool) \<Rightarrow> (frame \<Rightarrow> tree_dfs \<Rightarrow> tree_dfs \<times> bool) \<Rightarrow> path_query \<Rightarrow> tree_dfs \<Rightarrow>
     (tree_dfs \<times> path_state option) option" where
  "trail_dfs_loop abort accept Q =
     dfs_loop (\<lambda>f. False) (\<lambda>f. abort (frame_state f)) (trail_dfs_expand Q) accept"

definition trail_dfs_next :: "path_query \<Rightarrow> tree_dfs \<Rightarrow> (tree_dfs \<times> path_state option) option" where
  "trail_dfs_next Q S =
     (let loop = trail_dfs_loop (\<lambda>s. False) (trail_accept_final Q) Q in
      if dfs_first S then
        (let S1 = S\<lparr>dfs_first := False\<rparr>; current = hd (dfs_open S1) in
         if \<not> node_exists Q (frame_node current) then Some (S1\<lparr>dfs_open := tl (dfs_open S1)\<rparr>, None)
         else if is_final Q (start_state (automaton Q))
         then Some (S1\<lparr>dfs_found := Suc (dfs_found S1)\<rparr>, Some (path_state (frame_state current)))
         else loop S1)
      else loop S)"

definition any_trail_dfs_next :: "path_query \<Rightarrow> tree_dfs \<Rightarrow> (tree_dfs \<times> path_state option) option" where
  "any_trail_dfs_next Q S =
     (let loop = trail_dfs_loop (\<lambda>s. False) (trail_accept_new Q) Q in
      if dfs_first S then
        (let S1 = S\<lparr>dfs_first := False\<rparr>; current = hd (dfs_open S1) in
         if \<not> node_exists Q (frame_node current) then Some (S1\<lparr>dfs_open := tl (dfs_open S1)\<rparr>, None)
         else if is_final Q (start_state (automaton Q))
         then Some (S1\<lparr>dfs_reached := frame_node current # dfs_reached S1, dfs_found := Suc (dfs_found S1)\<rparr>,
                    Some (path_state (frame_state current)))
         else loop S1)
      else loop S)"

definition trail_dfs_check_next :: "path_query \<Rightarrow> tree_dfs \<Rightarrow> (tree_dfs \<times> path_state option) option" where
  "trail_dfs_check_next Q S =
     (let loop = trail_dfs_loop (\<lambda>s. False) (trail_accept_end Q) Q in
      if dfs_first S then
        (let S1 = S\<lparr>dfs_first := False\<rparr>; current = hd (dfs_open S1) in
         if \<not> node_exists Q (frame_node current) then Some (S1\<lparr>dfs_open := tl (dfs_open S1)\<rparr>, None)
         else if is_final Q (start_state (automaton Q)) \<and> frame_node current = end_object_id Q
         then Some (S1\<lparr>dfs_found := Suc (dfs_found S1)\<rparr>, Some (path_state (frame_state current)))
         else loop S1)
      else loop S)"

text \<open>A solution stays on the stack until the next call, which then empties it.\<close>

definition any_trail_dfs_check_next :: "path_query \<Rightarrow> tree_dfs \<Rightarrow> (tree_dfs \<times> path_state option) option" where
  "any_trail_dfs_check_next Q S =
     (let loop = trail_dfs_loop (any_trail_abort Q) (trail_accept_end Q) Q in
      if dfs_first S then
        (let S1 = S\<lparr>dfs_first := False\<rparr>; current = hd (dfs_open S1) in
         if \<not> node_exists Q (frame_node current) then Some (S1\<lparr>dfs_open := tl (dfs_open S1)\<rparr>, None)
         else if is_final Q (start_state (automaton Q)) \<and> frame_node current = end_object_id Q
         then Some (S1\<lparr>dfs_found := Suc (dfs_found S1)\<rparr>, Some (path_state (frame_state current)))
         else loop S1)
      else loop S)"

section \<open>Contracts\<close>

lemma trail_dfs_contract:
  assumes "\<And>R g. accept_ok any accept R
    (if is_final Q (tree_automaton (frame_state g)) \<and> frame_node g \<in> ends then [path_state (frame_state g)] else []) g"
  shows "dfs_contract any False Q trail_kid (trail_report Q ends) trail_dfs_child accept"
  unfolding dfs_contract_def
proof (intro allI)
  fix R s t and x :: entry
  let ?c = "TreeState (PathState (fst x) (snd x) (type_id t) (dfa_inverse t) (Some (path_state s))) (dfa_to t)"
  show "child_ok any False Q trail_kid (trail_report Q ends) accept R s (t, x) (trail_dfs_child R s t x)"
    using assms [of R "fresh_frame ?c 0"]
    by (auto simp: trail_dfs_child_def trail_body_defs child_ok_simps split: if_splits)
qed

lemma trail_accept_final_ok:
  "accept_ok False (trail_accept_final Q) R
    (if is_final Q (tree_automaton (frame_state g)) \<and> frame_node g \<in> UNIV then [path_state (frame_state g)] else []) g"
  by (auto simp: accept_ok_def trail_accept_final_def)

lemma trail_accept_new_ok:
  "accept_ok True (trail_accept_new Q) R
    (if is_final Q (tree_automaton (frame_state g)) \<and> frame_node g \<in> UNIV then [path_state (frame_state g)] else []) g"
  by (auto simp: accept_ok_def trail_accept_new_def frame_node_def)

lemma trail_accept_end_ok:
  "accept_ok False (trail_accept_end Q) R
    (if is_final Q (tree_automaton (frame_state g)) \<and> frame_node g \<in> {end_object_id Q} then [path_state (frame_state g)] else []) g"
  by (auto simp: accept_ok_def trail_accept_end_def)

section \<open>The results of the searches\<close>

definition trail_dfs_fresh :: "path_query \<Rightarrow> tree_dfs \<Rightarrow> bool" where
  "trail_dfs_fresh Q S \<longleftrightarrow> dfs_first S \<and> dfs_open S = [fresh_frame (root_of Q (trail_start Q)) 0] \<and> dfs_reached S = []"

lemma trail_dfs_fresh_begin: "trail_dfs_fresh Q (trail_dfs_begin Q tree_dfs_new)"
  by (simp add: trail_dfs_fresh_def trail_dfs_begin_def tree_dfs_new_def root_of_def)

lemma trail_dfs_fresh_reset: "trail_dfs_fresh Q (any_trail_dfs_reset Q S)"
  by (simp add: trail_dfs_fresh_def any_trail_dfs_reset_def trail_dfs_reset_def root_of_def)

abbreviation "trail_preorder Q c ends \<equiv>
  (if c then [trail_start Q] else []) @ visits Q trail_kid trail_rank (trail_report Q ends) (root_of Q (trail_start Q))"

lemma trail_preorder_levels: "mset (trail_preorder Q c ends) = mset (trail_all Q c ends)"
  unfolding mset_append visits_levels [OF trail_ranked] ..

lemma trail_preorder_spec:
  assumes "exact_arrows E True (provider Q)" "dfa_ok (automaton Q)"
    and "c \<longleftrightarrow> is_final Q (start_state (automaton Q)) \<and> start_object_id Q \<in> ends"
  shows "steps_of ` set (trail_preorder Q c ends) = trail_answers E Q ends"
    "\<And>r. r \<in> set (trail_preorder Q c ends) \<Longrightarrow> path_result E True Q r"
proof -
  note A = trail_all_spec [OF assms]
  note s = mset_eq_setD [OF trail_preorder_levels [where Q = Q and c = c and ends = ends]]
  show "steps_of ` set (trail_preorder Q c ends) = trail_answers E Q ends" unfolding s by (rule A(1))
  show "path_result E True Q r" if "r \<in> set (trail_preorder Q c ends)" for r
    using that unfolding s by (rule A(2))
qed

lemma all_trails_dfs_enum:
  assumes "provider_ok (provider Q)" and ex: "node_exists Q (start_object_id Q)" and S: "trail_dfs_fresh Q S"
  shows "\<exists>S'. drains (trail_dfs_next Q) S (trail_preorder Q (is_final Q (start_state (automaton Q))) UNIV) S'"
proof -
  have "\<exists>S'. drains (trail_dfs_next Q) S (pick False {} (trail_preorder Q (is_final Q (start_state (automaton Q))) UNIV)) S'"
    by (rule dfs_start_drains [OF assms(1) trail_dfs_contract [OF trail_accept_final_ok] trail_ranked,
          where k = "Suc (dfs_found S)" and R = "dfs_reached S"])
      (use S ex in \<open>simp_all add: trail_dfs_fresh_def trail_dfs_next_def trail_dfs_loop_def root_of_def Let_def\<close>)
  then show ?thesis unfolding pick_False .
qed

lemma all_trails_dfs_check:
  assumes "provider_ok (provider Q)" and ex: "node_exists Q (start_object_id Q)" and S: "trail_dfs_fresh Q S"
  shows "\<exists>S'. drains (trail_dfs_check_next Q) S (trail_preorder Q (trail_start_at_end Q) {end_object_id Q}) S'"
proof -
  have "\<exists>S'. drains (trail_dfs_check_next Q) S (pick False {} (trail_preorder Q (trail_start_at_end Q) {end_object_id Q})) S'"
    by (rule dfs_start_drains [OF assms(1) trail_dfs_contract [OF trail_accept_end_ok] trail_ranked,
          where k = "Suc (dfs_found S)" and R = "dfs_reached S"])
      (use S ex in \<open>simp_all add: trail_dfs_fresh_def trail_dfs_check_next_def trail_dfs_loop_def root_of_def Let_def\<close>)
  then show ?thesis unfolding pick_False .
qed

lemma any_trails_dfs_enum:
  assumes Q: "exact_arrows E True (provider Q)" "dfa_ok (automaton Q)" "provider_ok (provider Q)"
    and ex: "node_exists Q (start_object_id Q)" and S: "trail_dfs_fresh Q S"
  shows "\<exists>rs S'. drains (any_trail_dfs_next Q) S rs S' \<and>
    distinct (map path_node rs) \<and> path_node ` set rs = {m. trail_answers E Q {m} \<noteq> {}} \<and>
    (\<forall>r \<in> set rs. path_result E True Q r \<and> steps_of r \<in> trail_answers E Q {path_node r})"
proof -
  let ?c = "is_final Q (start_state (automaton Q))"
  have D: "\<exists>S'. drains (any_trail_dfs_next Q) S (pick True {} (trail_preorder Q ?c UNIV)) S'"
    by (rule dfs_start_drains [OF Q(3) trail_dfs_contract [OF trail_accept_new_ok] trail_ranked,
          where k = "Suc (dfs_found S)" and R = "[start_object_id Q]"])
      (use S ex in \<open>simp_all add: trail_dfs_fresh_def any_trail_dfs_next_def trail_dfs_loop_def root_of_def Let_def\<close>)
  have c: "?c \<longleftrightarrow> is_final Q (start_state (automaton Q)) \<and> start_object_id Q \<in> UNIV" by simp
  note R = trail_preorder_spec [OF Q(1,2) c]
  from D any_results [OF R] show ?thesis by blast
qed

lemma any_trails_dfs_check:
  assumes Q: "exact_arrows E True (provider Q)" "dfa_ok (automaton Q)" "provider_ok (provider Q)"
    and ex: "node_exists Q (start_object_id Q)" and S: "trail_dfs_fresh Q S"
  shows "\<exists>rs S'. drains (any_trail_dfs_check_next Q) S rs S' \<and> length rs \<le> 1 \<and>
    (rs = [] \<longleftrightarrow> trail_answers E Q {end_object_id Q} = {}) \<and>
    (\<forall>r \<in> set rs. path_result E True Q r \<and> steps_of r \<in> trail_answers E Q {end_object_id Q})"
proof -
  let ?all = "trail_preorder Q (trail_start_at_end Q) {end_object_id Q}"
  have s: "any_trail_abort Q (root_of Q (trail_start Q)) \<longleftrightarrow> trail_start_at_end Q"
    by (auto simp: any_trail_abort_def root_of_def)
  have acc: "any_trail_abort Q (frame_state g)" if "snd (trail_accept_end Q g S)" for g S
    using that by (simp add: any_trail_abort_def trail_accept_end_def frame_node_def)
  have ab: "abort_contract (any_trail_abort Q) trail_dfs_child (trail_accept_end Q)"
    by (auto simp: abort_contract_def any_trail_abort_def trail_accept_end_def frame_node_def)
  have D: "\<exists>S'. drains (any_trail_dfs_check_next Q) S (take 1 ?all) S'"
    unfolding s [symmetric]
    by (rule dfs_start_first [OF Q(3) trail_dfs_contract [OF trail_accept_end_ok] trail_ranked ab acc,
          where k = "Suc (dfs_found S)"])
      (use S ex s in \<open>auto simp: trail_dfs_fresh_def any_trail_dfs_check_next_def trail_dfs_loop_def root_of_def Let_def\<close>)
  note R = trail_preorder_spec [OF Q(1,2), where ends = "{end_object_id Q}", OF refl]
  have "take 1 ?all = [] \<longleftrightarrow> trail_answers E Q {end_object_id Q} = {}" unfolding R(1) [symmetric] by simp
  moreover have "path_result E True Q r \<and> steps_of r \<in> trail_answers E Q {end_object_id Q}" if "r \<in> set (take 1 ?all)" for r
    using R in_set_takeD [OF that] by blast
  moreover have "length (take 1 ?all) \<le> 1" by simp
  ultimately show ?thesis using D by blast
qed

end
