(* ===== verification/PlanRun.thy ===== *)
theory PlanRun
  imports PathPlan AnyCheck SimpleDfs TrailDfs
begin

text \<open>
  A plan and the iterator it names, run on a stored graph: the nodes a query binds. \<open>class_run\<close> says,
  for the classes of iterators modelled in this development, that calling \<open>next\<close> until it
  answers false returns the given end nodes, one for every path. Shown: the iterator of the
  semantics finds the ends of the paths of that semantics, also when the planner searches the
  inverted path from the right end.
\<close>

section \<open>Running an iterator\<close>

definition resolve :: "(nat \<Rightarrow> object_id) \<Rightarrow> node_ref \<Rightarrow> object_id" where
  "resolve b r = (case r of VarId v \<Rightarrow> b v | ObjectId n \<Rightarrow> n)"

definition iter_query :: "quad_store \<Rightarrow> (nat \<Rightarrow> object_id) \<Rightarrow> path_iter \<Rightarrow> path_query" where
  "iter_query S b it = \<lparr>automaton = iter_automaton it, provider = provider_of (iter_provider it) S,
     node_exists = node_in_store S, start_object_id = resolve b (iter_start it), end_object_id = resolve b (iter_end it)\<rparr>"

definition state_nodes :: "('o \<Rightarrow> ('o \<times> search_state option) option) \<Rightarrow> 'o \<Rightarrow> object_id list \<Rightarrow> bool" where
  "state_nodes nxt B ns \<longleftrightarrow> (\<exists>rs C. drains nxt B rs C \<and> ns = map node_id rs)"

definition path_ends :: "('o \<Rightarrow> ('o \<times> path_state option) option) \<Rightarrow> 'o \<Rightarrow> object_id list \<Rightarrow> bool" where
  "path_ends nxt B ns \<longleftrightarrow> (\<exists>rs C. drains nxt B rs C \<and> ns = map path_node rs)"

inductive class_run :: "iterator_class \<Rightarrow> path_query \<Rightarrow> object_id list \<Rightarrow> bool" where
  "state_nodes (bfs_check_next Q) (bfs_check_begin Q bfs_check_new) ns \<Longrightarrow> class_run AnyShortest_BFSCheck Q ns"
| "class_run (AnyShortest_BFSEnum mf) Q (map node_id (bfs_results mf Q (bfs_begin Q bfs_new)))"
| "state_nodes (any_dfs_check_next Q) (any_dfs_check_begin Q any_dfs_new) ns \<Longrightarrow> class_run Any_DFSCheck Q ns"
| "state_nodes (any_dfs_next mf Q) (any_dfs_begin Q any_dfs_new) ns \<Longrightarrow> class_run (Any_DFSEnum mf) Q ns"
| "path_ends (simple_check_next c Q) (simple_bfs_begin Q tree_bfs_new) ns \<Longrightarrow> class_run (AllSimple_BFSCheck c) Q ns"
| "path_ends (simple_bfs_next c Q) (simple_bfs_begin Q tree_bfs_new) ns \<Longrightarrow> class_run (AllSimple_BFSEnum c) Q ns"
| "path_ends (all_simple_dfs_check_next c Q) (simple_dfs_begin Q tree_dfs_new) ns \<Longrightarrow> class_run (AllSimple_DFSCheck c) Q ns"
| "path_ends (simple_dfs_next c Q) (simple_dfs_begin Q tree_dfs_new) ns \<Longrightarrow> class_run (AllSimple_DFSEnum c) Q ns"
| "path_ends (any_simple_check_next c Q) (simple_bfs_begin Q tree_bfs_new) ns \<Longrightarrow> class_run (AnySimple_BFSCheck c) Q ns"
| "path_ends (any_simple_bfs_next c Q) (simple_bfs_begin Q tree_bfs_new) ns \<Longrightarrow> class_run (AnySimple_BFSEnum c) Q ns"
| "path_ends (any_simple_dfs_check_next c Q) (simple_dfs_begin Q tree_dfs_new) ns \<Longrightarrow> class_run (AnySimple_DFSCheck c) Q ns"
| "path_ends (any_simple_dfs_next c Q) (simple_dfs_begin Q tree_dfs_new) ns \<Longrightarrow> class_run (AnySimple_DFSEnum c) Q ns"
| "path_ends (trail_check_next Q) (trail_bfs_begin Q tree_bfs_new) ns \<Longrightarrow> class_run AllTrails_BFSCheck Q ns"
| "path_ends (trail_bfs_next Q) (trail_bfs_begin Q tree_bfs_new) ns \<Longrightarrow> class_run AllTrails_BFSEnum Q ns"
| "path_ends (trail_dfs_check_next Q) (trail_dfs_begin Q tree_dfs_new) ns \<Longrightarrow> class_run AllTrails_DFSCheck Q ns"
| "path_ends (trail_dfs_next Q) (trail_dfs_begin Q tree_dfs_new) ns \<Longrightarrow> class_run AllTrails_DFSEnum Q ns"
| "path_ends (any_trail_check_next Q) (trail_bfs_begin Q tree_bfs_new) ns \<Longrightarrow> class_run AnyTrails_BFSCheck Q ns"
| "path_ends (any_trail_bfs_next Q) (trail_bfs_begin Q tree_bfs_new) ns \<Longrightarrow> class_run AnyTrails_BFSEnum Q ns"
| "path_ends (any_trail_dfs_check_next Q) (trail_dfs_begin Q tree_dfs_new) ns \<Longrightarrow> class_run AnyTrails_DFSCheck Q ns"
| "path_ends (any_trail_dfs_next Q) (trail_dfs_begin Q tree_dfs_new) ns \<Longrightarrow> class_run AnyTrails_DFSEnum Q ns"

lemmas class_run_intros = class_run.intros

section \<open>The paths of a semantics\<close>

definition semantic_good :: "path_semantic \<Rightarrow> object_id \<Rightarrow> step list \<Rightarrow> bool" where
  "semantic_good sem s xs =
     (case sem of
        SIMPLE \<Rightarrow> simple_steps True s xs | ANY_SIMPLE \<Rightarrow> simple_steps True s xs
      | ACYCLIC \<Rightarrow> simple_steps False s xs | ANY_ACYCLIC \<Rightarrow> simple_steps False s xs
      | TRAILS \<Rightarrow> trail_steps xs | ANY_TRAILS \<Rightarrow> trail_steps xs
      | _ \<Rightarrow> True)"

definition reached_by :: "quad set \<Rightarrow> path_semantic \<Rightarrow> path_query \<Rightarrow> object_id set" where
  "reached_by E sem Q =
     {m. good_answers E (trails_semantic sem) Q (semantic_good sem (start_object_id Q)) {m} \<noteq> {}}"

definition one_path :: "path_semantic \<Rightarrow> bool" where
  "one_path sem \<longleftrightarrow> sem \<in> {ANY, ANY_SIMPLE, ANY_ACYCLIC, ANY_TRAILS}"

definition enumerated :: "path_semantic \<Rightarrow> bool" where
  "enumerated sem \<longleftrightarrow> one_path sem \<or> sem \<in> {SIMPLE, ACYCLIC, TRAILS}"

lemma graph_walk_steps: "graph_walk E n w m \<longleftrightarrow> (\<exists>xs. step_walk E False n xs m \<and> map fst xs = w)"
  by (rule graph_walk_kept)

lemma answers_steps: "answers E Q = reached_by E ANY Q"
  by (auto simp: answers_def reached_by_def good_answers_def semantic_good_def trails_semantic_def graph_walk_steps)

lemma path_nodes_reached:
  assumes "steps_of ` set rs = good_answers E keep Q good ends" "\<forall>r \<in> set rs. path_result E keep Q r"
  shows "path_node ` set rs = {m \<in> ends. good_answers E keep Q good {m} \<noteq> {}}"
proof -
  have "path_node r \<in> ends \<and> steps_of r \<in> good_answers E keep Q good {path_node r}" if r: "r \<in> set rs" for r
  proof -
    have "steps_of r \<in> good_answers E keep Q good ends" using assms(1) r by blast
    moreover have "step_walk E keep (start_object_id Q) (steps_of r) (path_node r)" using assms(2) r by (simp add: path_result_def)
    ultimately show ?thesis unfolding good_answers_def by (auto dest: step_walk_unique)
  qed
  moreover have "\<exists>r \<in> set rs. path_node r = m" if m: "m \<in> ends" "xs \<in> good_answers E keep Q good {m}" for m xs
  proof -
    have "xs \<in> steps_of ` set rs" unfolding assms(1) using m by (auto simp: good_answers_def)
    then obtain r where r: "r \<in> set rs" "steps_of r = xs" by blast
    then have "step_walk E keep (start_object_id Q) xs (path_node r)" using assms(2) by (auto simp: path_result_def)
    then have "path_node r = m" using m(2) by (auto simp: good_answers_def dest: step_walk_unique)
    then show ?thesis using r(1) by blast
  qed
  ultimately show ?thesis by fastforce
qed

text \<open>A list of at most one path to the end node, empty when there is none.\<close>

lemma single_nodes:
  assumes "length rs \<le> 1" "rs = [] \<longleftrightarrow> \<not> R" "\<forall>r \<in> set rs. f r = e"
  shows "distinct (map f rs) \<and> set (map f rs) = {m. m = e \<and> R}"
  using assms by (cases rs) auto

section \<open>Every class finds the nodes of its semantics\<close>

definition runnable :: "quad set \<Rightarrow> path_query \<Rightarrow> path_semantic \<Rightarrow> bool" where
  "runnable E Q sem \<longleftrightarrow> graph_provider (provider Q) E \<and> (trails_semantic sem \<longrightarrow> edge_provider (provider Q) E) \<and>
     dfa_ok (automaton Q) \<and> node_exists Q (start_object_id Q)"

lemma runnable_args:
  assumes "runnable E Q sem"
  shows "graph_provider (provider Q) E" "exact_arrows E False (provider Q)" "dfa_ok (automaton Q)" "provider_ok (provider Q)"
    "node_exists Q (start_object_id Q)" "trails_semantic sem \<Longrightarrow> exact_arrows E True (provider Q)"
proof -
  show G: "graph_provider (provider Q) E" using assms by (simp add: runnable_def)
  show "exact_arrows E False (provider Q)" by (rule graph_provider.exact_nodes [OF G])
  show "provider_ok (provider Q)" by (rule graph_provider.prov_ok [OF G])
  show "exact_arrows E True (provider Q)" if "trails_semantic sem"
    using assms that by (intro edge_provider.exact_edges) (simp add: runnable_def)
qed (use assms in \<open>simp_all add: runnable_def\<close>)

abbreviation "simple_ends E Q c \<equiv> {m. simple_answers E Q c {m} \<noteq> {}}"

abbreviation "trail_ends E Q \<equiv> {m. trail_answers E Q {m} \<noteq> {}}"

lemma any_run:
  assumes "runnable E Q sem"
  shows "\<exists>ns. class_run (AnyShortest_BFSEnum (many_finals (automaton Q))) Q ns \<and> distinct ns \<and> set ns = reached_by E ANY Q"
  "\<exists>ns. class_run (Any_DFSEnum (many_finals (automaton Q))) Q ns \<and> distinct ns \<and> set ns = reached_by E ANY Q"
  "\<exists>ns. class_run AnyShortest_BFSCheck Q ns \<and> distinct ns \<and> set ns = {m. m = end_object_id Q \<and> m \<in> reached_by E ANY Q}"
  "\<exists>ns. class_run Any_DFSCheck Q ns \<and> distinct ns \<and> set ns = {m. m = end_object_id Q \<and> m \<in> reached_by E ANY Q}"
proof -
  note R = runnable_args [OF assms]
  have mf: "many_finals (automaton Q) = (total_final_states (automaton Q) > 1)" by (simp add: many_finals_def)
  from graph_provider.any_shortest_enum [OF R(1) refl R(3) mf ready_begin R(5)]
  show "\<exists>ns. class_run (AnyShortest_BFSEnum (many_finals (automaton Q))) Q ns \<and> distinct ns \<and> set ns = reached_by E ANY Q"
    by (intro exI [of _ "map node_id (bfs_results (many_finals (automaton Q)) Q (bfs_begin Q bfs_new))"] conjI class_run_intros(2))
      (simp_all add: answers_steps)
  from graph_provider.any_dfs_enum [OF R(1) refl R(3) mf any_fresh_begin R(5)]
  obtain rs S' where "drains (any_dfs_next (many_finals (automaton Q)) Q) (any_dfs_begin Q any_dfs_new) rs S'"
    "distinct (map node_id rs)" "node_id ` set rs = answers E Q" by blast
  then show "\<exists>ns. class_run (Any_DFSEnum (many_finals (automaton Q))) Q ns \<and> distinct ns \<and> set ns = reached_by E ANY Q"
    by (intro exI [of _ "map node_id rs"] conjI class_run_intros(4)) (auto simp: answers_steps state_nodes_def)
  from graph_provider.bfs_check_answers [OF R(1) refl R(3) check_fresh_begin R(5)]
  obtain rs B where X: "drains (bfs_check_next Q) (bfs_check_begin Q bfs_check_new) rs B" "length rs \<le> 1"
    "rs = [] \<longleftrightarrow> \<not> end_object_id Q \<in> reached_by E ANY Q" "\<forall>r \<in> set rs. node_id r = end_object_id Q"
    unfolding answers_steps by blast
  show "\<exists>ns. class_run AnyShortest_BFSCheck Q ns \<and> distinct ns \<and> set ns = {m. m = end_object_id Q \<and> m \<in> reached_by E ANY Q}"
    using X(1) single_nodes [OF X(2-4)]
    by (intro exI [of _ "map node_id rs"] conjI class_run_intros(1)) (auto simp: state_nodes_def)
  from graph_provider.any_dfs_check_answers [OF R(1) refl R(3) any_check_fresh_begin(1) R(5)]
  obtain rs S' where X: "drains (any_dfs_check_next Q) (any_dfs_check_begin Q any_dfs_new) rs S'" "length rs \<le> 1"
    "rs = [] \<longleftrightarrow> \<not> end_object_id Q \<in> reached_by E ANY Q" "\<forall>r \<in> set rs. node_id r = end_object_id Q"
    unfolding answers_steps any_check_fresh_begin(2) by blast
  show "\<exists>ns. class_run Any_DFSCheck Q ns \<and> distinct ns \<and> set ns = {m. m = end_object_id Q \<and> m \<in> reached_by E ANY Q}"
    using X(1) single_nodes [OF X(2-4)]
    by (intro exI [of _ "map node_id rs"] conjI class_run_intros(3)) (auto simp: state_nodes_def)
qed

lemma all_simple_run:
  assumes "runnable E Q sem"
  shows "\<exists>ns. class_run (AllSimple_BFSEnum c) Q ns \<and> set ns = simple_ends E Q c"
  "\<exists>ns. class_run (AllSimple_DFSEnum c) Q ns \<and> set ns = simple_ends E Q c"
  "\<exists>ns. class_run (AllSimple_BFSCheck c) Q ns \<and> set ns = {m. m = end_object_id Q \<and> m \<in> simple_ends E Q c}"
proof -
  note R = runnable_args [OF assms]
  from all_simple_bfs_enum [OF R(2-5) simple_fresh_begin, of c]
  obtain rs B where "drains (simple_bfs_next c Q) (simple_bfs_begin Q tree_bfs_new) rs B"
    "steps_of ` set rs = simple_answers E Q c UNIV" "\<forall>r \<in> set rs. path_result E False Q r" by blast
  then show "\<exists>ns. class_run (AllSimple_BFSEnum c) Q ns \<and> set ns = simple_ends E Q c"
    using path_nodes_reached [of rs E False Q _ UNIV]
    by (intro exI [of _ "map path_node rs"] conjI class_run_intros(6)) (auto simp: path_ends_def)
  from all_simple_dfs_enum [OF R(4,5) simple_dfs_fresh_begin, of c]
  obtain S' where D: "drains (simple_dfs_next c Q) (simple_dfs_begin Q tree_dfs_new) (simple_preorder Q c) S'" by blast
  have "path_node ` set (simple_preorder Q c) = simple_ends E Q c"
    using path_nodes_reached [of "simple_preorder Q c" E False Q _ UNIV] simple_preorder_spec [OF R(2,3), where cyclic = c] by auto
  then show "\<exists>ns. class_run (AllSimple_DFSEnum c) Q ns \<and> set ns = simple_ends E Q c"
    using D by (intro exI [of _ "map path_node (simple_preorder Q c)"] conjI class_run_intros(8)) (auto simp: path_ends_def)
  from all_simple_bfs_check [OF R(2-5) simple_fresh_begin, of c]
  obtain rs B where "drains (simple_check_next c Q) (simple_bfs_begin Q tree_bfs_new) rs B"
    "steps_of ` set rs = simple_answers E Q c {end_object_id Q}" "\<forall>r \<in> set rs. path_result E False Q r" by blast
  then show "\<exists>ns. class_run (AllSimple_BFSCheck c) Q ns \<and> set ns = {m. m = end_object_id Q \<and> m \<in> simple_ends E Q c}"
    using path_nodes_reached [of rs E False Q _ "{end_object_id Q}"]
    by (intro exI [of _ "map path_node rs"] conjI class_run_intros(5)) (auto simp: path_ends_def)
qed

lemma any_simple_run:
  assumes "runnable E Q sem"
  shows "\<exists>ns. class_run (AnySimple_BFSEnum c) Q ns \<and> distinct ns \<and> set ns = simple_ends E Q c"
  "\<exists>ns. class_run (AnySimple_DFSEnum c) Q ns \<and> distinct ns \<and> set ns = simple_ends E Q c"
  "\<exists>ns. class_run (AnySimple_BFSCheck c) Q ns \<and> distinct ns \<and> set ns = {m. m = end_object_id Q \<and> m \<in> simple_ends E Q c}"
proof -
  note R = runnable_args [OF assms]
  from any_simple_bfs_enum [OF R(2-5) simple_fresh_begin, of c]
  obtain rs B where "drains (any_simple_bfs_next c Q) (simple_bfs_begin Q tree_bfs_new) rs B"
    "distinct (map path_node rs)" "path_node ` set rs = simple_ends E Q c" by blast
  then show "\<exists>ns. class_run (AnySimple_BFSEnum c) Q ns \<and> distinct ns \<and> set ns = simple_ends E Q c"
    by (intro exI [of _ "map path_node rs"] conjI class_run_intros(10)) (auto simp: path_ends_def)
  from any_simple_dfs_enum [OF R(2-5) simple_dfs_fresh_begin, of c]
  obtain rs B where "drains (any_simple_dfs_next c Q) (simple_dfs_begin Q tree_dfs_new) rs B"
    "distinct (map path_node rs)" "path_node ` set rs = simple_ends E Q c" by blast
  then show "\<exists>ns. class_run (AnySimple_DFSEnum c) Q ns \<and> distinct ns \<and> set ns = simple_ends E Q c"
    by (intro exI [of _ "map path_node rs"] conjI class_run_intros(12)) (auto simp: path_ends_def)
  from any_simple_bfs_check [OF R(2-5) simple_fresh_begin, of c]
  obtain rs B where X: "drains (any_simple_check_next c Q) (simple_bfs_begin Q tree_bfs_new) rs B" "length rs \<le> 1"
    "rs = [] \<longleftrightarrow> \<not> end_object_id Q \<in> simple_ends E Q c"
    "\<forall>r \<in> set rs. path_result E False Q r \<and> steps_of r \<in> simple_answers E Q c {end_object_id Q}" by blast
  then have "\<forall>r \<in> set rs. path_node r = end_object_id Q"
    by (auto simp: path_result_def good_answers_def dest: step_walk_unique)
  then show "\<exists>ns. class_run (AnySimple_BFSCheck c) Q ns \<and> distinct ns \<and> set ns = {m. m = end_object_id Q \<and> m \<in> simple_ends E Q c}"
    using X(1) single_nodes [OF X(2,3), of path_node "end_object_id Q"]
    by (intro exI [of _ "map path_node rs"] conjI class_run_intros(9)) (auto simp: path_ends_def)
qed

lemma all_trails_run:
  assumes "runnable E Q sem" "trails_semantic sem"
  shows "\<exists>ns. class_run AllTrails_BFSEnum Q ns \<and> set ns = trail_ends E Q"
    "\<exists>ns. class_run AllTrails_DFSEnum Q ns \<and> set ns = trail_ends E Q"
    "\<exists>ns. class_run AllTrails_BFSCheck Q ns \<and> set ns = {m. m = end_object_id Q \<and> m \<in> trail_ends E Q}"
    "\<exists>ns. class_run AllTrails_DFSCheck Q ns \<and> set ns = {m. m = end_object_id Q \<and> m \<in> trail_ends E Q}"
proof -
  note R = runnable_args [OF assms(1)] and args = runnable_args(6) [OF assms] runnable_args(3-5) [OF assms(1)]
  from all_trails_bfs_enum [OF args trail_fresh_new]
  obtain rs B where "drains (trail_bfs_next Q) (trail_bfs_begin Q tree_bfs_new) rs B"
    "steps_of ` set rs = trail_answers E Q UNIV" "\<forall>r \<in> set rs. path_result E True Q r" by blast
  then show "\<exists>ns. class_run AllTrails_BFSEnum Q ns \<and> set ns = trail_ends E Q"
    using path_nodes_reached [of rs E True Q _ UNIV]
    by (intro exI [of _ "map path_node rs"] conjI class_run_intros(14)) (auto simp: path_ends_def)
  from all_trails_bfs_check [OF args trail_fresh_new]
  obtain rs B where "drains (trail_check_next Q) (trail_bfs_begin Q tree_bfs_new) rs B"
    "steps_of ` set rs = trail_answers E Q {end_object_id Q}" "\<forall>r \<in> set rs. path_result E True Q r" by blast
  then show "\<exists>ns. class_run AllTrails_BFSCheck Q ns \<and> set ns = {m. m = end_object_id Q \<and> m \<in> trail_ends E Q}"
    using path_nodes_reached [of rs E True Q _ "{end_object_id Q}"]
    by (intro exI [of _ "map path_node rs"] conjI class_run_intros(13)) (auto simp: path_ends_def)
  let ?l = "trail_preorder Q (is_final Q (start_state (automaton Q))) UNIV"
  from all_trails_dfs_enum [OF args(3,4) trail_dfs_fresh_begin]
  obtain S' where D: "drains (trail_dfs_next Q) (trail_dfs_begin Q tree_dfs_new) ?l S'" by blast
  have "path_node ` set ?l = trail_ends E Q"
    using path_nodes_reached [of ?l E True Q _ UNIV] trail_preorder_spec [OF args(1,2), where ends = UNIV] by auto
  then show "\<exists>ns. class_run AllTrails_DFSEnum Q ns \<and> set ns = trail_ends E Q"
    using D by (intro exI [of _ "map path_node ?l"] conjI class_run_intros(16)) (auto simp: path_ends_def)
  let ?k = "trail_preorder Q (trail_start_at_end Q) {end_object_id Q}"
  from all_trails_dfs_check [OF args(3,4) trail_dfs_fresh_begin]
  obtain S' where D: "drains (trail_dfs_check_next Q) (trail_dfs_begin Q tree_dfs_new) ?k S'" by blast
  have "path_node ` set ?k = {m. m = end_object_id Q \<and> m \<in> trail_ends E Q}"
    using path_nodes_reached [of ?k E True Q _ "{end_object_id Q}"]
      trail_preorder_spec [OF args(1,2), where ends = "{end_object_id Q}"] by auto
  then show "\<exists>ns. class_run AllTrails_DFSCheck Q ns \<and> set ns = {m. m = end_object_id Q \<and> m \<in> trail_ends E Q}"
    using D by (intro exI [of _ "map path_node ?k"] conjI class_run_intros(15)) (auto simp: path_ends_def)
qed

lemma any_trails_run:
  assumes "runnable E Q sem" "trails_semantic sem"
  shows "\<exists>ns. class_run AnyTrails_BFSEnum Q ns \<and> distinct ns \<and> set ns = trail_ends E Q"
    "\<exists>ns. class_run AnyTrails_DFSEnum Q ns \<and> distinct ns \<and> set ns = trail_ends E Q"
    "\<exists>ns. class_run AnyTrails_BFSCheck Q ns \<and> distinct ns \<and> set ns = {m. m = end_object_id Q \<and> m \<in> trail_ends E Q}"
    "\<exists>ns. class_run AnyTrails_DFSCheck Q ns \<and> distinct ns \<and> set ns = {m. m = end_object_id Q \<and> m \<in> trail_ends E Q}"
proof -
  note R = runnable_args [OF assms(1)] and args = runnable_args(6) [OF assms] runnable_args(3-5) [OF assms(1)]
  have at: "path_node r = end_object_id Q" if "path_result E True Q r \<and> steps_of r \<in> trail_answers E Q {end_object_id Q}" for r
    using that by (auto simp: path_result_def good_answers_def dest: step_walk_unique)
  from any_trails_bfs_enum [OF args trail_fresh_new]
  obtain rs B where "drains (any_trail_bfs_next Q) (trail_bfs_begin Q tree_bfs_new) rs B"
    "distinct (map path_node rs)" "path_node ` set rs = trail_ends E Q" by blast
  then show "\<exists>ns. class_run AnyTrails_BFSEnum Q ns \<and> distinct ns \<and> set ns = trail_ends E Q"
    by (intro exI [of _ "map path_node rs"] conjI class_run_intros(18)) (auto simp: path_ends_def)
  from any_trails_dfs_enum [OF args trail_dfs_fresh_begin]
  obtain rs B where "drains (any_trail_dfs_next Q) (trail_dfs_begin Q tree_dfs_new) rs B"
    "distinct (map path_node rs)" "path_node ` set rs = trail_ends E Q" by blast
  then show "\<exists>ns. class_run AnyTrails_DFSEnum Q ns \<and> distinct ns \<and> set ns = trail_ends E Q"
    by (intro exI [of _ "map path_node rs"] conjI class_run_intros(20)) (auto simp: path_ends_def)
  from any_trails_bfs_check [OF args trail_fresh_new]
  obtain rs B where X: "drains (any_trail_check_next Q) (trail_bfs_begin Q tree_bfs_new) rs B" "length rs \<le> 1"
    "rs = [] \<longleftrightarrow> \<not> end_object_id Q \<in> trail_ends E Q" "\<forall>r \<in> set rs. path_node r = end_object_id Q" using at by blast
  show "\<exists>ns. class_run AnyTrails_BFSCheck Q ns \<and> distinct ns \<and> set ns = {m. m = end_object_id Q \<and> m \<in> trail_ends E Q}"
    using X(1) single_nodes [OF X(2-4)]
    by (intro exI [of _ "map path_node rs"] conjI class_run_intros(17)) (auto simp: path_ends_def)
  from any_trails_dfs_check [OF args trail_dfs_fresh_begin]
  obtain rs B where X: "drains (any_trail_dfs_check_next Q) (trail_dfs_begin Q tree_dfs_new) rs B" "length rs \<le> 1"
    "rs = [] \<longleftrightarrow> \<not> end_object_id Q \<in> trail_ends E Q" "\<forall>r \<in> set rs. path_node r = end_object_id Q" using at by blast
  show "\<exists>ns. class_run AnyTrails_DFSCheck Q ns \<and> distinct ns \<and> set ns = {m. m = end_object_id Q \<and> m \<in> trail_ends E Q}"
    using X(1) single_nodes [OF X(2-4)]
    by (intro exI [of _ "map path_node rs"] conjI class_run_intros(19)) (auto simp: path_ends_def)
qed

lemmas run_by_semantic = any_run all_simple_run any_simple_run all_trails_run any_trails_run

lemma enum_run:
  assumes R: "runnable E Q sem" and sem: "enumerated sem"
  shows "\<exists>ns. class_run (enum_of M sem (automaton Q)) Q ns \<and> (one_path sem \<longrightarrow> distinct ns) \<and> set ns = reached_by E sem Q"
  using sem any_run(1,2) [OF R] all_simple_run(1,2) [OF R] any_simple_run(1,2) [OF R] all_trails_run(1,2) [OF R] any_trails_run(1,2) [OF R]
  by (cases "path_mode M"; cases sem)
    (simp_all add: enumerated_def one_path_def enum_of_def by_mode_def reached_by_def semantic_good_def [abs_def] trails_semantic_def)

text \<open>The depth-first checks for simple paths are left out: they miss paths.\<close>

lemma check_run:
  assumes R: "runnable E Q sem" and sem: "enumerated sem" and mode: "path_mode M = BFS \<or> sem = ANY \<or> trails_semantic sem"
  shows "\<exists>ns. class_run (check_class M sem) Q ns \<and> (one_path sem \<longrightarrow> distinct ns) \<and>
    set ns = {m. m = end_object_id Q \<and> m \<in> reached_by E sem Q}"
  using sem mode any_run(3,4) [OF R] all_simple_run(3) [OF R] any_simple_run(3) [OF R] all_trails_run(3,4) [OF R] any_trails_run(3,4) [OF R]
  by (cases "path_mode M"; cases sem)
    (simp_all add: enumerated_def one_path_def check_class_def by_mode_def reached_by_def semantic_good_def [abs_def] trails_semantic_def)

section \<open>Paths in both directions\<close>

fun rev_steps :: "object_id \<Rightarrow> step list \<Rightarrow> step list" where
  "rev_steps n [] = []"
| "rev_steps n (x # xs) = rev_steps (snd (snd x)) xs @ [((fst (fst x), \<not> snd (fst x)), fst (snd x), n)]"

lemma step_in_rev: "step_in E keep n x \<longleftrightarrow> step_in E keep (snd (snd x)) ((fst (fst x), \<not> snd (fst x)), fst (snd x), n)"
  by (auto simp: step_in_def crosses_def)

lemma step_walk_rev: "step_walk E keep n xs m \<Longrightarrow> step_walk E keep m (rev_steps n xs) n"
proof (induction xs arbitrary: n)
  case (Cons x xs)
  then have "step_walk E keep m (rev_steps (snd (snd x)) xs) (snd (snd x))" by simp
  moreover have "step_in E keep (snd (snd x)) ((fst (fst x), \<not> snd (fst x)), fst (snd x), n)"
    using Cons.prems step_in_rev [of E keep n x] by simp
  ultimately show ?case by (auto simp: step_walk_snoc)
qed simp

lemma map_fst_rev_steps: "map fst (rev_steps n xs) = rev (map (\<lambda>l. (fst l, \<not> snd l)) (map fst xs))"
  by (induction xs arbitrary: n) simp_all

lemma step_nodes_rev: "m # step_nodes (rev_steps n xs) = rev (n # step_nodes xs)" if "step_walk E keep n xs m"
  using that
proof (induction xs arbitrary: n)
  case (Cons x xs)
  then have "m # step_nodes (rev_steps (snd (snd x)) xs) = rev (snd (snd x) # step_nodes xs)" by simp
  then show ?case by (simp add: step_nodes_def)
qed (simp add: step_nodes_def)

lemma step_edges_rev: "step_edges (rev_steps n xs) = rev (step_edges xs)"
  by (induction xs arbitrary: n) (simp_all add: step_edges_def)

lemma trail_steps_rev: "trail_steps (rev_steps n xs) = trail_steps xs"
  unfolding trail_steps_def step_edges_rev by simp

lemma simple_steps_rev:
  assumes w: "step_walk E keep n xs m" and s: "simple_steps c n xs"
  shows "simple_steps c m (rev_steps n xs)"
proof -
  note N = step_nodes_rev [OF w]
  have ne: "rev_steps n xs = [] \<longleftrightarrow> xs = []" by (cases xs) simp_all
  consider "distinct (n # step_nodes xs)" | "c" "xs \<noteq> []" "last (step_nodes xs) = n" "distinct (step_nodes xs)"
    using s by (auto simp: simple_steps_def)
  then show ?thesis
  proof cases
    case 1
    then have "distinct (m # step_nodes (rev_steps n xs))" unfolding N by (simp only: distinct_rev)
    then show ?thesis by (simp add: simple_steps_def)
  next
    case 2
    then have ne': "step_nodes xs \<noteq> []" by (simp add: step_nodes_def)
    then obtain ns where ns: "step_nodes xs = ns @ [n]" using 2(3) by (metis append_butlast_last_id)
    have "m # step_nodes (rev_steps n xs) = n # rev ns @ [n]" using N ns by simp
    then have "m = n" "step_nodes (rev_steps n xs) = rev ns @ [n]" by simp_all
    then show ?thesis using 2 ns ne by (simp add: simple_steps_def)
  qed
qed

lemma semantic_good_rev:
  "step_walk E keep n xs m \<Longrightarrow> semantic_good sem n xs \<Longrightarrow> semantic_good sem m (rev_steps n xs)"
  by (cases sem) (simp_all add: semantic_good_def simple_steps_rev trail_steps_rev)

text \<open>Two nodes are connected by a path of the semantics that matches the expression.\<close>

definition connects :: "quad set \<Rightarrow> (string \<Rightarrow> object_id) \<Rightarrow> path_semantic \<Rightarrow> unit path \<Rightarrow> object_id \<Rightarrow> object_id \<Rightarrow> bool" where
  "connects E f sem p n m \<longleftrightarrow> (\<exists>xs. step_walk E (trails_semantic sem) n xs m \<and>
     map fst xs \<in> map (read_label f) ` path_lang p \<and> semantic_good sem n xs)"

lemma read_rev_word: "map (read_label f) (rev_word w) = rev (map (\<lambda>l. (fst l, \<not> snd l)) (map (read_label f) w))"
  by (induction w) (auto simp: rev_word_def read_label_def)

lemma connects_rev: "connects E f sem p n m \<Longrightarrow> connects E f sem (invert p) m n"
proof -
  assume "connects E f sem p n m"
  then obtain xs w where xs: "step_walk E (trails_semantic sem) n xs m" "w \<in> path_lang p" "map fst xs = map (read_label f) w"
    "semantic_good sem n xs" by (auto simp: connects_def)
  have "map fst (rev_steps n xs) = map (read_label f) (rev_word w)" unfolding map_fst_rev_steps xs(3) read_rev_word ..
  moreover have "rev_word w \<in> path_lang (invert p)" using xs(2) by (simp add: invert_lang)
  ultimately show ?thesis
    unfolding connects_def using step_walk_rev [OF xs(1)] semantic_good_rev [OF xs(1,4)]
    by (intro exI [of _ "rev_steps n xs"] conjI) auto
qed

lemma path_lang_invert_invert: "path_lang (invert (invert p)) = path_lang p"
  by (simp add: invert_lang image_image)

lemma connects_invert: "connects E f sem (invert p) m n \<longleftrightarrow> connects E f sem p n m"
proof
  assume "connects E f sem (invert p) m n"
  then have "connects E f sem (invert (invert p)) n m" by (rule connects_rev)
  then show "connects E f sem p n m" by (simp add: connects_def path_lang_invert_invert)
qed (rule connects_rev)

lemma reached_by_connects:
  "dfa_lang (automaton Q) = map (read_label f) ` path_lang p \<Longrightarrow> m \<in> reached_by E sem Q \<longleftrightarrow> connects E f sem p (start_object_id Q) m"
  by (auto simp: reached_by_def good_answers_def connects_def)

section \<open>The query of a plan\<close>

lemma plan_runnable:
  assumes "store_ok S" "cache_ok (iter_provider it) S" "node_in_store S (resolve b (iter_start it))"
    and "plain p" "get_rpq_automaton f p = Inr (Some (iter_automaton it))"
    and prov: "iter_provider it = get_provider M sem (iter_automaton it)" "trails_semantic sem \<longrightarrow> has_edges (index_type_of M sem)"
  shows "runnable (quads S) (iter_query S b it) sem"
    "m \<in> reached_by (quads S) sem (iter_query S b it) \<longleftrightarrow> connects (quads S) f sem p (resolve b (iter_start it)) m"
proof -
  have D: "dfa_ok (iter_automaton it)" "dfa_lang (iter_automaton it) = map (read_label f) ` path_lang p"
    using get_rpq_automaton_exact [OF assms(4), of f] assms(5) by auto
  have "edge_flag (iter_provider it) d t" if "trails_semantic sem" for d t
    using prov that by (simp add: edge_flag_def get_provider_assigned)
  then show "runnable (quads S) (iter_query S b it) sem"
    using D(1) assms(3) provider_of_graph [OF assms(1,2)] provider_of_edges [OF assms(1,2)]
    by (simp add: runnable_def iter_query_def)
  show "m \<in> reached_by (quads S) sem (iter_query S b it) \<longleftrightarrow> connects (quads S) f sem p (resolve b (iter_start it)) m"
    using reached_by_connects [of "iter_query S b it" f p m "quads S" sem] D(2) by (simp add: iter_query_def)
qed

text \<open>The values a plan may bind its unbound end to (or, with both ends bound, confirm).\<close>

definition plan_answers :: "quad set \<Rightarrow> (string \<Rightarrow> object_id) \<Rightarrow> (nat \<Rightarrow> object_id) \<Rightarrow> path_plan \<Rightarrow> object_id set" where
  "plan_answers E f b P =
     (if from_assigned P
      then {m. (to_assigned P \<longrightarrow> m = resolve b (plan_to P)) \<and>
               connects E f (path_semantic P) (plan_path P) (resolve b (plan_from P)) m}
      else {m. connects E f (path_semantic P) (plan_path P) m (resolve b (plan_to P))})"

lemma plan_run:
  assumes S: "store_ok S" "cache_ok (iter_provider it) S" "node_in_store S (resolve b (iter_start it))"
    and it: "get_binding_id_iter f M P = Inr it" "from_assigned P \<or> to_assigned P"
    and P: "plain (plan_path P)" "enumerated (path_semantic P)"
    and M: "trails_semantic (path_semantic P) \<longrightarrow> has_edges (index_type_of M (path_semantic P))"
    and mode: "from_assigned P \<and> to_assigned P \<longrightarrow>
      path_mode M = BFS \<or> path_semantic P = ANY \<or> trails_semantic (path_semantic P)"
  shows "\<exists>ns. class_run (iter_class it) (iter_query S b it) ns \<and> (one_path (path_semantic P) \<longrightarrow> distinct ns) \<and>
    set ns = plan_answers (quads S) f b P"
  using it
proof (rule get_binding_id_iter_shape)
  let ?Q = "iter_query S b it"
  have Q: "automaton ?Q = iter_automaton it" "end_object_id ?Q = resolve b (iter_end it)" by (simp_all add: iter_query_def)
  {
    assume c: "from_assigned P" "to_assigned P" "iter_class it = check_class M (path_semantic P)"
      "iter_start it = plan_from P" "iter_end it = plan_to P" "get_rpq_automaton f (plan_path P) = Inr (Some (iter_automaton it))"
      "iter_provider it = get_provider M (path_semantic P) (iter_automaton it)"
    note X = plan_runnable [OF S P(1) c(6,7) M]
    from check_run [OF X(1) P(2) mode [rule_format, OF conjI [OF c(1,2)]]] show ?thesis
      unfolding plan_answers_def Q X(2) using c by simp
  next
    assume c: "from_assigned P" "\<not> to_assigned P" "iter_class it = enum_of M (path_semantic P) (iter_automaton it)"
      "iter_start it = plan_from P" "iter_end it = plan_to P" "get_rpq_automaton f (plan_path P) = Inr (Some (iter_automaton it))"
      "iter_provider it = get_provider M (path_semantic P) (iter_automaton it)"
    note X = plan_runnable [OF S P(1) c(6,7) M]
    have "reached_by (quads S) (path_semantic P) ?Q = plan_answers (quads S) f b P"
      using X(2) c by (auto simp: plan_answers_def)
    with enum_run [OF X(1) P(2), of M] show ?thesis unfolding Q using c by simp
  next
    assume c: "\<not> from_assigned P" "to_assigned P" "iter_class it = enum_of M (path_semantic P) (iter_automaton it)"
      "iter_start it = plan_to P" "iter_end it = plan_from P"
      "get_rpq_automaton f (invert (plan_path P)) = Inr (Some (iter_automaton it))"
      "iter_provider it = get_provider M (path_semantic P) (iter_automaton it)"
    note X = plan_runnable [OF S plain_invert [OF P(1)] c(6,7) M]
    have "reached_by (quads S) (path_semantic P) ?Q = plan_answers (quads S) f b P"
      using X(2) c by (auto simp: plan_answers_def connects_invert)
    with enum_run [OF X(1) P(2), of M] show ?thesis unfolding Q using c by simp
  }
qed

end
