(* ===== verification/AllCount.thy ===== *)
theory AllCount
  imports AnyCheck
begin

text \<open>
  \<open>Paths::AllShortestCount\<close>: \<open>BFSEnum<MULTIPLE_FINAL>\<close> returns, for every reached node, the number of
  shortest paths to it, \<open>BFSCheck\<close> the number of shortest paths between two nodes. A call of \<open>next\<close>
  answers with the end node and the object that it stores for the path variable. An access through
  an iterator that is \<open>end()\<close> is undefined behaviour: the call then has the value \<open>None\<close>.
\<close>

section \<open>Search states\<close>

datatype count_state = CountState (cs_node: object_id) (cs_automaton: nat) (cs_distance: "32 word") (cs_count: "64 word")

definition cs_key :: "count_state \<Rightarrow> key" where
  "cs_key s = (cs_automaton s, cs_node s)"

text \<open>\<open>visited\<close> has pointer stability, and its states are found by automaton state and node only; the
  count is \<open>mutable\<close>. A pointer to a state is the key of the state.\<close>

definition cs_find :: "key \<Rightarrow> count_state list \<Rightarrow> count_state option" where
  "cs_find x V = find (\<lambda>s. cs_key s = x) V"

definition cs_emplace :: "count_state \<Rightarrow> count_state list \<Rightarrow> count_state list" where
  "cs_emplace s V = (if cs_find (cs_key s) V = None then V @ [s] else V)"

definition cs_add :: "key \<Rightarrow> 64 word \<Rightarrow> count_state list \<Rightarrow> count_state list" where
  "cs_add x c V =
     map (\<lambda>s. if cs_key s = x then CountState (cs_node s) (cs_automaton s) (cs_distance s) (cs_count s + c) else s) V"

definition cs_start :: "path_query \<Rightarrow> count_state" where
  "cs_start Q = CountState (start_object_id Q) (start_state (automaton Q)) 0 1"

text \<open>The common part of both \<open>explore_neighbors\<close>: a neighbour is new, reached again at the same
  distance, or was reached before at another one.\<close>

datatype arrival = New | Again | Longer

definition count_arrive :: "count_state \<Rightarrow> dfa_transition \<Rightarrow> entry \<Rightarrow> count_state list \<Rightarrow> count_state list \<times> arrival" where
  "count_arrive current_state t x V =
     (let next_state = CountState (fst x) (dfa_to t) (cs_distance current_state + 1) (cs_count current_state) in
      case cs_find (cs_key next_state) V of
        Some s \<Rightarrow>
          if cs_distance s = cs_distance next_state
          then (cs_add (cs_key next_state) (cs_count current_state) V, Again) else (V, Longer)
      | None \<Rightarrow> (V @ [next_state], New))"

definition mask_positive_int :: object_id where
  "mask_positive_int = 0x0D00000000000000"

definition count_object :: "64 word \<Rightarrow> object_id" where
  "count_object c = or mask_positive_int c"

section \<open>BFSEnum\<close>

record result_info =
  info_count :: "64 word"
  info_distance :: "64 word"

record count_enum =
  ce_visited :: "count_state list"
  ce_open :: "key list"
  ce_first :: bool
  ce_reached :: "object_id \<rightharpoonup> result_info"
  ce_found :: "64 word"
  ce_searches :: nat

definition count_enum_new :: count_enum where
  "count_enum_new = \<lparr>ce_visited = [], ce_open = [], ce_first = True, ce_reached = Map.empty, ce_found = 0, ce_searches = 0\<rparr>"

definition count_enum_begin :: "path_query \<Rightarrow> count_enum \<Rightarrow> count_enum" where
  "count_enum_begin Q B =
     B\<lparr>ce_visited := cs_emplace (cs_start Q) (ce_visited B), ce_open := ce_open B @ [start_key Q]\<rparr>"

definition count_enum_reset :: "bool \<Rightarrow> path_query \<Rightarrow> count_enum \<Rightarrow> count_enum" where
  "count_enum_reset multiple_final Q B =
     B\<lparr>ce_visited := cs_emplace (cs_start Q) [], ce_open := [start_key Q], ce_first := True,
       ce_reached := (if multiple_final then Map.empty else ce_reached B)\<rparr>"

text \<open>The body of the loop over the neighbours of the state that \<open>p\<close> points to; the result \<open>Some ()\<close> is an
  access to an entry of \<open>reached_final\<close> that does not exist.\<close>

definition info_add :: "64 word \<Rightarrow> 64 word \<Rightarrow> result_info \<Rightarrow> result_info" where
  "info_add d c i = (if info_distance i = d then i\<lparr>info_count := info_count i + c\<rparr> else i)"

definition count_enum_visit ::
  "bool \<Rightarrow> path_query \<Rightarrow> key \<Rightarrow> dfa_transition \<Rightarrow> entry \<Rightarrow> count_enum \<Rightarrow> count_enum \<times> unit option" where
  "count_enum_visit multiple_final Q p t x B =
     (let current_state = the (cs_find p (ce_visited B));
          distance = ucast (cs_distance current_state + 1); count = cs_count current_state;
          solution = multiple_final \<and> is_final Q (dfa_to t);
          R = ce_reached B in
      case count_arrive current_state t x (ce_visited B) of
        (V, Again) \<Rightarrow>
          (let B1 = B\<lparr>ce_visited := V\<rparr> in
           if solution then
             case R (fst x) of
               None \<Rightarrow> (B1, Some ())
             | Some i \<Rightarrow> (B1\<lparr>ce_reached := R(fst x \<mapsto> info_add distance count i)\<rparr>, None)
           else (B1, None))
      | (V, New) \<Rightarrow>
          (let B1 = B\<lparr>ce_visited := V, ce_open := ce_open B @ [(dfa_to t, fst x)]\<rparr> in
           if solution then
             case R (fst x) of
               None \<Rightarrow> (B1\<lparr>ce_reached := R(fst x \<mapsto> \<lparr>info_count = count, info_distance = distance\<rparr>)\<rparr>, None)
             | Some i \<Rightarrow> (B1\<lparr>ce_reached := R(fst x \<mapsto> info_add distance count i)\<rparr>, None)
           else (B1, None))
      | (V, Longer) \<Rightarrow> (B, None))"

partial_function (option) count_enum_loop ::
  "bool \<Rightarrow> path_query \<Rightarrow> count_enum \<Rightarrow> (count_enum \<times> (object_id \<times> object_id) option) option" where
  "count_enum_loop multiple_final Q B =
     (case ce_open B of
        [] \<Rightarrow> Some (B, None)
      | p # _ \<Rightarrow>
          (case for_transitions (provider Q) (snd p) (count_enum_visit multiple_final Q p)
                  (transitions_from Q (fst p)) (ce_searches B) B of
             (k, B', Some u) \<Rightarrow> None
           | (k, B', None) \<Rightarrow>
               (let B1 = B'\<lparr>ce_searches := k\<rparr>; current_state = the (cs_find p (ce_visited B1)) in
                if is_final Q (cs_automaton current_state) then
                  if multiple_final then
                    (case ce_reached B1 (cs_node current_state) of
                       Some i \<Rightarrow> Some (B1\<lparr>ce_open := tl (ce_open B1), ce_found := ce_found B1 + info_count i,
                           ce_reached := (ce_reached B1)(cs_node current_state := None)\<rparr>,
                         Some (cs_node current_state, count_object (info_count i)))
                     | None \<Rightarrow> count_enum_loop multiple_final Q (B1\<lparr>ce_open := tl (ce_open B1)\<rparr>))
                  else
                    Some (B1\<lparr>ce_open := tl (ce_open B1), ce_found := ce_found B1 + cs_count current_state\<rparr>,
                      Some (cs_node current_state, count_object (cs_count current_state)))
                else count_enum_loop multiple_final Q (B1\<lparr>ce_open := tl (ce_open B1)\<rparr>))))"

declare count_enum_loop.simps [code]

definition count_enum_next :: "bool \<Rightarrow> path_query \<Rightarrow> count_enum \<Rightarrow> (count_enum \<times> (object_id \<times> object_id) option) option" where
  "count_enum_next multiple_final Q B =
     (if ce_first B then
        (let B1 = B\<lparr>ce_first := False\<rparr>; current = hd (ce_open B1) in
         if \<not> node_exists Q (snd current) then Some (B1\<lparr>ce_open := tl (ce_open B1)\<rparr>, None)
         else if multiple_final \<and> is_final Q (start_state (automaton Q)) then
           count_enum_loop multiple_final Q
             (if ce_reached B1 (snd current) = None
              then B1\<lparr>ce_reached := (ce_reached B1)(snd current \<mapsto> \<lparr>info_count = 1, info_distance = 0\<rparr>)\<rparr> else B1)
         else count_enum_loop multiple_final Q B1)
      else count_enum_loop multiple_final Q B)"

section \<open>BFSCheck\<close>

record count_check =
  cc_visited :: "count_state list"
  cc_open :: "key list"
  cc_first :: bool
  cc_end :: object_id
  optimal_distance :: "64 word"
  path_count :: "64 word"
  cc_found :: "64 word"
  cc_searches :: nat

definition count_check_new :: count_check where
  "count_check_new = \<lparr>cc_visited = [], cc_open = [], cc_first = True, cc_end = 0, optimal_distance = -1, path_count = 0,
     cc_found = 0, cc_searches = 0\<rparr>"

definition count_check_begin :: "path_query \<Rightarrow> count_check \<Rightarrow> count_check" where
  "count_check_begin Q B =
     B\<lparr>cc_visited := cs_emplace (cs_start Q) (cc_visited B), cc_open := cc_open B @ [start_key Q], cc_end := end_object_id Q\<rparr>"

definition count_check_reset :: "path_query \<Rightarrow> count_check \<Rightarrow> count_check" where
  "count_check_reset Q B =
     B\<lparr>cc_visited := cs_emplace (cs_start Q) [], cc_open := [start_key Q], cc_first := True,
       optimal_distance := -1, path_count := 0, cc_end := end_object_id Q\<rparr>"

definition count_check_visit ::
  "path_query \<Rightarrow> key \<Rightarrow> dfa_transition \<Rightarrow> entry \<Rightarrow> count_check \<Rightarrow> count_check \<times> unit option" where
  "count_check_visit Q p t x B =
     (let current_state = the (cs_find p (cc_visited B));
          distance = ucast (cs_distance current_state + 1); count = cs_count current_state;
          solution = is_final Q (dfa_to t) \<and> fst x = cc_end B in
      case count_arrive current_state t x (cc_visited B) of
        (V, Again) \<Rightarrow>
          (let B1 = B\<lparr>cc_visited := V\<rparr> in
           (if solution \<and> optimal_distance B1 = distance then B1\<lparr>path_count := path_count B1 + count\<rparr> else B1, None))
      | (V, New) \<Rightarrow>
          (let B1 = B\<lparr>cc_visited := V, cc_open := cc_open B @ [(dfa_to t, fst x)]\<rparr> in
           (if solution then
              if optimal_distance B1 \<noteq> -1 then
                if optimal_distance B1 = distance then B1\<lparr>path_count := path_count B1 + count\<rparr> else B1
              else B1\<lparr>optimal_distance := distance, path_count := count\<rparr>
            else B1, None))
      | (V, Longer) \<Rightarrow> (B, None))"

partial_function (option) count_check_loop :: "path_query \<Rightarrow> count_check \<Rightarrow> (count_check \<times> object_id option) option" where
  "count_check_loop Q B =
     (case cc_open B of
        [] \<Rightarrow> Some (B, None)
      | p # _ \<Rightarrow>
          (case for_transitions (provider Q) (snd p) (count_check_visit Q p) (transitions_from Q (fst p)) (cc_searches B) B of
             (k, B', r) \<Rightarrow>
               (let B1 = B'\<lparr>cc_searches := k\<rparr>; current_state = the (cs_find p (cc_visited B1)) in
                if is_final Q (cs_automaton current_state) \<and> cs_node current_state = cc_end B1
                then Some (B1\<lparr>cc_open := [], cc_found := path_count B1\<rparr>, Some (count_object (path_count B1)))
                else count_check_loop Q (B1\<lparr>cc_open := tl (cc_open B1)\<rparr>))))"

declare count_check_loop.simps [code]

definition count_check_next :: "path_query \<Rightarrow> count_check \<Rightarrow> (count_check \<times> object_id option) option" where
  "count_check_next Q B =
     (if cc_first B then
        (let B1 = B\<lparr>cc_first := False\<rparr>; current = the (cs_find (hd (cc_open B1)) (cc_visited B1)) in
         if \<not> node_exists Q (cs_node current) then Some (B1\<lparr>cc_open := tl (cc_open B1)\<rparr>, None)
         else if is_final Q (start_state (automaton Q)) \<and> cs_node current = cc_end B1 then
           (let c = path_count B1 + cs_count current in
            Some (B1\<lparr>path_count := c, cc_open := tl (cc_open B1), cc_found := c\<rparr>, Some (count_object c)))
         else count_check_loop Q B1)
      else count_check_loop Q B)"

end
