(* ===== verification/CountWalks.thy ===== *)
theory CountWalks
  imports PathTree AnyCheck RpqCompile
begin

text \<open>
  How many walks of a given length there are: in the product of graph and automaton, as sequences of
  arrows, and in the graph, as sequences of edges whose labels the automaton reads. With a deterministic
  automaton and a provider that lists every edge once, the two numbers agree.
\<close>

section \<open>Walks of the product\<close>

definition walk_end :: "path_query \<Rightarrow> arrow list \<Rightarrow> key" where
  "walk_end Q w = (if w = [] then start_key Q else arrow_key (last w))"

lemma walk_end_simps [simp]: "walk_end Q [] = start_key Q" "walk_end Q (w @ [a]) = arrow_key a"
  by (simp_all add: walk_end_def)

fun arrow_walks :: "path_query \<Rightarrow> nat \<Rightarrow> arrow list list" where
  "arrow_walks Q 0 = [[]]"
| "arrow_walks Q (Suc d) = concat (map (\<lambda>w. map (\<lambda>a. w @ [a]) (arrows_from Q (walk_end Q w))) (arrow_walks Q d))"

definition arrivals :: "arrow list \<Rightarrow> key \<Rightarrow> nat" where
  "arrivals xs y = length (filter (\<lambda>a. arrow_key a = y) xs)"

lemma arrivals_simps [simp]:
  "arrivals [] y = 0" "arrivals (xs @ ys) y = arrivals xs y + arrivals ys y"
  "arrivals (a # xs) y = (if arrow_key a = y then 1 else 0) + arrivals xs y"
  by (simp_all add: arrivals_def)

lemma arrivals_zero: "arrivals xs y = 0 \<longleftrightarrow> (\<forall>a \<in> set xs. arrow_key a \<noteq> y)"
  by (induction xs) auto

definition walks_to :: "path_query \<Rightarrow> nat \<Rightarrow> key \<Rightarrow> nat" where
  "walks_to Q d y = length (filter (\<lambda>w. walk_end Q w = y) (arrow_walks Q d))"

lemma walk_ends: "walk_end Q ` set (arrow_walks Q d) = {y. (start_key Q, y) \<in> product_step Q ^^ d}"
proof (induction d)
  case (Suc d)
  have "walk_end Q ` set (arrow_walks Q (Suc d)) = (\<Union>x \<in> walk_end Q ` set (arrow_walks Q d). arrow_key ` set (arrows_from Q x))"
    by (auto simp: image_UN image_image)
  then show ?case unfolding Suc by (auto simp: product_step_def relcomp_unfold)
qed simp

lemma sum_by_value:
  assumes "finite S" "e ` set ws \<subseteq> S"
  shows "sum_list (map (\<lambda>w. g (e w)) ws) = (\<Sum>x \<in> S. length (filter (\<lambda>w. e w = x) ws) * (g x :: nat))"
  using assms(2)
proof (induction ws)
  case (Cons w ws)
  have "(\<Sum>x \<in> S. length (filter (\<lambda>w. e w = x) (w # ws)) * g x) =
      (\<Sum>x \<in> S. (if e w = x then g x else 0) + length (filter (\<lambda>w. e w = x) ws) * g x)"
    by (rule sum.cong) (auto simp: algebra_simps)
  also have "\<dots> = g (e w) + sum_list (map (\<lambda>w. g (e w)) ws)"
    using Cons assms(1) by (simp add: sum.distrib)
  finally show ?case by simp
qed simp

lemma walks_to_0: "walks_to Q 0 y = (if y = start_key Q then 1 else 0)"
  by (simp add: walks_to_def)

lemma walks_to_Suc:
  assumes "finite S" "{x. (start_key Q, x) \<in> product_step Q ^^ d} \<subseteq> S"
  shows "walks_to Q (Suc d) y = (\<Sum>x \<in> S. walks_to Q d x * arrivals (arrows_from Q x) y)"
proof -
  have "walks_to Q (Suc d) y = sum_list (map (\<lambda>w. arrivals (arrows_from Q (walk_end Q w)) y) (arrow_walks Q d))"
    by (simp add: walks_to_def arrivals_def length_concat filter_concat comp_def filter_map)
  also have "\<dots> = (\<Sum>x \<in> S. walks_to Q d x * arrivals (arrows_from Q x) y)"
    unfolding walks_to_def using assms(2) by (intro sum_by_value [OF assms(1)]) (simp only: walk_ends)
  finally show ?thesis .
qed

lemma walks_to_zero: "walks_to Q d y = 0 \<longleftrightarrow> (start_key Q, y) \<notin> product_step Q ^^ d"
proof -
  have "walks_to Q d y = 0 \<longleftrightarrow> y \<notin> walk_end Q ` set (arrow_walks Q d)"
    by (auto simp: walks_to_def filter_empty_conv)
  then show ?thesis unfolding walk_ends by simp
qed

lemma steps_all_keys: "{x. (start_key Q, x) \<in> product_step Q ^^ d} \<subseteq> all_keys Q"
proof
  fix x assume x: "x \<in> {x. (start_key Q, x) \<in> product_step Q ^^ d}"
  show "x \<in> all_keys Q"
  proof (cases d)
    case 0
    then show ?thesis using x by (simp add: all_keys_def)
  next
    case (Suc d')
    then obtain a u where "a \<in> set (arrows_from Q u)" "x = arrow_key a" using x by (auto simp: product_step_def)
    then show ?thesis using transitions_from_all [OF arrows_from_transition] by (metis arrow_key_def)
  qed
qed

text \<open>The accepted walks to a node, and the length of the shortest ones.\<close>

definition accepted_walks :: "path_query \<Rightarrow> nat \<Rightarrow> object_id \<Rightarrow> nat" where
  "accepted_walks Q d n = (\<Sum>q \<in> {q \<in> state_space Q. is_final Q q}. walks_to Q d (q, n))"

definition first_accepted :: "path_query \<Rightarrow> object_id \<Rightarrow> nat \<Rightarrow> bool" where
  "first_accepted Q n d \<longleftrightarrow> accepted_walks Q d n \<noteq> 0 \<and> (\<forall>c < d. accepted_walks Q c n = 0)"

lemma finite_state_space: "finite (state_space Q)"
  by (simp add: state_space_def)

section \<open>Walks of the graph\<close>

definition answer_walks :: "quad set \<Rightarrow> path_query \<Rightarrow> nat \<Rightarrow> key \<Rightarrow> step list set" where
  "answer_walks E Q d y = {xs. length xs = d \<and> step_walk E True (start_object_id Q) xs (snd y) \<and>
     dfa_run (automaton Q) (start_state (automaton Q)) (map fst xs) (fst y)}"

definition key_steps :: "quad set \<Rightarrow> dfa_transition list \<Rightarrow> object_id \<Rightarrow> key \<Rightarrow> step set" where
  "key_steps E ts n y = {z. snd (snd z) = snd y \<and> step_in E True n z \<and>
     (\<exists>t \<in> set ts. dfa_to t = fst y \<and> (type_id t, dfa_inverse t) = fst z)}"

lemma dfa_run_functional:
  "deterministic D \<Longrightarrow> dfa_run D p w q \<Longrightarrow> dfa_run D p w r \<Longrightarrow> q = r"
proof (induction D p w q rule: dfa_run.induct)
  case (2 D p c d w q)
  obtain t where t: "t \<in> set (slot (from_to_connections D) p)" "(type_id t, dfa_inverse t) = (c, d)" "dfa_run D (dfa_to t) w q"
    using "2.prems"(2) by auto
  obtain u where u: "u \<in> set (slot (from_to_connections D) p)" "(type_id u, dfa_inverse u) = (c, d)" "dfa_run D (dfa_to u) w r"
    using "2.prems"(3) by auto
  have "t = u" using "2.prems"(1) t(1,2) u(1,2) by (force simp: deterministic_def distinct_map inj_on_def)
  then show ?case using 2 t u by metis
qed simp

context counted_provider begin

lemma finite_crossing: "finite {e. crosses E n l m e}"
proof (rule finite_subset)
  show "{e. crosses E n l m e} \<subseteq> (snd \<circ> snd \<circ> snd) ` E" by (force simp: crosses_def split: if_splits)
qed (simp add: finite_edges)

lemma card_key_steps:
  assumes "distinct (map (\<lambda>t. (type_id t, dfa_inverse t)) ts)"
  shows "finite (key_steps E ts n y) \<and> card (key_steps E ts n y) = arrivals (arrows prov ts n) y"
  using assms
proof (induction ts)
  case Nil
  then show ?case by (simp add: key_steps_def arrows_def)
next
  case (Cons t ts)
  let ?new = "if dfa_to t = fst y then (\<lambda>e. ((type_id t, dfa_inverse t), Some e, snd y)) `
      {e. crosses E n (type_id t, dfa_inverse t) (snd y) e} else {}"
  have split: "key_steps E (t # ts) n y = ?new \<union> key_steps E ts n y"
    by (auto simp: key_steps_def step_in_def image_iff prod_eq_iff)
  have "(type_id t, dfa_inverse t) \<noteq> fst z" if z: "z \<in> key_steps E ts n y" for z
  proof -
    obtain u where u: "u \<in> set ts" "(type_id u, dfa_inverse u) = fst z"
      using z unfolding key_steps_def by blast
    have "fst z \<in> (\<lambda>t. (type_id t, dfa_inverse t)) ` set ts" by (rule image_eqI [where x = u]) (simp_all add: u)
    moreover have "(type_id t, dfa_inverse t) \<notin> (\<lambda>t. (type_id t, dfa_inverse t)) ` set ts" using Cons.prems by simp
    ultimately show ?thesis by force
  qed
  moreover have "(type_id t, dfa_inverse t) = fst z" if "z \<in> ?new" for z
    using that by (simp split: if_splits) force
  ultimately have disj: "?new \<inter> key_steps E ts n y = {}" unfolding disjoint_iff by blast
  have fin: "finite ?new" by (simp add: finite_crossing)
  have "card ?new = arrivals (arrows_of prov n t) y"
  proof -
    have "arrivals (arrows_of prov n t) y =
        (if dfa_to t = fst y then length (filter (\<lambda>x. fst x = snd y) (iter_rest (prov (type_id t) (dfa_inverse t) n))) else 0)"
      by (cases y) (simp add: arrivals_def arrows_of_def transition_iter_def filter_map comp_def arrow_key_def)
    then show ?thesis by (simp add: entry_count card_image inj_on_def)
  qed
  then show ?case
    using Cons card_Un_disjoint [OF fin _ disj] fin unfolding split by (simp add: arrows_def)
qed

lemma answer_walks_Suc:
  "answer_walks E Q (Suc d) y = (\<Union>x \<in> all_keys Q. (\<lambda>(xs, z). xs @ [z]) `
     (answer_walks E Q d x \<times> key_steps E (transitions_from Q (fst x)) (snd x) y))" (is "?L = ?R")
proof
  show "?R \<subseteq> ?L"
    unfolding answer_walks_def key_steps_def
    by (auto simp: step_walk_snoc dfa_run_snoc transitions_from_def intro!: exI bexI)
  show "?L \<subseteq> ?R"
  proof
    fix ys assume y: "ys \<in> ?L"
    then have "ys \<noteq> []" by (auto simp: answer_walks_def)
    then obtain xs z where ys: "ys = xs @ [z]" by (metis rev_exhaust)
    obtain k q t where k: "length xs = d" "step_walk E True (start_object_id Q) xs k" "step_in E True k z" "snd y = snd (snd z)"
      "dfa_run (automaton Q) (start_state (automaton Q)) (map fst xs) q" "t \<in> set (transitions_from Q q)"
      "dfa_to t = fst y" "type_id t = fst (fst z)" "dfa_inverse t = snd (fst z)"
      using y unfolding ys answer_walks_def
      by (auto simp: step_walk_snoc dfa_run_snoc transitions_from_def simp del: split_paired_Ex)
    then have "(type_id t, dfa_inverse t) = fst z" by simp
    have "(q, k) \<in> all_keys Q"
    proof (cases xs rule: rev_cases)
      case Nil
      then show ?thesis using k(2,5) by (simp add: all_keys_def start_key_def)
    next
      case (snoc us u)
      then obtain s t' where "t' \<in> set (transitions_from Q s)" "q = dfa_to t'"
        using k(5) by (auto simp: dfa_run_snoc transitions_from_def)
      then show ?thesis using transitions_from_all by metis
    qed
    moreover have "xs \<in> answer_walks E Q d (q, k)" using k by (simp add: answer_walks_def)
    moreover have "z \<in> key_steps E (transitions_from Q (fst (q, k))) (snd (q, k)) y"
      using k(3,4,6,7) \<open>(type_id t, dfa_inverse t) = fst z\<close> by (auto simp: key_steps_def)
    ultimately show "ys \<in> ?R" unfolding ys by force
  qed
qed

lemma card_answer_walks:
  assumes Q: "provider Q = prov" "deterministic (automaton Q)"
  shows "finite (answer_walks E Q d y) \<and> card (answer_walks E Q d y) = walks_to Q d y"
proof (induction d arbitrary: y)
  case 0
  have "answer_walks E Q 0 y = (if y = start_key Q then {[]} else {})"
    by (cases y) (auto simp: answer_walks_def start_key_def)
  then show ?case by (simp add: walks_to_0)
next
  case (Suc d)
  let ?K = "\<lambda>x. key_steps E (transitions_from Q (fst x)) (snd x) y"
  let ?W = "\<lambda>x. (\<lambda>(xs, z). xs @ [z]) ` (answer_walks E Q d x \<times> ?K x)"
  have K: "finite (?K x) \<and> card (?K x) = arrivals (arrows_from Q x) y" for x
    using card_key_steps [of "transitions_from Q (fst x)" "snd x" y] Q
    by (simp add: arrows_from_def deterministic_def transitions_from_def)
  have inj: "inj_on (\<lambda>(xs, z). xs @ [z]) A" for A :: "(step list \<times> step) set" by (auto simp: inj_on_def)
  have W: "finite (?W x)" "card (?W x) = walks_to Q d x * arrivals (arrows_from Q x) y" for x
    using Suc [of x] K [of x] by (simp_all add: card_image [OF inj] card_cartesian_product)
  have disj: "?W x \<inter> ?W x' = {}" if "x \<noteq> x'" for x x'
  proof -
    have "x = x'" if "xs \<in> answer_walks E Q d x" "xs \<in> answer_walks E Q d x'" for xs
    proof (rule prod_eqI)
      show "fst x = fst x'" using that dfa_run_functional [OF Q(2)] by (auto simp: answer_walks_def)
      show "snd x = snd x'" using that step_walk_unique unfolding answer_walks_def by blast
    qed
    then show ?thesis using \<open>x \<noteq> x'\<close> by auto
  qed
  have "card (\<Union>x \<in> all_keys Q. ?W x) = (\<Sum>x \<in> all_keys Q. card (?W x))"
    by (rule card_UN_disjoint) (use W(1) disj in auto)
  then show ?case
    unfolding answer_walks_Suc walks_to_Suc [OF finite_all_keys steps_all_keys] W(2) using W(1) by simp
qed

end

end
