(* ===== verification/AllCountCorrect.thy ===== *)
theory AllCountCorrect
  imports AllCount CountWalks
begin

text \<open>
  The counts of \<open>AllShortestCount\<close>: the visited states follow those of a search that keeps paths
  (\<open>bfs_ok\<close>), and the count of a state is what its predecessors have added so far. Once the front of the
  queue is as deep as a state, its count is the number of shortest walks to it, modulo \<open>2 ^ 64\<close>.
\<close>

section \<open>Looking states up\<close>

lemma cs_find_nth:
  assumes "distinct (map cs_key V)" "i < length V" "cs_key (V ! i) = x"
  shows "cs_find x V = Some (V ! i)"
  unfolding cs_find_def find_Some_iff
proof (intro exI conjI allI impI)
  fix j assume "j < i"
  then show "cs_key (V ! j) \<noteq> x" using assms by (auto simp: distinct_conv_nth)
qed (use assms in auto)

lemma cs_find_None: "cs_find x V = None \<longleftrightarrow> x \<notin> set (map cs_key V)"
  by (auto simp: cs_find_def find_None_iff)

lemma length_cs_add [simp]: "length (cs_add x c V) = length V"
  by (simp add: cs_add_def)

lemma cs_add_nth:
  "i < length V \<Longrightarrow> cs_key (cs_add x c V ! i) = cs_key (V ! i) \<and> cs_distance (cs_add x c V ! i) = cs_distance (V ! i) \<and>
     cs_count (cs_add x c V ! i) = cs_count (V ! i) + (if cs_key (V ! i) = x then c else 0)"
  by (simp add: cs_add_def cs_key_def)

section \<open>The invariant\<close>

text \<open>The contribution of the state \<open>j\<close> to the state \<open>i\<close> over the arrows \<open>xs\<close>.\<close>

definition adds :: "count_state list \<Rightarrow> search_state list \<Rightarrow> arrow list \<Rightarrow> nat \<Rightarrow> nat \<Rightarrow> 64 word" where
  "adds V W xs j i = (if Suc (depth (W ! j)) = depth (W ! i)
     then cs_count (V ! j) * of_nat (arrivals xs (key_of_state (W ! i))) else 0)"

definition arrows_at :: "path_query \<Rightarrow> search_state list \<Rightarrow> nat \<Rightarrow> arrow list" where
  "arrows_at Q W j = arrows_from Q (key_of_state (W ! j))"

definition count_ok :: "path_query \<Rightarrow> count_state list \<Rightarrow> search_state list \<Rightarrow> nat \<Rightarrow> arrow list \<Rightarrow> bool" where
  "count_ok Q V W k seen \<longleftrightarrow> bfs_ok Q W k (set seen) \<and> map cs_key V = map key_of_state W \<and>
     (\<forall>i < length W. cs_distance (V ! i) = of_nat (depth (W ! i))) \<and>
     (\<forall>i < length W. cs_count (V ! i) = (if i = 0 then 1 else 0) + (\<Sum>j < k. adds V W (arrows_at Q W j) j i) +
        (if k < length W then adds V W seen k i else 0))"

text \<open>No shortest walk is so long that the 32-bit distance wraps around.\<close>

definition short_walks :: "path_query \<Rightarrow> bool" where
  "short_walks Q \<longleftrightarrow> (\<forall>x. (start_key Q, x) \<in> (product_step Q)\<^sup>* \<longrightarrow>
     (\<exists>d < 2 ^ 32 - 1. (start_key Q, x) \<in> product_step Q ^^ d))"

text \<open>It is enough that the search reaches fewer than \<open>2 ^ 16\<close> states.\<close>

lemma short_walksI:
  assumes "start_key Q \<in> set ks" "\<forall>x \<in> set ks. \<forall>a \<in> set (arrows_from Q x). arrow_key a \<in> set ks" "length ks < 2 ^ 16"
  shows "short_walks Q"
  unfolding short_walks_def
proof (intro allI impI)
  fix x assume x: "(start_key Q, x) \<in> (product_step Q)\<^sup>*"
  let ?R = "product_step Q \<inter> set ks \<times> set ks"
  have step: "(y, z) \<in> product_step Q \<Longrightarrow> y \<in> set ks \<Longrightarrow> (y, z) \<in> ?R" for y z
    using assms(2) by (auto simp: product_step_def)
  from x have "(start_key Q, x) \<in> ?R\<^sup>* \<and> x \<in> set ks"
  proof (induction rule: rtrancl_induct)
    case (step y z)
    then have "(y, z) \<in> ?R" using \<open>\<And>y z. (y, z) \<in> product_step Q \<Longrightarrow> y \<in> set ks \<Longrightarrow> (y, z) \<in> ?R\<close> by blast
    with step show ?case by (auto intro: rtrancl_into_rtrancl)
  qed (use assms(1) in simp)
  moreover have fin: "finite ?R" by simp
  ultimately obtain d where d: "d \<le> card ?R" "(start_key Q, x) \<in> ?R ^^ d"
    using rtrancl_finite_eq_relpow [OF fin] by auto
  have "card ?R \<le> card (set ks \<times> set ks)" by (intro card_mono) auto
  also have "\<dots> \<le> length ks * length ks" by (simp add: card_cartesian_product mult_le_mono card_length)
  also have "\<dots> \<le> (2 ^ 16 - 1) * (2 ^ 16 - 1)" using assms(3) by (intro mult_le_mono) auto
  finally have "d < 2 ^ 32 - 1" using d(1) by simp
  moreover have "(start_key Q, x) \<in> product_step Q ^^ d"
    using d(2)
  proof (induction d arbitrary: x)
    case (Suc d)
    then obtain y where y: "(start_key Q, y) \<in> ?R ^^ d" "(y, x) \<in> ?R" by (auto simp del: split_paired_All)
    have "(start_key Q, y) \<in> product_step Q ^^ d" by (rule Suc.IH [OF y(1)])
    moreover have "(y, x) \<in> product_step Q" using y(2) by simp
    ultimately show ?case by (simp only: relpow.simps) (rule relcompI)
  qed simp
  ultimately show "\<exists>d < 2 ^ 32 - 1. (start_key Q, x) \<in> product_step Q ^^ d" by blast
qed

lemma front_depth:
  assumes W: "bfs_ok Q W k seen" and k: "k < length W" and s: "short_walks Q"
  shows "Suc (depth (W ! k)) < 2 ^ 32"
proof -
  have l: "W ! k \<in> set W" using k by simp
  then have "(start_key Q, key_of_state (W ! k)) \<in> (product_step Q)\<^sup>*" using bfs_ok_walk [OF W] relpow_imp_rtrancl by metis
  then obtain d where d: "d < 2 ^ 32 - 1" "(start_key Q, key_of_state (W ! k)) \<in> product_step Q ^^ d"
    using s unfolding short_walks_def by blast
  have "depth (W ! k) \<le> d"
  proof (rule ccontr)
    assume "\<not> depth (W ! k) \<le> d"
    then have "covered W d (key_of_state (W ! k))" using bfs_ok_complete [OF W d(2)] by simp
    then obtain t where "t \<in> set W" "key_of_state t = key_of_state (W ! k)" "depth t \<le> d" by (auto simp: covered_def)
    moreover have "inj_on key_of_state (set W)" using W by (simp add: bfs_ok_def distinct_map)
    ultimately have "t = W ! k" using l by (auto dest: inj_onD)
    then show False using \<open>\<not> depth (W ! k) \<le> d\<close> \<open>depth t \<le> d\<close> by simp
  qed
  then show ?thesis using d(1) by simp
qed

lemma count_ok_lengths: "count_ok Q V W k seen \<Longrightarrow> length V = length W"
  unfolding count_ok_def by (metis length_map)

lemma count_ok_key: "count_ok Q V W k seen \<Longrightarrow> i < length W \<Longrightarrow> cs_key (V ! i) = key_of_state (W ! i)"
proof -
  assume V: "count_ok Q V W k seen" and i: "i < length W"
  then have "map cs_key V ! i = map key_of_state W ! i" by (simp add: count_ok_def)
  then show ?thesis using count_ok_lengths [OF V] i by simp
qed

lemma count_ok_find:
  assumes "count_ok Q V W k seen" "i < length W"
  shows "cs_find (key_of_state (W ! i)) V = Some (V ! i)"
proof (rule cs_find_nth)
  have "distinct (map key_of_state W)" using assms(1) by (simp add: count_ok_def bfs_ok_def)
  then show "distinct (map cs_key V)" using assms(1) by (simp add: count_ok_def)
  show "i < length V" using assms count_ok_lengths by metis
  show "cs_key (V ! i) = key_of_state (W ! i)" by (rule count_ok_key [OF assms])
qed

text \<open>One neighbour of the front.\<close>

lemma count_arrive_again:
  assumes V: "count_ok Q V W k seen" and k: "k < length W" and i: "i < length W" "key_of_state (W ! i) = arrow_key a"
    "depth (W ! i) = Suc (depth (W ! k))"
  shows "count_ok Q (cs_add (arrow_key a) (cs_count (V ! k)) V) W k (seen @ [a])"
proof -
  let ?V = "cs_add (arrow_key a) (cs_count (V ! k)) V"
  note l = count_ok_lengths [OF V]
  have dist: "distinct (map key_of_state W)" using V by (simp add: count_ok_def bfs_ok_def)
  have n: "cs_key (?V ! j) = cs_key (V ! j) \<and> cs_distance (?V ! j) = cs_distance (V ! j) \<and>
      cs_count (?V ! j) = cs_count (V ! j) + (if j = i then cs_count (V ! k) else 0)" if "j < length W" for j
  proof -
    have "cs_key (V ! j) = arrow_key a \<longleftrightarrow> j = i"
      using dist that i count_ok_key [OF V that] by (metis distinct_conv_nth length_map nth_map)
    then show ?thesis using cs_add_nth [of j V "arrow_key a" "cs_count (V ! k)"] that l by simp
  qed
  have "sorted (map depth W)" using V by (simp add: count_ok_def bfs_ok_def)
  then have low: "j \<le> k \<Longrightarrow> j < length W \<and> j \<noteq> i" for j
    using k i sorted_nth_mono [of "map depth W" j k] by force
  have adds: "adds ?V W xs j m = adds V W xs j m" if "j \<le> k" for xs j m
    using n [of j] low [OF that] by (simp add: adds_def)
  have "bfs_ok Q W k (insert a (set seen))"
    using V k i(1) by (intro bfs_ok_old) (simp_all add: count_ok_def flip: i(2))
  moreover have "map cs_key ?V = map key_of_state W"
    using n l count_ok_key [OF V] by (intro nth_equalityI) auto
  moreover have "cs_count (?V ! m) = (if m = 0 then 1 else 0) + (\<Sum>j < k. adds ?V W (arrows_at Q W j) j m) +
        (if k < length W then adds ?V W (seen @ [a]) k m else 0)" if m: "m < length W" for m
  proof -
    have c: "cs_count (V ! m) = (if m = 0 then 1 else 0) + (\<Sum>j < k. adds V W (arrows_at Q W j) j m) + adds V W seen k m"
      using V k m by (simp add: count_ok_def)
    have "arrow_key a = key_of_state (W ! m) \<longleftrightarrow> m = i"
      using dist m i by (metis distinct_conv_nth length_map nth_map)
    then have "adds V W (seen @ [a]) k m = adds V W seen k m + (if m = i then cs_count (V ! k) else 0)"
      using i(3) by (auto simp: adds_def algebra_simps)
    then show ?thesis using n [OF m] c k by (simp add: adds)
  qed
  moreover have "\<forall>i < length W. cs_distance (?V ! i) = of_nat (depth (W ! i))" using V n by (simp add: count_ok_def)
  ultimately show ?thesis by (simp add: count_ok_def)
qed

lemma count_arrive_longer:
  assumes V: "count_ok Q V W k seen" and k: "k < length W" and i: "i < length W" "key_of_state (W ! i) = arrow_key a"
    "depth (W ! i) \<noteq> Suc (depth (W ! k))"
  shows "count_ok Q V W k (seen @ [a])"
proof -
  have dist: "distinct (map key_of_state W)" using V by (simp add: count_ok_def bfs_ok_def)
  have "bfs_ok Q W k (insert a (set seen))"
    using V k i(1) by (intro bfs_ok_old) (simp_all add: count_ok_def flip: i(2))
  moreover have "adds V W (seen @ [a]) k m = adds V W seen k m" if m: "m < length W" for m
  proof -
    have "arrow_key a = key_of_state (W ! m) \<longleftrightarrow> m = i"
      using dist m i by (metis distinct_conv_nth length_map nth_map)
    then show ?thesis using i(3) by (auto simp: adds_def)
  qed
  ultimately show ?thesis using V by (simp add: count_ok_def)
qed

lemma count_arrive_new:
  assumes V: "count_ok Q V W k seen" and k: "k < length W" and new: "arrow_key a \<notin> key_of_state ` set W"
    and a: "a \<in> set (arrows_from Q (key_of_state (W ! k)))"
    and s: "cs_key s = arrow_key a" "cs_distance s = cs_distance (V ! k) + 1" "cs_count s = cs_count (V ! k)"
  shows "count_ok Q (V @ [s]) (W @ [arrow_state (W ! k) a]) k (seen @ [a])"
proof -
  let ?W = "W @ [arrow_state (W ! k) a]" and ?V = "V @ [s]"
  note l = count_ok_lengths [OF V]
  have B: "bfs_ok Q W k (set seen)" using V by (simp add: count_ok_def)
  have nth: "j < length W \<Longrightarrow> ?W ! j = W ! j \<and> ?V ! j = V ! j" for j using l by (simp add: nth_append)
  have last: "?W ! length W = arrow_state (W ! k) a" "?V ! length W = s" using l by (simp_all add: nth_append)
  have adds: "adds ?V ?W xs j m = adds V W xs j m" if "j < length W" "m < length W" for xs j m
    using nth that by (simp add: adds_def)
  have at: "arrows_at Q ?W j = arrows_at Q W j" if "j < length W" for j using nth [OF that] by (simp add: arrows_at_def)
  have kl: "k \<le> length W" using B by (simp add: bfs_ok_def)
  have zero: "adds ?V ?W (arrows_at Q W j) j (length W) = 0" if "j < k" for j
  proof -
    have "arrow_key b \<noteq> arrow_key a" if b: "b \<in> set (arrows_at Q W j)" for b
    proof -
      have "covered W (Suc (depth (W ! j))) (arrow_key b)" using B \<open>j < k\<close> b by (simp add: bfs_ok_def arrows_at_def)
      then show ?thesis using new by (force simp: covered_def)
    qed
    then have "arrivals (arrows_at Q W j) (arrow_key a) = 0" unfolding arrivals_zero by blast
    then show ?thesis by (simp add: adds_def last)
  qed
  have "arrow_key b \<noteq> arrow_key a" if b: "b \<in> set seen" for b
  proof -
    have "covered W (Suc (depth (W ! k))) (arrow_key b)" using B b by (simp add: bfs_ok_def)
    then show ?thesis using new by (force simp: covered_def)
  qed
  then have "arrivals seen (arrow_key a) = 0" unfolding arrivals_zero by blast
  then have one: "adds ?V ?W (seen @ [a]) k (length W) = cs_count (V ! k)" using nth [OF k] by (simp add: adds_def last)
  have "bfs_ok Q ?W k (insert a (set seen))" by (rule bfs_ok_new [OF B k new a])
  moreover have "map cs_key ?V = map key_of_state ?W" using V s(1) by (simp add: count_ok_def)
  moreover have "cs_distance (?V ! m) = of_nat (depth (?W ! m))" if "m < length ?W" for m
  proof (cases "m < length W")
    case True
    then show ?thesis using V nth by (simp add: count_ok_def)
  next
    case False
    then have "m = length W" using that by simp
    then show ?thesis using V k s(2) last by (simp add: count_ok_def)
  qed
  moreover have "cs_count (?V ! m) = (if m = 0 then 1 else 0) + (\<Sum>j < k. adds ?V ?W (arrows_at Q ?W j) j m) +
        (if k < length ?W then adds ?V ?W (seen @ [a]) k m else 0)" if "m < length ?W" for m
  proof (cases "m < length W")
    case True
    have "arrow_key a \<noteq> key_of_state (W ! m)" using new True by force
    then have "adds V W (seen @ [a]) k m = adds V W seen k m" by (simp add: adds_def)
    moreover have "(\<Sum>j < k. adds ?V ?W (arrows_at Q ?W j) j m) = (\<Sum>j < k. adds V W (arrows_at Q W j) j m)"
      using k True by (intro sum.cong) (simp_all add: adds at)
    ultimately show ?thesis using V True k nth [OF True] adds [OF k True] by (simp add: count_ok_def)
  next
    case False
    then have m: "m = length W" using that by simp
    have "(\<Sum>j < k. adds ?V ?W (arrows_at Q ?W j) j m) = 0" unfolding m using k zero by (intro sum.neutral) (simp add: at)
    then show ?thesis using k one s(3) unfolding m last by auto
  qed
  ultimately show ?thesis by (simp add: count_ok_def)
qed

lemma count_ok_pop:
  assumes V: "count_ok Q V W k (arrows_at Q W k)" and k: "k < length W"
  shows "count_ok Q V W (Suc k) []"
proof -
  have "bfs_ok Q W (Suc k) {}"
    by (rule bfs_ok_pop [of Q W k "set (arrows_at Q W k)"]) (use V k in \<open>simp_all add: count_ok_def arrows_at_def\<close>)
  moreover have "adds V W [] j i = 0" for j i by (simp add: adds_def)
  ultimately show ?thesis using V k by (simp add: count_ok_def)
qed

section \<open>Exact counts\<close>

lemma count_ok_start: "count_ok Q [cs_start Q] [start_state_of Q] 0 []"
  by (simp add: count_ok_def bfs_ok_start cs_start_def cs_key_def start_key_def adds_def)

lemma bfs_ok_same_key:
  "bfs_ok Q W k seen \<Longrightarrow> i < length W \<Longrightarrow> j < length W \<Longrightarrow> key_of_state (W ! i) = key_of_state (W ! j) \<Longrightarrow> i = j"
  unfolding bfs_ok_def by (metis distinct_conv_nth length_map nth_map)

lemma bfs_ok_depth_0:
  assumes W: "bfs_ok Q W k seen" and i: "i < length W" "depth (W ! i) = 0"
  shows "i = 0 \<and> key_of_state (W ! i) = start_key Q"
proof -
  have "(start_key Q, key_of_state (W ! i)) \<in> product_step Q ^^ 0" using bfs_ok_walk [OF W nth_mem [OF i(1)]] i(2) by simp
  then have s: "key_of_state (W ! i) = start_key Q" by simp
  moreover have "W ! 0 = start_state_of Q" "W \<noteq> []" using W by (auto simp: bfs_ok_def hd_conv_nth)
  ultimately show ?thesis using bfs_ok_same_key [OF W i(1), of 0] i(1) by simp
qed

lemma bfs_ok_before:
  assumes W: "bfs_ok Q W k seen" and j: "j < length W" and d: "k = length W \<or> depth (W ! j) < depth (W ! k)"
  shows "j < k"
proof (rule ccontr)
  assume "\<not> j < k"
  then have "k < length W" "depth (W ! k) \<le> depth (W ! j)"
    using j W sorted_nth_mono [of "map depth W" k j] by (auto simp: bfs_ok_def)
  then show False using d by simp
qed

text \<open>Only the states of the previous level have arrows to a state.\<close>

lemma previous_level:
  assumes W: "bfs_ok Q W k seen" and i: "i < length W" "depth (W ! i) = Suc d" and d: "k = length W \<or> Suc d \<le> depth (W ! k)"
    and x: "(start_key Q, x) \<in> product_step Q ^^ d" "arrivals (arrows_from Q x) (key_of_state (W ! i)) \<noteq> 0"
  shows "\<exists>j < k. depth (W ! j) = d \<and> x = key_of_state (W ! j)"
proof -
  have "k = length W \<or> d \<le> depth (W ! k)" using d by auto
  then obtain s where "s \<in> set W" "key_of_state s = x" "depth s \<le> d" using bfs_ok_complete [OF W x(1)] by (auto simp: covered_def)
  then obtain j where j: "j < length W" "key_of_state (W ! j) = x" "depth (W ! j) \<le> d" by (metis in_set_conv_nth)
  have jk: "j < k" using bfs_ok_before [OF W j(1)] j(3) d by auto
  obtain a where "a \<in> set (arrows_from Q x)" "arrow_key a = key_of_state (W ! i)" using x(2) by (auto simp: arrivals_zero)
  moreover have "\<forall>a \<in> set (arrows_from Q (key_of_state (W ! j))). covered W (Suc (depth (W ! j))) (arrow_key a)"
    using W jk by (simp add: bfs_ok_def)
  ultimately have "covered W (Suc (depth (W ! j))) (key_of_state (W ! i))" using j(2) by metis
  then obtain m where m: "m < length W" "key_of_state (W ! m) = key_of_state (W ! i)" "depth (W ! m) \<le> Suc (depth (W ! j))"
    unfolding covered_def by (metis in_set_conv_nth)
  have "m = i" by (rule bfs_ok_same_key [OF W m(1) i(1) m(2)])
  then have "depth (W ! j) = d" using m(3) i(2) j(3) by simp
  then show ?thesis using jk j(2) by blast
qed

lemma count_exact:
  assumes V: "count_ok Q V W k seen"
  shows "i < length W \<Longrightarrow> k = length W \<or> depth (W ! i) \<le> depth (W ! k) \<Longrightarrow>
    cs_count (V ! i) = of_nat (walks_to Q (depth (W ! i)) (key_of_state (W ! i)))"
proof (induction "depth (W ! i)" arbitrary: i)
  case 0
  have W: "bfs_ok Q W k (set seen)" using V by (simp add: count_ok_def)
  have "i = 0" "key_of_state (W ! i) = start_key Q" using bfs_ok_depth_0 [OF W 0(2) 0(1) [symmetric]] by blast+
  moreover have "adds V W xs j i = 0" for xs j using 0(1) by (simp add: adds_def)
  ultimately have "cs_count (V ! i) = 1" using V 0(2) by (simp add: count_ok_def)
  then show ?case using 0(1) \<open>key_of_state (W ! i) = start_key Q\<close> by (metis of_nat_1 walks_to_0)
next
  case (Suc d)
  let ?y = "key_of_state (W ! i)" and ?J = "{j. j < k \<and> depth (W ! j) = d}"
  let ?A = "\<lambda>x. arrivals (arrows_from Q x) ?y" and ?key = "\<lambda>j. key_of_state (W ! j)"
  have W: "bfs_ok Q W k (set seen)" using V by (simp add: count_ok_def)
  have kl: "k \<le> length W" using W by (simp add: bfs_ok_def)
  have i0: "i \<noteq> 0"
  proof
    assume "i = 0"
    moreover have "W ! 0 = start_state_of Q" using W by (auto simp: bfs_ok_def hd_conv_nth)
    ultimately show False using Suc(2) by simp
  qed
  have seen: "k < length W \<Longrightarrow> adds V W seen k i = 0" using Suc(2,4) by (auto simp: adds_def)
  have IH: "cs_count (V ! j) = of_nat (walks_to Q d (?key j))" if "j \<in> ?J" for j
  proof -
    have "d = depth (W ! j)" "j < length W" "k = length W \<or> depth (W ! j) \<le> depth (W ! k)"
      using that kl Suc(2,4) by auto
    then show ?thesis using Suc(1) [of j] by simp
  qed
  have "(\<Sum>j < k. adds V W (arrows_at Q W j) j i) = (\<Sum>j < k. if j \<in> ?J then cs_count (V ! j) * of_nat (?A (?key j)) else 0)"
    using Suc(2) by (intro sum.cong) (auto simp: adds_def arrows_at_def)
  also have "\<dots> = (\<Sum>j \<in> ?J. cs_count (V ! j) * of_nat (?A (?key j)))"
    by (simp add: sum.If_cases Int_def)
  also have "\<dots> = (\<Sum>j \<in> ?J. of_nat (walks_to Q d (?key j) * ?A (?key j)))" using IH by simp
  also have "\<dots> = of_nat (\<Sum>x \<in> ?key ` ?J. walks_to Q d x * ?A x)"
  proof -
    have "inj_on ?key ?J" using bfs_ok_same_key [OF W] kl by (intro inj_onI) auto
    then show ?thesis by (simp add: sum.reindex)
  qed
  also have "(\<Sum>x \<in> ?key ` ?J. walks_to Q d x * ?A x) = (\<Sum>x \<in> all_keys Q. walks_to Q d x * ?A x)"
  proof (rule sum.mono_neutral_left)
    have "(start_key Q, ?key j) \<in> product_step Q ^^ d" if "j \<in> ?J" for j
      using bfs_ok_walk [OF W nth_mem, of j] that kl by auto
    then show "?key ` ?J \<subseteq> all_keys Q" using steps_all_keys by blast
    show "\<forall>x \<in> all_keys Q - ?key ` ?J. walks_to Q d x * ?A x = 0"
    proof
      fix x assume x: "x \<in> all_keys Q - ?key ` ?J"
      show "walks_to Q d x * ?A x = 0"
        using previous_level [OF W Suc(3) Suc(2) [symmetric] _, of x] Suc(2,4) x by (auto simp: walks_to_zero)
    qed
  qed simp
  also have "\<dots> = walks_to Q (Suc d) ?y" using walks_to_Suc [OF finite_all_keys steps_all_keys] by metis
  finally show ?case using V Suc(2,3) i0 seen by (simp add: count_ok_def)
qed

section \<open>A neighbour\<close>

lemma count_arrive_ok:
  assumes V: "count_ok Q V W k seen" and k: "k < length W" and s: "short_walks Q"
    and a: "a \<in> set (arrows_at Q W k)" and run: "count_arrive (V ! k) (fst a) (snd a) V = (V', r)"
  shows "case r of
      New \<Rightarrow> arrow_key a \<notin> key_of_state ` set W \<and> count_ok Q V' (W @ [arrow_state (W ! k) a]) k (seen @ [a]) \<and>
        V' = V @ [CountState (fst (snd a)) (dfa_to (fst a)) (cs_distance (V ! k) + 1) (cs_count (V ! k))]
    | Again \<Rightarrow> (\<exists>i < length W. key_of_state (W ! i) = arrow_key a \<and> depth (W ! i) = Suc (depth (W ! k))) \<and>
        count_ok Q V' W k (seen @ [a]) \<and> V' = cs_add (arrow_key a) (cs_count (V ! k)) V
    | Longer \<Rightarrow> V' = V \<and> count_ok Q V W k (seen @ [a])"
proof -
  let ?s = "CountState (fst (snd a)) (dfa_to (fst a)) (cs_distance (V ! k) + 1) (cs_count (V ! k))"
  have key: "cs_key ?s = arrow_key a" by (simp add: cs_key_def arrow_key_def)
  have W: "bfs_ok Q W k (set seen)" "map cs_key V = map key_of_state W" using V by (simp_all add: count_ok_def)
  show ?thesis
  proof (cases "arrow_key a \<in> key_of_state ` set W")
    case False
    then have "cs_find (arrow_key a) V = None" using W(2) by (simp add: cs_find_None)
    then have "V' = V @ [?s]" "r = New" using run key by (auto simp: count_arrive_def Let_def)
    then show ?thesis using count_arrive_new [OF V k False, of ?s] a False key by (simp add: arrows_at_def)
  next
    case True
    then obtain i where i: "i < length W" "key_of_state (W ! i) = arrow_key a" by (metis imageE in_set_conv_nth)
    have f: "cs_find (arrow_key a) V = Some (V ! i)" using count_ok_find [OF V i(1)] i(2) by simp
    have "depth (W ! i) \<le> Suc (depth (W ! k))" using W(1) i(1) k by (simp add: bfs_ok_def)
    then have lt: "depth (W ! i) < 2 ^ 32" "Suc (depth (W ! k)) < 2 ^ 32" using front_depth [OF W(1) k s] by simp_all
    have "cs_distance (V ! k) + 1 = of_nat (Suc (depth (W ! k)))" using V k by (simp add: count_ok_def)
    then have d: "cs_distance (V ! i) = cs_distance (V ! k) + 1 \<longleftrightarrow> depth (W ! i) = Suc (depth (W ! k))"
      using V i(1) of_nat_32 [OF lt] unfolding count_ok_def by metis
    show ?thesis
    proof (cases "depth (W ! i) = Suc (depth (W ! k))")
      case True
      then have "V' = cs_add (arrow_key a) (cs_count (V ! k)) V" "r = Again" using run key f d by (auto simp: count_arrive_def Let_def)
      then show ?thesis using count_arrive_again [OF V k i True] i True by auto
    next
      case False
      then have "V' = V" "r = Longer" using run key f d by (auto simp: count_arrive_def Let_def)
      then show ?thesis using count_arrive_longer [OF V k i False] by simp
    qed
  qed
qed

section \<open>BFSEnum\<close>

text \<open>A body that never returns runs over all neighbours.\<close>

lemma scan_total:
  assumes "\<And>zs a s. P zs s \<Longrightarrow> a \<in> A \<Longrightarrow> \<exists>s'. f s a = (s', None) \<and> P (zs @ [a]) s'"
    and "P zs s" "set xs \<subseteq> A"
  shows "\<exists>s'. scan f s xs = (s', [], None) \<and> P (zs @ xs) s'"
  using assms(2,3)
proof (induction xs arbitrary: zs s)
  case (Cons a xs)
  then obtain s' where s': "f s a = (s', None)" "P (zs @ [a]) s'" using assms(1) [of zs s a] by auto
  then show ?case using Cons.IH [OF s'(2)] Cons.prems(2) by auto
qed simp

lemma for_transitions_total:
  assumes "provider_ok (provider Q)"
    and "\<And>zs a s. P zs s \<Longrightarrow> a \<in> set (arrows_from Q x) \<Longrightarrow> \<exists>s'. body (fst a) (snd a) s = (s', None) \<and> P (zs @ [a]) s'"
    and "P [] s"
  shows "\<exists>n s'. for_transitions (provider Q) (snd x) body (transitions_from Q (fst x)) m s = (n, s', None) \<and>
    P (arrows_from Q x) s'"
proof -
  obtain n s' r where F: "for_transitions (provider Q) (snd x) body (transitions_from Q (fst x)) m s = (n, s', r)"
    by (metis prod_cases3)
  obtain rest where "scan (step_of body) s (arrows_from Q x) = (s', rest, r)"
    using for_transitions_scan [OF assms(1) F] by (auto simp: arrows_from_def)
  moreover obtain s2 where "scan (step_of body) s (arrows_from Q x) = (s2, [], None)" "P ([] @ arrows_from Q x) s2"
    using scan_total [of P "set (arrows_from Q x)" "step_of body" "[]" s "arrows_from Q x"] assms(2,3)
    by (auto simp: step_of_def)
  ultimately show ?thesis using F by simp
qed

definition walk_weight :: "path_query \<Rightarrow> search_state list \<Rightarrow> nat \<Rightarrow> nat" where
  "walk_weight Q W k = 2 * card (all_keys Q - key_of_state ` set W) + (length W - k)"

lemma walk_weight_new:
  assumes "a \<in> set (arrows_from Q x)" "arrow_key a \<notin> key_of_state ` set W" "k \<le> length W"
  shows "walk_weight Q (W @ [arrow_state p a]) k < walk_weight Q W k"
proof -
  have "arrow_key a \<in> all_keys Q"
    unfolding arrow_key_def by (rule transitions_from_all [OF arrows_from_transition [OF assms(1)]])
  from card_unvisited [OF this assms(2)] assms(3) show ?thesis by (simp add: walk_weight_def)
qed

definition count_enum_inv :: "path_query \<Rightarrow> search_state list \<Rightarrow> nat \<Rightarrow> arrow list \<Rightarrow> count_enum \<Rightarrow> bool" where
  "count_enum_inv Q W k seen B \<longleftrightarrow> count_ok Q (ce_visited B) W k seen \<and> ce_open B = map key_of_state (drop k W) \<and> \<not> ce_first B"

lemma count_enum_visit_inv:
  assumes B: "count_enum_inv Q W k seen B" and k: "k < length W" and s: "short_walks Q" and a: "a \<in> set (arrows_at Q W k)"
  shows "\<exists>B' new. count_enum_visit False Q (key_of_state (W ! k)) (fst a) (snd a) B = (B', None) \<and>
    count_enum_inv Q (W @ new) k (seen @ [a]) B' \<and> walk_weight Q (W @ new) k \<le> walk_weight Q W k"
proof -
  have V: "count_ok Q (ce_visited B) W k seen" "ce_open B = map key_of_state (drop k W)" "\<not> ce_first B"
    using B by (simp_all add: count_enum_inv_def)
  have f: "cs_find (key_of_state (W ! k)) (ce_visited B) = Some (ce_visited B ! k)" by (rule count_ok_find [OF V(1) k])
  obtain V' r where R: "count_arrive (ce_visited B ! k) (fst a) (snd a) (ce_visited B) = (V', r)" by fastforce
  note A = count_arrive_ok [OF V(1) k s a R]
  show ?thesis
  proof (cases r)
    case New
    have "walk_weight Q (W @ [arrow_state (W ! k) a]) k < walk_weight Q W k"
      using walk_weight_new [of a Q "key_of_state (W ! k)"] a A New k by (simp add: arrows_at_def)
    moreover have "count_ok Q V' (W @ [arrow_state (W ! k) a]) k (seen @ [a])" using A unfolding New arrival.case by blast
    ultimately show ?thesis using V(2,3) R f k New
      by (intro exI [of _ "B\<lparr>ce_visited := V', ce_open := ce_open B @ [arrow_key a]\<rparr>"] exI [of _ "[arrow_state (W ! k) a]"])
        (simp add: count_enum_visit_def count_enum_inv_def Let_def arrow_key_def)
  next
    case Again
    have "count_ok Q V' W k (seen @ [a])" using A unfolding Again arrival.case by blast
    then show ?thesis using V(2,3) R f Again
      by (intro exI [of _ "B\<lparr>ce_visited := V'\<rparr>"] exI [of _ "[]"])
        (simp add: count_enum_visit_def count_enum_inv_def Let_def)
  next
    case Longer
    then show ?thesis using A V R f
      by (intro exI [of _ B] exI [of _ "[]"]) (simp add: count_enum_visit_def count_enum_inv_def Let_def)
  qed
qed

text \<open>What a state that is popped contributes to the results.\<close>

definition count_report :: "path_query \<Rightarrow> search_state \<Rightarrow> object_id \<times> object_id" where
  "count_report Q s = (node_id s, count_object (of_nat (walks_to Q (depth s) (key_of_state s))))"

lemma count_enum_drains:
  assumes prov: "provider_ok (provider Q)" and s: "short_walks Q"
  shows "count_enum_inv Q W k [] B \<Longrightarrow> \<exists>rs B' new. drains (count_enum_next False Q) B rs B' \<and>
    bfs_ok Q (W @ new) (length (W @ new)) {} \<and>
    rs = map (count_report Q) (filter (\<lambda>s. is_final Q (automaton_state s)) (drop k (W @ new)))"
proof (induction "walk_weight Q W k" arbitrary: W k B rule: less_induct)
  case less
  note B = less.prems [unfolded count_enum_inv_def]
  have W: "bfs_ok Q W k {}" using B by (simp add: count_ok_def)
  have n: "count_enum_next False Q B = count_enum_loop False Q B" using B by (simp add: count_enum_next_def)
  show ?case
  proof (cases "k < length W")
    case False
    then have k: "k = length W" using W by (simp add: bfs_ok_def)
    then have "count_enum_next False Q B = Some (B, None)" using B n by (simp add: count_enum_loop.simps [of _ _ B])
    then show ?thesis using W k by (intro exI [of _ "[]"] exI [of _ B]) (auto intro: drains_Nil)
  next
    case True
    let ?x = "key_of_state (W ! k)"
    let ?P = "\<lambda>zs C. \<exists>new. count_enum_inv Q (W @ new) k zs C \<and> walk_weight Q (W @ new) k \<le> walk_weight Q W k"
    have step: "\<exists>C'. count_enum_visit False Q ?x (fst a) (snd a) C = (C', None) \<and> ?P (zs @ [a]) C'"
      if P: "?P zs C" and a: "a \<in> set (arrows_from Q ?x)" for zs a C
    proof -
      obtain new where new: "count_enum_inv Q (W @ new) k zs C" "walk_weight Q (W @ new) k \<le> walk_weight Q W k" using P by blast
      have "k < length (W @ new)" "(W @ new) ! k = W ! k" using True by (simp_all add: nth_append)
      then obtain C' zs' where "count_enum_visit False Q ?x (fst a) (snd a) C = (C', None)"
        "count_enum_inv Q ((W @ new) @ zs') k (zs @ [a]) C'" "walk_weight Q ((W @ new) @ zs') k \<le> walk_weight Q (W @ new) k"
        using count_enum_visit_inv [OF new(1) _ s, of a] a by (auto simp: arrows_at_def)
      then show ?thesis using new(2) by (intro exI [of _ C'] conjI exI [of _ "new @ zs'"]) simp_all
    qed
    have "?P [] B" using less.prems by (intro exI [of _ "[]"]) simp
    then obtain m C where C: "for_transitions (provider Q) (snd ?x) (count_enum_visit False Q ?x) (transitions_from Q (fst ?x))
        (ce_searches B) B = (m, C, None)" "?P (arrows_from Q ?x) C"
      using for_transitions_total [where P = ?P and x = ?x and s = B and body = "count_enum_visit False Q ?x", OF prov step]
      by blast
    then obtain new where new: "count_enum_inv Q (W @ new) k (arrows_from Q ?x) C" "walk_weight Q (W @ new) k \<le> walk_weight Q W k"
      by blast
    let ?W = "W @ new" and ?V = "ce_visited C"
    have k: "k < length ?W" "?W ! k = W ! k" using True by (simp_all add: nth_append)
    have V: "count_ok Q ?V ?W k (arrows_at Q ?W k)" "ce_open C = map key_of_state (drop k ?W)" "\<not> ce_first C"
      using new(1) k by (simp_all add: count_enum_inv_def arrows_at_def)
    have f: "cs_find ?x ?V = Some (?V ! k)" using count_ok_find [OF V(1) k(1)] k(2) by simp
    have key: "cs_node (?V ! k) = node_id (W ! k)" "cs_automaton (?V ! k) = automaton_state (W ! k)"
      using count_ok_key [OF V(1) k(1)] k(2) by (simp_all add: cs_key_def key_of_state_def)
    have count: "cs_count (?V ! k) = of_nat (walks_to Q (depth (W ! k)) ?x)" using count_exact [OF V(1) k(1)] k(2) by simp
    have o: "ce_open B = ?x # map key_of_state (drop (Suc k) W)" using B True by (simp add: Cons_nth_drop_Suc [symmetric])
    have dk: "drop k (?W @ zs) = W ! k # drop (Suc k) (?W @ zs)" for zs
      using Cons_nth_drop_Suc [of k "?W @ zs"] True by (simp add: nth_append)
    have w: "walk_weight Q ?W (Suc k) < walk_weight Q W k" using new(2) k(1) by (simp add: walk_weight_def)
    have pop: "count_ok Q ?V ?W (Suc k) []" by (rule count_ok_pop [OF V(1) k(1)])
    have tl: "tl (ce_open C) = map key_of_state (drop (Suc k) ?W)" 
      unfolding V(2) by (simp only: drop_Suc tl_drop [symmetric] map_tl)
    let ?D = "C\<lparr>ce_searches := m, ce_open := tl (ce_open C)\<rparr>"
    have inv: "count_enum_inv Q ?W (Suc k) [] (?D\<lparr>ce_found := z\<rparr>)" for z
      using pop tl V(3) by (simp add: count_enum_inv_def)
    show ?thesis
    proof (cases "is_final Q (automaton_state (W ! k))")
      case fin: True
      let ?E = "?D\<lparr>ce_found := ce_found C + cs_count (?V ! k)\<rparr>"
      have "count_enum_next False Q B = Some (?E, Some (count_report Q (W ! k)))"
        using n o C(1) f fin key count by (simp add: count_enum_loop.simps [of _ _ B] Let_def count_report_def)
      moreover obtain rs B' zs where "drains (count_enum_next False Q) ?E rs B'" "bfs_ok Q (?W @ zs) (length (?W @ zs)) {}"
        "rs = map (count_report Q) (filter (\<lambda>s. is_final Q (automaton_state s)) (drop (Suc k) (?W @ zs)))"
        using less.hyps [OF w inv] by blast
      ultimately show ?thesis using dk [of zs] fin
        by (intro exI [of _ "count_report Q (W ! k) # rs"] exI [of _ B'] exI [of _ "new @ zs"]) (simp add: drains_Cons)
    next
      case fin: False
      have "count_enum_loop False Q B = count_enum_loop False Q ?D"
        using o C(1) f fin key by (simp add: count_enum_loop.simps [of _ _ B] Let_def)
      then have eq: "count_enum_next False Q ?D = count_enum_next False Q B" using n V(3) by (simp add: count_enum_next_def)
      have "count_enum_inv Q ?W (Suc k) [] ?D" using inv [of "ce_found C"] by (simp add: count_enum_inv_def)
      from less.hyps [OF w this] obtain rs B' zs where "drains (count_enum_next False Q) ?D rs B'"
        "bfs_ok Q (?W @ zs) (length (?W @ zs)) {}"
        "rs = map (count_report Q) (filter (\<lambda>s. is_final Q (automaton_state s)) (drop (Suc k) (?W @ zs)))" by blast
      then show ?thesis using dk [of zs] fin drains_cong [OF eq]
        by (intro exI [of _ rs] exI [of _ B'] exI [of _ "new @ zs"]) simp
    qed
  qed
qed

text \<open>The object after \<open>begin\<close> on a new object or \<open>reset\<close> on any.\<close>

definition count_enum_fresh :: "path_query \<Rightarrow> count_enum \<Rightarrow> bool" where
  "count_enum_fresh Q B \<longleftrightarrow> ce_first B \<and> ce_open B = [start_key Q] \<and> ce_visited B = [cs_start Q]"

lemma count_enum_fresh_begin: "count_enum_fresh Q (count_enum_begin Q count_enum_new)"
  by (simp add: count_enum_fresh_def count_enum_begin_def count_enum_new_def cs_emplace_def cs_find_def)

lemma count_enum_fresh_reset: "count_enum_fresh Q (count_enum_reset mf Q B)"
  by (simp add: count_enum_fresh_def count_enum_reset_def cs_emplace_def cs_find_def)

lemma count_enum_results:
  assumes prov: "provider_ok (provider Q)" and s: "short_walks Q" and B: "count_enum_fresh Q B"
    and ex: "node_exists Q (start_object_id Q)"
  shows "\<exists>rs B' W. drains (count_enum_next False Q) B rs B' \<and> bfs_ok Q W (length W) {} \<and>
    rs = map (count_report Q) (filter (\<lambda>s. is_final Q (automaton_state s)) W)"
proof -
  let ?C = "B\<lparr>ce_first := False\<rparr>"
  have "count_enum_inv Q [start_state_of Q] 0 [] ?C"
    using B count_ok_start [of Q] by (simp add: count_enum_inv_def count_enum_fresh_def)
  from count_enum_drains [OF prov s this] obtain rs B' new where D: "drains (count_enum_next False Q) ?C rs B'"
    "bfs_ok Q ([start_state_of Q] @ new) (length ([start_state_of Q] @ new)) {}"
    "rs = map (count_report Q) (filter (\<lambda>s. is_final Q (automaton_state s)) (drop 0 ([start_state_of Q] @ new)))" by blast
  have "count_enum_next False Q ?C = count_enum_next False Q B"
    using B ex by (simp add: count_enum_next_def count_enum_fresh_def start_key_def)
  from drains_cong [OF this D(1)] D(2,3) show ?thesis by (metis drop_0)
qed

text \<open>Among the states of the product, one final state: the first accepted walks end in it.\<close>

lemma single_final:
  assumes mode: "final_mode_ok False Q" and s: "linked Q s" "is_final Q (automaton_state s)"
  shows "accepted_walks Q d (node_id s) = walks_to Q d (key_of_state s)"
proof -
  have "{q \<in> state_space Q. is_final Q q} = {automaton_state s}"
    using mode s linked_state_space [OF s(1)] by (auto simp: final_mode_ok_def)
  then show ?thesis by (simp add: accepted_walks_def key_of_state_def)
qed

lemma count_report_first:
  assumes W: "bfs_ok Q W (length W) {}" and mode: "final_mode_ok False Q"
    and s: "s \<in> set W" "is_final Q (automaton_state s)"
  shows "first_accepted Q (node_id s) (depth s)"
proof -
  have l: "linked Q s" using W s(1) by (simp add: bfs_ok_def)
  note a = single_final [OF mode l s(2)]
  have "walks_to Q (depth s) (key_of_state s) \<noteq> 0" unfolding walks_to_zero using bfs_ok_walk [OF W s(1)] by simp
  moreover have "walks_to Q d (key_of_state s) = 0" if "d < depth s" for d
  proof (rule ccontr)
    assume "walks_to Q d (key_of_state s) \<noteq> 0"
    then have "covered W d (key_of_state s)" unfolding walks_to_zero using bfs_ok_complete [OF W] by blast
    then obtain t where "t \<in> set W" "key_of_state t = key_of_state s" "depth t \<le> d" by (auto simp: covered_def)
    moreover have "inj_on key_of_state (set W)" using W by (simp add: bfs_ok_def distinct_map)
    ultimately show False using s(1) that by (metis inj_onD leD)
  qed
  ultimately show ?thesis by (simp add: first_accepted_def a)
qed

lemma count_enum_distinct:
  assumes W: "bfs_ok Q W (length W) {}" and mode: "final_mode_ok False Q"
  shows "distinct (map node_id (filter (\<lambda>s. is_final Q (automaton_state s)) W))"
proof -
  have "inj_on node_id {s \<in> set W. is_final Q (automaton_state s)}"
  proof (rule inj_onI)
    fix s t assume s: "s \<in> {s \<in> set W. is_final Q (automaton_state s)}" "t \<in> {s \<in> set W. is_final Q (automaton_state s)}" "node_id s = node_id t"
    then have "linked Q s" "linked Q t" using W by (simp_all add: bfs_ok_def)
    then have "automaton_state s = automaton_state t"
      using mode s(1,2) linked_state_space unfolding final_mode_ok_def by blast
    then have "key_of_state s = key_of_state t" using s(3) by (simp add: key_of_state_def)
    moreover have "inj_on key_of_state (set W)" using W by (simp add: bfs_ok_def distinct_map)
    ultimately show "s = t" using s(1,2) by (auto dest: inj_onD)
  qed
  moreover have "distinct W" using W by (simp add: bfs_ok_def distinct_map)
  ultimately show ?thesis by (simp add: distinct_map)
qed

section \<open>The shortest answers of the graph\<close>

definition shortest_answers :: "quad set \<Rightarrow> path_query \<Rightarrow> object_id \<Rightarrow> step list set" where
  "shortest_answers E Q n = {xs \<in> good_answers E True Q (\<lambda>_. True) {n}.
     \<forall>ys \<in> good_answers E True Q (\<lambda>_. True) {n}. length xs \<le> length ys}"

lemma answers_kept: "m \<in> answers E Q \<longleftrightarrow> good_answers E True Q (\<lambda>_. True) {m} \<noteq> {}"
  unfolding answers_def good_answers_def graph_walk_kept [where keep = True] by auto

lemma answers_of_walks:
  assumes "dfa_ok (automaton Q)"
  shows "good_answers E True Q (\<lambda>_. True) {n} = (\<Union>d. \<Union>q \<in> {q \<in> state_space Q. is_final Q q}. answer_walks E Q d (q, n))"
proof -
  have "q \<in> state_space Q" if "dfa_run (automaton Q) (start_state (automaton Q)) w q" for w q
  proof (cases w rule: rev_cases)
    case Nil
    then show ?thesis using that by (simp add: state_space_def)
  next
    case (snoc u l)
    then show ?thesis using that slot_subset by (fastforce simp: dfa_run_snoc state_space_def)
  qed
  then show ?thesis unfolding good_answers_def answer_walks_def by (auto simp: dfa_lang_run [OF assms])
qed

context counted_provider begin

lemma shortest_count:
  assumes Q: "provider Q = prov" "dfa_ok (automaton Q)" "deterministic (automaton Q)" and d: "first_accepted Q n d"
  shows "card (shortest_answers E Q n) = accepted_walks Q d n"
proof -
  let ?F = "{q \<in> state_space Q. is_final Q q}"
  note C = card_answer_walks [OF Q(1,3)]
  have some: "\<exists>q \<in> ?F. answer_walks E Q d (q, n) \<noteq> {}"
  proof -
    have "(\<Sum>q \<in> ?F. walks_to Q d (q, n)) \<noteq> 0" using d by (simp add: first_accepted_def accepted_walks_def)
    then obtain q where q: "q \<in> ?F" "walks_to Q d (q, n) \<noteq> 0" by (meson sum.neutral)
    then have "answer_walks E Q d (q, n) \<noteq> {}" using C [of d "(q, n)"] by auto
    with q(1) show ?thesis by blast
  qed
  have none: "answer_walks E Q c (q, n) = {}" if "c < d" "q \<in> ?F" for c q
  proof -
    have "(\<Sum>q \<in> ?F. walks_to Q c (q, n)) = 0" using d that(1) by (simp add: first_accepted_def accepted_walks_def)
    then have "walks_to Q c (q, n) = 0" using that(2) finite_state_space [of Q] by (simp add: sum_eq_0_iff)
    then show ?thesis using C [of c "(q, n)"] by auto
  qed
  have len: "xs \<in> answer_walks E Q c y \<Longrightarrow> length xs = c" for xs c y by (simp add: answer_walks_def)
  have "shortest_answers E Q n = (\<Union>q \<in> ?F. answer_walks E Q d (q, n))"
    unfolding shortest_answers_def answers_of_walks [OF Q(2)]
  proof (intro equalityI subsetI)
    fix xs assume "xs \<in> {xs \<in> \<Union>d. \<Union>q \<in> ?F. answer_walks E Q d (q, n). \<forall>ys \<in> \<Union>d. \<Union>q \<in> ?F. answer_walks E Q d (q, n). length xs \<le> length ys}"
    then obtain c q where x: "q \<in> ?F" "xs \<in> answer_walks E Q c (q, n)"
      and le: "\<forall>ys \<in> \<Union>d. \<Union>q \<in> ?F. answer_walks E Q d (q, n). length xs \<le> length ys" by blast
    obtain q' ys where "q' \<in> ?F" "ys \<in> answer_walks E Q d (q', n)" using some by blast
    then have "length xs \<le> length ys" "length ys = d" using le len by blast+
    moreover have "\<not> c < d" using none [of c q] x by auto
    ultimately have "c = d" using len [OF x(2)] by simp
    then show "xs \<in> (\<Union>q \<in> ?F. answer_walks E Q d (q, n))" using x by blast
  next
    fix xs assume x: "xs \<in> (\<Union>q \<in> ?F. answer_walks E Q d (q, n))"
    have "length xs \<le> length ys" if y: "ys \<in> (\<Union>d. \<Union>q \<in> ?F. answer_walks E Q d (q, n))" for ys
    proof -
      obtain c q where "q \<in> ?F" "ys \<in> answer_walks E Q c (q, n)" using y by blast
      then have "\<not> c < d" "length ys = c" using none [of c q] len by auto
      moreover have "length xs = d" using x len by blast
      ultimately show ?thesis by simp
    qed
    then show "xs \<in> {xs \<in> \<Union>d. \<Union>q \<in> ?F. answer_walks E Q d (q, n). \<forall>ys \<in> \<Union>d. \<Union>q \<in> ?F. answer_walks E Q d (q, n). length xs \<le> length ys}"
      using x by blast
  qed
  moreover have "card (\<Union>q \<in> ?F. answer_walks E Q d (q, n)) = (\<Sum>q \<in> ?F. card (answer_walks E Q d (q, n)))"
  proof (rule card_UN_disjoint)
    show "\<forall>q \<in> ?F. \<forall>q' \<in> ?F. q \<noteq> q' \<longrightarrow> answer_walks E Q d (q, n) \<inter> answer_walks E Q d (q', n) = {}"
      using dfa_run_functional [OF Q(3)] unfolding answer_walks_def by fastforce
  qed (use C finite_state_space [of Q] in simp_all)
  ultimately show ?thesis by (simp add: accepted_walks_def C)
qed

lemma all_count_enum:
  assumes Q: "provider Q = prov" "dfa_ok (automaton Q)" "deterministic (automaton Q)" "total_final_states (automaton Q) \<le> 1"
    and s: "short_walks Q" and B: "count_enum_fresh Q B" and ex: "node_exists Q (start_object_id Q)"
  shows "\<exists>rs B'. drains (count_enum_next False Q) B rs B' \<and> distinct (map fst rs) \<and> fst ` set rs = answers E Q \<and>
    (\<forall>r \<in> set rs. snd r = count_object (of_nat (card (shortest_answers E Q (fst r)))))"
proof -
  have p: "provider_ok (provider Q)" using prov_ok Q(1) by simp
  have mode: "final_mode_ok False Q" using final_mode_ok_planner [OF Q(2)] Q(4) by (simp add: not_less)
  obtain rs B' W where R: "drains (count_enum_next False Q) B rs B'" "bfs_ok Q W (length W) {}"
    "rs = map (count_report Q) (filter (\<lambda>s. is_final Q (automaton_state s)) W)"
    using count_enum_results [OF p s B ex] by blast
  have "distinct (map fst rs)" using count_enum_distinct [OF R(2) mode] by (simp add: R(3) comp_def count_report_def)
  moreover have "fst ` set rs = final_nodes Q W"
    unfolding R(3) final_nodes_def set_map image_image set_filter count_report_def fst_conv ..
  then have "fst ` set rs = answers E Q"
    by (intro set_eqI) (simp only: final_nodes_iff [OF R(2)] reach_answers [OF Q(1,2)])
  moreover have "snd r = count_object (of_nat (card (shortest_answers E Q (fst r))))" if "r \<in> set rs" for r
  proof -
    obtain t where t: "t \<in> set W" "is_final Q (automaton_state t)" "r = count_report Q t" using \<open>r \<in> set rs\<close> R(3) by auto
    have "linked Q t" using R(2) t(1) by (simp add: bfs_ok_def)
    then have "card (shortest_answers E Q (node_id t)) = walks_to Q (depth t) (key_of_state t)"
      using shortest_count [OF Q(1-3) count_report_first [OF R(2) mode t(1,2)]] single_final [OF mode _ t(2)] by simp
    then show ?thesis by (simp add: t(3) count_report_def)
  qed
  ultimately show ?thesis using R(1) by blast
qed

end

end
