(* ===== verification/AllCountCheck.thy ===== *)
theory AllCountCheck
  imports AllCountCorrect
begin

text \<open>
  \<open>AllShortestCount::BFSCheck\<close>: while the search runs, \<open>optimal_distance\<close> is the distance of the nearest
  accepted state of the end node that was found, and \<open>path_count\<close> the sum of the counts of these states.
\<close>

section \<open>The counts of the end node\<close>

definition hit_sum :: "path_query \<Rightarrow> object_id \<Rightarrow> count_state list \<Rightarrow> search_state list \<Rightarrow> nat \<Rightarrow> 64 word" where
  "hit_sum Q e V W d = (\<Sum>i < length W. if any_hit Q e (W ! i) \<and> depth (W ! i) = d then cs_count (V ! i) else 0)"

definition nearest_hit :: "path_query \<Rightarrow> object_id \<Rightarrow> search_state list \<Rightarrow> nat \<Rightarrow> bool" where
  "nearest_hit Q e W d \<longleftrightarrow> (\<exists>s \<in> set W. any_hit Q e s \<and> depth s = d) \<and> (\<forall>s \<in> set W. any_hit Q e s \<longrightarrow> d \<le> depth s)"

definition hits_ok :: "path_query \<Rightarrow> object_id \<Rightarrow> count_state list \<Rightarrow> search_state list \<Rightarrow> 64 word \<Rightarrow> 64 word \<Rightarrow> bool" where
  "hits_ok Q e V W opt count \<longleftrightarrow>
     (if \<exists>s \<in> set W. any_hit Q e s
      then \<exists>d < 2 ^ 32. nearest_hit Q e W d \<and> opt = of_nat d \<and> count = hit_sum Q e V W d
      else opt = -1)"

lemma hit_sum_add:
  assumes V: "count_ok Q V W k seen" and i: "i < length W" "key_of_state (W ! i) = x"
  shows "hit_sum Q e (cs_add x c V) W d = hit_sum Q e V W d + (if any_hit Q e (W ! i) \<and> depth (W ! i) = d then c else 0)"
proof -
  let ?P = "\<lambda>j. any_hit Q e (W ! j) \<and> depth (W ! j) = d"
  have "cs_count (cs_add x c V ! j) = cs_count (V ! j) + (if j = i then c else 0)" if j: "j < length W" for j
  proof -
    have "distinct (map key_of_state W)" using V by (simp add: count_ok_def bfs_ok_def)
    then have "cs_key (V ! j) = x \<longleftrightarrow> j = i"
      using j i count_ok_key [OF V j] by (metis distinct_conv_nth length_map nth_map)
    then show ?thesis using cs_add_nth [of j V x c] j count_ok_lengths [OF V] by simp
  qed
  then have "hit_sum Q e (cs_add x c V) W d =
      (\<Sum>j < length W. (if ?P j then cs_count (V ! j) else 0) + (if j = i then if ?P i then c else 0 else 0))"
    unfolding hit_sum_def by (intro sum.cong) auto
  also have "\<dots> = hit_sum Q e V W d + (if ?P i then c else 0)"
    using i(1) by (simp add: sum.distrib hit_sum_def)
  finally show ?thesis .
qed

lemma hit_sum_new:
  assumes "length V = length W"
  shows "hit_sum Q e (V @ [s]) (W @ [t]) d =
    hit_sum Q e V W d + (if any_hit Q e t \<and> depth t = d then cs_count s else 0)"
proof -
  have "(\<Sum>i < length W. if any_hit Q e ((W @ [t]) ! i) \<and> depth ((W @ [t]) ! i) = d then cs_count ((V @ [s]) ! i) else 0) =
      hit_sum Q e V W d"
    unfolding hit_sum_def using assms by (intro sum.cong) (simp_all add: nth_append)
  moreover have "(V @ [s]) ! length W = s" using assms by (metis nth_append_length)
  ultimately show ?thesis by (simp add: hit_sum_def)
qed

lemma of_nat_64: "a < 2 ^ 32 \<Longrightarrow> b < 2 ^ 32 \<Longrightarrow> (of_nat a :: 64 word) = of_nat b \<longleftrightarrow> a = b"
  by (simp add: word_of_nat_eq_iff take_bit_nat_eq_self)

lemma of_nat_64_max: "a < 2 ^ 32 \<Longrightarrow> (of_nat a :: 64 word) \<noteq> -1"
proof
  assume a: "a < 2 ^ 32" "(of_nat a :: 64 word) = -1"
  have "(of_nat a :: 64 word) + 1 = of_nat (Suc a)" by simp
  then have "(of_nat (Suc a) :: 64 word) = of_nat 0" using a(2) by simp
  then have "take_bit 64 (Suc a) = 0" unfolding word_of_nat_eq_iff by simp
  then show False using a(1) by (simp add: take_bit_nat_eq_self)
qed

lemma ucast_distance: "a < 2 ^ 32 \<Longrightarrow> (ucast (of_nat a :: 32 word) :: 64 word) = of_nat a"
  by (simp add: unsigned_of_nat take_bit_nat_eq_self)

section \<open>The invariant\<close>

definition count_check_inv :: "path_query \<Rightarrow> search_state list \<Rightarrow> nat \<Rightarrow> arrow list \<Rightarrow> count_check \<Rightarrow> bool" where
  "count_check_inv Q W k seen B \<longleftrightarrow> count_ok Q (cc_visited B) W k seen \<and> cc_open B = map key_of_state (drop k W) \<and>
     \<not> cc_first B \<and> (\<forall>i < k. \<not> any_hit Q (cc_end B) (W ! i)) \<and>
     hits_ok Q (cc_end B) (cc_visited B) W (optimal_distance B) (path_count B)"

lemma hits_ok_again:
  assumes V: "count_ok Q V W k seen" and i: "i < length W" "key_of_state (W ! i) = x" "depth (W ! i) = d" and d: "d < 2 ^ 32"
    and h: "hits_ok Q e V W opt count"
  shows "hits_ok Q e (cs_add x c V) W opt (if any_hit Q e (W ! i) \<and> opt = of_nat d then count + c else count)"
proof (cases "\<exists>s \<in> set W. any_hit Q e s")
  case True
  then obtain m where m: "m < 2 ^ 32" "nearest_hit Q e W m" "opt = of_nat m" "count = hit_sum Q e V W m"
    using h by (auto simp: hits_ok_def)
  then show ?thesis using True hit_sum_add [OF V i(1,2), of e c m] of_nat_64 [OF m(1) d] i(3)
    unfolding hits_ok_def by (intro if_P [THEN iffD2] exI [of _ m]) auto
next
  case False
  then have "\<not> any_hit Q e (W ! i)" using i(1) by auto
  then show ?thesis using False h by (simp add: hits_ok_def)
qed

lemma hits_ok_new:
  assumes l: "length V = length W" and h: "hits_ok Q e V W opt count" and d: "depth t < 2 ^ 32"
    and le: "\<forall>s \<in> set W. depth s \<le> depth t" and c: "cs_count s = c"
  shows "hits_ok Q e (V @ [s]) (W @ [t])
    (if any_hit Q e t \<and> opt = -1 then of_nat (depth t) else opt)
    (if any_hit Q e t then if opt = -1 then c else if opt = of_nat (depth t) then count + c else count else count)"
proof (cases "\<exists>s \<in> set W. any_hit Q e s")
  case True
  then obtain m where m: "m < 2 ^ 32" "nearest_hit Q e W m" "opt = of_nat m" "count = hit_sum Q e V W m"
    using h by (auto simp: hits_ok_def)
  have "m \<le> depth t" using m(2) le by (auto simp: nearest_hit_def)
  then have n: "nearest_hit Q e (W @ [t]) m" using m(2) by (auto simp: nearest_hit_def)
  have ne: "opt \<noteq> -1" using of_nat_64_max [OF m(1)] m(3) by simp
  have eq: "opt = of_nat (depth t) \<longleftrightarrow> m = depth t" using of_nat_64 [OF m(1) d] m(3) by simp
  have "hit_sum Q e (V @ [s]) (W @ [t]) m =
      (if any_hit Q e t then if opt = -1 then c else if opt = of_nat (depth t) then count + c else count else count)"
    unfolding hit_sum_new [OF l] using ne eq c m(4) by auto
  then show ?thesis using True n m(1,3) ne unfolding hits_ok_def by (intro if_P [THEN iffD2] exI [of _ m]) auto
next
  case False
  then have o: "opt = -1" using h by (simp add: hits_ok_def)
  have z: "hit_sum Q e V W m = 0" for m unfolding hit_sum_def using False by (intro sum.neutral) auto
  show ?thesis
  proof (cases "any_hit Q e t")
    case True
    then have "nearest_hit Q e (W @ [t]) (depth t)" using False by (auto simp: nearest_hit_def)
    then show ?thesis using True o d c z unfolding hits_ok_def hit_sum_new [OF l]
      by (intro if_P [THEN iffD2] exI [of _ "depth t"]) auto
  next
    case no: False
    then show ?thesis using False o by (simp add: hits_ok_def)
  qed
qed

lemma count_check_visit_inv:
  assumes B: "count_check_inv Q W k seen B" and k: "k < length W" and s: "short_walks Q" and a: "a \<in> set (arrows_at Q W k)"
  shows "\<exists>B' new. count_check_visit Q (key_of_state (W ! k)) (fst a) (snd a) B = (B', None) \<and> cc_end B' = cc_end B \<and>
    count_check_inv Q (W @ new) k (seen @ [a]) B' \<and> walk_weight Q (W @ new) k \<le> walk_weight Q W k"
proof -
  let ?V = "cc_visited B" and ?e = "cc_end B" and ?t = "arrow_state (W ! k) a"
  have V: "count_ok Q ?V W k seen" "cc_open B = map key_of_state (drop k W)" "\<not> cc_first B"
    "\<forall>i < k. \<not> any_hit Q ?e (W ! i)" "hits_ok Q ?e ?V W (optimal_distance B) (path_count B)"
    using B by (simp_all add: count_check_inv_def)
  have W: "bfs_ok Q W k (set seen)" using V(1) by (simp add: count_ok_def)
  have f: "cs_find (key_of_state (W ! k)) ?V = Some (?V ! k)" by (rule count_ok_find [OF V(1) k])
  have lt: "Suc (depth (W ! k)) < 2 ^ 32" by (rule front_depth [OF W k s])
  have "cs_distance (?V ! k) + 1 = of_nat (Suc (depth (W ! k)))" using V(1) k by (simp add: count_ok_def)
  then have d: "ucast (cs_distance (?V ! k) + 1) = (of_nat (Suc (depth (W ! k))) :: 64 word)" using ucast_distance [OF lt] by metis
  have hit: "any_hit Q ?e t \<longleftrightarrow> is_final Q (dfa_to (fst a)) \<and> fst (snd a) = ?e" if "key_of_state t = arrow_key a" for t
    using that by (auto simp: any_hit_def key_of_state_def arrow_key_def)
  obtain V' r where R: "count_arrive (?V ! k) (fst a) (snd a) ?V = (V', r)" by fastforce
  note A = count_arrive_ok [OF V(1) k s a R]
  show ?thesis
  proof (cases r)
    case New
    have w: "walk_weight Q (W @ [?t]) k < walk_weight Q W k"
      using walk_weight_new [of a Q "key_of_state (W ! k)"] a A New k by (simp add: arrows_at_def)
    have ok: "count_ok Q V' (W @ [?t]) k (seen @ [a])" using A unfolding New arrival.case by blast
    have V': "V' = ?V @ [CountState (fst (snd a)) (dfa_to (fst a)) (cs_distance (?V ! k) + 1) (cs_count (?V ! k))]"
      using A unfolding New arrival.case by blast
    have dt: "depth ?t = Suc (depth (W ! k))" by simp
    have le: "\<forall>s \<in> set W. depth s \<le> depth ?t" using W k by (simp add: bfs_ok_def)
    have h: "hits_ok Q ?e V' (W @ [?t])
        (if any_hit Q ?e ?t \<and> optimal_distance B = -1 then of_nat (Suc (depth (W ! k))) else optimal_distance B)
        (if any_hit Q ?e ?t then if optimal_distance B = -1 then cs_count (?V ! k)
          else if optimal_distance B = of_nat (Suc (depth (W ! k))) then path_count B + cs_count (?V ! k) else path_count B
         else path_count B)"
      unfolding V' by (rule hits_ok_new [OF count_ok_lengths [OF V(1)] V(5) lt [folded dt] le count_state.sel(4), unfolded dt])
    have first: "\<forall>i < k. \<not> any_hit Q ?e ((W @ [?t]) ! i)" using V(4) k by (simp add: nth_append)
    let ?B = "B\<lparr>cc_visited := V', cc_open := cc_open B @ [arrow_key a],
      optimal_distance := (if any_hit Q ?e ?t \<and> optimal_distance B = -1 then of_nat (Suc (depth (W ! k))) else optimal_distance B),
      path_count := (if any_hit Q ?e ?t then if optimal_distance B = -1 then cs_count (?V ! k)
          else if optimal_distance B = of_nat (Suc (depth (W ! k))) then path_count B + cs_count (?V ! k) else path_count B
         else path_count B)\<rparr>"
    have "count_check_visit Q (key_of_state (W ! k)) (fst a) (snd a) B = (?B, None)"
      using R New f hit [of ?t] d by (auto simp: count_check_visit_def Let_def arrow_key_def)
    then show ?thesis using ok h first w V(2,3) k
      by (intro exI [of _ ?B] exI [of _ "[?t]"]) (simp add: count_check_inv_def)
  next
    case Again
    then obtain i where i: "i < length W" "key_of_state (W ! i) = arrow_key a" "depth (W ! i) = Suc (depth (W ! k))" using A by auto
    have ok: "count_ok Q V' W k (seen @ [a])" "V' = cs_add (arrow_key a) (cs_count (?V ! k)) ?V"
      using A unfolding Again arrival.case by blast+
    note h = hits_ok_again [OF V(1) i lt V(5), of "cs_count (?V ! k)", folded ok(2)]
    let ?B = "B\<lparr>cc_visited := V',
      path_count := (if any_hit Q ?e (W ! i) \<and> optimal_distance B = of_nat (Suc (depth (W ! k)))
        then path_count B + cs_count (?V ! k) else path_count B)\<rparr>"
    have "count_check_visit Q (key_of_state (W ! k)) (fst a) (snd a) B = (?B, None)"
      using R Again f hit [OF i(2)] d by (auto simp: count_check_visit_def Let_def)
    then show ?thesis using ok(1) h V(2-4) by (intro exI [of _ ?B] exI [of _ "[]"]) (simp add: count_check_inv_def)
  next
    case Longer
    then show ?thesis using A V R f
      by (intro exI [of _ B] exI [of _ "[]"]) (simp add: count_check_visit_def count_check_inv_def Let_def)
  qed
qed

section \<open>The result\<close>

text \<open>When the front is a hit, all counts of its level are exact.\<close>

lemma hit_front:
  assumes V: "count_ok Q V W k seen" and k: "k < length W" and before: "\<forall>i < k. \<not> any_hit Q e (W ! i)"
    and hit: "any_hit Q e (W ! k)" and ok: "hits_ok Q e V W opt count"
  shows "first_accepted Q e (depth (W ! k)) \<and> count = of_nat (accepted_walks Q (depth (W ! k)) e)"
proof -
  let ?d = "depth (W ! k)" and ?F = "{q \<in> state_space Q. is_final Q q}"
  let ?I = "{i. i < length W \<and> any_hit Q e (W ! i) \<and> depth (W ! i) = ?d}"
  have W: "bfs_ok Q W k (set seen)" using V by (simp add: count_ok_def)
  have le: "?d \<le> depth s" if s: "s \<in> set W" "any_hit Q e s" for s
  proof -
    obtain j where j: "j < length W" "s = W ! j" using s(1) by (metis in_set_conv_nth)
    then have "k \<le> j" using before s(2) by (meson not_le)
    then show ?thesis using W j sorted_nth_mono [of "map depth W" k j] by (simp add: bfs_ok_def)
  qed
  have found: "\<exists>i < length W. key_of_state (W ! i) = (q, e) \<and> depth (W ! i) \<le> c"
    if "walks_to Q c (q, e) \<noteq> 0" "c \<le> ?d" for q c
  proof -
    have "(start_key Q, (q, e)) \<in> product_step Q ^^ c" using that(1) unfolding walks_to_zero by simp
    then show ?thesis using bfs_ok_complete [OF W, of "(q, e)" c] that(2) by (auto simp: covered_def in_set_conv_nth)
  qed
  have no: "walks_to Q c (q, e) = 0" if "c < ?d" "is_final Q q" for c q
  proof (rule ccontr)
    assume "walks_to Q c (q, e) \<noteq> 0"
    then obtain i where "i < length W" "key_of_state (W ! i) = (q, e)" "depth (W ! i) \<le> c" using found [of c q] \<open>c < ?d\<close> by auto
    then show False using le [OF nth_mem, of i] that by (auto simp: any_hit_def key_of_state_def)
  qed
  have "count = hit_sum Q e V W ?d"
  proof -
    have "\<exists>s \<in> set W. any_hit Q e s" using hit k nth_mem by blast
    then obtain d where "nearest_hit Q e W d" "count = hit_sum Q e V W d" using ok by (auto simp: hits_ok_def)
    moreover have "d = ?d" using calculation(1) le hit k by (auto simp: nearest_hit_def intro!: antisym)
    ultimately show ?thesis by simp
  qed
  also have "\<dots> = (\<Sum>i \<in> ?I. cs_count (V ! i))"
    unfolding hit_sum_def by (simp add: sum.If_cases Int_def)
  also have "\<dots> = of_nat (\<Sum>i \<in> ?I. walks_to Q ?d (automaton_state (W ! i), e))"
  proof -
    have "cs_count (V ! i) = of_nat (walks_to Q ?d (automaton_state (W ! i), e))" if "i \<in> ?I" for i
      using count_exact [OF V, of i] that by (auto simp: key_of_state_def any_hit_def)
    then show ?thesis by simp
  qed
  also have "(\<Sum>i \<in> ?I. walks_to Q ?d (automaton_state (W ! i), e)) = (\<Sum>q \<in> (\<lambda>i. automaton_state (W ! i)) ` ?I. walks_to Q ?d (q, e))"
  proof -
    have "inj_on (\<lambda>i. automaton_state (W ! i)) ?I"
      using bfs_ok_same_key [OF W] by (intro inj_onI) (auto simp: any_hit_def key_of_state_def)
    then show ?thesis by (simp add: sum.reindex)
  qed
  also have "\<dots> = accepted_walks Q ?d e"
    unfolding accepted_walks_def
  proof (rule sum.mono_neutral_left)
    have "linked Q (W ! i)" if "i < length W" for i using W that by (simp add: bfs_ok_def)
    then show "(\<lambda>i. automaton_state (W ! i)) ` ?I \<subseteq> ?F" using linked_state_space by (auto simp: any_hit_def)
    show "\<forall>q \<in> ?F - (\<lambda>i. automaton_state (W ! i)) ` ?I. walks_to Q ?d (q, e) = 0"
    proof (rule ballI, rule ccontr)
      fix q assume q: "q \<in> ?F - (\<lambda>i. automaton_state (W ! i)) ` ?I" "walks_to Q ?d (q, e) \<noteq> 0"
      then obtain i where i: "i < length W" "key_of_state (W ! i) = (q, e)" "depth (W ! i) \<le> ?d" using found by blast
      then have "any_hit Q e (W ! i)" "automaton_state (W ! i) = q" using q(1) by (auto simp: any_hit_def key_of_state_def)
      then have "i \<in> ?I" using le [OF nth_mem [OF i(1)]] i by auto
      then show False using q(1) \<open>automaton_state (W ! i) = q\<close> by blast
    qed
  qed (simp add: finite_state_space)
  finally have c: "count = of_nat (accepted_walks Q ?d e)" .
  have "key_of_state (W ! k) = (automaton_state (W ! k), e)" using hit by (simp add: any_hit_def key_of_state_def)
  then have "walks_to Q ?d (automaton_state (W ! k), e) \<noteq> 0"
    unfolding walks_to_zero using bfs_ok_walk [OF W nth_mem [OF k]] by simp
  moreover have "automaton_state (W ! k) \<in> ?F"
    using hit linked_state_space W k by (auto simp: any_hit_def bfs_ok_def)
  ultimately have "accepted_walks Q ?d e \<noteq> 0"
    unfolding accepted_walks_def using finite_state_space [of Q] by (auto simp: sum_eq_0_iff)
  moreover have "accepted_walks Q c e = 0" if "c < ?d" for c
    unfolding accepted_walks_def using no [OF that] by (intro sum.neutral) auto
  ultimately show ?thesis using c by (simp add: first_accepted_def)
qed

lemma count_check_loop_spec:
  assumes prov: "provider_ok (provider Q)" and s: "short_walks Q"
  shows "count_check_inv Q W k [] B \<Longrightarrow> \<exists>B' r. count_check_loop Q B = Some (B', r) \<and> cc_open B' = [] \<and> \<not> cc_first B' \<and>
    (case r of
       None \<Rightarrow> \<exists>W. bfs_ok Q W (length W) {} \<and> (\<forall>s \<in> set W. \<not> any_hit Q (cc_end B) s)
     | Some c \<Rightarrow> \<exists>d. first_accepted Q (cc_end B) d \<and> c = count_object (of_nat (accepted_walks Q d (cc_end B))))"
proof (induction "walk_weight Q W k" arbitrary: W k B rule: less_induct)
  case less
  note B = less.prems [unfolded count_check_inv_def]
  have W: "bfs_ok Q W k {}" using B by (simp add: count_ok_def)
  show ?case
  proof (cases "k < length W")
    case False
    then have k: "k = length W" using W by (simp add: bfs_ok_def)
    then have "\<forall>s \<in> set W. \<not> any_hit Q (cc_end B) s" using B by (metis in_set_conv_nth)
    then show ?thesis using W k B
      by (intro exI [of _ B] exI [of _ None]) (auto simp: count_check_loop.simps [of _ B])
  next
    case True
    let ?x = "key_of_state (W ! k)"
    let ?P = "\<lambda>zs C. cc_end C = cc_end B \<and>
      (\<exists>new. count_check_inv Q (W @ new) k zs C \<and> walk_weight Q (W @ new) k \<le> walk_weight Q W k)"
    have step: "\<exists>C'. count_check_visit Q ?x (fst a) (snd a) C = (C', None) \<and> ?P (zs @ [a]) C'"
      if P: "?P zs C" and a: "a \<in> set (arrows_from Q ?x)" for zs a C
    proof -
      obtain new where new: "cc_end C = cc_end B" "count_check_inv Q (W @ new) k zs C" "walk_weight Q (W @ new) k \<le> walk_weight Q W k"
        using P by blast
      have "k < length (W @ new)" "(W @ new) ! k = W ! k" using True by (simp_all add: nth_append)
      then obtain C' zs' where "count_check_visit Q ?x (fst a) (snd a) C = (C', None)" "cc_end C' = cc_end C"
        "count_check_inv Q ((W @ new) @ zs') k (zs @ [a]) C'" "walk_weight Q ((W @ new) @ zs') k \<le> walk_weight Q (W @ new) k"
        using count_check_visit_inv [OF new(2) _ s, of a] a by (auto simp: arrows_at_def)
      then show ?thesis using new(1,3) by (intro exI [of _ C'] conjI exI [of _ "new @ zs'"]) simp_all
    qed
    have "?P [] B" using less.prems by (intro conjI exI [of _ "[]"]) simp_all
    then obtain m C where C: "for_transitions (provider Q) (snd ?x) (count_check_visit Q ?x) (transitions_from Q (fst ?x))
        (cc_searches B) B = (m, C, None)" "?P (arrows_from Q ?x) C"
      using for_transitions_total [where P = ?P and x = ?x and s = B and body = "count_check_visit Q ?x", OF prov step]
      by blast
    then obtain new where new: "cc_end C = cc_end B" "count_check_inv Q (W @ new) k (arrows_from Q ?x) C"
      "walk_weight Q (W @ new) k \<le> walk_weight Q W k" by blast
    let ?W = "W @ new" and ?V = "cc_visited C"
    have k: "k < length ?W" "?W ! k = W ! k" using True by (simp_all add: nth_append)
    have V: "count_ok Q ?V ?W k (arrows_at Q ?W k)" "cc_open C = map key_of_state (drop k ?W)" "\<not> cc_first C"
      "\<forall>i < k. \<not> any_hit Q (cc_end B) (?W ! i)" "hits_ok Q (cc_end B) ?V ?W (optimal_distance C) (path_count C)"
      using new(1,2) k by (simp_all add: count_check_inv_def arrows_at_def)
    have f: "cs_find ?x ?V = Some (?V ! k)" using count_ok_find [OF V(1) k(1)] k(2) by simp
    have key: "cs_node (?V ! k) = node_id (W ! k)" "cs_automaton (?V ! k) = automaton_state (W ! k)"
      using count_ok_key [OF V(1) k(1)] k(2) by (simp_all add: cs_key_def key_of_state_def)
    have o: "cc_open B = ?x # map key_of_state (drop (Suc k) W)" using B True by (simp add: Cons_nth_drop_Suc [symmetric])
    show ?thesis
    proof (cases "any_hit Q (cc_end B) (W ! k)")
      case hit: True
      have "first_accepted Q (cc_end B) (depth (W ! k)) \<and> path_count C = of_nat (accepted_walks Q (depth (W ! k)) (cc_end B))"
        using hit_front [OF V(1) k(1) V(4) _ V(5)] hit k(2) by simp
      moreover have "count_check_loop Q B =
          Some (C\<lparr>cc_searches := m, cc_open := [], cc_found := path_count C\<rparr>, Some (count_object (path_count C)))"
        using o C(1) f hit key new(1) by (simp add: count_check_loop.simps [of _ B] Let_def any_hit_def)
      ultimately show ?thesis using V(3) by auto
    next
      case miss: False
      let ?D = "C\<lparr>cc_searches := m, cc_open := tl (cc_open C)\<rparr>"
      have l: "count_check_loop Q B = count_check_loop Q ?D"
        using o C(1) f miss key new(1) by (auto simp: count_check_loop.simps [of _ B] Let_def any_hit_def)
      have w: "walk_weight Q ?W (Suc k) < walk_weight Q W k" using new(3) k(1) by (simp add: walk_weight_def)
      have pop: "count_ok Q ?V ?W (Suc k) []" by (rule count_ok_pop [OF V(1) k(1)])
      have tl: "tl (cc_open C) = map key_of_state (drop (Suc k) ?W)"
        unfolding V(2) by (simp only: drop_Suc tl_drop [symmetric] map_tl)
      have "\<forall>i < Suc k. \<not> any_hit Q (cc_end B) (?W ! i)" using V(4) miss k(2) by (auto simp: less_Suc_eq)
      then have "count_check_inv Q ?W (Suc k) [] ?D" using pop tl V(3,5) new(1) by (simp add: count_check_inv_def)
      moreover have e: "cc_end ?D = cc_end B" using new(1) by simp
      ultimately show ?thesis unfolding l using less.hyps [OF w, of ?D] unfolding e by blast
    qed
  qed
qed

definition count_check_fresh :: "path_query \<Rightarrow> count_check \<Rightarrow> bool" where
  "count_check_fresh Q B \<longleftrightarrow> cc_first B \<and> cc_open B = [start_key Q] \<and> cc_visited B = [cs_start Q] \<and>
     cc_end B = end_object_id Q \<and> optimal_distance B = -1 \<and> path_count B = 0"

lemma count_check_fresh_begin: "count_check_fresh Q (count_check_begin Q count_check_new)"
  by (simp add: count_check_fresh_def count_check_begin_def count_check_new_def cs_emplace_def cs_find_def)

lemma count_check_fresh_reset: "count_check_fresh Q (count_check_reset Q B)"
  by (simp add: count_check_fresh_def count_check_reset_def cs_emplace_def cs_find_def)

lemma count_check_drained: "\<not> cc_first B \<Longrightarrow> cc_open B = [] \<Longrightarrow> drains (count_check_next Q) B [] B"
  by (rule drains_Nil) (simp add: count_check_next_def count_check_loop.simps [of _ B])

lemma start_accepted:
  assumes "is_final Q (start_state (automaton Q))"
  shows "accepted_walks Q 0 (start_object_id Q) = 1"
proof -
  have "accepted_walks Q 0 (start_object_id Q) =
      (\<Sum>q \<in> {q \<in> state_space Q. is_final Q q}. if q = start_state (automaton Q) then 1 else 0)"
    unfolding accepted_walks_def by (rule sum.cong) (simp_all add: walks_to_0 start_key_def)
  then show ?thesis using assms finite_state_space [of Q] by (simp add: state_space_def)
qed

lemma count_check_results:
  assumes prov: "provider_ok (provider Q)" and s: "short_walks Q" and B: "count_check_fresh Q B"
    and ex: "node_exists Q (start_object_id Q)"
  shows "\<exists>rs B'. drains (count_check_next Q) B rs B' \<and> length rs \<le> 1 \<and>
    (\<forall>c \<in> set rs. \<exists>d. first_accepted Q (end_object_id Q) d \<and> c = count_object (of_nat (accepted_walks Q d (end_object_id Q)))) \<and>
    (rs = [] \<longrightarrow> (\<exists>W. bfs_ok Q W (length W) {} \<and> (\<forall>s \<in> set W. \<not> any_hit Q (end_object_id Q) s)))"
proof -
  let ?e = "end_object_id Q" and ?T = "B\<lparr>cc_first := False\<rparr>"
  have V: "cc_first B" "cc_open B = [start_key Q]" "cc_visited B = [cs_start Q]" "cc_end B = ?e" "optimal_distance B = -1"
    "path_count B = 0" using B by (simp_all add: count_check_fresh_def)
  have f: "cs_find (start_key Q) [cs_start Q] = Some (cs_start Q)"
    by (simp add: cs_find_def cs_key_def cs_start_def start_key_def)
  have n: "cs_node (cs_start Q) = start_object_id Q" "cs_count (cs_start Q) = 1" by (simp_all add: cs_start_def)
  have hit: "any_hit Q ?e (start_state_of Q) \<longleftrightarrow> is_final Q (start_state (automaton Q)) \<and> start_object_id Q = ?e"
    by (simp add: any_hit_def start_state_of_def)
  show ?thesis
  proof (cases "any_hit Q ?e (start_state_of Q)")
    case True
    let ?U = "?T\<lparr>path_count := 1, cc_open := [], cc_found := 1\<rparr>"
    have "count_check_next Q B = Some (?U, Some (count_object 1))"
      using V ex f n True [unfolded hit] by (simp add: count_check_next_def Let_def)
    then have "drains (count_check_next Q) B [count_object 1] ?U" using count_check_drained [of ?U Q] by (auto intro: drains_Cons)
    moreover have "first_accepted Q ?e 0 \<and> accepted_walks Q 0 ?e = 1"
      using start_accepted [of Q] True [unfolded hit] by (auto simp: first_accepted_def)
    ultimately show ?thesis
      by (intro exI [of _ "[count_object 1]"] exI [of _ ?U]) (auto intro!: exI [of _ "0::nat"])
  next
    case False
    have nx: "count_check_next Q B = count_check_loop Q ?T"
      using V ex f n False [unfolded hit] by (auto simp: count_check_next_def Let_def)
    have "count_check_inv Q [start_state_of Q] 0 [] ?T"
      using V False count_ok_start [of Q] by (simp add: count_check_inv_def hits_ok_def)
    from count_check_loop_spec [OF prov s this] obtain B' r where L: "count_check_loop Q ?T = Some (B', r)" "cc_open B' = []" "\<not> cc_first B'"
      "case r of
         None \<Rightarrow> \<exists>W. bfs_ok Q W (length W) {} \<and> (\<forall>s \<in> set W. \<not> any_hit Q (cc_end ?T) s)
       | Some c \<Rightarrow> \<exists>d. first_accepted Q (cc_end ?T) d \<and> c = count_object (of_nat (accepted_walks Q d (cc_end ?T)))" by blast
    have e: "cc_end ?T = ?e" using V by simp
    show ?thesis
    proof (cases r)
      case None
      then have "drains (count_check_next Q) B [] B'" using nx L(1) by (intro drains_Nil) simp
      then show ?thesis using L(4) [unfolded e] None by (intro exI [of _ "[]"] exI [of _ B']) auto
    next
      case (Some c)
      then have "drains (count_check_next Q) B [c] B'"
        using nx L(1) count_check_drained [OF L(3,2)] by (auto intro: drains_Cons)
      then show ?thesis using L(4) [unfolded e] Some by (intro exI [of _ "[c]"] exI [of _ B']) simp
    qed
  qed
qed

context counted_provider begin

lemma all_count_check:
  assumes Q: "provider Q = prov" "dfa_ok (automaton Q)" "deterministic (automaton Q)"
    and s: "short_walks Q" and B: "count_check_fresh Q B" and ex: "node_exists Q (start_object_id Q)"
  shows "\<exists>B'. drains (count_check_next Q) B
    (if end_object_id Q \<in> answers E Q then [count_object (of_nat (card (shortest_answers E Q (end_object_id Q))))] else []) B'"
proof -
  let ?e = "end_object_id Q"
  have p: "provider_ok (provider Q)" using prov_ok Q(1) by simp
  obtain rs B' where R: "drains (count_check_next Q) B rs B'" "length rs \<le> 1"
    "\<forall>c \<in> set rs. \<exists>d. first_accepted Q ?e d \<and> c = count_object (of_nat (accepted_walks Q d ?e))"
    "rs = [] \<longrightarrow> (\<exists>W. bfs_ok Q W (length W) {} \<and> (\<forall>s \<in> set W. \<not> any_hit Q ?e s))"
    using count_check_results [OF p s B ex] by blast
  show ?thesis
  proof (cases rs)
    case Nil
    then obtain W where W: "bfs_ok Q W (length W) {}" "\<forall>s \<in> set W. \<not> any_hit Q ?e s" using R(4) by blast
    then have "?e \<notin> final_nodes Q W" by (auto simp: final_nodes_def any_hit_def)
    then have "?e \<notin> answers E Q" using final_nodes_iff [OF W(1)] reach_answers [OF Q(1,2)] by blast
    then show ?thesis using R(1) Nil by auto
  next
    case (Cons c cs)
    then obtain d where d: "first_accepted Q ?e d" "c = count_object (of_nat (accepted_walks Q d ?e))" using R(3) by auto
    then obtain q where q: "q \<in> {q \<in> state_space Q. is_final Q q}" "walks_to Q d (q, ?e) \<noteq> 0"
      unfolding first_accepted_def accepted_walks_def by (meson sum.neutral)
    then have "(start_key Q, (q, ?e)) \<in> (product_step Q)\<^sup>*" unfolding walks_to_zero by (auto intro: relpow_imp_rtrancl)
    then have "?e \<in> answers E Q" using reach_answers [OF Q(1,2)] q(1) by blast
    then show ?thesis using R(1,2) Cons d(2) shortest_count [OF Q d(1)] by auto
  qed
qed

end

end
