(* ===== verification/ShortestTree.thy ===== *)
theory ShortestTree
  imports PathTree
begin

text \<open>
  What the searches for all shortest simple paths and all shortest trails share. A state carries its
  distance from the start, a 32-bit number; a report is returned when its distance is the one at which
  its node was first reported. The search is the one of \<open>PathTree\<close> with the distances added, so its
  results are a part of those of the searches for all paths.
\<close>

section \<open>The object\<close>

datatype shortest_state = ShortestState (sh_path: path_state) (sh_automaton: nat) (sh_distance: "32 word")

record shortest_bfs =
  sb_visited :: visited_store
  sb_open :: "shortest_state list"
  sb_cur :: cursor
  sb_first :: bool
  sb_found :: nat
  sb_searches :: nat

text \<open>\<open>BFSEnum\<close> keeps the distance of every node it has reported, \<open>BFSCheck\<close> that of the end node;
  \<open>UINT64_MAX\<close> stands for none.\<close>

record shortest_enum = shortest_bfs +
  optimal_distances :: "object_id \<rightharpoonup> 32 word"

record shortest_check = shortest_bfs +
  sc_optimal :: "64 word"
  sc_end :: object_id

definition fresh_cursor :: cursor where
  "fresh_cursor = \<lparr>iter = NullIndexIterator, current_transition = 0\<rparr>"

definition shortest_enum_new :: shortest_enum where
  "shortest_enum_new = \<lparr>sb_visited = new_visited, sb_open = [], sb_cur = fresh_cursor, sb_first = True,
     sb_found = 0, sb_searches = 0, optimal_distances = Map.empty\<rparr>"

definition shortest_check_new :: shortest_check where
  "shortest_check_new = \<lparr>sb_visited = new_visited, sb_open = [], sb_cur = fresh_cursor, sb_first = True,
     sb_found = 0, sb_searches = 0, sc_optimal = -1, sc_end = 0\<rparr>"

definition shortest_expand ::
  "(shortest_state \<Rightarrow> dfa_transition \<Rightarrow> entry \<Rightarrow> 'a shortest_bfs_scheme \<Rightarrow> 'a shortest_bfs_scheme \<times> path_state option) \<Rightarrow>
     path_query \<Rightarrow> shortest_state \<Rightarrow> 'a shortest_bfs_scheme \<Rightarrow> 'a shortest_bfs_scheme \<times> path_state option" where
  "shortest_expand body Q s B =
     (case expand_cursor (provider Q) (transitions_from Q (sh_automaton s)) (path_node (sh_path s)) True
             (body s) (sb_cur B) (sb_searches B) B of
        (c, k, B', r) \<Rightarrow> (B'\<lparr>sb_cur := c, sb_searches := k\<rparr>, r))"

partial_function (option) shortest_loop ::
  "(shortest_state \<Rightarrow> 'a shortest_bfs_scheme \<Rightarrow> 'a shortest_bfs_scheme \<times> path_state option) \<Rightarrow>
     'a shortest_bfs_scheme \<Rightarrow> ('a shortest_bfs_scheme \<times> path_state option) option" where
  "shortest_loop expand B =
     (case sb_open B of
        [] \<Rightarrow> Some (B, None)
      | current_state # _ \<Rightarrow>
          (case expand current_state B of
             (B', Some reached) \<Rightarrow> Some (B'\<lparr>sb_found := Suc (sb_found B')\<rparr>, Some reached)
           | (B', None) \<Rightarrow> shortest_loop expand (B'\<lparr>sb_open := tl (sb_open B')\<rparr>)))"

declare shortest_loop.simps [code]

interpretation sh: bfs_object sb_open sb_cur sb_searches sb_first "\<lambda>B. visited_safe (sb_visited B)"
  "\<lambda>c k B. B\<lparr>sb_cur := c, sb_searches := k\<rparr>" "\<lambda>B. B\<lparr>sb_open := tl (sb_open B)\<rparr>"
  "\<lambda>B. B\<lparr>sb_found := Suc (sb_found B)\<rparr>" "\<lambda>s. path_node (sh_path s)" sh_automaton
  "shortest_expand :: (shortest_state \<Rightarrow> dfa_transition \<Rightarrow> entry \<Rightarrow> 'a shortest_bfs_scheme \<Rightarrow> 'a shortest_bfs_scheme \<times> path_state option) \<Rightarrow> _"
  shortest_loop
proof unfold_locales
  fix B :: "'a shortest_bfs_scheme" and body f and Q and s
  show "shortest_expand body Q s B =
    (case expand_cursor (provider Q) (transitions_from Q (sh_automaton s)) (path_node (sh_path s)) True
            (body s) (sb_cur B) (sb_searches B) B of
       (c, k, B', r) \<Rightarrow> (B'\<lparr>sb_cur := c, sb_searches := k\<rparr>, r))"
    by (rule shortest_expand_def)
  show "shortest_loop f B =
    (case sb_open B of
       [] \<Rightarrow> Some (B, None)
     | s # _ \<Rightarrow>
         (case f s B of
            (B', Some p) \<Rightarrow> Some (B'\<lparr>sb_found := Suc (sb_found B')\<rparr>, Some p)
          | (B', None) \<Rightarrow> shortest_loop f (B'\<lparr>sb_open := tl (sb_open B')\<rparr>)))"
    by (simp only: shortest_loop.simps [of f B] prod.case_distrib option.case_distrib cong: list.case_cong prod.case_cong option.case_cong)
qed simp_all

section \<open>The tree with distances\<close>

definition plain_state :: "shortest_state \<Rightarrow> tree_state" where
  "plain_state s = TreeState (sh_path s) (sh_automaton s)"

definition short_kid :: "(tree_state \<Rightarrow> arrow \<Rightarrow> tree_state list) \<Rightarrow> shortest_state \<Rightarrow> arrow \<Rightarrow> shortest_state list" where
  "short_kid kid s a = map (\<lambda>c. ShortestState (path_state c) (tree_automaton c) (sh_distance s + 1)) (kid (plain_state s) a)"

definition short_report ::
  "(tree_state \<Rightarrow> arrow \<Rightarrow> path_state list) \<Rightarrow> shortest_state \<Rightarrow> arrow \<Rightarrow> (path_state \<times> 32 word) list" where
  "short_report rp s a = map (\<lambda>p. (p, sh_distance s + 1)) (rp (plain_state s) a)"

abbreviation path_length :: "path_state \<Rightarrow> nat" where
  "path_length p \<equiv> length (steps_of p)"

text \<open>The distance of a state is the length of its path, modulo \<open>2 ^ 32\<close>.\<close>

definition tagged :: "path_state \<Rightarrow> path_state \<times> 32 word" where
  "tagged p = (p, of_nat (path_length p))"

definition timed :: "shortest_state \<Rightarrow> bool" where
  "timed s \<longleftrightarrow> sh_distance s = of_nat (path_length (sh_path s))"

lemma plain_state_simps [simp]: "path_state (plain_state s) = sh_path s" "tree_automaton (plain_state s) = sh_automaton s"
  by (simp_all add: plain_state_def)

lemma levels_map:
  assumes rank: "ranked kids rank" and rank': "ranked kids' rank'"
    and kids: "\<And>s. P s \<Longrightarrow> map f (kids s) = kids' (f s)" and inv: "\<And>s c. P s \<Longrightarrow> c \<in> set (kids s) \<Longrightarrow> P c"
    and reps: "\<And>s. P s \<Longrightarrow> reps s = map g (reps' (f s))"
  shows "(\<forall>s \<in> set q. P s) \<Longrightarrow> levels kids rank reps q = map g (levels kids' rank' reps' (map f q))"
proof (induction "forest_size kids rank q" arbitrary: q)
  case 0
  then show ?case by (cases q) (simp_all add: forest_size_Cons [OF rank])
next
  case (Suc n)
  then obtain s q' where q: "q = s # q'" by (cases q) auto
  have "n = forest_size kids rank (q' @ kids s)" using Suc.hyps(2) q by (simp add: forest_size_Cons [OF rank])
  moreover have "\<forall>c \<in> set (q' @ kids s). P c" using Suc.prems inv by (auto simp: q)
  ultimately have "levels kids rank reps (q' @ kids s) = map g (levels kids' rank' reps' (map f (q' @ kids s)))"
    using Suc.hyps(1) by blast
  then show ?case
    using Suc.prems kids reps by (simp add: q levels_Cons [OF rank] levels_Cons [OF rank'])
qed

lemma short_kids_of:
  "map plain_state (sh.kids_of Q (short_kid kid) s) = all_kids Q kid (plain_state s)"
  by (simp add: sh.kids_of_def sh.kin_arrows_def all_kids_def tree_arrows_def short_kid_def map_concat comp_def plain_state_def)

lemma short_ranked:
  assumes "ranked (all_kids Q kid) rank"
  shows "ranked (sh.kids_of Q (short_kid kid)) (rank \<circ> plain_state)"
  unfolding ranked_def
proof (intro allI ballI)
  fix s c assume "c \<in> set (sh.kids_of Q (short_kid kid) s)"
  then have "plain_state c \<in> set (all_kids Q kid (plain_state s))" unfolding short_kids_of [symmetric] by simp
  then show "(rank \<circ> plain_state) c < (rank \<circ> plain_state) s" using assms by (simp add: ranked_def)
qed

lemma short_levels:
  assumes rank: "ranked (all_kids Q (step_kid keep admit)) rank" and q: "\<forall>s \<in> set q. timed s"
  shows "levels (sh.kids_of Q (short_kid (step_kid keep admit))) (rank \<circ> plain_state)
      (sh.reports_of Q (short_report (step_report keep Q select))) q =
    map tagged (levels (all_kids Q (step_kid keep admit)) rank (all_reports Q (step_report keep Q select)) (map plain_state q))"
proof (rule levels_map [OF short_ranked [OF rank] rank _ _ _ q])
  fix s assume s: "timed s"
  show "map plain_state (sh.kids_of Q (short_kid (step_kid keep admit)) s) = all_kids Q (step_kid keep admit) (plain_state s)"
    by (rule short_kids_of)
  show "timed c" if "c \<in> set (sh.kids_of Q (short_kid (step_kid keep admit)) s)" for c
    using that s by (auto simp: sh.kids_of_def short_kid_def step_kid_iff timed_def)
  have "short_report (step_report keep Q select) s = (\<lambda>a. map tagged (step_report keep Q select (plain_state s) a))"
    using s by (auto simp: short_report_def step_report_def tagged_def timed_def)
  then show "sh.reports_of Q (short_report (step_report keep Q select)) s =
      map tagged (all_reports Q (step_report keep Q select) (plain_state s))"
    by (simp add: sh.reports_of_def sh.kin_arrows_def all_reports_def tree_arrows_def map_concat comp_def)
qed

section \<open>The reports that are returned\<close>

fun keep_nearest :: "(object_id \<rightharpoonup> 32 word) \<Rightarrow> (path_state \<times> 32 word) list \<Rightarrow> path_state list" where
  "keep_nearest M [] = []"
| "keep_nearest M ((p, d) # ps) =
     (case M (path_node p) of
        None \<Rightarrow> p # keep_nearest (M(path_node p \<mapsto> d)) ps
      | Some b \<Rightarrow> if b = d then p # keep_nearest M ps else keep_nearest M ps)"

definition at_least :: "path_state list \<Rightarrow> path_state \<Rightarrow> bool" where
  "at_least ps p \<longleftrightarrow> (\<forall>p' \<in> set ps. path_node p' = path_node p \<longrightarrow> path_length p \<le> path_length p')"

lemma keep_nearest_filter:
  assumes "sorted (map path_length ps)" "\<forall>p \<in> set ps. path_length p < 2 ^ 32"
    and "\<And>n k. m n = Some k \<Longrightarrow> k < 2 ^ 32 \<and> (\<forall>p \<in> set ps. k \<le> path_length p)"
  shows "keep_nearest (\<lambda>n. map_option of_nat (m n)) (map tagged ps) =
    filter (\<lambda>p. case m (path_node p) of Some k \<Rightarrow> path_length p = k | None \<Rightarrow> at_least ps p) ps"
  using assms
proof (induction ps arbitrary: m)
  case (Cons p ps)
  let ?l = "path_length p"
  have lt: "?l < 2 ^ 32" and le: "\<And>p'. p' \<in> set ps \<Longrightarrow> ?l \<le> path_length p'" using Cons.prems(1,2) by auto
  have t: "tagged p = (p, of_nat ?l)" by (simp add: tagged_def)
  show ?case
  proof (cases "m (path_node p)")
    case (Some k)
    have "(of_nat k :: 32 word) = of_nat ?l \<longleftrightarrow> ?l = k" using of_nat_32 [OF _ lt, of k] Cons.prems(3) [OF Some] by auto
    moreover have "(case m (path_node p') of Some k \<Rightarrow> path_length p' = k | None \<Rightarrow> at_least (p # ps) p') \<longleftrightarrow>
        (case m (path_node p') of Some k \<Rightarrow> path_length p' = k | None \<Rightarrow> at_least ps p')" for p'
      using Some by (auto simp: at_least_def split: option.split)
    moreover have "keep_nearest (\<lambda>n. map_option of_nat (m n)) (map tagged ps) =
        filter (\<lambda>p. case m (path_node p) of Some k \<Rightarrow> path_length p = k | None \<Rightarrow> at_least ps p) ps"
      using Cons.prems by (intro Cons.IH) auto
    ultimately show ?thesis using Some by (simp add: t)
  next
    case None
    let ?m = "m(path_node p \<mapsto> ?l)"
    have e: "(\<lambda>n. map_option of_nat (m n))(path_node p \<mapsto> of_nat ?l) = (\<lambda>n. map_option (of_nat :: nat \<Rightarrow> 32 word) (?m n))"
      by auto
    have "keep_nearest (\<lambda>n. map_option of_nat (?m n)) (map tagged ps) =
        filter (\<lambda>p. case ?m (path_node p) of Some k \<Rightarrow> path_length p = k | None \<Rightarrow> at_least ps p) ps"
      using Cons.prems lt le by (intro Cons.IH) (auto split: if_splits)
    also have "\<dots> = filter (\<lambda>p'. case m (path_node p') of Some k \<Rightarrow> path_length p' = k | None \<Rightarrow> at_least (p # ps) p') ps"
    proof (rule filter_cong [OF refl])
      fix p' assume p': "p' \<in> set ps"
      show "(case ?m (path_node p') of Some k \<Rightarrow> path_length p' = k | None \<Rightarrow> at_least ps p') \<longleftrightarrow>
          (case m (path_node p') of Some k \<Rightarrow> path_length p' = k | None \<Rightarrow> at_least (p # ps) p')"
      proof (cases "path_node p' = path_node p")
        case True
        then show ?thesis using None le [OF p'] le by (force simp: at_least_def)
      next
        case False
        then show ?thesis by (auto simp: at_least_def split: option.split)
      qed
    qed
    finally show ?thesis using None le e by (auto simp: t at_least_def)
  qed
qed simp

lemma keep_nearest_all:
  assumes "sorted (map path_length ps)" "\<forall>p \<in> set ps. path_length p < 2 ^ 32"
  shows "keep_nearest Map.empty (map tagged ps) = filter (at_least ps) ps"
  using keep_nearest_filter [OF assms, of Map.empty] by simp

end
