(* ===== verification/ShortestBfs.thy ===== *)
theory ShortestBfs
  imports ShortestTree SimpleBfs TrailBfs
begin

text \<open>
  The searches for all shortest simple, acyclic and trail paths: \<open>Paths::AllShortestSimple::BFSEnum\<close>
  and \<open>BFSCheck\<close>, \<open>Paths::AllShortestTrails::BFSEnum\<close> and \<open>BFSCheck\<close>. The first argument \<open>cyclic\<close>
  of the searches for simple paths is the template argument.
  Every read of an edge is \<open>get_edge\<close> of the index iterator: \<open>None\<close> is an index without edges, where the code
  throws; the results below are for indexes with edges.
\<close>

section \<open>AllShortestSimple::BFSEnum\<close>

definition simple_root :: "path_query \<Rightarrow> shortest_state" where
  "simple_root Q = ShortestState (simple_start Q) (start_state (automaton Q)) 0"

definition shortest_simple_begin :: "path_query \<Rightarrow> shortest_enum \<Rightarrow> shortest_enum" where
  "shortest_simple_begin Q B = B\<lparr>sb_first := True, sb_cur := (sb_cur B)\<lparr>iter := NullIndexIterator\<rparr>,
     sb_visited := visited_add (sb_visited B), sb_open := sb_open B @ [simple_root Q]\<rparr>"

definition shortest_simple_reset :: "path_query \<Rightarrow> shortest_enum \<Rightarrow> shortest_enum" where
  "shortest_simple_reset Q B = B\<lparr>sb_first := True, sb_cur := (sb_cur B)\<lparr>iter := NullIndexIterator\<rparr>,
     sb_visited := visited_add (visited_clear (sb_visited B)), sb_open := [simple_root Q],
     optimal_distances := Map.empty\<rparr>"

text \<open>\<open>insert\<close> of \<open>robin_hood::unordered_map\<close> keeps an entry that is there.\<close>

definition robin_insert :: "'k \<Rightarrow> 'v \<Rightarrow> ('k \<rightharpoonup> 'v) \<Rightarrow> 'k \<rightharpoonup> 'v" where
  "robin_insert k v M = (case M k of None \<Rightarrow> M(k \<mapsto> v) | Some _ \<Rightarrow> M)"

definition shortest_simple_visit ::
  "bool \<Rightarrow> path_query \<Rightarrow> shortest_state \<Rightarrow> dfa_transition \<Rightarrow> entry \<Rightarrow> shortest_enum \<Rightarrow> shortest_enum \<times> path_state option" where
  "shortest_simple_visit cyclic Q s t x B =
     (let child = PathState (fst x) None (type_id t) (dfa_inverse t) (Some (sh_path s));
          V = visited_add (sb_visited B); d = sh_distance s + 1 in
      if \<not> is_simple_path (Some (sh_path s)) (fst x) then
        if cyclic \<and> is_final Q (dfa_to t) \<and> fst x = start_object_id Q then
          (case optimal_distances B (fst x) of
             Some od \<Rightarrow> if od = d then (B\<lparr>sb_visited := V\<rparr>, Some child) else (B, None)
           | None \<Rightarrow>
               (B\<lparr>optimal_distances := robin_insert (fst x) d (optimal_distances B), sb_visited := V\<rparr>, Some child))
        else (B, None)
      else
        (let B1 = B\<lparr>sb_visited := V, sb_open := sb_open B @ [ShortestState child (dfa_to t) d]\<rparr> in
         if is_final Q (dfa_to t) then
           (case optimal_distances B1 (fst x) of
              Some od \<Rightarrow> if od = d then (B1, Some child) else (B1, None)
            | None \<Rightarrow> (B1\<lparr>optimal_distances := robin_insert (fst x) d (optimal_distances B1)\<rparr>, Some child))
         else (B1, None)))"

definition shortest_simple_expand ::
  "bool \<Rightarrow> path_query \<Rightarrow> shortest_state \<Rightarrow> shortest_enum \<Rightarrow> shortest_enum \<times> path_state option" where
  "shortest_simple_expand cyclic Q = shortest_expand (shortest_simple_visit cyclic Q) Q"

definition shortest_simple_next :: "bool \<Rightarrow> path_query \<Rightarrow> shortest_enum \<Rightarrow> (shortest_enum \<times> path_state option) option" where
  "shortest_simple_next cyclic Q B =
     (let loop = shortest_loop (shortest_simple_expand cyclic Q) in
      if sb_first B then
        (let B1 = B\<lparr>sb_first := False\<rparr>; current = sh_path (hd (sb_open B1)) in
         if \<not> node_exists Q (path_node current) then Some (B1\<lparr>sb_open := tl (sb_open B1)\<rparr>, None)
         else if is_final Q (start_state (automaton Q)) then
           Some (B1\<lparr>optimal_distances := robin_insert (path_node current) 0 (optimal_distances B1),
                    sb_found := Suc (sb_found B1)\<rparr>, Some current)
         else loop B1)
      else loop B)"

section \<open>AllShortestSimple::BFSCheck\<close>

text \<open>\<open>first_next\<close> and \<open>optimal_distance\<close> have their values from the construction of the object.\<close>

definition shortest_simple_check_begin :: "path_query \<Rightarrow> shortest_check \<Rightarrow> shortest_check" where
  "shortest_simple_check_begin Q B = B\<lparr>sb_visited := visited_add (sb_visited B), sb_open := sb_open B @ [simple_root Q],
     sc_end := end_object_id Q, sb_cur := (sb_cur B)\<lparr>iter := NullIndexIterator\<rparr>\<rparr>"

definition shortest_simple_check_reset :: "path_query \<Rightarrow> shortest_check \<Rightarrow> shortest_check" where
  "shortest_simple_check_reset Q B = B\<lparr>sb_visited := visited_add (visited_clear (sb_visited B)), sb_first := True,
     sc_optimal := -1, sb_open := [simple_root Q], sc_end := end_object_id Q,
     sb_cur := (sb_cur B)\<lparr>iter := NullIndexIterator\<rparr>\<rparr>"

definition shortest_simple_check_visit ::
  "bool \<Rightarrow> path_query \<Rightarrow> shortest_state \<Rightarrow> dfa_transition \<Rightarrow> entry \<Rightarrow> shortest_check \<Rightarrow> shortest_check \<times> path_state option" where
  "shortest_simple_check_visit cyclic Q s t x B =
     (let child = PathState (fst x) None (type_id t) (dfa_inverse t) (Some (sh_path s));
          V = visited_add (sb_visited B); d = sh_distance s + 1 in
      if \<not> is_simple_path (Some (sh_path s)) (fst x) then
        if cyclic \<and> is_final Q (dfa_to t) \<and> start_object_id Q = sc_end B \<and> fst x = start_object_id Q then
          if sc_optimal B \<noteq> -1 then
            if sc_optimal B = ucast d then (B\<lparr>sb_visited := V\<rparr>, Some child) else (B, None)
          else (B\<lparr>sc_optimal := ucast d, sb_visited := V\<rparr>, Some child)
        else (B, None)
      else if fst x = sc_end B then
        if is_final Q (dfa_to t) then
          if sc_optimal B \<noteq> -1 then
            if sc_optimal B = ucast d then (B\<lparr>sb_visited := V\<rparr>, Some child) else (B, None)
          else (B\<lparr>sc_optimal := ucast d, sb_visited := V\<rparr>, Some child)
        else (B, None)
      else
        (let B1 = B\<lparr>sb_visited := V\<rparr> in
         if sc_optimal B1 = -1 then (B1\<lparr>sb_open := sb_open B1 @ [ShortestState child (dfa_to t) d]\<rparr>, None)
         else (B1, None)))"

definition shortest_simple_check_expand ::
  "bool \<Rightarrow> path_query \<Rightarrow> shortest_state \<Rightarrow> shortest_check \<Rightarrow> shortest_check \<times> path_state option" where
  "shortest_simple_check_expand cyclic Q = shortest_expand (shortest_simple_check_visit cyclic Q) Q"

definition shortest_simple_check_next ::
  "bool \<Rightarrow> path_query \<Rightarrow> shortest_check \<Rightarrow> (shortest_check \<times> path_state option) option" where
  "shortest_simple_check_next cyclic Q B =
     (let loop = shortest_loop (shortest_simple_check_expand cyclic Q) in
      if sb_first B then
        (let B1 = B\<lparr>sb_first := False\<rparr>; current = sh_path (hd (sb_open B1)) in
         if \<not> node_exists Q (path_node current) then Some (B1\<lparr>sb_open := tl (sb_open B1)\<rparr>, None)
         else if path_node current = sc_end B1 then
           if is_final Q (start_state (automaton Q)) then
             Some (B1\<lparr>sb_found := Suc (sb_found B1), sb_open := []\<rparr>, Some current)
           else if \<not> cyclic then Some (B1\<lparr>sb_open := []\<rparr>, None)
           else loop B1
         else loop B1)
      else loop B)"

section \<open>AllShortestTrails::BFSEnum\<close>

definition trail_root :: "path_query \<Rightarrow> shortest_state" where
  "trail_root Q = ShortestState (trail_start Q) (start_state (automaton Q)) 0"

definition shortest_trail_begin :: "path_query \<Rightarrow> shortest_enum \<Rightarrow> shortest_enum" where
  "shortest_trail_begin Q B = B\<lparr>sb_visited := visited_add (sb_visited B), sb_open := sb_open B @ [trail_root Q],
     sb_cur := (sb_cur B)\<lparr>iter := NullIndexIterator\<rparr>\<rparr>"

definition shortest_trail_reset :: "path_query \<Rightarrow> shortest_enum \<Rightarrow> shortest_enum" where
  "shortest_trail_reset Q B = B\<lparr>sb_visited := visited_add (visited_clear (sb_visited B)), optimal_distances := Map.empty,
     sb_first := True, sb_open := [trail_root Q], sb_cur := (sb_cur B)\<lparr>iter := NullIndexIterator\<rparr>\<rparr>"

definition shortest_trail_visit ::
  "path_query \<Rightarrow> shortest_state \<Rightarrow> dfa_transition \<Rightarrow> entry \<Rightarrow> shortest_enum \<Rightarrow> shortest_enum \<times> path_state option" where
  "shortest_trail_visit Q s t x B =
     (if \<not> is_trail (Some (sh_path s)) (snd x) then (B, None)
      else
        (let child = PathState (fst x) (snd x) (type_id t) (dfa_inverse t) (Some (sh_path s)); d = sh_distance s + 1;
             B1 = B\<lparr>sb_visited := visited_add (sb_visited B), sb_open := sb_open B @ [ShortestState child (dfa_to t) d]\<rparr> in
         if is_final Q (dfa_to t) then
           (case optimal_distances B1 (fst x) of
              Some od \<Rightarrow> if od = d then (B1, Some child) else (B1, None)
            | None \<Rightarrow> (B1\<lparr>optimal_distances := robin_insert (fst x) d (optimal_distances B1)\<rparr>, Some child))
         else (B1, None)))"

definition shortest_trail_expand :: "path_query \<Rightarrow> shortest_state \<Rightarrow> shortest_enum \<Rightarrow> shortest_enum \<times> path_state option" where
  "shortest_trail_expand Q = shortest_expand (shortest_trail_visit Q) Q"

definition shortest_trail_next :: "path_query \<Rightarrow> shortest_enum \<Rightarrow> (shortest_enum \<times> path_state option) option" where
  "shortest_trail_next Q B =
     (let loop = shortest_loop (shortest_trail_expand Q) in
      if sb_first B then
        (let B1 = B\<lparr>sb_first := False\<rparr>; current = sh_path (hd (sb_open B1)) in
         if \<not> node_exists Q (path_node current) then Some (B1\<lparr>sb_open := tl (sb_open B1)\<rparr>, None)
         else if is_final Q (start_state (automaton Q)) then
           Some (B1\<lparr>optimal_distances := robin_insert (path_node current) 0 (optimal_distances B1),
                    sb_found := Suc (sb_found B1)\<rparr>, Some current)
         else loop B1)
      else loop B)"

section \<open>AllShortestTrails::BFSCheck\<close>

definition shortest_trail_check_begin :: "path_query \<Rightarrow> shortest_check \<Rightarrow> shortest_check" where
  "shortest_trail_check_begin Q B = B\<lparr>sb_visited := visited_add (sb_visited B), sb_open := sb_open B @ [trail_root Q],
     sc_end := end_object_id Q, sb_cur := (sb_cur B)\<lparr>iter := NullIndexIterator\<rparr>\<rparr>"

definition shortest_trail_check_reset :: "path_query \<Rightarrow> shortest_check \<Rightarrow> shortest_check" where
  "shortest_trail_check_reset Q B = B\<lparr>sb_visited := visited_add (visited_clear (sb_visited B)), sb_first := True,
     sc_optimal := -1, sb_open := [trail_root Q], sc_end := end_object_id Q,
     sb_cur := (sb_cur B)\<lparr>iter := NullIndexIterator\<rparr>\<rparr>"

definition shortest_trail_check_visit ::
  "path_query \<Rightarrow> shortest_state \<Rightarrow> dfa_transition \<Rightarrow> entry \<Rightarrow> shortest_check \<Rightarrow> shortest_check \<times> path_state option" where
  "shortest_trail_check_visit Q s t x B =
     (if \<not> is_trail (Some (sh_path s)) (snd x) then (B, None)
      else
        (let child = PathState (fst x) (snd x) (type_id t) (dfa_inverse t) (Some (sh_path s));
             V = visited_add (sb_visited B); d = sh_distance s + 1 in
         if is_final Q (dfa_to t) \<and> fst x = sc_end B then
           if sc_optimal B \<noteq> -1 then
             if sc_optimal B = ucast d then (B\<lparr>sb_visited := V\<rparr>, Some child) else (B, None)
           else (B\<lparr>sc_optimal := ucast d, sb_visited := V\<rparr>, Some child)
         else
           (let B1 = B\<lparr>sb_visited := V\<rparr> in
            if sc_optimal B1 = -1 then (B1\<lparr>sb_open := sb_open B1 @ [ShortestState child (dfa_to t) d]\<rparr>, None)
            else (B1, None))))"

definition shortest_trail_check_expand ::
  "path_query \<Rightarrow> shortest_state \<Rightarrow> shortest_check \<Rightarrow> shortest_check \<times> path_state option" where
  "shortest_trail_check_expand Q = shortest_expand (shortest_trail_check_visit Q) Q"

definition shortest_trail_check_next ::
  "path_query \<Rightarrow> shortest_check \<Rightarrow> (shortest_check \<times> path_state option) option" where
  "shortest_trail_check_next Q B =
     (let loop = shortest_loop (shortest_trail_check_expand Q) in
      if sb_first B then
        (let B1 = B\<lparr>sb_first := False\<rparr>; current = sh_path (hd (sb_open B1)) in
         if \<not> node_exists Q (path_node current) then Some (B1\<lparr>sb_open := tl (sb_open B1)\<rparr>, None)
         else if is_final Q (start_state (automaton Q)) \<and> path_node current = sc_end B1 then
           Some (B1\<lparr>sb_found := Suc (sb_found B1), sb_open := []\<rparr>, Some current)
         else loop B1)
      else loop B)"

section \<open>The bodies of the enumerations\<close>

lemmas shortest_body_defs = step_kid_def step_report_def PathTree.extend_def arrow_step_def
  short_kid_def short_report_def robin_insert_def Let_def

lemma shortest_simple_contract:
  "sh.contract True (\<lambda>B. True) (\<lambda>B. True) (\<lambda>B. keep_nearest (optimal_distances B)) (short_kid (simple_kid {}))
     (short_report (simple_report cyclic Q UNIV)) (shortest_simple_visit cyclic Q)"
  unfolding sh.contract_def shortest_body_defs simple_admit_def simple_select_def is_simple_path_iff shortest_simple_visit_def
  by (intro conjI allI impI) (simp_all split: if_splits option.splits, (clarsimp split: option.splits if_splits)+)

lemma shortest_trail_contract:
  "sh.contract True (\<lambda>B. True) (\<lambda>B. True) (\<lambda>B. keep_nearest (optimal_distances B)) (short_kid trail_kid)
     (short_report (trail_report Q UNIV)) (shortest_trail_visit Q)"
  unfolding sh.contract_def shortest_body_defs trail_admit_def trail_select_def is_trail_iff shortest_trail_visit_def
  by (intro conjI allI impI) (simp_all split: if_splits option.splits, (clarsimp split: option.splits if_splits)+)

end
