(* ===== verification/ShortestCorrect.thy ===== *)
theory ShortestCorrect
  imports ShortestBfs
begin

text \<open>
  The enumerations of all shortest simple paths and trails return, of all simple paths or trails that
  match, those that are as short as any other to the same node.
\<close>

section \<open>Shortest answers\<close>

text \<open>Of the answers to each node of \<open>ends\<close>, those of least length.\<close>

definition shortest_of :: "(object_id set \<Rightarrow> step list set) \<Rightarrow> object_id set \<Rightarrow> step list set" where
  "shortest_of ans ends = {xs. \<exists>m \<in> ends. xs \<in> ans {m} \<and> (\<forall>ys \<in> ans {m}. length xs \<le> length ys)}"

abbreviation "nearest_answers E keep Q good \<equiv> shortest_of (good_answers E keep Q good)"

text \<open>What a list of results is when it lists the shortest answers, shortest first.\<close>

definition lists_nearest ::
  "quad set \<Rightarrow> bool \<Rightarrow> path_query \<Rightarrow> (step list \<Rightarrow> bool) \<Rightarrow> object_id set \<Rightarrow> path_state list \<Rightarrow> bool" where
  "lists_nearest E keep Q good ends rs \<longleftrightarrow> steps_of ` set rs = nearest_answers E keep Q good ends \<and>
     (\<forall>r \<in> set rs. path_result E keep Q r) \<and> sorted (map path_length rs)"

lemma result_ends:
  assumes "path_result E keep Q r" "steps_of r \<in> good_answers E keep Q good ends"
  shows "steps_of r \<in> good_answers E keep Q good {m} \<longleftrightarrow> path_node r = m"
proof -
  have w: "step_walk E keep (start_object_id Q) (steps_of r) (path_node r)" using assms(1) by (simp add: path_result_def)
  have g: "map fst (steps_of r) \<in> dfa_lang (automaton Q)" "good (steps_of r)"
    using assms(2) unfolding good_answers_def by blast+
  show ?thesis
  proof
    assume "steps_of r \<in> good_answers E keep Q good {m}"
    then have "step_walk E keep (start_object_id Q) (steps_of r) m" unfolding good_answers_def by blast
    with w show "path_node r = m" by (rule step_walk_unique)
  qed (use w g in \<open>simp add: good_answers_def\<close>)
qed

lemma keep_nearest_results:
  assumes steps: "steps_of ` set all = good_answers E keep Q good ends"
    and res: "\<And>r. r \<in> set all \<Longrightarrow> path_result E keep Q r" and sorted: "sorted (map path_length all)"
  shows "lists_nearest E keep Q good ends (filter (at_least all) all)"
proof -
  have mem: "steps_of r \<in> good_answers E keep Q good {m} \<longleftrightarrow> path_node r = m" if "r \<in> set all" for r m
    using result_ends [OF res [OF that]] steps that by blast
  have ends: "path_node r \<in> ends" if "r \<in> set all" for r
  proof -
    have "steps_of r \<in> good_answers E keep Q good ends" using that steps by blast
    then obtain m where "m \<in> ends" "steps_of r \<in> good_answers E keep Q good {m}"
      unfolding good_answers_def by blast
    then show ?thesis using mem [OF that] by simp
  qed
  have source: "\<exists>r \<in> set all. path_node r = m \<and> steps_of r = ys"
    if "ys \<in> good_answers E keep Q good {m}" "m \<in> ends" for ys m
  proof -
    have "ys \<in> steps_of ` set all" unfolding steps using that by (auto simp: good_answers_def)
    then obtain r where "r \<in> set all" "steps_of r = ys" by blast
    then show ?thesis using mem [of r m] that(1) by blast
  qed
  have "steps_of r \<in> nearest_answers E keep Q good ends" if r: "r \<in> set all" "at_least all r" for r
  proof -
    have "path_length r \<le> length ys" if ys: "ys \<in> good_answers E keep Q good {path_node r}" for ys
      using source [OF ys ends [OF r(1)]] r(2) unfolding at_least_def by metis
    then show ?thesis
      using mem [OF r(1)] ends [OF r(1)] unfolding shortest_of_def by blast
  qed
  moreover have "\<exists>r \<in> set all. at_least all r \<and> steps_of r = xs" if xs: "xs \<in> nearest_answers E keep Q good ends" for xs
  proof -
    obtain m where m: "m \<in> ends" "xs \<in> good_answers E keep Q good {m}"
      "\<forall>ys \<in> good_answers E keep Q good {m}. length xs \<le> length ys"
      using xs by (auto simp: shortest_of_def)
    obtain r where r: "r \<in> set all" "path_node r = m" "steps_of r = xs" using source [OF m(2,1)] by blast
    have "at_least all r" unfolding at_least_def using m(3) mem r by auto
    then show ?thesis using r by blast
  qed
  ultimately have "steps_of ` set (filter (at_least all) all) = nearest_answers E keep Q good ends" by auto
  moreover have "sorted (map path_length (filter (at_least all) all))" using sorted by (rule sorted_filter)
  ultimately show ?thesis using res by (auto simp: lists_nearest_def)
qed

section \<open>The enumerations\<close>

abbreviation "enum_contract keep admit Q select body \<equiv>
  sh.contract True (\<lambda>B. True) (\<lambda>B. True) (\<lambda>B. keep_nearest (optimal_distances B)) (short_kid (step_kid keep admit))
    (short_report (step_report keep Q select)) body"

abbreviation "all_levels keep admit select rank Q p \<equiv>
  levels (all_kids Q (step_kid keep admit)) rank (all_reports Q (step_report keep Q select)) [root_of Q p]"

lemma short_coming_fresh:
  assumes rank: "ranked (all_kids Q (step_kid keep admit)) rank"
    and B: "sb_open B = [ShortestState p (start_state (automaton Q)) 0]" "iter (sb_cur B) = NullIndexIterator" "steps_of p = []"
  shows "sh.coming Q (short_kid (step_kid keep admit)) (short_report (step_report keep Q select)) (rank \<circ> plain_state) B =
    map tagged (all_levels keep admit select rank Q p)"
proof -
  have t: "\<forall>s \<in> set (sb_open B). timed s" using B by (simp add: timed_def)
  have e: "map plain_state (sb_open B) = [root_of Q p]" by (simp add: B plain_state_def root_of_def)
  have "at_end (iter (sb_cur B))" using B(2) by simp
  then show ?thesis
    by (simp only: sh.coming_fresh(1) [OF short_ranked [OF rank]] short_levels [OF rank t] e)
qed

lemma shortest_start_drains:
  assumes prov: "provider_ok (provider Q)" and con: "enum_contract keep admit Q select body"
    and rank: "ranked (all_kids Q (step_kid keep admit)) rank"
    and nxt: "\<And>B. \<not> sb_first B \<Longrightarrow> nxt B = shortest_loop (shortest_expand body Q) B"
    and B: "sb_open B = [ShortestState p (start_state (automaton Q)) 0]" "iter (sb_cur B) = NullIndexIterator"
      "steps_of p = []" "optimal_distances B = Map.empty" "visited_safe (sb_visited B)"
    and first: "nxt B =
      (if c then Some (B\<lparr>sb_first := False, optimal_distances := [path_node p \<mapsto> 0], sb_found := k\<rparr>, Some p)
       else shortest_loop (shortest_expand body Q) (B\<lparr>sb_first := False\<rparr>))"
  shows "\<exists>B'. drains nxt B (keep_nearest Map.empty (map tagged ((if c then [p] else []) @ all_levels keep admit select rank Q p))) B' \<and>
    visited_safe (sb_visited B')"
proof -
  let ?C = "if c then B\<lparr>sb_first := False, optimal_distances := [path_node p \<mapsto> 0], sb_found := k\<rparr>
    else B\<lparr>sb_first := False\<rparr>"
  have C: "sb_open ?C = [ShortestState p (start_state (automaton Q)) 0]" "iter (sb_cur ?C) = NullIndexIterator"
    "\<not> sb_first ?C" "visited_safe (sb_visited ?C)" using B by simp_all
  have poised: "sh.poised Q ?C" using C by (simp add: sh.poised_def cursor_ok_def)
  obtain B' where D: "drains nxt ?C (keep_nearest (optimal_distances ?C) (map tagged (all_levels keep admit select rank Q p))) B'"
    "visited_safe (sb_visited B')"
    using sh.loop_drains [OF prov con short_ranked [OF rank] nxt poised TrueI C(3)] C(4)
    unfolding short_coming_fresh [OF rank C(1,2) B(3)] by blast
  show ?thesis
  proof (cases c)
    case True
    then have "nxt B = Some (?C, Some p)" using first by simp
    then show ?thesis using D True B(3) by (auto simp: tagged_def intro!: drains_Cons)
  next
    case False
    then have e: "nxt ?C = nxt B" using first nxt [OF C(3)] by simp
    from drains_cong [OF e D(1)] D(2) False B(4) show ?thesis by auto
  qed
qed

text \<open>The object after \<open>begin\<close> or \<open>reset\<close>.\<close>

definition shortest_fresh :: "shortest_state \<Rightarrow> shortest_enum \<Rightarrow> bool" where
  "shortest_fresh root B \<longleftrightarrow> sb_first B \<and> sb_open B = [root] \<and> iter (sb_cur B) = NullIndexIterator \<and>
     optimal_distances B = Map.empty \<and> visited_safe (sb_visited B)"

lemma shortest_fresh_begin:
  "shortest_fresh (simple_root Q) (shortest_simple_begin Q shortest_enum_new)"
  "shortest_fresh (trail_root Q) (shortest_trail_begin Q shortest_enum_new)"
  by (simp_all add: shortest_fresh_def shortest_simple_begin_def shortest_trail_begin_def shortest_enum_new_def fresh_cursor_def)

lemma shortest_fresh_reset:
  "visited_safe (sb_visited (shortest_simple_reset Q B)) \<Longrightarrow> shortest_fresh (simple_root Q) (shortest_simple_reset Q B)"
  "visited_safe (sb_visited (shortest_trail_reset Q B)) \<Longrightarrow> shortest_fresh (trail_root Q) (shortest_trail_reset Q B)"
  by (simp_all add: shortest_fresh_def shortest_simple_reset_def shortest_trail_reset_def)

lemma shortest_simple_enum:
  assumes Q: "exact_arrows E False (provider Q)" "dfa_ok (automaton Q)" "provider_ok (provider Q)"
    and ex: "node_exists Q (start_object_id Q)" and B: "shortest_fresh (simple_root Q) B"
    and short: "\<forall>xs \<in> simple_answers E Q cyclic UNIV. length xs < 2 ^ 32"
  shows "\<exists>rs B'. drains (shortest_simple_next cyclic Q) B rs B' \<and> visited_safe (sb_visited B') \<and>
    lists_nearest E False Q (simple_steps cyclic (start_object_id Q)) UNIV rs"
proof -
  let ?c = "is_final Q (start_state (automaton Q))" and ?all = "simple_all Q cyclic (is_final Q (start_state (automaton Q))) {} UNIV"
  have S: "steps_of ` set ?all = simple_answers E Q cyclic UNIV" "\<And>r. r \<in> set ?all \<Longrightarrow> path_result E False Q r"
    "sorted (map path_length ?all)"
    using simple_all_spec [OF Q(1,2), where avoid = "{}" and ends = UNIV and c = ?c and cyclic = cyclic] by auto
  have "\<exists>B'. drains (shortest_simple_next cyclic Q) B (keep_nearest Map.empty (map tagged ?all)) B' \<and> visited_safe (sb_visited B')"
    by (rule shortest_start_drains [OF Q(3) shortest_simple_contract [of Q cyclic] simple_ranked, where k = "Suc (sb_found B)"])
      (use B ex in \<open>simp_all add: shortest_fresh_def shortest_simple_next_def shortest_simple_expand_def simple_root_def
        robin_insert_def Let_def\<close>)
  moreover have "\<forall>r \<in> set ?all. path_length r < 2 ^ 32" using short S(1) by blast
  ultimately show ?thesis using keep_nearest_results [OF S] unfolding keep_nearest_all [OF S(3) \<open>\<forall>r \<in> set ?all. path_length r < 2 ^ 32\<close>] by blast
qed

lemma shortest_trail_enum:
  assumes Q: "exact_arrows E True (provider Q)" "dfa_ok (automaton Q)" "provider_ok (provider Q)"
    and ex: "node_exists Q (start_object_id Q)" and B: "shortest_fresh (trail_root Q) B"
    and short: "\<forall>xs \<in> trail_answers E Q UNIV. length xs < 2 ^ 32"
  shows "\<exists>rs B'. drains (shortest_trail_next Q) B rs B' \<and> visited_safe (sb_visited B') \<and>
    lists_nearest E True Q trail_steps UNIV rs"
proof -
  let ?c = "is_final Q (start_state (automaton Q))" and ?all = "trail_all Q (is_final Q (start_state (automaton Q))) UNIV"
  have S: "steps_of ` set ?all = trail_answers E Q UNIV" "\<And>r. r \<in> set ?all \<Longrightarrow> path_result E True Q r"
    "sorted (map path_length ?all)"
    using trail_all_spec [OF Q(1,2), where ends = UNIV and c = ?c] by auto
  have "\<exists>B'. drains (shortest_trail_next Q) B (keep_nearest Map.empty (map tagged ?all)) B' \<and> visited_safe (sb_visited B')"
    by (rule shortest_start_drains [OF Q(3) shortest_trail_contract trail_ranked, where k = "Suc (sb_found B)"])
      (use B ex in \<open>simp_all add: shortest_fresh_def shortest_trail_next_def shortest_trail_expand_def trail_root_def
        robin_insert_def Let_def\<close>)
  moreover have "\<forall>r \<in> set ?all. path_length r < 2 ^ 32" using short S(1) by blast
  ultimately show ?thesis using keep_nearest_results [OF S] unfolding keep_nearest_all [OF S(3) \<open>\<forall>r \<in> set ?all. path_length r < 2 ^ 32\<close>] by blast
qed

text \<open>The distances need no more than 32 bits when the graph has fewer than \<open>2 ^ 32\<close> nodes or edges.\<close>

definition end_points :: "quad set \<Rightarrow> object_id set" where
  "end_points E = {n. \<exists>t m e. (n, t, m, e) \<in> E \<or> (m, t, n, e) \<in> E}"

definition edge_ids :: "quad set \<Rightarrow> object_id option set" where
  "edge_ids E = (\<lambda>q. Some (snd (snd (snd q)))) ` E"

lemma step_in_node: "step_in E keep n x \<Longrightarrow> snd (snd x) \<in> end_points E"
  unfolding step_in_def crosses_def end_points_def by (auto split: if_splits)

lemma step_in_edge:
  assumes "step_in E True n x" shows "fst (snd x) \<in> edge_ids E"
proof -
  obtain e where e: "fst (snd x) = Some e" "crosses E n (fst x) (snd (snd x)) e" using assms by (auto simp: step_in_def)
  from e(2) obtain q where "q \<in> E" "snd (snd (snd q)) = e" unfolding crosses_def by (cases "snd (fst x)") force+
  then show ?thesis unfolding edge_ids_def e(1) by blast
qed

lemma step_walk_nodes: "step_walk E keep n xs m \<Longrightarrow> set (step_nodes xs) \<subseteq> end_points E"
  by (induction xs arbitrary: n) (auto simp: step_nodes_def dest: step_in_node)

lemma step_walk_edges: "step_walk E True n xs m \<Longrightarrow> set (step_edges xs) \<subseteq> edge_ids E"
  by (induction xs arbitrary: n) (auto simp: step_edges_def dest: step_in_edge)

lemma distinct_short: "distinct ys \<Longrightarrow> set ys \<subseteq> (A :: 'a :: finite set) \<Longrightarrow> length ys \<le> card A"
  using card_mono [of A "set ys"] by (simp add: distinct_card)

lemma simple_answers_short:
  assumes "xs \<in> simple_answers E Q cyclic ends" shows "length xs \<le> card (end_points E)"
proof -
  obtain m where "step_walk E False (start_object_id Q) xs m" using assms by (auto simp: good_answers_def)
  moreover have "distinct (step_nodes xs)" using assms by (auto simp: good_answers_def simple_steps_def)
  ultimately have "length (step_nodes xs) \<le> card (end_points E)" by (intro distinct_short step_walk_nodes)
  then show ?thesis by (simp add: step_nodes_def)
qed

lemma trail_answers_short:
  assumes "xs \<in> trail_answers E Q ends" shows "length xs \<le> card E"
proof -
  obtain m where "step_walk E True (start_object_id Q) xs m" using assms by (auto simp: good_answers_def)
  moreover have "distinct (step_edges xs)" using assms by (auto simp: good_answers_def trail_steps_def)
  ultimately have "length (step_edges xs) \<le> card (edge_ids E)" by (intro distinct_short step_walk_edges)
  moreover have "card (edge_ids E) \<le> card E" unfolding edge_ids_def by (rule card_image_le) simp
  ultimately show ?thesis by (simp add: step_edges_def)
qed

end
