(* ===== verification/ShortestCheck.thy ===== *)
theory ShortestCheck
  imports ShortestCorrect
begin

text \<open>
  The checks for all shortest simple paths and trails to a fixed node. Until the first result the
  search is the one over all paths; then nothing is pushed any more, because the states in the queue
  are those whose extensions can still be as short as the first result.
\<close>

section \<open>The reports that are returned\<close>

fun nearest_to :: "64 word \<Rightarrow> (path_state \<times> 32 word) list \<Rightarrow> path_state list" where
  "nearest_to od [] = []"
| "nearest_to od ((p, d) # ps) =
     (if od = -1 then p # nearest_to (ucast d) ps
      else if od = ucast d then p # nearest_to od ps else nearest_to od ps)"

lemma ucast_32_64 [simp]: "(ucast (d :: 32 word) :: 64 word) = ucast d' \<longleftrightarrow> d = d'"
proof
  assume "(ucast d :: 64 word) = ucast d'"
  then have "(ucast (ucast d :: 64 word) :: 32 word) = ucast (ucast d' :: 64 word)" by simp
  then show "d = d'" by (simp add: ucast_up_ucast_id is_up)
qed simp

lemma ucast_32_max [simp]: "(ucast (d :: 32 word) :: 64 word) \<noteq> -1"
proof
  assume "(ucast d :: 64 word) = -1"
  then have "bit (ucast d :: 64 word) 63" by simp
  then have "bit d 63" by (simp add: bit_ucast_iff)
  then show False using bit_imp_le_length [of d 63] by simp
qed

lemma nearest_to_nearest:
  assumes "\<forall>x \<in> set ps. path_node (fst x) = e"
  shows "nearest_to (case M e of None \<Rightarrow> -1 | Some d \<Rightarrow> ucast d) ps = keep_nearest M ps"
  using assms
proof (induction ps arbitrary: M)
  case (Cons x ps)
  obtain p d where x: "x = (p, d)" by fastforce
  then have e: "path_node p = e" using Cons.prems by simp
  show ?case
  proof (cases "M e")
    case None
    then show ?thesis using Cons.IH [of "M(e \<mapsto> d)"] Cons.prems x e by (simp del: fun_upd_apply) simp
  next
    case (Some d')
    then show ?thesis using Cons.IH [of M] Cons.prems x e by auto
  qed
qed simp

lemma nearest_to_append: "od \<noteq> -1 \<Longrightarrow> nearest_to od (ps @ ps') = nearest_to od ps @ nearest_to od ps'"
  by (induction ps) auto

lemma nearest_to_none: "od \<noteq> -1 \<Longrightarrow> \<forall>x \<in> set ps. od \<noteq> ucast (snd x) \<Longrightarrow> nearest_to od ps = []"
  by (induction ps) auto

section \<open>Levels\<close>

lemma levels_split:
  assumes rank: "ranked kids rank"
  shows "levels kids rank reps (q @ q') = concat (map reps q) @ levels kids rank reps (q' @ concat (map kids q))"
  by (induction q arbitrary: q') (simp_all add: levels_Cons [OF rank])

lemma levels_deep:
  assumes rank: "ranked kids rank" and kids: "\<And>s c. c \<in> set (kids s) \<Longrightarrow> dep c = Suc (dep s)"
    and reps: "\<And>s r. r \<in> set (reps s) \<Longrightarrow> len r = Suc (dep s)"
  shows "(\<forall>s \<in> set q. k \<le> dep s) \<Longrightarrow> r \<in> set (levels kids rank reps q) \<Longrightarrow> k < len r"
proof (induction "forest_size kids rank q" arbitrary: q)
  case 0
  then show ?case by (cases q) (simp_all add: forest_size_Cons [OF rank])
next
  case (Suc n)
  then obtain s q' where q: "q = s # q'" by (cases q) auto
  have n: "n = forest_size kids rank (q' @ kids s)" using Suc.hyps(2) q by (simp add: forest_size_Cons [OF rank])
  have k: "\<forall>c \<in> set (q' @ kids s). k \<le> dep c" using Suc.prems(1) kids by (fastforce simp: q)
  have "r \<in> set (reps s) \<or> r \<in> set (levels kids rank reps (q' @ kids s))"
    using Suc.prems(2) by (simp add: q levels_Cons [OF rank])
  then show ?case using Suc.hyps(1) [OF n k] reps Suc.prems(1) by (fastforce simp: q)
qed

section \<open>The queue\<close>

abbreviation depth_of :: "shortest_state \<Rightarrow> nat" where
  "depth_of s \<equiv> path_length (sh_path s)"

definition queue_ok :: "shortest_state list \<Rightarrow> bool" where
  "queue_ok q \<longleftrightarrow> (\<forall>s \<in> set q. timed s) \<and> by_level depth_of q"

lemma queue_ok_tl: "queue_ok q \<Longrightarrow> queue_ok (tl q)"
proof (cases q)
  case (Cons s q')
  assume ok: "queue_ok q"
  have "depth_of x \<le> Suc (depth_of (hd q'))" if "x \<in> set q'" for x
  proof -
    have "depth_of x \<le> Suc (depth_of s)" using ok that Cons by (simp add: queue_ok_def by_level_def)
    moreover have "depth_of s \<le> depth_of (hd q')" using ok that Cons by (cases q') (simp_all add: queue_ok_def by_level_def)
    ultimately show ?thesis by simp
  qed
  then show ?thesis using ok Cons by (simp add: queue_ok_def by_level_def)
qed simp

lemma queue_ok_push:
  assumes "queue_ok (s # q)" "timed c" "depth_of c = Suc (depth_of s)"
  shows "queue_ok (s # q @ [c])"
  using assms by (auto simp: queue_ok_def by_level_def sorted_append)

lemma timed_child:
  assumes "timed s" shows "timed (ShortestState (PathTree.extend (sh_path s) x) a (sh_distance s + 1))"
  using assms by (simp add: timed_def)

definition seeking :: "path_query \<Rightarrow> shortest_check \<Rightarrow> bool" where
  "seeking Q B \<longleftrightarrow> sc_optimal B = -1 \<and> sc_end B = end_object_id Q \<and> queue_ok (sb_open B)"

definition found_first :: "path_query \<Rightarrow> shortest_check \<Rightarrow> bool" where
  "found_first Q B \<longleftrightarrow> sc_optimal B = ucast (sh_distance (hd (sb_open B)) + 1) \<and> sc_end B = end_object_id Q \<and> queue_ok (sb_open B)"

definition settled :: "path_query \<Rightarrow> shortest_check \<Rightarrow> bool" where
  "settled Q B \<longleftrightarrow> sc_optimal B \<noteq> -1 \<and> sc_end B = end_object_id Q"

abbreviation "seek_contract keep admit Q select body \<equiv>
  sh.contract False (seeking Q) (found_first Q) (\<lambda>B. nearest_to (sc_optimal B)) (short_kid (step_kid keep admit))
    (short_report (step_report keep Q select)) body"

abbreviation "settled_contract keep Q select body \<equiv>
  sh.contract True (settled Q) (settled Q) (\<lambda>B. nearest_to (sc_optimal B)) (\<lambda>_ _. [])
    (short_report (step_report keep Q select)) body"

lemma simple_seek:
  "seek_contract False (simple_admit {end_object_id Q}) Q (simple_select cyclic Q {end_object_id Q}) (shortest_simple_check_visit cyclic Q)"
  unfolding sh.contract_def
proof (intro conjI allI impI)
  fix s t x B B' r assume B: "seeking Q B" "\<exists>q. sb_open B = s # q" "shortest_simple_check_visit cyclic Q s t x B = (B', r)"
  then obtain q where q: "sb_open B = s # q" by blast
  let ?c = "ShortestState (PathTree.extend (sh_path s) (arrow_step False (t, x))) (dfa_to t) (sh_distance s + 1)"
  have push: "queue_ok (s # q @ [?c])"
    using B(1) q by (intro queue_ok_push timed_child) (simp_all add: seeking_def queue_ok_def)
  show "sb_first B' = sb_first B" "visited_safe (sb_visited B) \<Longrightarrow> visited_safe (sb_visited B')"
    "case r of
       None \<Rightarrow> sb_open B' = sb_open B @ short_kid (simple_kid {end_object_id Q}) s (t, x) \<and> seeking Q B' \<and>
         (\<forall>cs. nearest_to (sc_optimal B) (short_report (simple_report cyclic Q {end_object_id Q}) s (t, x) @ cs) =
           nearest_to (sc_optimal B') cs)
     | Some p \<Rightarrow> (sb_open B' = sb_open B @ short_kid (simple_kid {end_object_id Q}) s (t, x) \<or>
           \<not> False \<and> sb_open B' = sb_open B) \<and> found_first Q B' \<and>
         (\<forall>cs. nearest_to (sc_optimal B) (short_report (simple_report cyclic Q {end_object_id Q}) s (t, x) @ cs) =
           p # nearest_to (sc_optimal B') cs)"
    using B(1,3) q push unfolding shortest_simple_check_visit_def shortest_body_defs simple_admit_def simple_select_def
      is_simple_path_iff seeking_def found_first_def
    by (simp_all split: if_splits option.splits, auto)
qed (auto simp: seeking_def found_first_def queue_ok_tl)

lemma trail_seek:
  "seek_contract True trail_admit Q (trail_select {end_object_id Q}) (shortest_trail_check_visit Q)"
  unfolding sh.contract_def
proof (intro conjI allI impI)
  fix s t x B B' r assume B: "seeking Q B" "\<exists>q. sb_open B = s # q" "shortest_trail_check_visit Q s t x B = (B', r)"
  then obtain q where q: "sb_open B = s # q" by blast
  let ?c = "ShortestState (PathTree.extend (sh_path s) (arrow_step True (t, x))) (dfa_to t) (sh_distance s + 1)"
  have push: "queue_ok (s # q @ [?c])"
    using B(1) q by (intro queue_ok_push timed_child) (simp_all add: seeking_def queue_ok_def)
  show "sb_first B' = sb_first B" "visited_safe (sb_visited B) \<Longrightarrow> visited_safe (sb_visited B')"
    "case r of
       None \<Rightarrow> sb_open B' = sb_open B @ short_kid trail_kid s (t, x) \<and> seeking Q B' \<and>
         (\<forall>cs. nearest_to (sc_optimal B) (short_report (trail_report Q {end_object_id Q}) s (t, x) @ cs) =
           nearest_to (sc_optimal B') cs)
     | Some p \<Rightarrow> (sb_open B' = sb_open B @ short_kid trail_kid s (t, x) \<or> \<not> False \<and> sb_open B' = sb_open B) \<and>
         found_first Q B' \<and>
         (\<forall>cs. nearest_to (sc_optimal B) (short_report (trail_report Q {end_object_id Q}) s (t, x) @ cs) =
           p # nearest_to (sc_optimal B') cs)"
    using B(1,3) q push unfolding shortest_trail_check_visit_def shortest_body_defs trail_admit_def trail_select_def
      is_trail_iff seeking_def found_first_def
    by (simp_all split: if_splits option.splits, auto)
qed (auto simp: seeking_def found_first_def queue_ok_tl)

lemma simple_settled:
  "settled_contract False Q (simple_select cyclic Q {end_object_id Q}) (shortest_simple_check_visit cyclic Q)"
  unfolding sh.contract_def shortest_body_defs simple_select_def is_simple_path_iff shortest_simple_check_visit_def settled_def
  by (intro conjI allI impI) (simp_all split: if_splits option.splits, (clarsimp split: option.splits if_splits)+)

lemma trail_settled:
  "settled_contract True Q (trail_select {end_object_id Q}) (shortest_trail_check_visit Q)"
  unfolding sh.contract_def shortest_body_defs trail_select_def is_trail_iff shortest_trail_check_visit_def settled_def
  by (intro conjI allI impI) (simp_all split: if_splits option.splits, (clarsimp split: option.splits if_splits)+)

section \<open>The two phases\<close>

lemma concat_none: "concat (map (\<lambda>_. []) xs) = []"
  by (induction xs) auto

lemma no_kids: "ranked (sh.kids_of Q (\<lambda>_ _. [])) rank" "levels (sh.kids_of Q (\<lambda>_ _. [])) rank reps q = concat (map reps q)"
proof -
  have k: "sh.kids_of Q (\<lambda>_ _. []) = (\<lambda>s. [])" by (auto simp: sh.kids_of_def)
  show r: "ranked (sh.kids_of Q (\<lambda>_ _. [])) rank" by (simp add: k ranked_def)
  show "levels (sh.kids_of Q (\<lambda>_ _. [])) rank reps q = concat (map reps q)"
    using levels_split [OF r, of reps q "[]"] by (simp only: k concat_none append_Nil append_Nil2 levels_Nil)
qed

lemma short_kid_depth: "c \<in> set (short_kid (step_kid keep admit) s a) \<Longrightarrow> depth_of c = Suc (depth_of s)"
  by (auto simp: short_kid_def step_kid_iff)

lemma short_kids_depth: "c \<in> set (sh.kids_of Q (short_kid (step_kid keep admit)) s) \<Longrightarrow> depth_of c = Suc (depth_of s)"
  by (auto simp: sh.kids_of_def dest: short_kid_depth)

lemma short_report_depth:
  "x \<in> set (sh.reports_of Q (short_report (step_report keep Q select)) s) \<Longrightarrow> path_length (fst x) = Suc (depth_of s)"
  by (auto simp: sh.reports_of_def short_report_def step_report_iff)

text \<open>What is still to come after the first result and is not in the queue is too far away.\<close>

lemma rest_too_far:
  assumes rank: "ranked (all_kids Q (step_kid keep admit)) rank"
    and q: "queue_ok (s # q)" and ks: "\<forall>c \<in> set ks. depth_of c = Suc (depth_of s)"
    and od: "od = ucast (sh_distance s + 1)"
    and fs: "fs = levels (sh.kids_of Q (short_kid (step_kid keep admit))) (rank \<circ> plain_state)
        (sh.reports_of Q (short_report (step_report keep Q select))) (q @ ks)"
    and tags: "\<forall>x \<in> set fs. \<exists>r. x = tagged r \<and> path_length r < 2 ^ 32"
  shows "nearest_to od fs = nearest_to od (concat (map (sh.reports_of Q (short_report (step_report keep Q select))) q))"
proof -
  let ?kids = "sh.kids_of Q (short_kid (step_kid keep admit))"
    and ?reps = "sh.reports_of Q (short_report (step_report keep Q select))"
  let ?far = "levels ?kids (rank \<circ> plain_state) ?reps (ks @ concat (map ?kids q))"
  have e: "fs = concat (map ?reps q) @ ?far" unfolding fs by (rule levels_split [OF short_ranked [OF rank]])
  have ge: "depth_of s \<le> depth_of c" if "c \<in> set q" for c using q that by (simp add: queue_ok_def by_level_def)
  have far: "\<forall>c \<in> set (ks @ concat (map ?kids q)). Suc (depth_of s) \<le> depth_of c"
    using ks ge short_kids_depth by fastforce
  have deep: "Suc (depth_of s) < path_length (fst x)" if "x \<in> set ?far" for x
    by (rule levels_deep [where dep = depth_of and len = "\<lambda>x. path_length (fst x)", OF short_ranked [OF rank] _ _ far that])
      (auto dest: short_kids_depth short_report_depth)
  have "od \<noteq> ucast (snd x)" if x: "x \<in> set ?far" for x
  proof -
    have "x \<in> set fs" using x unfolding e by simp
    then obtain r where r: "x = tagged r" "path_length r < 2 ^ 32" using tags by blast
    have lt: "Suc (depth_of s) < path_length r" using deep [OF x] r(1) by (simp add: tagged_def)
    have "sh_distance s + 1 = of_nat (Suc (depth_of s))" using q by (simp add: queue_ok_def timed_def)
    moreover have "(of_nat (Suc (depth_of s)) :: 32 word) \<noteq> of_nat (path_length r)"
      using of_nat_32 [of "Suc (depth_of s)" "path_length r"] lt r(2) by simp
    ultimately have "sh_distance s + 1 \<noteq> of_nat (path_length r)" by metis
    then show ?thesis unfolding od r(1) tagged_def by simp
  qed
  then have "nearest_to od ?far = []" by (intro nearest_to_none) (auto simp: od)
  then show ?thesis unfolding e by (subst nearest_to_append) (simp_all add: od)
qed

lemma shortest_check_drains:
  assumes prov: "provider_ok (provider Q)" and seek: "seek_contract keep admit Q select body"
    and sett: "settled_contract keep Q select body" and rank: "ranked (all_kids Q (step_kid keep admit)) rank"
    and nxt: "\<And>B. \<not> sb_first B \<Longrightarrow> nxt B = shortest_loop (shortest_expand body Q) B"
    and C: "sb_open C = [ShortestState p (start_state (automaton Q)) 0]" "iter (sb_cur C) = NullIndexIterator"
      "steps_of p = []" "sc_optimal C = -1" "sc_end C = end_object_id Q" "visited_safe (sb_visited C)" "\<not> sb_first C"
    and short: "\<forall>r \<in> set (all_levels keep admit select rank Q p). path_length r < 2 ^ 32"
  shows "\<exists>B'. drains nxt C (nearest_to (-1) (map tagged (all_levels keep admit select rank Q p))) B' \<and>
    visited_safe (sb_visited B')"
proof -
  let ?kid = "short_kid (step_kid keep admit)" and ?rp = "short_report (step_report keep Q select)"
  let ?L = "map tagged (all_levels keep admit select rank Q p)"
  have poised: "sh.poised Q C" using C by (simp add: sh.poised_def cursor_ok_def)
  have ok: "seeking Q C" using C by (simp add: seeking_def queue_ok_def timed_def by_level_def)
  have L: "sh.coming Q ?kid ?rp (rank \<circ> plain_state) C = ?L" by (rule short_coming_fresh [OF rank C(1,2,3)])
  obtain B r where B: "shortest_loop (shortest_expand body Q) C = Some (B, r)"
    "sh.called False (found_first Q) (\<lambda>B. nearest_to (sc_optimal B)) ?kid ?rp (rank \<circ> plain_state) Q C B r"
    using sh.loop_called [OF prov seek short_ranked [OF rank] poised ok] by blast
  have n: "nxt C = Some (B, r)" using nxt C(7) B(1) by simp
  have B1: "sh.poised Q B" "\<not> sb_first B" "visited_safe (sb_visited B)" using B(2) C(6,7) by (simp_all add: sh.called_def)
  show ?thesis
  proof (cases r)
    case None
    then have "nearest_to (-1) ?L = []" using B(2) C(4) by (simp add: sh.called_def L)
    then show ?thesis using n None B1(3) by (auto intro: drains_Nil)
  next
    case (Some x)
    obtain s q a ks cs fs where F: "found_first Q B" "sb_open B = s # q" "ks = [] \<or> ks = ?kid s a \<and> \<not> False"
      "fs = concat (map (?rp s) (sh.pending_at Q s B)) @ levels (sh.kids_of Q ?kid) (rank \<circ> plain_state) (sh.reports_of Q ?rp)
        (q @ ks @ concat (map (?kid s) (sh.pending_at Q s B)))"
      "?L = cs @ fs" "nearest_to (-1) ?L = x # nearest_to (sc_optimal B) fs"
      using B(2) unfolding sh.called_def Some option.case L C(4) by blast
    have od: "sc_optimal B = ucast (sh_distance s + 1)" "queue_ok (s # q)" "sc_end B = end_object_id Q"
      using F(1,2) by (simp_all add: found_first_def)
    have K: "\<forall>c \<in> set (ks @ concat (map (?kid s) (sh.pending_at Q s B))). depth_of c = Suc (depth_of s)"
      using F(3) by (auto dest: short_kid_depth)
    have tags: "\<forall>y \<in> set (cs @ fs). \<exists>r. y = tagged r \<and> path_length r < 2 ^ 32"
      using short unfolding F(5) [symmetric] by auto
    have tail: "nearest_to (sc_optimal B) (levels (sh.kids_of Q ?kid) (rank \<circ> plain_state) (sh.reports_of Q ?rp)
        (q @ ks @ concat (map (?kid s) (sh.pending_at Q s B)))) =
      nearest_to (sc_optimal B) (concat (map (sh.reports_of Q ?rp) q))"
      by (rule rest_too_far [OF rank od(2) K od(1) refl]) (use tags in \<open>simp add: F(4)\<close>)
    have set: "settled Q B" using od by (simp add: settled_def)
    obtain B' where D: "drains nxt B (nearest_to (sc_optimal B) (sh.coming Q (\<lambda>_ _. []) ?rp (\<lambda>_. 0) B)) B'" "visited_safe (sb_visited B')"
      using sh.loop_drains [OF prov sett no_kids(1) [where rank = "\<lambda>_. 0"] nxt B1(1) set B1(2)] B1(3) by blast
    have "sh.coming Q (\<lambda>_ _. []) ?rp (\<lambda>_. 0) B = concat (map (?rp s) (sh.pending_at Q s B)) @ concat (map (sh.reports_of Q ?rp) q)"
      unfolding sh.coming_def F(2) list.case no_kids(2) by (simp only: concat_none append_Nil2)
    then have "nearest_to (sc_optimal B) (sh.coming Q (\<lambda>_ _. []) ?rp (\<lambda>_. 0) B) = nearest_to (sc_optimal B) fs"
      using tail od(1) by (simp add: F(4) nearest_to_append)
    with D n Some F(6) show ?thesis by (auto intro: drains_Cons)
  qed
qed

section \<open>The results of the checks\<close>

lemma check_lists:
  assumes all: "steps_of ` set ((if c then [p] else []) @ ls) = good_answers E keep Q good {e}"
      "\<And>r. r \<in> set ((if c then [p] else []) @ ls) \<Longrightarrow> path_result E keep Q r"
      "sorted (map path_length ((if c then [p] else []) @ ls))"
    and ls: "\<And>r. r \<in> set ls \<Longrightarrow> steps_of r \<noteq> []" and p: "steps_of p = []"
    and short: "\<forall>xs \<in> good_answers E keep Q good {e}. length xs < 2 ^ 32"
    and run: "\<exists>B'. drains nxt B (if c then [p] else nearest_to (-1) (map tagged ls)) B' \<and> safe B'"
  shows "\<exists>rs B'. drains nxt B rs B' \<and> safe B' \<and> lists_nearest E keep Q good {e} rs"
proof -
  let ?all = "(if c then [p] else []) @ ls"
  have len: "\<forall>r \<in> set ?all. path_length r < 2 ^ 32" using short all(1) by blast
  have node: "path_node r = e" if "r \<in> set ?all" for r
    using result_ends [OF all(2) [OF that]] all(1) that by blast
  have "\<forall>x \<in> set (map tagged ?all). path_node (fst x) = e" using node by (auto simp: tagged_def)
  from nearest_to_nearest [OF this, of Map.empty]
  have "nearest_to (-1) (map tagged ?all) = keep_nearest Map.empty (map tagged ?all)" by (simp only: option.case)
  also have "\<dots> = filter (at_least ?all) ?all" by (rule keep_nearest_all [OF all(3) len])
  finally have n: "nearest_to (-1) (map tagged ?all) = filter (at_least ?all) ?all" .
  have z: "nearest_to (ucast (0 :: 32 word)) (map tagged ls) = []"
  proof (intro nearest_to_none ucast_32_max ballI)
    fix x assume "x \<in> set (map tagged ls)"
    then obtain r where r: "r \<in> set ls" "x = tagged r" by auto
    have "(of_nat 0 :: 32 word) \<noteq> of_nat (path_length r)"
      using of_nat_32 [of 0 "path_length r"] len ls [OF r(1)] r(1) by auto
    then show "(ucast (0 :: 32 word) :: 64 word) \<noteq> ucast (snd x)"
      unfolding r(2) tagged_def snd_conv ucast_32_64 by simp
  qed
  have "(if c then [p] else nearest_to (-1) (map tagged ls)) = nearest_to (-1) (map tagged ?all)"
    using z p by (simp add: tagged_def)
  then show ?thesis using run keep_nearest_results [OF all] unfolding n by auto
qed

definition scheck_fresh :: "shortest_state \<Rightarrow> path_query \<Rightarrow> shortest_check \<Rightarrow> bool" where
  "scheck_fresh root Q B \<longleftrightarrow> sb_first B \<and> sb_open B = [root] \<and> iter (sb_cur B) = NullIndexIterator \<and>
     sc_optimal B = -1 \<and> sc_end B = end_object_id Q \<and> visited_safe (sb_visited B)"

lemma scheck_fresh_begin:
  "scheck_fresh (simple_root Q) Q (shortest_simple_check_begin Q shortest_check_new)"
  "scheck_fresh (trail_root Q) Q (shortest_trail_check_begin Q shortest_check_new)"
  by (simp_all add: scheck_fresh_def shortest_simple_check_begin_def shortest_trail_check_begin_def shortest_check_new_def fresh_cursor_def)

lemma scheck_fresh_reset:
  "visited_safe (sb_visited (shortest_simple_check_reset Q B)) \<Longrightarrow> scheck_fresh (simple_root Q) Q (shortest_simple_check_reset Q B)"
  "visited_safe (sb_visited (shortest_trail_check_reset Q B)) \<Longrightarrow> scheck_fresh (trail_root Q) Q (shortest_trail_check_reset Q B)"
  by (simp_all add: scheck_fresh_def shortest_simple_check_reset_def shortest_trail_check_reset_def)

text \<open>An emptied object returns nothing more.\<close>

lemma emptied_drains:
  assumes "\<And>B. \<not> sb_first B \<Longrightarrow> nxt B = shortest_loop (shortest_expand body Q) B" "\<not> sb_first B" "sb_open B = []"
  shows "drains nxt B [] B"
  using assms by (intro drains_Nil) (simp add: shortest_loop.simps [of _ B])

lemma shortest_simple_check:
  assumes Q: "exact_arrows E False (provider Q)" "dfa_ok (automaton Q)" "provider_ok (provider Q)"
    and ex: "node_exists Q (start_object_id Q)" and B: "scheck_fresh (simple_root Q) Q B"
    and short: "\<forall>xs \<in> simple_answers E Q cyclic {end_object_id Q}. length xs < 2 ^ 32"
  shows "\<exists>rs B'. drains (shortest_simple_check_next cyclic Q) B rs B' \<and> visited_safe (sb_visited B') \<and>
    lists_nearest E False Q (simple_steps cyclic (start_object_id Q)) {end_object_id Q} rs"
proof -
  let ?e = "end_object_id Q" and ?nxt = "shortest_simple_check_next cyclic Q"
  let ?c = "is_final Q (start_state (automaton Q)) \<and> start_object_id Q \<in> {?e}" and ?ls = "simple_levels Q cyclic {?e} {?e}"
  have avoid: "{?e} = {} \<or> (\<exists>e. {?e} = {e} \<and> {?e} = {e})" by blast
  note S = simple_all_spec [OF Q(1,2) avoid, where c = ?c and cyclic = cyclic, OF refl]
  have ls: "steps_of r \<noteq> []" if "r \<in> set ?ls" for r
    using simple_levels_steps [OF Q(1,2) avoid, of cyclic] that by blast
  have nxt: "?nxt B = shortest_loop (shortest_expand (shortest_simple_check_visit cyclic Q) Q) B" if "\<not> sb_first B" for B
    using that by (simp add: shortest_simple_check_next_def shortest_simple_check_expand_def)
  have run: "\<exists>B'. drains ?nxt B (if ?c then [simple_start Q] else nearest_to (-1) (map tagged ?ls)) B' \<and> visited_safe (sb_visited B')"
  proof (cases "?c \<or> \<not> cyclic \<and> start_object_id Q = ?e")
    case True
    let ?C = "B\<lparr>sb_first := False, sb_open := []\<rparr>"
    let ?D = "if ?c then ?C\<lparr>sb_found := Suc (sb_found B)\<rparr> else ?C"
    have "?nxt B = Some (?D, if ?c then Some (simple_start Q) else None)"
      using True B ex by (auto simp: shortest_simple_check_next_def scheck_fresh_def simple_root_def Let_def)
    moreover have "?ls = []" if "\<not> ?c"
    proof -
      have c: "\<not> cyclic" "end_object_id Q = start_object_id Q" "\<not> is_final Q (start_state (automaton Q))"
        using True that by auto
      have "steps_of ` set ?ls = {}"
        unfolding simple_levels_steps [OF Q(1,2) avoid, of cyclic] using acyclic_to_start [OF Q(2) c(2), of E] c by simp
      then show ?thesis by simp
    qed
    moreover have "drains ?nxt ?D [] ?D" by (rule emptied_drains [OF nxt]) simp_all
    ultimately show ?thesis using B
      by (intro exI [of _ ?D] conjI) (auto simp: scheck_fresh_def intro: drains_Nil drains_Cons)
  next
    case False
    let ?C = "B\<lparr>sb_first := False\<rparr>"
    have len: "\<forall>r \<in> set ?ls. path_length r < 2 ^ 32" using simple_levels_steps [OF Q(1,2) avoid, of cyclic] short by blast
    obtain B' where D: "drains ?nxt ?C (nearest_to (-1) (map tagged ?ls)) B'" "visited_safe (sb_visited B')"
      using shortest_check_drains [OF Q(3) simple_seek simple_settled simple_ranked nxt, of ?C "simple_start Q"] B len
      by (auto simp: scheck_fresh_def simple_root_def)
    have e: "?nxt ?C = ?nxt B"
      using False B ex by (auto simp: shortest_simple_check_next_def scheck_fresh_def simple_root_def Let_def)
    show ?thesis using drains_cong [OF e D(1)] D(2) False by auto
  qed
  show ?thesis by (rule check_lists [OF S ls _ short run]) simp_all
qed

lemma shortest_trail_check:
  assumes Q: "exact_arrows E True (provider Q)" "dfa_ok (automaton Q)" "provider_ok (provider Q)"
    and ex: "node_exists Q (start_object_id Q)" and B: "scheck_fresh (trail_root Q) Q B"
    and short: "\<forall>xs \<in> trail_answers E Q {end_object_id Q}. length xs < 2 ^ 32"
  shows "\<exists>rs B'. drains (shortest_trail_check_next Q) B rs B' \<and> visited_safe (sb_visited B') \<and>
    lists_nearest E True Q trail_steps {end_object_id Q} rs"
proof -
  let ?e = "end_object_id Q" and ?nxt = "shortest_trail_check_next Q"
  let ?c = "is_final Q (start_state (automaton Q)) \<and> start_object_id Q \<in> {?e}" and ?ls = "trail_levels Q {?e}"
  note S = trail_all_spec [OF Q(1,2), where c = ?c and ends = "{?e}", OF refl]
  have ls: "steps_of r \<noteq> []" if "r \<in> set ?ls" for r
    using trail_levels_steps [OF Q(1,2)] that by blast
  have nxt: "?nxt B = shortest_loop (shortest_expand (shortest_trail_check_visit Q) Q) B" if "\<not> sb_first B" for B
    using that by (simp add: shortest_trail_check_next_def shortest_trail_check_expand_def)
  have run: "\<exists>B'. drains ?nxt B (if ?c then [trail_start Q] else nearest_to (-1) (map tagged ?ls)) B' \<and> visited_safe (sb_visited B')"
  proof (cases ?c)
    case True
    let ?D = "B\<lparr>sb_first := False, sb_open := [], sb_found := Suc (sb_found B)\<rparr>"
    have "?nxt B = Some (?D, Some (trail_start Q))"
      using True B ex by (auto simp: shortest_trail_check_next_def scheck_fresh_def trail_root_def Let_def)
    moreover have "drains ?nxt ?D [] ?D" by (rule emptied_drains [OF nxt]) simp_all
    ultimately show ?thesis using B True
      by (intro exI [of _ ?D] conjI) (auto simp: scheck_fresh_def intro: drains_Cons)
  next
    case False
    let ?C = "B\<lparr>sb_first := False\<rparr>"
    have len: "\<forall>r \<in> set ?ls. path_length r < 2 ^ 32" using trail_levels_steps [OF Q(1,2)] short by blast
    obtain B' where D: "drains ?nxt ?C (nearest_to (-1) (map tagged ?ls)) B'" "visited_safe (sb_visited B')"
      using shortest_check_drains [OF Q(3) trail_seek trail_settled trail_ranked nxt, of ?C "trail_start Q"] B len
      by (auto simp: scheck_fresh_def trail_root_def)
    have e: "?nxt ?C = ?nxt B"
      using False B ex by (auto simp: shortest_trail_check_next_def scheck_fresh_def trail_root_def Let_def)
    show ?thesis using drains_cong [OF e D(1)] D(2) False by auto
  qed
  show ?thesis by (rule check_lists [OF S ls _ short run]) simp_all
qed

end
