(* ===== verification/ObjectIds.thy ===== *)
theory ObjectIds
  imports Main "HOL-Library.Word"
begin

unbundle bit_operations_syntax

text \<open>
  \<open>ObjectId\<close> (base/ids/object_id.h): a 64-bit word whose upper byte is the type of the object and whose
  lower seven bytes are its value, with the loops that pack the bytes of a string into the value and
  take them out again.
\<close>

section \<open>ObjectId\<close>

definition TYPE_MASK :: "64 word" where "TYPE_MASK = 0xFF00000000000000"
definition VALUE_MASK :: "64 word" where "VALUE_MASK = 0x00FFFFFFFFFFFFFF"

definition MASK_NAMED_NODE_INLINED :: "64 word" where "MASK_NAMED_NODE_INLINED = 0x0000000000000000"
definition MASK_NAMED_NODE_EXTERN :: "64 word" where "MASK_NAMED_NODE_EXTERN = 0x0100000000000000"
definition MASK_IRI_INLINED :: "64 word" where "MASK_IRI_INLINED = 0x0200000000000000"
definition MASK_IRI_EXTERN :: "64 word" where "MASK_IRI_EXTERN = 0x0300000000000000"
definition MASK_STRING_INLINED :: "64 word" where "MASK_STRING_INLINED = 0x0600000000000000"
definition MASK_STRING_EXTERN :: "64 word" where "MASK_STRING_EXTERN = 0x0700000000000000"
definition MASK_STRING_LANG_INLINED :: "64 word" where "MASK_STRING_LANG_INLINED = 0x0800000000000000"
definition MASK_STRING_LANG_EXTERN :: "64 word" where "MASK_STRING_LANG_EXTERN = 0x0900000000000000"
definition MASK_STRING_DATATYPE_INLINED :: "64 word" where "MASK_STRING_DATATYPE_INLINED = 0x0A00000000000000"
definition MASK_STRING_DATATYPE_EXTERN :: "64 word" where "MASK_STRING_DATATYPE_EXTERN = 0x0B00000000000000"
definition MASK_NEGATIVE_INT :: "64 word" where "MASK_NEGATIVE_INT = 0x0C00000000000000"
definition MASK_POSITIVE_INT :: "64 word" where "MASK_POSITIVE_INT = 0x0D00000000000000"
definition MASK_FLOAT :: "64 word" where "MASK_FLOAT = 0x0E00000000000000"
definition MASK_BOOL :: "64 word" where "MASK_BOOL = 0x0F00000000000000"
definition MASK_ANON :: "64 word" where "MASK_ANON = 0x1000000000000000"
definition MASK_EDGE :: "64 word" where "MASK_EDGE = 0x1100000000000000"
definition MASK_PATH :: "64 word" where "MASK_PATH = 0x1200000000000000"
definition MASK_DATETIME :: "64 word" where "MASK_DATETIME = 0x1300000000000000"
definition MASK_DECIMAL_INLINED :: "64 word" where "MASK_DECIMAL_INLINED = 0x1400000000000000"
definition MASK_DECIMAL_EXTERN :: "64 word" where "MASK_DECIMAL_EXTERN = 0x1500000000000000"

lemmas mask_defs = MASK_NAMED_NODE_INLINED_def MASK_NAMED_NODE_EXTERN_def MASK_IRI_INLINED_def MASK_IRI_EXTERN_def
  MASK_STRING_INLINED_def MASK_STRING_EXTERN_def MASK_STRING_LANG_INLINED_def MASK_STRING_LANG_EXTERN_def
  MASK_STRING_DATATYPE_INLINED_def MASK_STRING_DATATYPE_EXTERN_def MASK_NEGATIVE_INT_def MASK_POSITIVE_INT_def
  MASK_FLOAT_def MASK_BOOL_def MASK_ANON_def MASK_EDGE_def MASK_PATH_def MASK_DATETIME_def
  MASK_DECIMAL_INLINED_def MASK_DECIMAL_EXTERN_def

definition NULL_OBJECT_ID :: "64 word" where "NULL_OBJECT_ID = 0"
definition OBJECT_ID_NOT_FOUND :: "64 word" where "OBJECT_ID_NOT_FOUND = -1"

text \<open>A value fits when it leaves the upper byte alone; a type mask is one whose lower bytes are zero.\<close>

definition fits :: "64 word \<Rightarrow> bool" where
  "fits v \<longleftrightarrow> v AND TYPE_MASK = 0"

definition type_mask :: "64 word \<Rightarrow> bool" where
  "type_mask m \<longleftrightarrow> m AND VALUE_MASK = 0"

lemma masks_split: "TYPE_MASK = NOT VALUE_MASK" "VALUE_MASK = NOT TYPE_MASK"
  by (simp_all add: TYPE_MASK_def VALUE_MASK_def)

lemma bit_below_64: "bit (v :: 64 word) n \<Longrightarrow> n < 64"
  using bit_imp_le_length [of v n] by simp

lemma value_bits: "bit VALUE_MASK n \<longleftrightarrow> n < 56"
proof -
  have e: "VALUE_MASK = (mask 56 :: 64 word)" by (simp add: VALUE_MASK_def mask_eq_exp_minus_1)
  have "possible_bit TYPE(64 word) n \<and> n < 56 \<longleftrightarrow> n < 56" by (auto simp: possible_bit_def)
  then show ?thesis unfolding e bit_mask_iff by (auto simp: possible_bit_word)
qed

lemma type_bits: "bit TYPE_MASK n \<longleftrightarrow> 56 \<le> n \<and> n < 64"
  by (auto simp: masks_split(1) bit_not_iff value_bits)

lemma fits_bits: "fits v \<longleftrightarrow> (\<forall>n. bit v n \<longrightarrow> n < 56)"
  unfolding fits_def by (simp add: bit_eq_iff bit_and_iff type_bits) (meson bit_below_64 not_le)

lemma type_mask_bits: "type_mask v \<longleftrightarrow> (\<forall>n. bit v n \<longrightarrow> 56 \<le> n)"
  unfolding type_mask_def by (simp add: bit_eq_iff bit_and_iff value_bits) (meson bit_below_64 not_le)

lemma fits_value: "fits v \<Longrightarrow> v AND VALUE_MASK = v"
  by (rule bit_word_eqI) (auto simp: fits_bits bit_and_iff value_bits)

lemma type_masked: "type_mask m \<Longrightarrow> m AND TYPE_MASK = m"
  by (rule bit_word_eqI) (auto simp: type_mask_bits bit_and_iff type_bits)

lemma split_id:
  assumes "type_mask m" "fits v"
  shows "(v OR m) AND TYPE_MASK = m" "(v OR m) AND VALUE_MASK = v" "(m OR v) AND TYPE_MASK = m" "(m OR v) AND VALUE_MASK = v"
  using assms type_masked [OF assms(1)] fits_value [OF assms(2)]
  by (simp_all add: bit.conj_disj_distrib2 type_mask_def fits_def)

lemma fits_iff: "fits v \<longleftrightarrow> unat v < 2 ^ 56"
proof -
  have "fits v \<longleftrightarrow> take_bit 56 v = v"
    unfolding fits_bits by (simp add: bit_eq_iff bit_take_bit_iff) (meson bit_below_64)
  also have "\<dots> \<longleftrightarrow> take_bit 56 (unat v) = unat v"
    by (metis unsigned_take_bit_eq unsigned_word_eqI)
  also have "\<dots> \<longleftrightarrow> unat v < 2 ^ 56" by (rule take_bit_nat_eq_self_iff)
  finally show ?thesis .
qed

lemma mask_types [simp]:
  "type_mask MASK_NAMED_NODE_INLINED" "type_mask MASK_NAMED_NODE_EXTERN" "type_mask MASK_STRING_INLINED"
  "type_mask MASK_STRING_EXTERN" "type_mask MASK_NEGATIVE_INT" "type_mask MASK_POSITIVE_INT" "type_mask MASK_FLOAT"
  "type_mask MASK_BOOL" "type_mask MASK_ANON" "type_mask MASK_EDGE" "type_mask MASK_PATH"
  by (simp_all add: type_mask_def VALUE_MASK_def mask_defs)

section \<open>Strings in the lower bytes\<close>

text \<open>
  The loop that packs the bytes of a string, the first one highest, starting at bit \<open>shift_size\<close>; a negative
  shift has undefined behaviour and is the value \<open>None\<close>.  The loop that takes \<open>n\<close> bytes out of an id again.
\<close>

fun inline_loop :: "int \<Rightarrow> 64 word \<Rightarrow> 8 word list \<Rightarrow> 64 word option" where
  "inline_loop shift_size res [] = Some res"
| "inline_loop shift_size res (byte # str) = (if shift_size < 0 then None
     else inline_loop (shift_size - 8) (res OR push_bit (nat shift_size) (ucast byte)) str)"

fun unpack_loop :: "nat \<Rightarrow> int \<Rightarrow> 64 word \<Rightarrow> 8 word list" where
  "unpack_loop 0 shift_size i = []"
| "unpack_loop (Suc n) shift_size i = ucast (drop_bit (nat shift_size) i AND 0xFF) # unpack_loop n (shift_size - 8) i"

text \<open>\<open>Inliner\<close> (import/inliner.h) reads a C string, up to its first zero byte.\<close>

definition c_string :: "8 word list \<Rightarrow> 8 word list" where
  "c_string str = takeWhile (\<lambda>b. b \<noteq> 0) str"

definition inline_string :: "8 word list \<Rightarrow> 64 word option" where
  "inline_string str = inline_loop (8 * 6) 0 (c_string str)"

definition inline_string5 :: "8 word list \<Rightarrow> 64 word option" where
  "inline_string5 str = inline_loop (8 * 4) 0 (c_string str)"

definition inline_iri :: "8 word list \<Rightarrow> 64 word option" where
  "inline_iri str = inline_loop (8 * 5) 0 (c_string str)"

text \<open>What the packing loop computes from the top of \<open>k\<close> bytes.\<close>

fun packed :: "nat \<Rightarrow> 8 word list \<Rightarrow> 64 word" where
  "packed (Suc k) (b # bs) = push_bit (8 * k) (ucast b) OR packed k bs"
| "packed k bs = 0"

lemma inline_loop_packed:
  "length bs \<le> k \<Longrightarrow> inline_loop (8 * int k - 8) res bs = Some (res OR packed k bs)"
proof (induction k bs arbitrary: res rule: packed.induct)
  case (1 k b bs)
  have "inline_loop (8 * int k - 8) (res OR push_bit (8 * k) (ucast b)) bs
      = Some ((res OR push_bit (8 * k) (ucast b)) OR packed k bs)"
    using 1 by simp
  then show ?case by (simp add: nat_mult_distrib or.assoc)
qed auto

lemma inline_loop_negative:
  "k < length bs \<Longrightarrow> inline_loop (8 * int k - 8) res bs = None"
proof (induction k arbitrary: res bs)
  case 0
  then show ?case by (cases bs) simp_all
next
  case (Suc k)
  then obtain b bs' where bs: "bs = b # bs'" "k < length bs'" by (cases bs) auto
  then show ?case using Suc.IH [OF bs(2), of "res OR push_bit (8 * k) (ucast b)"] by (simp add: nat_mult_distrib)
qed

lemma packed_bits: "bit (packed k bs) n \<Longrightarrow> n < 8 * k"
proof (induction k bs rule: packed.induct)
  case (1 k b bs)
  from 1(2) consider "bit (push_bit (8 * k) (ucast b) :: 64 word) n" | "bit (packed k bs) n"
    by (auto simp: bit_or_iff)
  then show ?case
  proof cases
    case 1
    then have "8 * k \<le> n" "bit b (n - 8 * k)" by (auto simp: bit_push_bit_iff bit_ucast_iff)
    then show ?thesis using bit_imp_le_length [of b "n - 8 * k"] by simp
  next
    case 2 then show ?thesis using 1(1) by simp
  qed
qed auto

lemma unpack_packed:
  assumes "length bs \<le> k" "k \<le> 8" "\<And>n. n < 8 * k \<Longrightarrow> \<not> bit res n"
  shows "unpack_loop k (8 * int k - 8) (res OR packed k bs) = bs @ replicate (k - length bs) 0"
  using assms
proof (induction k arbitrary: bs res)
  case (Suc k)
  define b where "b = (case bs of [] \<Rightarrow> 0 | b # _ \<Rightarrow> b)"
  define w where "w = res OR packed (Suc k) bs"
  have w: "w = (res OR push_bit (8 * k) (ucast b)) OR packed k (tl bs)"
    unfolding w_def b_def by (cases bs; cases k) (simp_all add: or.assoc)
  have top: "ucast (drop_bit (8 * k) w AND 0xFF) = b"
  proof (rule bit_word_eqI)
    fix n assume "n < LENGTH(8)"
    then have n: "n < 8" by simp
    have F: "bit (0xFF :: 64 word) n" using n by (auto simp: less_Suc_eq numeral_eq_Suc)
    have "\<not> bit res (8 * k + n)" using Suc.prems(3) n by simp
    moreover have "\<not> bit (packed k (tl bs)) (8 * k + n)" using packed_bits [of k "tl bs" "8 * k + n"] by auto
    ultimately show "bit (ucast (drop_bit (8 * k) w AND 0xFF) :: 8 word) n = bit b n"
      using n F Suc.prems(2) by (simp add: w bit_ucast_iff bit_and_iff bit_drop_bit_eq bit_or_iff bit_push_bit_iff)
  qed
  have rest: "unpack_loop k (8 * int k - 8) w = tl bs @ replicate (k - length (tl bs)) 0"
    unfolding w
  proof (rule Suc.IH)
    show "length (tl bs) \<le> k" "k \<le> 8" using Suc.prems by auto
    fix n assume "n < 8 * k"
    then show "\<not> bit (res OR push_bit (8 * k) (ucast b)) n"
      using Suc.prems(3) by (simp add: bit_or_iff bit_push_bit_iff)
  qed
  have "unpack_loop (Suc k) (8 * int (Suc k) - 8) w = b # tl bs @ replicate (k - length (tl bs)) 0"
    using top rest by (simp add: nat_mult_distrib)
  also have "\<dots> = bs @ replicate (Suc k - length bs) 0"
    unfolding b_def by (cases bs) simp_all
  finally show ?case unfolding w_def .
qed simp

end
