(* ===== verification/GraphObjects.thy ===== *)
theory GraphObjects
  imports ObjectIds
begin

unbundle bit_operations_syntax

text \<open>
  Graph objects of the property-graph model: the type tag and the eight bytes of the union of
  graph_object_factory.cc, the ids that elements of a query are turned into
  (\<open>QueryElementToObjectId\<close>, \<open>Inliner\<close>), the objects that ids are turned into
  (\<open>QuadModel::get_graph_object\<close>) and the objects a query element is turned into directly
  (\<open>QueryElementToGraphObject\<close>).  A \<open>std::string\<close> is the list of its bytes, a \<open>float\<close> its 32 bits.
\<close>

section \<open>Graph objects\<close>

datatype graph_object_type =
    NULL_OBJ | NOT_FOUND | NAMED_INLINED | NAMED_EXTERNAL | NAMED_TMP | EDGE | ANON | PATH
  | STR_INLINED | STR_EXTERNAL | STR_TMP | BOOL | INT_OBJ | FLOAT
  | IRI_INLINED | IRI_EXTERNAL | IRI_TMP
  | LITERAL_DATATYPE_INLINED | LITERAL_DATATYPE_EXTERNAL | LITERAL_DATATYPE_TMP
  | LITERAL_LANGUAGE_INLINED | LITERAL_LANGUAGE_EXTERNAL | LITERAL_LANGUAGE_TMP
  | DATETIME | DECIMAL_INLINED | DECIMAL_EXTERNAL | DECIMAL_TMP

definition object_types :: "graph_object_type list" where
  "object_types = [NULL_OBJ, NOT_FOUND, NAMED_INLINED, NAMED_EXTERNAL, NAMED_TMP, EDGE, ANON, PATH,
     STR_INLINED, STR_EXTERNAL, STR_TMP, BOOL, INT_OBJ, FLOAT, IRI_INLINED, IRI_EXTERNAL, IRI_TMP,
     LITERAL_DATATYPE_INLINED, LITERAL_DATATYPE_EXTERNAL, LITERAL_DATATYPE_TMP,
     LITERAL_LANGUAGE_INLINED, LITERAL_LANGUAGE_EXTERNAL, LITERAL_LANGUAGE_TMP,
     DATETIME, DECIMAL_INLINED, DECIMAL_EXTERNAL, DECIMAL_TMP]"

text \<open>The number of a type in the enumeration, by which objects of different types are compared.\<close>

fun type_number :: "graph_object_type \<Rightarrow> nat" where
  "type_number NULL_OBJ = 0"
| "type_number NOT_FOUND = 1"
| "type_number NAMED_INLINED = 2"
| "type_number NAMED_EXTERNAL = 3"
| "type_number NAMED_TMP = 4"
| "type_number EDGE = 5"
| "type_number ANON = 6"
| "type_number PATH = 7"
| "type_number STR_INLINED = 8"
| "type_number STR_EXTERNAL = 9"
| "type_number STR_TMP = 10"
| "type_number BOOL = 11"
| "type_number INT_OBJ = 12"
| "type_number FLOAT = 13"
| "type_number IRI_INLINED = 14"
| "type_number IRI_EXTERNAL = 15"
| "type_number IRI_TMP = 16"
| "type_number LITERAL_DATATYPE_INLINED = 17"
| "type_number LITERAL_DATATYPE_EXTERNAL = 18"
| "type_number LITERAL_DATATYPE_TMP = 19"
| "type_number LITERAL_LANGUAGE_INLINED = 20"
| "type_number LITERAL_LANGUAGE_EXTERNAL = 21"
| "type_number LITERAL_LANGUAGE_TMP = 22"
| "type_number DATETIME = 23"
| "type_number DECIMAL_INLINED = 24"
| "type_number DECIMAL_EXTERNAL = 25"
| "type_number DECIMAL_TMP = 26"

lemma type_of_number: "object_types ! type_number t = t"
  by (cases t) (simp_all add: object_types_def)

lemma type_number_eq [simp]: "type_number t = type_number u \<longleftrightarrow> t = u"
  by (metis type_of_number)

instantiation graph_object_type :: linorder
begin

definition less_eq_graph_object_type :: "graph_object_type \<Rightarrow> graph_object_type \<Rightarrow> bool" where
  "less_eq_graph_object_type t u \<longleftrightarrow> type_number t \<le> type_number u"

definition less_graph_object_type :: "graph_object_type \<Rightarrow> graph_object_type \<Rightarrow> bool" where
  "less_graph_object_type t u \<longleftrightarrow> type_number t < type_number u"

instance
  by standard (auto simp: less_eq_graph_object_type_def less_graph_object_type_def)

end

record graph_object =
  encoded_value :: "64 word"
  object_type :: graph_object_type

text \<open>
  What can go wrong: an exception of the program with its text, or undefined behaviour.
\<close>

datatype object_error = Logic_Exception string | NotSupportedException string | Undefined

text \<open>The union on a little-endian machine: byte \<open>i\<close> is bits \<open>8 i\<close> up to \<open>8 i + 7\<close>.\<close>

fun union_of_bytes :: "8 word list \<Rightarrow> 64 word" where
  "union_of_bytes [] = 0"
| "union_of_bytes (b # bs) = ucast b OR push_bit 8 (union_of_bytes bs)"

fun union_bytes :: "nat \<Rightarrow> 64 word \<Rightarrow> 8 word list" where
  "union_bytes 0 w = []"
| "union_bytes (Suc n) w = ucast w # union_bytes n (drop_bit 8 w)"

text \<open>
  The factory.  A union made from a smaller member leaves the other bytes unspecified: they are the
  parameter \<open>pad\<close>.  \<open>StringTmp\<close> keeps the address of the string.
\<close>

definition make_object :: "64 word \<Rightarrow> graph_object_type \<Rightarrow> graph_object" where
  "make_object v t = \<lparr>encoded_value = v, object_type = t\<rparr>"

definition make_null :: graph_object where
  "make_null = make_object 0 NULL_OBJ"

definition make_not_found :: graph_object where
  "make_not_found = make_object 0 NOT_FOUND"

definition make_named_node_external :: "64 word \<Rightarrow> graph_object" where
  "make_named_node_external external_id = make_object external_id NAMED_EXTERNAL"

definition make_named_node_inlined :: "8 word list \<Rightarrow> graph_object" where
  "make_named_node_inlined c = make_object (union_of_bytes (take 8 c)) NAMED_INLINED"

definition make_named_node_tmp :: "64 word \<Rightarrow> graph_object" where
  "make_named_node_tmp address = make_object address NAMED_TMP"

definition make_anonymous :: "64 word \<Rightarrow> graph_object" where
  "make_anonymous i = make_object i ANON"

definition make_edge :: "64 word \<Rightarrow> graph_object" where
  "make_edge i = make_object i EDGE"

definition make_path :: "64 word \<Rightarrow> graph_object" where
  "make_path i = make_object i PATH"

definition make_int :: "64 word \<Rightarrow> graph_object" where
  "make_int i = make_object i INT_OBJ"

definition make_float :: "64 word \<Rightarrow> 32 word \<Rightarrow> graph_object" where
  "make_float pad f = make_object ((pad AND NOT (mask 32)) OR ucast f) FLOAT"

definition make_bool :: "64 word \<Rightarrow> bool \<Rightarrow> graph_object" where
  "make_bool pad b = make_object ((pad AND NOT (mask 8)) OR of_bool b) BOOL"

definition make_string_external :: "64 word \<Rightarrow> graph_object" where
  "make_string_external external_id = make_object external_id STR_EXTERNAL"

definition make_string_inlined :: "8 word list \<Rightarrow> graph_object" where
  "make_string_inlined c = make_object (union_of_bytes (take 8 c)) STR_INLINED"

definition make_string_tmp :: "64 word \<Rightarrow> graph_object" where
  "make_string_tmp address = make_object address STR_TMP"

lemmas factory_defs = make_null_def make_not_found_def make_named_node_external_def make_named_node_inlined_def
  make_named_node_tmp_def make_anonymous_def make_edge_def make_path_def make_int_def make_float_def make_bool_def
  make_string_external_def make_string_inlined_def make_string_tmp_def make_object_def

text \<open>The interpreter reads a member of the union back.\<close>

definition get_string_inlined :: "graph_object \<Rightarrow> 8 word list" where
  "get_string_inlined g = union_bytes 8 (encoded_value g)"

definition get_bool :: "graph_object \<Rightarrow> bool option" where
  "get_bool g = (let b = ucast (encoded_value g) :: 8 word in
     if b = 0 then Some False else if b = 1 then Some True else None)"

definition get_int :: "graph_object \<Rightarrow> 64 word" where
  "get_int g = encoded_value g"

definition get_float :: "graph_object \<Rightarrow> 32 word" where
  "get_float g = ucast (encoded_value g)"

section \<open>From the elements of a query to ids\<close>

datatype query_element =
    QVar string
  | QNamedNode "8 word list"
  | QAnonymousNode "64 word"
  | QEdge "64 word"
  | QString "8 word list"
  | QBool bool
  | QInt "64 word"
  | QFloat "32 word"

definition get_string_id :: "(8 word list \<Rightarrow> 64 word) \<Rightarrow> 8 word list \<Rightarrow> 64 word \<Rightarrow> 64 word \<Rightarrow> object_error + 64 word" where
  "get_string_id get_str_id str mask_inlined mask_external =
     (if length str < 8
      then (case inline_loop (8 * 6) 0 str of None \<Rightarrow> Inl Undefined | Some res \<Rightarrow> Inr (res OR mask_inlined))
      else Inr (get_str_id str OR mask_external))"

text \<open>
  An integer is negated in place; negating the least one overflows.  The message differs between the
  two copies of the code.
\<close>

definition inline_int_with :: "string \<Rightarrow> 64 word \<Rightarrow> object_error + 64 word" where
  "inline_int_with message int_value =
     (if int_value <s 0 then
        if int_value = 0x8000000000000000 then Inl Undefined
        else let int_value = - int_value in
          if int_value AND 0xFF00000000000000 = 0
          then let int_value = NOT int_value AND 0x00FFFFFFFFFFFFFF in Inr (MASK_NEGATIVE_INT OR int_value)
          else Inl (NotSupportedException message)
      else
        if int_value AND 0xFF00000000000000 = 0 then Inr (MASK_POSITIVE_INT OR int_value)
        else Inl (NotSupportedException message))"

definition inline_int :: "64 word \<Rightarrow> object_error + 64 word" where
  "inline_int int_value = inline_int_with ''BIG INTEGERS NOT SUPPORTED YET'' int_value"

definition query_int_id :: "64 word \<Rightarrow> object_error + 64 word" where
  "query_int_id int_value = inline_int_with ''saving big integers (>= 2^56)'' int_value"

text \<open>The four bytes of a float, the lowest first, are put together again.\<close>

definition inline_float :: "32 word \<Rightarrow> 64 word" where
  "inline_float f = union_of_bytes (union_bytes 4 (ucast f)) OR MASK_FLOAT"

fun to_object_id :: "(8 word list \<Rightarrow> 64 word) \<Rightarrow> query_element \<Rightarrow> object_error + 64 word" where
  "to_object_id get_str_id (QVar v) = Inl (Logic_Exception ''Var cannot be converted into ObjectId'')"
| "to_object_id get_str_id (QNamedNode name) =
     get_string_id get_str_id name MASK_NAMED_NODE_INLINED MASK_NAMED_NODE_EXTERN"
| "to_object_id get_str_id (QString str) = get_string_id get_str_id str MASK_STRING_INLINED MASK_STRING_EXTERN"
| "to_object_id get_str_id (QAnonymousNode i) = Inr (MASK_ANON OR i)"
| "to_object_id get_str_id (QEdge i) = Inr (MASK_EDGE OR i)"
| "to_object_id get_str_id (QBool b) = Inr (MASK_BOOL OR of_bool b)"
| "to_object_id get_str_id (QInt i) = query_int_id i"
| "to_object_id get_str_id (QFloat f) = Inr (inline_float f)"

section \<open>From ids to graph objects\<close>

definition inlined_chars :: "64 word \<Rightarrow> 8 word list" where
  "inlined_chars i = unpack_loop 7 (6 * 8) i @ [0]"

text \<open>The switch over the type of an id, and the function, which looks for the special ids first.\<close>

definition object_of_type :: "64 word \<Rightarrow> 64 word \<Rightarrow> 64 word \<Rightarrow> 64 word \<Rightarrow> object_error + graph_object" where
  "object_of_type pad m unmasked_id i = (
     if m = MASK_STRING_EXTERN then Inr (make_string_external unmasked_id)
     else if m = MASK_STRING_INLINED then Inr (make_string_inlined (inlined_chars i))
     else if m = MASK_POSITIVE_INT then Inr (make_int (i AND 0x00FFFFFFFFFFFFFF))
     else if m = MASK_NEGATIVE_INT then Inr (make_int ((NOT i AND 0x00FFFFFFFFFFFFFF) * -1))
     else if m = MASK_FLOAT then Inr (make_float pad (ucast (union_of_bytes
            [ucast (i AND 0xFF), ucast (drop_bit 8 i AND 0xFF), ucast (drop_bit 16 i AND 0xFF),
             ucast (drop_bit 24 i AND 0xFF)])))
     else if m = MASK_BOOL then (let b = ucast (i AND 0xFF) :: 8 word in
            if b = 0 then Inr (make_bool pad False) else if b = 1 then Inr (make_bool pad True) else Inl Undefined)
     else if m = MASK_NAMED_NODE_EXTERN then Inr (make_named_node_external unmasked_id)
     else if m = MASK_NAMED_NODE_INLINED then Inr (make_named_node_inlined (inlined_chars i))
     else if m = MASK_ANON then Inr (make_anonymous unmasked_id)
     else if m = MASK_EDGE then Inr (make_edge unmasked_id)
     else if m = MASK_PATH then Inr (make_path unmasked_id)
     else Inl (Logic_Exception ''Unhandled Object Type.''))"

definition get_graph_object :: "64 word \<Rightarrow> 64 word \<Rightarrow> object_error + graph_object" where
  "get_graph_object pad i = (
     if i = OBJECT_ID_NOT_FOUND then Inr make_not_found
     else if i = NULL_OBJECT_ID then Inr make_null
     else object_of_type pad (i AND TYPE_MASK) (i AND VALUE_MASK) i)"

section \<open>From the elements of a query to graph objects\<close>

text \<open>\<open>address_of\<close> gives the address of a string that is kept by the query.\<close>

fun to_graph_object :: "64 word \<Rightarrow> (8 word list \<Rightarrow> 64 word) \<Rightarrow> query_element \<Rightarrow> object_error + graph_object" where
  "to_graph_object pad address_of (QVar v) = Inl (Logic_Exception ''Var cannot be converted into GraphObject'')"
| "to_graph_object pad address_of (QNamedNode name) = Inr (
     if length name < 8 then make_named_node_inlined (name @ replicate (8 - length name) 0)
     else make_named_node_tmp (address_of name))"
| "to_graph_object pad address_of (QString str) = Inr (
     if length str < 8 then make_string_inlined (str @ replicate (8 - length str) 0)
     else make_string_tmp (address_of str))"
| "to_graph_object pad address_of (QAnonymousNode i) = Inr (make_anonymous i)"
| "to_graph_object pad address_of (QEdge i) = Inr (make_edge i)"
| "to_graph_object pad address_of (QBool b) = Inr (make_bool pad b)"
| "to_graph_object pad address_of (QInt i) = Inr (make_int i)"
| "to_graph_object pad address_of (QFloat f) = Inr (make_float pad f)"

end
