(* ===== verification/ObjectRoundtrip.thy ===== *)
theory ObjectRoundtrip
  imports GraphObjects
begin

unbundle bit_operations_syntax

text \<open>
  The object an id is turned into reads as the element the id was made from, and so does the object the
  element is turned into directly.
\<close>

section \<open>What an object stands for\<close>

text \<open>
  \<open>text_of\<close> gives the string the string manager holds under an id, \<open>string_at\<close> the string at an address.
\<close>

definition element_of :: "(64 word \<Rightarrow> 8 word list) \<Rightarrow> (64 word \<Rightarrow> 8 word list) \<Rightarrow> graph_object \<Rightarrow> query_element option" where
  "element_of text_of string_at g = (case object_type g of
       NAMED_INLINED \<Rightarrow> Some (QNamedNode (c_string (get_string_inlined g)))
     | NAMED_EXTERNAL \<Rightarrow> Some (QNamedNode (text_of (encoded_value g)))
     | NAMED_TMP \<Rightarrow> Some (QNamedNode (string_at (encoded_value g)))
     | STR_INLINED \<Rightarrow> Some (QString (c_string (get_string_inlined g)))
     | STR_EXTERNAL \<Rightarrow> Some (QString (text_of (encoded_value g)))
     | STR_TMP \<Rightarrow> Some (QString (string_at (encoded_value g)))
     | EDGE \<Rightarrow> Some (QEdge (encoded_value g))
     | ANON \<Rightarrow> Some (QAnonymousNode (encoded_value g))
     | BOOL \<Rightarrow> map_option QBool (get_bool g)
     | INT_OBJ \<Rightarrow> Some (QInt (get_int g))
     | FLOAT \<Rightarrow> Some (QFloat (get_float g))
     | _ \<Rightarrow> None)"

text \<open>The bytes of a named node or a string.\<close>

fun element_text :: "query_element \<Rightarrow> 8 word list option" where
  "element_text (QNamedNode name) = Some name"
| "element_text (QString str) = Some str"
| "element_text e = None"

text \<open>
  A string short enough to be inlined has no zero byte; a longer one is held by the string manager under an
  id of 56 bits.
\<close>

definition storable_string :: "(8 word list \<Rightarrow> 64 word) \<Rightarrow> (64 word \<Rightarrow> 8 word list) \<Rightarrow> 8 word list \<Rightarrow> bool" where
  "storable_string get_str_id text_of str \<longleftrightarrow>
     (if length str < 8 then 0 \<notin> set str else fits (get_str_id str) \<and> text_of (get_str_id str) = str)"

fun storable :: "(8 word list \<Rightarrow> 64 word) \<Rightarrow> (64 word \<Rightarrow> 8 word list) \<Rightarrow> query_element \<Rightarrow> bool" where
  "storable get_str_id text_of (QVar v) \<longleftrightarrow> False"
| "storable get_str_id text_of (QNamedNode name) \<longleftrightarrow> name \<noteq> [] \<and> storable_string get_str_id text_of name"
| "storable get_str_id text_of (QString str) \<longleftrightarrow> storable_string get_str_id text_of str"
| "storable get_str_id text_of (QAnonymousNode i) \<longleftrightarrow> fits i"
| "storable get_str_id text_of (QEdge i) \<longleftrightarrow> fits i"
| "storable get_str_id text_of (QBool b) \<longleftrightarrow> True"
| "storable get_str_id text_of (QInt i) \<longleftrightarrow> \<bar>sint i\<bar> < 2 ^ 56"
| "storable get_str_id text_of (QFloat f) \<longleftrightarrow> True"

section \<open>The bytes of the union\<close>

lemma union_of_bytes_bits: "bit (union_of_bytes bs) n \<Longrightarrow> n < 8 * length bs"
proof (induction bs arbitrary: n)
  case (Cons b bs)
  from Cons.prems consider "bit b n" | "8 \<le> n" "bit (union_of_bytes bs) (n - 8)"
    by (auto simp: bit_or_iff bit_push_bit_iff bit_ucast_iff)
  then show ?case
  proof cases
    case 1 then show ?thesis using bit_imp_le_length [of b n] by simp
  next
    case 2 then show ?thesis using Cons.IH [of "n - 8"] by simp
  qed
qed simp

lemma union_roundtrip: "length bs \<le> 8 \<Longrightarrow> union_bytes (length bs) (union_of_bytes bs) = bs"
proof (induction bs)
  case (Cons b bs)
  let ?w = "union_of_bytes bs"
  have low: "ucast (ucast b OR push_bit 8 ?w :: 64 word) = b"
    by (rule bit_word_eqI) (auto simp: bit_ucast_iff bit_or_iff bit_push_bit_iff)
  have "bit ?w n \<Longrightarrow> n < 56" for n
    using union_of_bytes_bits [of bs n] Cons.prems by simp
  then have high: "drop_bit 8 (ucast b OR push_bit 8 ?w :: 64 word) = ?w"
    by (intro bit_word_eqI) (auto simp: bit_drop_bit_eq bit_or_iff bit_push_bit_iff bit_ucast_iff dest: bit_imp_le_length)
  show ?case using Cons low high by simp
qed simp

lemma inlined_roundtrip:
  assumes "length bs = 8"
  shows "get_string_inlined (make_object (union_of_bytes (take 8 bs)) t) = bs"
  using union_roundtrip [of bs] assms by (simp add: get_string_inlined_def make_object_def)

lemma c_string_padded: "0 \<notin> set str \<Longrightarrow> c_string (str @ replicate n 0) = str"
proof -
  assume s: "0 \<notin> set str"
  then have "\<And>b. b \<in> set str \<Longrightarrow> b \<noteq> 0" by metis
  then have "c_string (str @ replicate n 0) = str @ takeWhile (\<lambda>b. b \<noteq> 0) (replicate n 0)"
    unfolding c_string_def by (intro takeWhile_append2) blast
  also have "takeWhile (\<lambda>b. b \<noteq> 0) (replicate n (0 :: 8 word)) = []" by (cases n) auto
  finally show ?thesis by simp
qed

section \<open>Strings\<close>

lemma packed_7:
  assumes "length str < 8"
  shows "inline_loop (8 * 6) 0 str = Some (packed 7 str)" "fits (packed 7 str)"
  using inline_loop_packed [of str 7 0] assms packed_bits [of 7 str] by (auto simp: fits_bits)

lemma inlined_chars_packed:
  assumes "length str < 8" "type_mask m"
  shows "inlined_chars (packed 7 str OR m) = str @ replicate (8 - length str) 0"
proof -
  have "unpack_loop 7 (8 * int 7 - 8) (m OR packed 7 str) = str @ replicate (7 - length str) 0"
    by (rule unpack_packed) (use assms in \<open>auto simp: type_mask_bits\<close>)
  moreover have "replicate (7 - length str) 0 @ [0] = replicate (8 - length str) (0 :: 8 word)"
  proof -
    have "8 - length str = Suc (7 - length str)" using assms by simp
    then show ?thesis by (simp add: replicate_append_same)
  qed
  ultimately show ?thesis unfolding inlined_chars_def by (simp add: or.commute)
qed

lemma packed_nonzero:
  assumes "str \<noteq> []" "0 \<notin> set str" "length str \<le> 7"
  shows "packed 7 str \<noteq> 0"
proof
  assume "packed 7 str = 0"
  moreover have "unpack_loop 7 (8 * int 7 - 8) (0 OR packed 7 str) = str @ replicate (7 - length str) 0"
    using assms by (intro unpack_packed) auto
  moreover have "hd (unpack_loop 7 (8 * int 7 - 8) (0 OR 0)) = 0" by (simp add: eval_nat_numeral)
  ultimately have "hd str = 0" using assms(1) by simp
  then show False using assms hd_in_set [of str] by simp
qed

section \<open>What an id decodes to\<close>

text \<open>An id with a type other than the two that the special ids belong to is decoded by its type.\<close>

lemma special_ids:
  assumes "type_mask m" "fits v" "m \<noteq> TYPE_MASK"
  shows "v OR m \<noteq> OBJECT_ID_NOT_FOUND" "m \<noteq> 0 \<or> v \<noteq> 0 \<Longrightarrow> v OR m \<noteq> NULL_OBJECT_ID"
proof -
  show "v OR m \<noteq> OBJECT_ID_NOT_FOUND"
  proof
    assume "v OR m = OBJECT_ID_NOT_FOUND"
    then have "(v OR m) AND TYPE_MASK = TYPE_MASK" by (simp add: OBJECT_ID_NOT_FOUND_def)
    then show False using split_id(1) [OF assms(1,2)] assms(3) by simp
  qed
  show "v OR m \<noteq> NULL_OBJECT_ID" if "m \<noteq> 0 \<or> v \<noteq> 0"
  proof
    assume "v OR m = NULL_OBJECT_ID"
    then have "v OR m = 0" by (simp add: NULL_OBJECT_ID_def)
    then show False using split_id(1,2) [OF assms(1,2)] that by simp
  qed
qed


lemma get_graph_object_typed:
  assumes "type_mask m" "fits v" "m \<noteq> TYPE_MASK" "m \<noteq> 0 \<or> v \<noteq> 0"
  shows "get_graph_object pad (v OR m) = object_of_type pad m v (v OR m)"
  using special_ids(1) [OF assms(1-3)] special_ids(2) [OF assms(1-4)] split_id(1,2) [OF assms(1,2)]
  by (simp add: get_graph_object_def)

lemma object_of_type_simps [simp]:
  "object_of_type pad MASK_STRING_EXTERN v i = Inr (make_string_external v)"
  "object_of_type pad MASK_STRING_INLINED v i = Inr (make_string_inlined (inlined_chars i))"
  "object_of_type pad MASK_POSITIVE_INT v i = Inr (make_int (i AND 0x00FFFFFFFFFFFFFF))"
  "object_of_type pad MASK_NEGATIVE_INT v i = Inr (make_int (- (NOT i AND 0x00FFFFFFFFFFFFFF)))"
  "object_of_type pad MASK_NAMED_NODE_EXTERN v i = Inr (make_named_node_external v)"
  "object_of_type pad MASK_NAMED_NODE_INLINED v i = Inr (make_named_node_inlined (inlined_chars i))"
  "object_of_type pad MASK_ANON v i = Inr (make_anonymous v)"
  "object_of_type pad MASK_EDGE v i = Inr (make_edge v)"
  by (simp_all add: object_of_type_def mask_defs)

lemma object_of_type_bool:
  "object_of_type pad MASK_BOOL v i = (let b = ucast (i AND 0xFF) :: 8 word in
     if b = 0 then Inr (make_bool pad False) else if b = 1 then Inr (make_bool pad True) else Inl Undefined)"
  by (simp add: object_of_type_def mask_defs)

lemma masks_not_type [simp]:
  "MASK_NAMED_NODE_INLINED \<noteq> TYPE_MASK" "MASK_NAMED_NODE_EXTERN \<noteq> TYPE_MASK" "MASK_STRING_INLINED \<noteq> TYPE_MASK"
  "MASK_STRING_EXTERN \<noteq> TYPE_MASK" "MASK_NEGATIVE_INT \<noteq> TYPE_MASK" "MASK_POSITIVE_INT \<noteq> TYPE_MASK"
  "MASK_FLOAT \<noteq> TYPE_MASK" "MASK_BOOL \<noteq> TYPE_MASK" "MASK_ANON \<noteq> TYPE_MASK" "MASK_EDGE \<noteq> TYPE_MASK"
  by (simp_all add: mask_defs TYPE_MASK_def)

lemma masks_not_zero [simp]:
  "MASK_NAMED_NODE_EXTERN \<noteq> 0" "MASK_STRING_INLINED \<noteq> 0" "MASK_STRING_EXTERN \<noteq> 0" "MASK_NEGATIVE_INT \<noteq> 0"
  "MASK_POSITIVE_INT \<noteq> 0" "MASK_FLOAT \<noteq> 0" "MASK_BOOL \<noteq> 0" "MASK_ANON \<noteq> 0" "MASK_EDGE \<noteq> 0"
  by (simp_all add: mask_defs)

lemma element_of_simps [simp]:
  "element_of t p (make_object v NAMED_EXTERNAL) = Some (QNamedNode (t v))"
  "element_of t p (make_object v NAMED_TMP) = Some (QNamedNode (p v))"
  "element_of t p (make_object v STR_EXTERNAL) = Some (QString (t v))"
  "element_of t p (make_object v STR_TMP) = Some (QString (p v))"
  "element_of t p (make_object v EDGE) = Some (QEdge v)"
  "element_of t p (make_object v ANON) = Some (QAnonymousNode v)"
  "element_of t p (make_object v INT_OBJ) = Some (QInt v)"
  "element_of t p (make_object v NAMED_INLINED) = Some (QNamedNode (c_string (get_string_inlined (make_object v NAMED_INLINED))))"
  "element_of t p (make_object v STR_INLINED) = Some (QString (c_string (get_string_inlined (make_object v STR_INLINED))))"
  by (simp_all add: element_of_def make_object_def get_int_def)

section \<open>Integers\<close>

text \<open>An integer of at most 56 bits below the sign.\<close>

lemma top_byte_zero: "w AND 0xFF00000000000000 = 0 \<longleftrightarrow> fits w"
  by (simp add: fits_def TYPE_MASK_def)

lemma value_literal: "(0x00FFFFFFFFFFFFFF :: 64 word) = VALUE_MASK"
  by (simp add: VALUE_MASK_def)

lemma of_sint: "word_of_int (sint i) = (i :: 64 word)"
  by simp

lemma sint_bounds: "- (2 ^ 63) \<le> sint (i :: 64 word)" "sint i < 2 ^ 63"
  using sint_ge [of i] sint_lt [of i] by simp_all

lemma uint_nonneg:
  assumes "0 \<le> z" "z < 2 ^ 64"
  shows "uint (word_of_int z :: 64 word) = z"
  using assms by (simp add: unsigned_of_int take_bit_int_eq_self)

lemma fits_int: "0 \<le> z \<Longrightarrow> z < 2 ^ 64 \<Longrightarrow> fits (word_of_int z) \<longleftrightarrow> z < 2 ^ 56"
proof -
  assume z: "0 \<le> z" "z < 2 ^ 64"
  have "unat (word_of_int z :: 64 word) = nat z" using uint_nonneg [OF z] by (metis nat_uint_eq)
  then show ?thesis unfolding fits_iff using z by (simp add: nat_less_iff)
qed

lemma least_int: "(0x8000000000000000 :: 64 word) = i \<longleftrightarrow> sint i = - (2 ^ 63)"
proof
  assume "sint i = - (2 ^ 63)"
  then have "i = word_of_int (- (2 ^ 63))" using of_sint [of i] by simp
  then show "0x8000000000000000 = i" by simp
qed auto

text \<open>The id of an integer, on its value: the two branches and the error.\<close>

lemma inline_int_positive:
  assumes "0 \<le> sint i" "sint i < 2 ^ 56"
  shows "inline_int_with msg i = Inr (MASK_POSITIVE_INT OR i)" "fits i"
proof -
  show f: "fits i" using fits_int [of "sint i"] assms by simp
  then show "inline_int_with msg i = Inr (MASK_POSITIVE_INT OR i)"
    using assms by (simp add: inline_int_with_def word_sless_alt top_byte_zero)
qed

lemma inline_int_negative:
  assumes "sint i < 0" "- (2 ^ 56) < sint i"
  shows "inline_int_with msg i = Inr (MASK_NEGATIVE_INT OR ((i - 1) AND VALUE_MASK))" "fits (- i)"
proof -
  have "- i = word_of_int (- sint i)" using of_sint [of i] by simp
  then show f: "fits (- i)" using fits_int [of "- sint i"] assms by simp
  have l: "i \<noteq> 0x8000000000000000" using least_int [of i] assms by auto
  have "NOT (- i) = i - 1" by (simp add: not_eq_complement)
  then show "inline_int_with msg i = Inr (MASK_NEGATIVE_INT OR ((i - 1) AND VALUE_MASK))"
    using assms f l by (simp add: inline_int_with_def word_sless_alt top_byte_zero value_literal Let_def)
qed

lemma inline_int_large:
  assumes "2 ^ 56 \<le> \<bar>sint i\<bar>"
  shows "\<exists>e. inline_int_with msg i = Inl e"
proof (cases "sint i < 0")
  case True
  have "- i = word_of_int (- sint i)" using of_sint [of i] by simp
  then have "\<not> fits (- i)" using fits_int [of "- sint i"] assms True sint_bounds [of i] by simp
  then show ?thesis using True by (simp add: inline_int_with_def word_sless_alt top_byte_zero Let_def)
next
  case False
  then have "\<not> fits i" using fits_int [of "sint i"] assms sint_bounds [of i] by simp
  then show ?thesis using False by (simp add: inline_int_with_def word_sless_alt top_byte_zero)
qed

lemma not_negative: "NOT (MASK_NEGATIVE_INT OR (w AND VALUE_MASK)) AND VALUE_MASK = NOT w AND VALUE_MASK"
proof -
  have "\<not> bit MASK_NEGATIVE_INT n" if "n < 56" for n
    using mask_types(5) that unfolding type_mask_bits by (meson not_le)
  then show ?thesis
    by (intro bit_word_eqI) (auto simp: bit_and_iff bit_not_iff bit_or_iff value_bits)
qed

lemma int_decodes:
  assumes "\<bar>sint i\<bar> < 2 ^ 56"
  obtains oid where "inline_int_with msg i = Inr oid" "get_graph_object pad oid = Inr (make_int i)"
proof (cases "0 \<le> sint i")
  case True
  then have i: "inline_int_with msg i = Inr (MASK_POSITIVE_INT OR i)" "fits i"
    using inline_int_positive [of i] assms by simp_all
  have "get_graph_object pad (i OR MASK_POSITIVE_INT) = Inr (make_int i)"
    using get_graph_object_typed [of MASK_POSITIVE_INT i] i(2) split_id(2) [of MASK_POSITIVE_INT i]
    by (simp add: value_literal)
  then show ?thesis using that i(1) by (simp add: or.commute)
next
  case False
  let ?v = "(i - 1) AND VALUE_MASK"
  from False have i: "inline_int_with msg i = Inr (MASK_NEGATIVE_INT OR ?v)" "fits (- i)"
    using inline_int_negative [of i] assms by simp_all
  have f: "fits ?v" by (auto simp: fits_bits bit_and_iff value_bits)
  have "NOT (i - 1) AND VALUE_MASK = - i" using fits_value [OF i(2)] by (simp add: not_eq_complement)
  then have "- (NOT (MASK_NEGATIVE_INT OR ?v) AND VALUE_MASK) = i" unfolding not_negative by simp
  then have "get_graph_object pad (MASK_NEGATIVE_INT OR ?v) = Inr (make_int i)"
    using get_graph_object_typed [of MASK_NEGATIVE_INT ?v pad] f by (simp add: value_literal or.commute)
  then show ?thesis using that i(1) by simp
qed

text \<open>Ids of integers are ordered like the integers.\<close>

lemma uint_typed:
  assumes "type_mask m" "fits v"
  shows "uint (m OR v) = uint m + uint v"
proof -
  have d: "m AND v = 0"
    using assms unfolding type_mask_bits fits_bits by (intro bit_word_eqI) (auto simp: bit_and_iff dest: leD)
  have "m OR v = m + v" using disjunctive_add_eq_or [OF d] by simp
  moreover have "uint m + uint v < 2 ^ 64"
  proof -
    have "uint m AND uint v = 0" using d by (metis uint_0_eq uint_and)
    then have "uint m + uint v = uint m OR uint v" using disjunctive_add_eq_or by metis
    also have "\<dots> = uint (m OR v)" by (simp add: uint_or)
    finally show ?thesis using uint_bounded [of "m OR v"] by simp
  qed
  ultimately show ?thesis by (simp add: uint_plus_if')
qed


definition int_id_value :: "int \<Rightarrow> int" where
  "int_id_value z = (if z < 0 then uint MASK_NEGATIVE_INT + (2 ^ 56 - 1 + z) else uint MASK_POSITIVE_INT + z)"

lemma int_id_value_mono: "\<bar>y\<bar> < 2 ^ 56 \<Longrightarrow> \<bar>z\<bar> < 2 ^ 56 \<Longrightarrow> int_id_value y < int_id_value z \<longleftrightarrow> y < z"
  by (simp add: int_id_value_def mask_defs)

lemma int_id_value_of:
  assumes "\<bar>sint i\<bar> < 2 ^ 56"
  obtains oid where "inline_int_with msg i = Inr oid" "uint oid = int_id_value (sint i)"
proof (cases "0 \<le> sint i")
  case True
  then have i: "inline_int_with msg i = Inr (MASK_POSITIVE_INT OR i)" "fits i"
    using inline_int_positive [of i] assms by simp_all
  have "uint i = sint i" using uint_nonneg [of "sint i"] True sint_bounds [of i] by simp
  then show ?thesis using that [OF i(1)] uint_typed [of MASK_POSITIVE_INT i] i(2) True
    by (simp add: int_id_value_def)
next
  case False
  let ?v = "(i - 1) AND VALUE_MASK"
  from False have i: "inline_int_with msg i = Inr (MASK_NEGATIVE_INT OR ?v)"
    using inline_int_negative [of i] assms by simp
  have f: "fits ?v" by (auto simp: fits_bits bit_and_iff value_bits)
  have "VALUE_MASK = (mask 56 :: 64 word)" by (simp add: VALUE_MASK_def mask_eq_exp_minus_1)
  then have "?v = take_bit 56 (i - 1)" by (simp only: take_bit_eq_mask)
  then have "uint ?v = take_bit 56 (uint (i - 1))" by (simp only: unsigned_take_bit_eq)
  also have "uint (i - 1) = (sint i - 1) mod 2 ^ 64"
  proof -
    have "uint (i - 1) = uint (word_of_int (sint i - 1) :: 64 word)" by simp
    then show ?thesis unfolding uint_word_of_int by simp
  qed
  also have "take_bit 56 \<dots> = (sint i - 1) mod 2 ^ 56" by (simp add: take_bit_eq_mod mod_mod_cancel)
  also have "\<dots> = 2 ^ 56 - 1 + sint i"
  proof -
    have "(sint i - 1) mod 2 ^ 56 = (sint i - 1 + 2 ^ 56) mod 2 ^ 56" by (simp only: mod_add_self2)
    also have "\<dots> = sint i - 1 + 2 ^ 56" using False assms by (intro mod_pos_pos_trivial) auto
    finally show ?thesis by simp
  qed
  finally have "uint ?v = 2 ^ 56 - 1 + sint i" .
  then show ?thesis using that [OF i] uint_typed [of MASK_NEGATIVE_INT ?v] f False
    by (simp add: int_id_value_def)
qed

lemma int_id_small:
  assumes "\<bar>sint i\<bar> < 2 ^ 56"
  shows "\<exists>a. query_int_id i = Inr a \<and> get_graph_object pad a = Inr (make_int i) \<and> uint a = int_id_value (sint i)"
  unfolding query_int_id_def
  by (rule int_decodes [OF assms, of "''saving big integers (>= 2^56)''" pad],
      rule int_id_value_of [OF assms, of "''saving big integers (>= 2^56)''"]) simp

lemma int_id_order:
  assumes "get_graph_object pad a = Inr (make_int i)" "uint a = int_id_value (sint i)" "\<bar>sint i\<bar> < 2 ^ 56"
    and "get_graph_object pad b = Inr (make_int j)" "uint b = int_id_value (sint j)" "\<bar>sint j\<bar> < 2 ^ 56"
  shows "(a < b \<longleftrightarrow> sint i < sint j) \<and> (a = b \<longleftrightarrow> i = j)"
proof
  show "a < b \<longleftrightarrow> sint i < sint j"
    using int_id_value_mono [OF assms(3,6)] assms(2,5) by (simp add: word_less_def)
  show "a = b \<longleftrightarrow> i = j"
  proof
    assume "a = b"
    then show "i = j" using assms(1,4) by (simp add: make_int_def make_object_def)
  next
    assume "i = j"
    then show "a = b" using assms(2,5) by (metis unsigned_word_eqI)
  qed
qed

section \<open>Floats and booleans\<close>

lemma union_bytes_bits: "bit (union_of_bytes (union_bytes n w)) k \<longleftrightarrow> k < 8 * n \<and> bit w k"
proof (induction n arbitrary: w k)
  case (Suc n)
  show ?case
  proof (cases "k < 8")
    case True then show ?thesis by (auto simp: bit_or_iff bit_push_bit_iff bit_ucast_iff dest: bit_below_64)
  next
    case False
    then show ?thesis using Suc.IH [of "drop_bit 8 w" "k - 8"]
      by (auto simp: bit_or_iff bit_push_bit_iff bit_ucast_iff bit_drop_bit_eq dest: bit_below_64)
  qed
qed simp

lemma float_bytes:
  "[ucast (i AND 0xFF), ucast (drop_bit 8 i AND 0xFF), ucast (drop_bit 16 i AND 0xFF), ucast (drop_bit 24 i AND 0xFF)]
     = union_bytes 4 i"
proof -
  have "ucast (w AND 0xFF) = (ucast w :: 8 word)" for w :: "64 word"
  proof -
    have e: "(0xFF :: 64 word) = mask 8" by (simp add: mask_eq_exp_minus_1)
    show ?thesis unfolding e by (intro bit_word_eqI) (auto simp: bit_ucast_iff bit_and_iff bit_mask_iff)
  qed
  then show ?thesis by (simp add: eval_nat_numeral)
qed

lemma object_of_type_float:
  "object_of_type pad MASK_FLOAT v i = Inr (make_float pad (ucast (union_of_bytes (union_bytes 4 i))))"
  unfolding object_of_type_def float_bytes by (simp add: mask_defs)

lemma inline_float_eq: "inline_float f = ucast f OR MASK_FLOAT"
proof -
  have "union_of_bytes (union_bytes 4 (ucast f)) = (ucast f :: 64 word)"
    by (rule bit_word_eqI) (auto simp: union_bytes_bits bit_ucast_iff dest: bit_imp_le_length)
  then show ?thesis by (simp add: inline_float_def)
qed

lemma fits_ucast_32: "fits (ucast (f :: 32 word))"
  by (auto simp: fits_bits bit_ucast_iff dest: bit_imp_le_length)

lemma float_decodes: "get_graph_object pad (inline_float f) = Inr (make_float pad f)"
proof -
  have "\<not> bit MASK_FLOAT n" if "n < 56" for n
    using mask_types(7) that unfolding type_mask_bits by (meson not_le)
  then have "ucast (union_of_bytes (union_bytes 4 (ucast f OR MASK_FLOAT))) = f"
    by (intro bit_word_eqI) (auto simp: union_bytes_bits bit_ucast_iff bit_or_iff)
  then show ?thesis unfolding inline_float_eq
    using get_graph_object_typed [of MASK_FLOAT "ucast f" pad] fits_ucast_32 [of f]
    by (simp add: object_of_type_float del: union_bytes.simps)
qed

lemma float_element: "element_of t p (make_float pad f) = Some (QFloat f)"
proof -
  have "ucast ((pad AND NOT (mask 32)) OR ucast f) = f"
    by (rule bit_word_eqI) (auto simp: bit_ucast_iff bit_or_iff bit_and_iff bit_not_iff bit_mask_iff)
  then show ?thesis by (simp add: element_of_def make_float_def make_object_def get_float_def)
qed

lemma bool_decodes: "get_graph_object pad (MASK_BOOL OR of_bool b) = Inr (make_bool pad b)"
proof -
  have f: "fits (of_bool b)" by (auto simp: fits_bits bit_of_bool_iff)
  have "get_graph_object pad (of_bool b OR MASK_BOOL) = object_of_type pad MASK_BOOL (of_bool b) (of_bool b OR MASK_BOOL)"
    using get_graph_object_typed [of MASK_BOOL "of_bool b" pad] f by simp
  moreover have "ucast ((of_bool b OR MASK_BOOL) AND 0xFF) = (of_bool b :: 8 word)"
    by (cases b) (simp_all add: mask_defs)
  ultimately show ?thesis by (cases b) (simp_all add: object_of_type_bool Let_def or.commute)
qed

lemma bool_element: "element_of t p (make_bool pad b) = Some (QBool b)"
proof -
  have "ucast ((pad AND NOT (mask 8)) OR of_bool b) = (of_bool b :: 8 word)"
    by (rule bit_word_eqI) (auto simp: bit_ucast_iff bit_or_iff bit_and_iff bit_not_iff bit_mask_iff bit_of_bool_iff)
  then show ?thesis by (cases b) (simp_all add: element_of_def make_bool_def make_object_def get_bool_def)
qed


section \<open>Named nodes and strings\<close>

lemma string_decodes:
  assumes "storable_string get_str_id text_of str"
  obtains oid g where "get_string_id get_str_id str MASK_STRING_INLINED MASK_STRING_EXTERN = Inr oid"
    "get_graph_object pad oid = Inr g" "element_of text_of p g = Some (QString str)"
proof (cases "length str < 8")
  case True
  note P = packed_7 [OF True]
  have g: "get_graph_object pad (packed 7 str OR MASK_STRING_INLINED)
      = Inr (make_string_inlined (str @ replicate (8 - length str) 0))"
    using get_graph_object_typed [of MASK_STRING_INLINED "packed 7 str" pad] P(2) inlined_chars_packed [OF True] by simp
  show ?thesis
  proof (rule that [OF _ g])
    show "get_string_id get_str_id str MASK_STRING_INLINED MASK_STRING_EXTERN = Inr (packed 7 str OR MASK_STRING_INLINED)"
      using True P(1) by (simp add: get_string_id_def)
    show "element_of text_of p (make_string_inlined (str @ replicate (8 - length str) 0)) = Some (QString str)"
      using inlined_roundtrip [of "str @ replicate (8 - length str) 0" STR_INLINED] True assms
      by (simp only: make_string_inlined_def element_of_simps) (simp add: c_string_padded storable_string_def)
  qed
next
  case False
  then have f: "fits (get_str_id str)" "text_of (get_str_id str) = str"
    using assms by (auto simp: storable_string_def)
  show ?thesis
    by (rule that [of "get_str_id str OR MASK_STRING_EXTERN" "make_string_external (get_str_id str)"])
      (use False f get_graph_object_typed [of MASK_STRING_EXTERN "get_str_id str" pad] in
        \<open>auto simp: get_string_id_def make_string_external_def\<close>)
qed

lemma named_node_decodes:
  assumes "storable_string get_str_id text_of name" "name \<noteq> []"
  obtains oid g where "get_string_id get_str_id name MASK_NAMED_NODE_INLINED MASK_NAMED_NODE_EXTERN = Inr oid"
    "get_graph_object pad oid = Inr g" "element_of text_of p g = Some (QNamedNode name)"
proof (cases "length name < 8")
  case True
  note P = packed_7 [OF True]
  have "packed 7 name \<noteq> 0" using packed_nonzero [of name] assms True by (simp add: storable_string_def)
  then have g: "get_graph_object pad (packed 7 name OR MASK_NAMED_NODE_INLINED)
      = Inr (make_named_node_inlined (name @ replicate (8 - length name) 0))"
    using get_graph_object_typed [of MASK_NAMED_NODE_INLINED "packed 7 name" pad] P(2) inlined_chars_packed [OF True] by simp
  show ?thesis
  proof (rule that [OF _ g])
    show "get_string_id get_str_id name MASK_NAMED_NODE_INLINED MASK_NAMED_NODE_EXTERN
        = Inr (packed 7 name OR MASK_NAMED_NODE_INLINED)"
      using True P(1) by (simp add: get_string_id_def)
    show "element_of text_of p (make_named_node_inlined (name @ replicate (8 - length name) 0)) = Some (QNamedNode name)"
      using inlined_roundtrip [of "name @ replicate (8 - length name) 0" NAMED_INLINED] True assms
      by (simp only: make_named_node_inlined_def element_of_simps) (simp add: c_string_padded storable_string_def)
  qed
next
  case False
  then have f: "fits (get_str_id name)" "text_of (get_str_id name) = name"
    using assms by (auto simp: storable_string_def)
  show ?thesis
    by (rule that [of "get_str_id name OR MASK_NAMED_NODE_EXTERN" "make_named_node_external (get_str_id name)"])
      (use False f get_graph_object_typed [of MASK_NAMED_NODE_EXTERN "get_str_id name" pad] in
        \<open>auto simp: get_string_id_def make_named_node_external_def\<close>)
qed

lemma id_decodes:
  assumes "storable get_str_id text_of e"
  shows "\<exists>oid g. to_object_id get_str_id e = Inr oid \<and> get_graph_object pad oid = Inr g
    \<and> element_of text_of string_at g = Some e"
proof (cases e)
  case (QNamedNode name)
  with assms have "storable_string get_str_id text_of name" "name \<noteq> []" by simp_all
  then show ?thesis unfolding QNamedNode to_object_id.simps by (rule named_node_decodes [of get_str_id text_of name pad string_at]) blast
next
  case (QString str)
  with assms have "storable_string get_str_id text_of str" by simp
  then show ?thesis unfolding QString to_object_id.simps by (rule string_decodes [of get_str_id text_of str pad string_at]) blast
next
  case (QAnonymousNode i)
  then show ?thesis using assms get_graph_object_typed [of MASK_ANON i pad]
    by (simp add: or.commute [of MASK_ANON] make_anonymous_def)
next
  case (QEdge i)
  then show ?thesis using assms get_graph_object_typed [of MASK_EDGE i pad]
    by (simp add: or.commute [of MASK_EDGE] make_edge_def)
next
  case (QInt i)
  then obtain oid where "query_int_id i = Inr oid" "get_graph_object pad oid = Inr (make_int i)"
    unfolding query_int_id_def using assms int_decodes [of i "''saving big integers (>= 2^56)''" pad] by auto
  then show ?thesis unfolding QInt by (simp add: make_int_def)
next
  case (QBool b) then show ?thesis by (simp add: bool_decodes bool_element)
next
  case (QFloat f) then show ?thesis by (simp add: float_decodes float_element)
qed (use assms in auto)

lemma graph_object_reads:
  assumes "storable get_str_id text_of e" "\<And>str. element_text e = Some str \<Longrightarrow> string_at (address_of str) = str"
  shows "\<exists>g. to_graph_object pad address_of e = Inr g \<and> element_of text_of string_at g = Some e"
proof (cases e)
  case (QNamedNode name)
  with assms inlined_roundtrip [of "name @ replicate (8 - length name) 0" NAMED_INLINED] show ?thesis
    by (auto simp del: take_append simp: make_named_node_inlined_def make_named_node_tmp_def c_string_padded storable_string_def)
next
  case (QString str)
  with assms inlined_roundtrip [of "str @ replicate (8 - length str) 0" STR_INLINED] show ?thesis
    by (auto simp del: take_append simp: make_string_inlined_def make_string_tmp_def c_string_padded storable_string_def)
qed (use assms in \<open>auto simp: make_anonymous_def make_edge_def make_int_def bool_element float_element\<close>)

end
