(* ===== verification/ObjectCompare.thy ===== *)
theory ObjectCompare
  imports ObjectRoundtrip
begin

unbundle bit_operations_syntax

text \<open>
  \<open>GraphObjectManager\<close> (graph_object_manager.h): equality and the three-way comparison of graph objects,
  with the character iterators of char_iter.h and \<open>StringManager::compare\<close>.
\<close>

section \<open>Characters\<close>

text \<open>
  An iterator is the list of the characters it still gives; asking for more than it has is undefined
  behaviour.  \<open>StringInlineIter\<close> walks over the eight bytes of the union, \<open>StringTmpIter\<close> over a string and
  then gives a zero, and the iterator of the string manager gives the characters stored under an id.
\<close>

definition string_inline_iter :: "64 word \<Rightarrow> 8 word list" where
  "string_inline_iter v = union_bytes 8 v"

definition string_tmp_iter :: "8 word list \<Rightarrow> 8 word list" where
  "string_tmp_iter str = str @ [0]"

fun compare_chars :: "8 word list \<Rightarrow> 8 word list \<Rightarrow> int option" where
  "compare_chars (c1 # lhs) (c2 # rhs) =
     (if c1 = 0 then Some (uint c1 - uint c2)
      else if c1 = c2 then compare_chars lhs rhs
      else Some (uint c1 - uint c2))"
| "compare_chars lhs rhs = None"

section \<open>Numbers\<close>

text \<open>
  The value of a \<open>float\<close>, or of a \<open>double\<close> that a \<open>float\<close> or an integer is converted to, as far as comparisons
  go: a finite one is a multiple of 2 to the power of -149, and is given by the factor.  The conversion of an \<open>int64_t\<close> to a
  \<open>double\<close> rounds to 53 bits, ties to even.
\<close>

datatype number = NaN | MinusInfinity | Finite int | PlusInfinity

fun number_less :: "number \<Rightarrow> number \<Rightarrow> bool" where
  "number_less NaN y = False"
| "number_less x NaN = False"
| "number_less (Finite x) (Finite y) = (x < y)"
| "number_less MinusInfinity y = (y \<noteq> MinusInfinity)"
| "number_less x PlusInfinity = (x \<noteq> PlusInfinity)"
| "number_less x y = False"

definition float_number :: "32 word \<Rightarrow> number" where
  "float_number f = (let negative = bit f 31; e = uint (drop_bit 23 f AND 0xFF); m = uint (f AND 0x7FFFFF);
       s = (if negative then -1 else 1) in
     if e = 255 then (if m \<noteq> 0 then NaN else if negative then MinusInfinity else PlusInfinity)
     else if e = 0 then Finite (s * m)
     else Finite (s * (m + 2 ^ 23) * 2 ^ nat (e - 1)))"

fun round_53 :: "nat \<Rightarrow> int \<Rightarrow> nat \<Rightarrow> int" where
  "round_53 0 n e = n * 2 ^ e"
| "round_53 (Suc k) n e = (if n < 2 ^ (53 + e) then
       (let q = n div 2 ^ e; r = 2 * (n mod 2 ^ e) in
        (if r > 2 ^ e \<or> (r = 2 ^ e \<and> odd q) then q + 1 else q) * 2 ^ e)
     else round_53 k n (Suc e))"

definition double_of_int :: "64 word \<Rightarrow> number" where
  "double_of_int i = (let n = sint i in
     Finite ((if n < 0 then - round_53 12 (- n) 0 else round_53 12 n 0) * 2 ^ 149))"

section \<open>Comparison\<close>

definition object_equal :: "graph_object \<Rightarrow> graph_object \<Rightarrow> bool" where
  "object_equal lhs rhs \<longleftrightarrow> object_type lhs = object_type rhs \<and> encoded_value lhs = encoded_value rhs"

text \<open>The iterator, or the number, that the first switch sets up for an object.\<close>

definition string_iter_of :: "(64 word \<Rightarrow> 8 word list) \<Rightarrow> (64 word \<Rightarrow> 8 word list) \<Rightarrow> graph_object \<Rightarrow> 8 word list option" where
  "string_iter_of char_iter string_at g = (case object_type g of
       STR_INLINED \<Rightarrow> Some (string_inline_iter (encoded_value g))
     | NAMED_INLINED \<Rightarrow> Some (string_inline_iter (encoded_value g))
     | STR_EXTERNAL \<Rightarrow> Some (char_iter (encoded_value g))
     | NAMED_EXTERNAL \<Rightarrow> Some (char_iter (encoded_value g))
     | NAMED_TMP \<Rightarrow> Some (string_tmp_iter (string_at (encoded_value g)))
     | STR_TMP \<Rightarrow> Some (string_tmp_iter (string_at (encoded_value g)))
     | _ \<Rightarrow> None)"

definition numeric_of :: "graph_object \<Rightarrow> number option" where
  "numeric_of g = (case object_type g of
       INT_OBJ \<Rightarrow> Some (double_of_int (get_int g))
     | FLOAT \<Rightarrow> Some (float_number (get_float g))
     | _ \<Rightarrow> None)"

text \<open>The difference of two 64-bit ids as an \<open>int\<close>: the low 32 bits.\<close>

definition id_difference :: "64 word \<Rightarrow> 64 word \<Rightarrow> int" where
  "id_difference l r = sint (ucast (l - r) :: 32 word)"

definition object_compare ::
    "(64 word \<Rightarrow> 8 word list) \<Rightarrow> (64 word \<Rightarrow> 8 word list) \<Rightarrow> graph_object \<Rightarrow> graph_object \<Rightarrow> object_error + int" where
  "object_compare char_iter string_at lhs rhs =
     (if object_equal lhs rhs then Inr 0
      else case (string_iter_of char_iter string_at lhs, string_iter_of char_iter string_at rhs) of
        (Some l, Some r) \<Rightarrow> (case compare_chars l r of None \<Rightarrow> Inl Undefined | Some c \<Rightarrow> Inr c)
      | _ \<Rightarrow> (case (numeric_of lhs, numeric_of rhs) of
          (Some l, Some r) \<Rightarrow> Inr (if number_less l r then -1 else if number_less r l then 1 else 0)
        | _ \<Rightarrow>
          (if object_type rhs = object_type lhs then
             (case object_type lhs of
                NULL_OBJ \<Rightarrow> Inr 0
              | NOT_FOUND \<Rightarrow> Inr 0
              | EDGE \<Rightarrow> Inr (id_difference (encoded_value lhs) (encoded_value lhs))
              | ANON \<Rightarrow> Inr (id_difference (encoded_value lhs) (encoded_value rhs))
              | BOOL \<Rightarrow> (case (get_bool lhs, get_bool rhs) of
                    (Some l, Some r) \<Rightarrow> Inr (of_bool l - of_bool r)
                  | _ \<Rightarrow> Inl Undefined)
              | PATH \<Rightarrow> Inr (id_difference (encoded_value lhs) (encoded_value rhs))
              | _ \<Rightarrow> Inl (Logic_Exception ''Unmanaged case''))
           else Inr (if object_type lhs < object_type rhs then -1 else 1))))"


section \<open>What the comparison computes\<close>

text \<open>Three-way comparison of byte strings, and of the elements that objects stand for.\<close>

definition compare_strings :: "8 word list \<Rightarrow> 8 word list \<Rightarrow> int" where
  "compare_strings s t = (if s = t then 0 else if ord_class.lexordp s t then -1 else 1)"

lemma compare_chars_correct:
  assumes "0 \<in> set l" "0 \<in> set r"
  shows "\<exists>c. compare_chars l r = Some c \<and> sgn c = compare_strings (c_string l) (c_string r)"
  using assms
proof (induction l r rule: compare_chars.induct)
  case (1 c1 lhs c2 rhs)
  show ?case
  proof (cases "c1 = 0")
    case True
    moreover have "c2 \<noteq> 0 \<Longrightarrow> uint c2 \<noteq> 0" by (metis uint_0_eq unsigned_word_eqI)
    moreover have "0 \<le> uint c2" by simp
    ultimately show ?thesis
      by (auto simp: c_string_def compare_strings_def sgn_if)
  next
    case c1: False
    show ?thesis
    proof (cases "c1 = c2")
      case True
      then show ?thesis using 1 c1 by (auto simp: c_string_def compare_strings_def)
    next
      case False
      then have "uint c1 \<noteq> uint c2" by (metis unsigned_word_eqI)
      moreover have "uint c1 = 0 \<or> 0 < uint c1" "uint c2 = 0 \<or> 0 < uint c2"
        using uint_ge_0 [of c1] uint_ge_0 [of c2] by linarith+
      ultimately show ?thesis using c1 False
        by (auto simp: c_string_def compare_strings_def sgn_if word_less_def)
    qed
  qed
qed auto

lemma round_53_exact: "n < 2 ^ 53 \<Longrightarrow> round_53 (Suc k) n 0 = n"
  by simp

lemma double_exact:
  assumes "\<bar>sint i\<bar> < 2 ^ 53"
  shows "double_of_int i = Finite (sint i * 2 ^ 149)"
proof -
  have k: "12 = Suc 11" by simp
  have "(if sint i < 0 then - round_53 12 (- sint i) 0 else round_53 12 (sint i) 0) = sint i"
    unfolding k using round_53_exact [of "sint i" 11] round_53_exact [of "- sint i" 11] assms by auto
  then show ?thesis unfolding double_of_int_def Let_def by simp
qed


text \<open>The order of the elements: texts first by their bytes, other elements of one kind by their value, else by kind.\<close>

fun element_rank :: "query_element \<Rightarrow> int" where
  "element_rank (QNamedNode name) = 0"
| "element_rank (QEdge i) = 1"
| "element_rank (QAnonymousNode i) = 2"
| "element_rank (QString str) = 3"
| "element_rank (QBool b) = 4"
| "element_rank (QInt i) = 5"
| "element_rank (QFloat f) = 6"
| "element_rank (QVar v) = 7"

definition compare_elements :: "query_element \<Rightarrow> query_element \<Rightarrow> int" where
  "compare_elements e f = (case (element_text e, element_text f) of
       (Some s, Some t) \<Rightarrow> compare_strings s t
     | _ \<Rightarrow> (case (e, f) of
         (QInt i, QInt j) \<Rightarrow> sgn (sint i - sint j)
       | (QBool a, QBool b) \<Rightarrow> of_bool a - of_bool b
       | (QAnonymousNode i, QAnonymousNode j) \<Rightarrow> sgn (uint i - uint j)
       | _ \<Rightarrow> sgn (element_rank e - element_rank f)))"

text \<open>
  The values for which the order is that one: strings without a zero byte, integers of 53 bits (a
  \<open>double\<close> holds no more), ids of anonymous nodes below 2 ^ 31 (the difference is an \<open>int\<close>), no float.
\<close>

definition comparable :: "(64 word \<Rightarrow> 8 word list) \<Rightarrow> (64 word \<Rightarrow> 8 word list) \<Rightarrow> graph_object \<Rightarrow> bool" where
  "comparable text_of string_at g \<longleftrightarrow> (case object_type g of
       NAMED_INLINED \<Rightarrow> 0 \<in> set (union_bytes 8 (encoded_value g))
     | STR_INLINED \<Rightarrow> 0 \<in> set (union_bytes 8 (encoded_value g))
     | NAMED_EXTERNAL \<Rightarrow> 0 \<notin> set (text_of (encoded_value g))
     | STR_EXTERNAL \<Rightarrow> 0 \<notin> set (text_of (encoded_value g))
     | NAMED_TMP \<Rightarrow> 0 \<notin> set (string_at (encoded_value g))
     | STR_TMP \<Rightarrow> 0 \<notin> set (string_at (encoded_value g))
     | INT_OBJ \<Rightarrow> \<bar>sint (encoded_value g)\<bar> < 2 ^ 53
     | ANON \<Rightarrow> uint (encoded_value g) < 2 ^ 31
     | FLOAT \<Rightarrow> False
     | _ \<Rightarrow> True)"

lemma c_string_terminated: "0 \<notin> set str \<Longrightarrow> c_string (str @ [0]) = str"
  using c_string_padded [of str 1] by simp

lemma iter_of_text:
  assumes "element_of text_of string_at g = Some e" "element_text e = Some s" "comparable text_of string_at g"
  shows "\<exists>l. string_iter_of (\<lambda>i. text_of i @ [0]) string_at g = Some l \<and> 0 \<in> set l \<and> c_string l = s"
  using assms unfolding element_of_def string_iter_of_def comparable_def
  by (cases "object_type g")
    (auto simp: string_inline_iter_def string_tmp_iter_def get_string_inlined_def c_string_terminated)

lemma no_iter:
  assumes "element_of text_of string_at g = Some e" "element_text e = None"
  shows "string_iter_of char_iter string_at g = None"
  using assms unfolding element_of_def string_iter_of_def by (cases "object_type g") auto

text \<open>The type of the object of an element.\<close>

fun type_rank :: "graph_object_type \<Rightarrow> int" where
  "type_rank NAMED_INLINED = 0" | "type_rank NAMED_EXTERNAL = 0" | "type_rank NAMED_TMP = 0"
| "type_rank EDGE = 1" | "type_rank ANON = 2"
| "type_rank STR_INLINED = 3" | "type_rank STR_EXTERNAL = 3" | "type_rank STR_TMP = 3"
| "type_rank BOOL = 4" | "type_rank INT_OBJ = 5" | "type_rank FLOAT = 6"
| "type_rank t = -1"

lemma rank_of_element:
  assumes "element_of text_of string_at g = Some e"
  shows "type_rank (object_type g) = element_rank e" "0 \<le> element_rank e"
  using assms unfolding element_of_def by (cases "object_type g"; auto)+

lemma rank_order:
  assumes "type_rank t \<noteq> type_rank u" "0 \<le> type_rank t" "0 \<le> type_rank u"
  shows "t < u \<longleftrightarrow> type_rank t < type_rank u"
  using assms unfolding less_graph_object_type_def by (cases t; simp; cases u; simp)

lemma element_types:
  "element_of text_of string_at g = Some (QEdge i) \<Longrightarrow> object_type g = EDGE \<and> encoded_value g = i"
  "element_of text_of string_at g = Some (QAnonymousNode i) \<Longrightarrow> object_type g = ANON \<and> encoded_value g = i"
  "element_of text_of string_at g = Some (QInt i) \<Longrightarrow> object_type g = INT_OBJ \<and> encoded_value g = i"
  "element_of text_of string_at g = Some (QBool b) \<Longrightarrow> object_type g = BOOL \<and> get_bool g = Some b"
  unfolding element_of_def get_int_def by (cases "object_type g"; auto)+


lemma compare_elements_self: "compare_elements e e = 0"
  by (cases e) (simp_all add: compare_elements_def compare_strings_def)

lemma object_equal_iff: "object_equal g h \<longleftrightarrow> g = h"
  by (cases g; cases h) (auto simp: object_equal_def)

lemma numeric_int:
  assumes "element_of text_of string_at g = Some e" "comparable text_of string_at g"
  shows "numeric_of g = (case e of QInt i \<Rightarrow> Some (Finite (sint i * 2 ^ 149)) | _ \<Rightarrow> None)"
  using assms double_exact [of "encoded_value g"] unfolding element_of_def numeric_of_def comparable_def
  by (cases "object_type g") (auto simp: get_int_def)

lemma small_difference:
  assumes "uint (l :: 64 word) < 2 ^ 31" "uint r < 2 ^ 31"
  shows "id_difference l r = uint l - uint r"
proof -
  have "ucast (l - r) = (word_of_int (uint l - uint r) :: 32 word)"
  proof -
    have "ucast (word_of_int (uint l - uint r) :: 64 word) = (word_of_int (uint l - uint r) :: 32 word)"
      by (rule ucast_down_wi) (simp add: is_down)
    then show ?thesis by simp
  qed
  then have "id_difference l r = sint (word_of_int (uint l - uint r) :: 32 word)"
    unfolding id_difference_def by (rule arg_cong)
  also have "\<dots> = signed_take_bit 31 (uint l - uint r)" unfolding sint_sbintrunc' by simp
  also have "\<dots> = uint l - uint r"
    using assms uint_ge_0 [of l] uint_ge_0 [of r] by (intro signed_take_bit_int_eq_self) linarith+
  finally show ?thesis .
qed

lemma different_kinds:
  assumes g: "element_of text_of string_at g = Some e" "comparable text_of string_at g"
    and h: "element_of text_of string_at h = Some f" "comparable text_of string_at h"
    and t: "element_text e = None \<or> element_text f = None" and r: "element_rank e \<noteq> element_rank f"
  shows "object_compare (\<lambda>i. text_of i @ [0]) string_at g h = Inr (sgn (element_rank e - element_rank f))"
proof -
  note R = rank_of_element [OF g(1)] rank_of_element [OF h(1)]
  have ne: "object_type g \<noteq> object_type h" using R r by metis
  have lt: "object_type g < object_type h \<longleftrightarrow> element_rank e < element_rank f"
    using rank_order [of "object_type g" "object_type h"] R r by simp
  have s: "string_iter_of (\<lambda>i. text_of i @ [0]) string_at g = None \<or> string_iter_of (\<lambda>i. text_of i @ [0]) string_at h = None"
    using t no_iter [OF g(1), of "\<lambda>i. text_of i @ [0]"] no_iter [OF h(1), of "\<lambda>i. text_of i @ [0]"] by auto
  have n: "numeric_of g = None \<or> numeric_of h = None"
    using numeric_int [OF g] numeric_int [OF h] r by (cases e; cases f) auto
  show ?thesis unfolding object_compare_def object_equal_def using s n ne lt r
    by (auto simp: sgn_if split: option.splits)
qed

lemma same_kind:
  assumes g: "element_of text_of string_at g = Some e" "comparable text_of string_at g"
    and h: "element_of text_of string_at h = Some f" "comparable text_of string_at h"
    and t: "element_text e = None" and r: "element_rank e = element_rank f" and ne: "g \<noteq> h"
    and edge: "\<nexists>i j. e = QEdge i \<and> f = QEdge j"
  shows "\<exists>c. object_compare (\<lambda>i. text_of i @ [0]) string_at g h = Inr c \<and> sgn c = compare_elements e f"
proof -
  have s: "string_iter_of (\<lambda>i. text_of i @ [0]) string_at g = None" using no_iter [OF g(1) t] .
  note N = numeric_int [OF g] numeric_int [OF h]
  note D = object_compare_def object_equal_iff compare_elements_def
  from t r edge consider
      i j where "e = QAnonymousNode i" "f = QAnonymousNode j"
    | a b where "e = QBool a" "f = QBool b"
    | i j where "e = QInt i" "f = QInt j"
    | "\<exists>v. e = QVar v" | "\<exists>v. e = QFloat v"
    by (cases e; cases f; auto)
  then show ?thesis
  proof cases
    case (1 i j)
    note T = element_types(2) [OF g(1) [unfolded 1]] element_types(2) [OF h(1) [unfolded 1]]
    then have "id_difference i j = uint i - uint j"
      using g(2) h(2) small_difference by (simp add: comparable_def)
    then show ?thesis using s N ne T 1 by (simp add: D)
  next
    case (2 a b)
    note T = element_types(4) [OF g(1) [unfolded 2]] element_types(4) [OF h(1) [unfolded 2]]
    show ?thesis using s N ne T 2 by (simp add: D)
  next
    case (3 i j)
    show ?thesis using s N ne 3 by (auto simp: D sgn_if)
  next
    case 4
    then show ?thesis using g(1) unfolding element_of_def by (auto split: graph_object_type.splits)
  next
    case 5
    then show ?thesis using g unfolding element_of_def comparable_def by (auto split: graph_object_type.splits)
  qed
qed

lemma both_texts:
  assumes g: "element_of text_of string_at g = Some e" "comparable text_of string_at g" "element_text e = Some s"
    and h: "element_of text_of string_at h = Some f" "comparable text_of string_at h" "element_text f = Some t"
    and ne: "g \<noteq> h"
  shows "\<exists>c. object_compare (\<lambda>i. text_of i @ [0]) string_at g h = Inr c \<and> sgn c = compare_elements e f"
proof -
  obtain l where l: "string_iter_of (\<lambda>i. text_of i @ [0]) string_at g = Some l" "0 \<in> set l" "c_string l = s"
    using iter_of_text [OF g(1,3,2)] by auto
  obtain r where r: "string_iter_of (\<lambda>i. text_of i @ [0]) string_at h = Some r" "0 \<in> set r" "c_string r = t"
    using iter_of_text [OF h(1,3,2)] by auto
  obtain c where "compare_chars l r = Some c" "sgn c = compare_strings s t"
    using compare_chars_correct [OF l(2) r(2)] l(3) r(3) by auto
  then show ?thesis using l r g(3) h(3) ne by (simp add: object_compare_def object_equal_iff compare_elements_def)
qed

lemma compare_objects:
  assumes "element_of text_of string_at g = Some e" "comparable text_of string_at g"
    and "element_of text_of string_at h = Some f" "comparable text_of string_at h"
    and "\<nexists>i j. e = QEdge i \<and> f = QEdge j"
  shows "\<exists>c. object_compare (\<lambda>i. text_of i @ [0]) string_at g h = Inr c \<and> sgn c = compare_elements e f"
proof (cases "g = h")
  case True
  then show ?thesis using assms(1,3) compare_elements_self [of e] by (simp add: object_compare_def object_equal_iff)
next
  case ne: False
  show ?thesis
  proof (cases "element_text e = None \<or> element_text f = None")
    case False
    then show ?thesis using both_texts [OF assms(1,2) _ assms(3,4) _ ne] by auto
  next
    case t: True
    show ?thesis
    proof (cases "element_rank e = element_rank f")
      case True
      then have "element_text e = None" using t by (cases e; cases f) auto
      from same_kind [OF assms(1-4) this True ne assms(5)] show ?thesis .
    next
      case False
      then have "compare_elements e f = sgn (element_rank e - element_rank f)"
        using t by (cases e; cases f) (auto simp: compare_elements_def)
      then show ?thesis using different_kinds [OF assms(1-4) t False] by (simp add: sgn_if)
    qed
  qed
qed

end
