(* ===== verification/Spec2Isabelle.thy ===== *)
theory Spec2Isabelle
  imports RpqCompile GraphIndex PlanRun AllCountCheck ShortestCheck ObjectCompare
begin

text \<open>
  A model of the regular path queries of MillenniumDB (src/MillenniumDB/src): from the parsed path
  expression of a query, over the automaton, to the iterators that enumerate its paths.

  \<^bold>\<open>How the program works.\<close> The query visitor turns the parse tree of a path into an \<open>IPath\<close> and simplifies it
  (\<open>denull\<close>). The planner asks the path for its automaton (\<open>get_rpq_automaton\<close>: a Thompson
  construction, then merging of states, removal of epsilon transitions and of useless states, and the
  subset construction), chooses an index for every edge type of the automaton, and builds the iterator of
  the path semantics. The iterator searches the product of graph and automaton: \<open>begin\<close> and
  \<open>reset\<close> put the start state into its containers, every call of \<open>next\<close> runs the search up to its next
  result. It gets the neighbours of a node from an index provider, which answers from a B+tree or from a
  trie it builds at the first use and keeps in a cache of the database.

  \<^bold>\<open>Which theory models what.\<close>
  \<^item> \<open>Prelude\<close>: labels, words and languages; \<open>std::set\<close>, \<open>std::vector\<close>; the loop with an early return (\<open>scan\<close>).
  \<^item> \<open>PathExpr\<close>: the classes under parser/query/paths (\<open>path\<close>), \<open>nullable\<close>, \<open>invert\<close>, \<open>to_string\<close>, \<open>denull\<close>
    (denull_path.cc) and the path part of query_visitor.h; the meaning of a path is \<open>path_lang\<close>.
  \<^item> \<open>RpqNfa\<close>, \<open>RpqNfaLang\<close>, \<open>Thompson\<close>: \<open>RPQ_NFA\<close> (rpq_automaton.h) and \<open>get_rpq_base_automaton\<close> of every
    class, with the invariants of the automata and their languages.
  \<^item> \<open>NfaMerge\<close>, \<open>NfaMergeLang\<close>, \<open>NfaEpsilon\<close>, \<open>NfaEpsilonLang\<close>, \<open>NfaTrim\<close>, \<open>RpqDfa\<close>, \<open>RpqDfaLang\<close>: the
    transformations of rpq_automaton.cc, one by one; \<open>NfaTypes\<close>: the edge types that stay in the
    automaton; \<open>PlainPath\<close> and \<open>RpqCompile\<close> put them together.
  \<^item> \<open>IndexIter\<close>: the iterators of path_index.h (locale \<open>result_iterator\<close>) and the loop of
    \<open>expand_neighbors\<close>; \<open>Tries\<close>: the tries of index_provider/trie; \<open>GraphIndex\<close>: \<open>QuadModelIndexProvider\<close> and
    the index cache of \<open>QuadModel\<close>, with the interpretation of the locales \<open>graph_provider\<close> and
    \<open>edge_provider\<close> of \<open>SearchBase\<close>, the contract between indexes and searches.
  \<^item> \<open>SearchBase\<close>, \<open>BfsInvariant\<close>: what the searches over states share. \<open>AnyShortest\<close>, \<open>AnyShortestCorrect\<close>:
    any_shortest/bfs_enum.cc. \<open>AnyCheck\<close>: any_shortest/bfs_check.cc. \<open>AnyDfs\<close>: any/dfs_enum.cc and any/dfs_check.cc.
  \<^item> \<open>SearchTree\<close>, \<open>BfsObject\<close>, \<open>TreeBfs\<close>, \<open>TreeDfs\<close>, \<open>PathTree\<close>: the breadth-first and depth-first loops over whole
    paths (locale \<open>bfs_object\<close>), the tree of paths they walk and its answers. \<open>SimpleBfs\<close>, \<open>SimpleDfs\<close>: all_simple and any_simple;
    \<open>TrailBfs\<close>, \<open>TrailDfs\<close>: all_trails and any_trails.
  \<^item> \<open>ShortestTree\<close>, \<open>ShortestBfs\<close>: all_shortest_simple and all_shortest_trails; \<open>ShortestCorrect\<close>, \<open>ShortestCheck\<close>: their
    results are the shortest ones of those of all_simple and all_trails.
  \<^item> \<open>AllCount\<close>: all_shortest_count; \<open>CountWalks\<close>: the number of walks of a given length, in the product and in the
    graph (locale \<open>counted_provider\<close>); \<open>AllCountCorrect\<close>, \<open>AllCountCheck\<close>: the counts are these numbers.
  \<^item> \<open>PathPlan\<close>: \<open>PathPlan\<close> of the planner (path_plan.cc): the semantics of a path, which index serves an edge
    type, which iterator runs from which end, and the errors. \<open>PlanRun\<close>: what the iterator of a plan returns.
  \<^item> \<open>ObjectIds\<close>, \<open>GraphObjects\<close>: \<open>ObjectId\<close>, \<open>Inliner\<close>, \<open>GraphObject\<close> with its factory, the ids and objects of query
    elements and \<open>QuadModel::get_graph_object\<close>; \<open>ObjectRoundtrip\<close>: an id decodes to what it was made from;
    \<open>ObjectCompare\<close>: \<open>GraphObjectManager::compare\<close> and the order it computes.
  \<^item> \<open>Spec2Isabelle\<close>: the properties that span components, over \<open>query_on\<close> (a stored graph, its indexes, the
    automaton of an expression, the ids of the start and end node).

  \<^bold>\<open>State and results.\<close> A class with state is a record with the fields of the class; an operation takes the
  record and returns it. A call of \<open>next\<close> returns the new object and the path it stores in the binding, or
  \<open>None\<close> for \<open>false\<close>. \<open>drains nxt S rs S'\<close> says that calling \<open>next\<close> from \<open>S\<close> until it answers false ends,
  in \<open>S'\<close>, with exactly the results \<open>rs\<close>. Object ids are 64-bit words; the positions of a trie are 32-bit words.
  Search states are reached over pointers into containers that never move or change them, so a pointer
  is the state it points to. An unordered container is a list in order of insertion.

  An iterator of an index without edges throws when it is asked for an edge: \<open>get_edge\<close> gives \<open>None\<close>. The trail
  searches go on with \<open>None\<close> there, so the properties about trails assume indexes with edges (which the planner
  assigns, and which a cache filled by another query may not hold, as the last section shows).

  \<^bold>\<open>Termination.\<close> Loops whose measure is structural or local are functions; the searches and the subset
  construction are partial functions, whose value \<open>None\<close> is a call that does not return, and the
  theorems prove that they return. No fuel is used.

  \<^bold>\<open>What the lemmas show.\<close> The automaton: every transformation keeps the language, except where the
  last section shows that it does not; for expressions with stars and optionals only over parts without
  them, in any nesting (\<open>plain\<close>), the final automaton is exact, for every expression it loses no word. Tries and provider: a
  query returns the entries of the graph, whatever index serves it. Searches: each ends, its results are
  the answers of the path semantics over the graph (walks, simple paths, trails), each with a path that
  matches, once where the semantics asks for one path per node, and shortest where the search is
  breadth-first. Graph objects: the id of an element decodes to the element, ids of integers are in the
  order of the integers, and the comparison of objects is the order of the elements where it is one.

  \<^bold>\<open>Not modelled.\<close> The RDF model (IRIs, literals, dates, decimals), the arithmetic on graph objects, the string
  manager (its ids and texts are parameters); the interruption flag of a query (a query is not interrupted); printing of plans and of
  statistics; the RDPQ automata (queries with data checks) and the experimental searches, which the
  planner does not use; the storage layer under a B+tree (pages, buffers, files), the servers, the import
  and the generated parsers, which are input and output or generated code; the other query operators. Of the path searches,
  all_shortest (a graph of predecessors with several paths per state, printed by the path manager) and
  unfixed_composite.cc (a loop over all start nodes around \<open>BFSEnum\<close>) are left out.
\<close>

section \<open>Example data\<close>

text \<open>A database of two edges, \<open>1 -5-> 2\<close> (edge 8) and \<open>2 -5-> 3\<close> (edge 9), and an assignment of
  identifiers to edge types.\<close>

definition example_store :: quad_store where
  "example_store = \<lparr>nodes = [1, 2, 3],
     type_from_to_edge = [Record4 5 1 2 8, Record4 5 2 3 9],
     type_to_from_edge = [Record4 5 2 1 8, Record4 5 3 2 9], idx_map = Map.empty, idx_inv_map = Map.empty\<rparr>"

definition example_info :: index_info where
  "example_info = \<lparr>t_info = [5 \<mapsto> TRIE], t_inv_info = [5 \<mapsto> BTREE]\<rparr>"

definition type_ids :: "string \<Rightarrow> object_id" where
  "type_ids s = (if s = ''a'' then 5 else if s = ''b'' then 6 else 7)"

definition query_on :: "quad_store \<Rightarrow> index_info \<Rightarrow> rpq_dfa \<Rightarrow> object_id \<Rightarrow> object_id \<Rightarrow> path_query" where
  "query_on S I D s e = \<lparr>automaton = D, provider = provider_of I S, node_exists = node_in_store S,
     start_object_id = s, end_object_id = e\<rparr>"

abbreviation type_atom :: "string \<Rightarrow> unit path" where
  "type_atom a \<equiv> PathAtom a False []"

lemma example_store_ok: "store_ok example_store"
  by (auto simp: store_ok_def example_store_def quads_def key4_def object_id_not_found_def)

lemma example_cache_ok: "cache_ok example_info example_store"
  by (simp add: cache_ok_def cached_def example_store_def)

section \<open>Path expressions\<close>

text \<open>C1: the search for one path per node answers a regular path query. For a query whose path
  expression is plain (stars and optionals only around parts that have none), started at a stored node, the calls of \<open>next\<close> return every node that a
  matching walk of the graph reaches, once, each with a walk that matches and is a shortest one.\<close>

theorem any_shortest_answers:
  assumes "store_ok S" "cache_ok I S" and "plain p" "get_rpq_automaton f p = Inr (Some D)"
    and "node_in_store S s"
  shows "let Q = query_on S I D s e; rs = bfs_results (total_final_states D > 1) Q (bfs_begin Q bfs_new) in
    distinct (map node_id rs) \<and>
    node_id ` set rs = {m. \<exists>w \<in> path_lang p. graph_walk (quads S) s (map (read_label f) w) m} \<and>
    (\<forall>r \<in> set rs. valid_result (quads S) Q r \<and>
       (\<forall>w \<in> path_lang p. graph_walk (quads S) s (map (read_label f) w) (node_id r) \<longrightarrow>
          length (path_steps r) \<le> length w))"
proof -
  let ?Q = "query_on S I D s e"
  have D: "dfa_ok (automaton ?Q)" "dfa_lang D = map (read_label f) ` path_lang p"
    using get_rpq_automaton_exact [OF assms(3), of f] assms(4) by (auto simp: query_on_def)
  have Q: "provider ?Q = provider_of I S" "node_exists ?Q (start_object_id ?Q)" "automaton ?Q = D" "start_object_id ?Q = s"
    using assms(5) by (simp_all add: query_on_def)
  note G = provider_of_graph [OF assms(1,2)]
  show ?thesis
    using graph_provider.any_shortest_enum [OF G Q(1) D(1) refl ready_begin Q(2)]
    by (auto simp: Let_def Q answers_def D(2))
qed

theorem any_shortest_answers_witness:
  "\<exists>D. node_id ` set (bfs_results (total_final_states D > 1) (query_on example_store example_info D 1 0)
       (bfs_begin (query_on example_store example_info D 1 0) bfs_new)) =
     {m. \<exists>w \<in> path_lang (PathSequence [type_atom ''a'', type_atom ''a'']).
        graph_walk (quads example_store) 1 (map (read_label type_ids) w) m}"
proof -
  let ?p = "PathSequence [type_atom ''a'', type_atom ''a'']"
  have p: "plain ?p" by simp
  moreover obtain D where "get_rpq_automaton type_ids ?p = Inr (Some D)"
    using get_rpq_automaton_exact [OF p] by blast
  moreover have "node_in_store example_store 1" by (simp add: node_in_store_def example_store_def)
  ultimately show ?thesis
    using any_shortest_answers [OF example_store_ok example_cache_ok, of ?p type_ids D 1 0] by (auto simp: Let_def)
qed


text \<open>C2: the automaton of a plain path expression (stars and optionals only around parts
  that have none: edge types, sequences and alternatives in any nesting) is built, is well formed and reads exactly the words of the expression; when the edge
  types of the expression have different identifiers it is deterministic.\<close>

theorem plain_automaton_exact:
  assumes "plain p"
  shows "\<exists>D. get_rpq_automaton f p = Inr (Some D) \<and> dfa_ok D \<and>
    dfa_lang D = map (read_label f) ` path_lang p \<and> (inj_on f (path_types p) \<longrightarrow> deterministic D)"
  by (rule get_rpq_automaton_exact [OF assms])

theorem plain_automaton_exact_witness:
  "let p = PathKleeneStar (PathSequence [type_atom ''a'', PathAlternatives [type_atom ''b'', PathAlternatives [type_atom ''c'', type_atom ''a'']]])
   in \<exists>D. get_rpq_automaton type_ids p = Inr (Some D) \<and> dfa_ok D \<and> dfa_lang D = map (read_label type_ids) ` path_lang p"
  unfolding Let_def using plain_automaton_exact [of "PathKleeneStar (PathSequence [type_atom ''a'', PathAlternatives
    [type_atom ''b'', PathAlternatives [type_atom ''c'', type_atom ''a'']]])" type_ids] by (simp del: path_lang.simps) blast

text \<open>C3: for every path expression without data checks and empty nodes whose stars are over parts
  that cannot be empty, the compilation ends without error and its automaton accepts at least the
  words of the expression: no answer is lost.\<close>

theorem automaton_complete:
  assumes "wf_path p"
  shows "\<exists>D. get_rpq_automaton f p = Inr (Some D) \<and> dfa_ok D \<and> map (read_label f) ` path_lang p \<subseteq> dfa_lang D"
  by (rule get_rpq_automaton_complete [OF assms])

theorem automaton_complete_witness:
  "\<exists>D. get_rpq_automaton type_ids
      (PathKleeneStar (PathSequence [type_atom ''a'', PathKleeneStar (type_atom ''b'')])) = Inr (Some D) \<and> dfa_ok D"
  using automaton_complete [of "PathKleeneStar (PathSequence [type_atom ''a'', PathKleeneStar (type_atom ''b'')])" type_ids]
  by auto

text \<open>C4: \<open>delete_epsilon_transitions\<close> keeps the states and the language of an automaton and leaves no
  epsilon transition.\<close>

theorem epsilon_removal_correct:
  assumes "outer_ok A"
  shows "nfa_lang (delete_epsilon_transitions A) = nfa_lang A \<and> eps_free (delete_epsilon_transitions A) \<and>
    total_states (delete_epsilon_transitions A) = total_states A \<and> outer_ok (delete_epsilon_transitions A)"
  using delete_epsilon_transitions_spec [OF assms] by simp

theorem epsilon_removal_correct_witness:
  "nfa_lang (delete_epsilon_transitions (atom_automaton ''a'' False)) = nfa_lang (atom_automaton ''a'' False)"
proof -
  have "base_ok (atom_automaton ''a'' False)" using atom_base_spec by (simp add: base_spec_def)
  from epsilon_removal_correct [OF nfa_ok_outer_ok [OF base_ok_nfa_ok [OF this]]] show ?thesis by simp
qed

text \<open>C5: \<open>delete_unreachable_states\<close> keeps the language and, of the transitions, exactly those
  between state 0 and the states the start state reaches.\<close>

theorem trimming_correct:
  assumes "outer_ok A"
  shows "nfa_lang (delete_unreachable_states A) = nfa_lang A \<and>
    edges (delete_unreachable_states A) =
      {t \<in> edges A. frm t \<in> insert 0 {q. (start A, q) \<in> (step_rel A False)\<^sup>*} \<and>
                    dest t \<in> insert 0 {q. (start A, q) \<in> (step_rel A False)\<^sup>*}}"
  using delete_unreachable_states_lang [OF assms] delete_unreachable_states_spec [OF assms] by simp

theorem trimming_correct_witness:
  "nfa_lang (delete_unreachable_states (atom_automaton ''a'' False)) = nfa_lang (atom_automaton ''a'' False)"
proof -
  have "base_ok (atom_automaton ''a'' False)" using atom_base_spec by (simp add: base_spec_def)
  from trimming_correct [OF nfa_ok_outer_ok [OF base_ok_nfa_ok [OF this]]] show ?thesis by simp
qed



text \<open>C7: \<open>invert\<close>, which the planner applies to search from the end node, denotes the reversed words
  with every direction flipped.\<close>

theorem invert_reverses: "path_lang (invert p) = rev_word ` path_lang p"
  by (rule invert_lang)

text \<open>C8: the simplification applied when a \<open>PathKleeneStar\<close> is constructed does not change the
  words of the star.\<close>

theorem denull_keeps_star: "path_lang (mk_kleene_star p) = kstar (path_lang p)"
  by (simp add: mk_kleene_star_def kstar_denull)

text \<open>C9: \<open>nullable\<close> answers whether the empty word matches.\<close>

theorem nullable_iff_empty_word: "nullable p \<longleftrightarrow> [] \<in> path_lang p"
  by (rule nullable_lang)

section \<open>Where the neighbours come from\<close>

text \<open>C10: a trie filled in prefix order with fewer than \<open>2 ^ 32\<close> records answers a query with the
  range of exactly the data inserted under that prefix, in order; the range lies in the data level.\<close>

theorem trie_query_correct:
  assumes "sorted (map fst rs)" "object_id_not_found \<notin> fst ` set rs" "length rs < 2 ^ 32"
    and "T = trie_end_inserts (fold (\<lambda>r. trie_insert (fst r) (snd r)) rs new_trie)" "trie_query T p = (lo, hi)"
  shows "map (\<lambda>i. data_lvl T ! i) [lo..<hi] = map snd (filter (\<lambda>r. fst r = p) rs) \<and> hi \<le> length (data_lvl T)"
proof -
  obtain gs where gs: "trie_of gs (fold (\<lambda>r. trie_insert (fst r) (snd r)) rs new_trie)" "good_groups gs" "ungroup gs = rs"
    using trie_of_fold [OF assms(1,2)] by blast
  moreover have "group_size gs < 2 ^ 32" using gs(3) assms(3) length_ungroup [of gs] by simp
  ultimately show ?thesis using trie_query_groups [OF gs(1,2), of p lo hi] assms(4,5) by simp
qed

theorem trie_query_correct_witness:
  "trie_query (trie_end_inserts (fold (\<lambda>r. trie_insert (fst r) (snd r)) [(1, 7), (1, 8), (3, 9 :: nat)] new_trie)) 1 = (0, 2) \<and>
   map (\<lambda>i. data_lvl (trie_end_inserts (fold (\<lambda>r. trie_insert (fst r) (snd r)) [(1, 7), (1, 8), (3, 9 :: nat)] new_trie)) ! i)
     [0..<2] = [7, 8]"
proof -
  let ?T = "trie_end_inserts (fold (\<lambda>r. trie_insert (fst r) (snd r)) [(1, 7), (1, 8), (3, 9 :: nat)] new_trie)"
  have q: "trie_query ?T 1 = (0, 2)"
    by (simp add: trie_insert_def new_trie_def trie_end_inserts_def trie_query_def lower_bound_def object_id_not_found_def)
  with trie_query_correct [OF _ _ _ refl q] show ?thesis by (simp add: object_id_not_found_def)
qed

text \<open>C11: the hash trie answers a query in the same way, although it also stores a range for the
  reserved prefix it starts with.\<close>

theorem hash_trie_query_correct:
  assumes "sorted (map fst rs)" "object_id_not_found \<notin> fst ` set rs" "length rs < 2 ^ 32"
    and "T = hash_trie_end_inserts (fold (\<lambda>r. hash_trie_insert (fst r) (snd r)) rs new_hash_trie)"
    and "hash_trie_query T p = (lo, hi)"
  shows "map (\<lambda>i. hash_data_lvl T ! i) [lo..<hi] = map snd (filter (\<lambda>r. fst r = p) rs) \<and> hi \<le> length (hash_data_lvl T)"
proof -
  obtain gs where gs: "hash_trie_of gs (fold (\<lambda>r. hash_trie_insert (fst r) (snd r)) rs new_hash_trie)"
      "good_groups gs" "ungroup gs = rs"
    using hash_trie_of_fold [OF assms(1,2)] by blast
  moreover have "group_size gs < 2 ^ 32" using gs(3) assms(3) length_ungroup [of gs] by simp
  moreover have "object_id_not_found \<notin> fst ` set gs" using good_groups_fst [OF gs(2)] gs(3) assms(2) by simp
  ultimately show ?thesis using hash_trie_query_groups [OF gs(1,2), of p lo hi] assms(4,5) by simp
qed

theorem hash_trie_query_correct_witness:
  "map (\<lambda>i. hash_data_lvl (hash_trie_end_inserts (fold (\<lambda>r. hash_trie_insert (fst r) (snd r)) [(1, 7), (1, 8), (3, 9)] new_hash_trie)) ! i)
     [2..<3] = [9]"
proof -
  let ?T = "hash_trie_end_inserts (fold (\<lambda>r. hash_trie_insert (fst r) (snd r)) [(1, 7), (1, 8), (3, 9)] new_hash_trie)"
  have q: "hash_trie_query ?T 3 = (2, 3)"
    by (simp add: hash_trie_insert_def hash_trie_store_def new_hash_trie_def hash_trie_end_inserts_def hash_trie_query_def
        object_id_not_found_def)
  with hash_trie_query_correct [OF _ _ _ refl q] show ?thesis by (simp add: object_id_not_found_def)
qed

text \<open>C12: whichever index serves a transition, the iterator it gives enumerates exactly the
  neighbours of the node along the edges of that type and direction in the stored graph, provided that
  what the cache holds for a transition is the index its assignment asks for.\<close>

theorem provider_enumerates_edges:
  assumes "store_ok S" "cache_ok I S" "provider_get_iterator I t d n S = Some (S', it)"
  shows "iter_ok it \<and> fst ` set (iter_rest it) = {m. \<exists>e. crosses (quads S) n (t, d) m e}"
proof -
  have "it = provider_of I S t d n" using assms(3) by (simp add: provider_of_def)
  then show ?thesis
    using graph_provider.neighbours [OF provider_of_graph [OF assms(1,2)]] provider_of_entries [OF assms(1,2)] by simp
qed

theorem provider_enumerates_edges_witness:
  "\<exists>S' it. provider_get_iterator example_info 5 False 1 example_store = Some (S', it) \<and>
     fst ` set (iter_rest it) = {m. \<exists>e. crosses (quads example_store) 1 (5, False) m e}"
proof -
  obtain S' idx where "get_index 5 False TRIE example_store = (S', idx)" by force
  then have "provider_get_iterator example_info 5 False 1 example_store = Some (S', index_get_iterator idx 1)"
    by (simp add: provider_get_iterator_def example_info_def)
  with provider_enumerates_edges [OF example_store_ok example_cache_ok this] show ?thesis by blast
qed

text \<open>C13: building an index on demand is invisible to the queries that agree on it. A request under an
  assignment \<open>I\<close> of index types leaves the stored graph as it is, and for every assignment \<open>J\<close> for which
  the cache was right and that asks for the same type of index for the requested transition (or for the
  B+tree, or does not use the transition), \<open>I\<close> among them, the cache is still right and every later request
  gets the iterator it would have got before.\<close>

theorem cache_transparent:
  assumes "cache_ok I S" "provider_get_iterator I t d n S = Some (S', it)"
  shows "same_graph S S' \<and>
    (\<forall>J. cache_ok J S \<longrightarrow> agree_on I J d t \<longrightarrow> cache_ok J S' \<and> provider_of J S' = provider_of J S)"
  using provider_of_stable(3) [OF assms] cache_ok_later [OF assms] provider_of_later by blast

theorem cache_transparent_witness:
  "\<exists>S' it. provider_get_iterator example_info 5 False 1 example_store = Some (S', it) \<and> idx_map S' 5 \<noteq> None \<and>
     provider_of example_info S' = provider_of example_info example_store"
proof -
  obtain S' it where "provider_get_iterator example_info 5 False 1 example_store = Some (S', it)" "idx_map S' 5 \<noteq> None"
    by (auto simp: provider_get_iterator_def example_info_def get_index_def materialize_index_def example_store_def Let_def)
  with cache_transparent [OF example_cache_ok this(1)] example_cache_ok show ?thesis using agree_on_self by blast
qed

section \<open>Behaviour at the edges\<close>

text \<open>A search from an identifier that is not a node of the database returns nothing.\<close>

theorem missing_start_no_results:
  assumes "store_ok S" "cache_ok I S" "dfa_ok D" "\<not> node_in_store S s"
  shows "bfs_results (total_final_states D > 1) (query_on S I D s e) (bfs_begin (query_on S I D s e) bfs_new) = []"
  by (rule graph_provider.any_shortest_enum_missing [OF provider_of_graph [OF assms(1,2)]])
    (use assms(3,4) in \<open>simp_all add: query_on_def ready_begin\<close>)

theorem missing_start_no_results_witness:
  "\<exists>D. get_rpq_automaton type_ids (type_atom ''a'') = Inr (Some D) \<and>
    bfs_results (total_final_states D > 1) (query_on example_store example_info D 4 0)
      (bfs_begin (query_on example_store example_info D 4 0) bfs_new) = []"
proof -
  obtain D where D: "get_rpq_automaton type_ids (type_atom ''a'') = Inr (Some D)" "dfa_ok D"
    using get_rpq_automaton_exact [of "type_atom ''a''" type_ids] by auto
  have "\<not> node_in_store example_store 4" by code_simp
  from missing_start_no_results [OF example_store_ok example_cache_ok D(2) this, of 0] D(1) show ?thesis by blast
qed

text \<open>C14: \<open>reset\<close> starts the enumeration over: whatever was enumerated before, the nodes found after
  it are those found by a new object.\<close>

theorem reset_starts_over:
  fixes e :: object_id
  assumes "store_ok S" "cache_ok I S" "dfa_ok D" "node_in_store S s"
  defines "Q \<equiv> query_on S I D s e" and "mf \<equiv> total_final_states D > 1"
  shows "node_id ` set (bfs_results mf Q (bfs_reset mf Q B)) = node_id ` set (bfs_results mf Q (bfs_begin Q bfs_new))"
proof -
  note G = graph_provider.any_shortest_enum [OF provider_of_graph [OF assms(1,2)], of Q mf]
  have Q: "provider Q = provider_of I S" "dfa_ok (automaton Q)" "mf = (total_final_states (automaton Q) > 1)"
    "node_exists Q (start_object_id Q)" using assms(3,4) by (simp_all add: Q_def mf_def query_on_def)
  show ?thesis using G [OF Q(1-3) ready_reset Q(4), of B] G [OF Q(1-3) ready_begin Q(4)] by simp
qed

theorem reset_starts_over_witness:
  "\<exists>D. get_rpq_automaton type_ids (type_atom ''a'') = Inr (Some D) \<and>
    (let Q = query_on example_store example_info D 1 0; mf = (total_final_states D > 1) in
     node_id ` set (bfs_results mf Q (bfs_reset mf Q (fst (bfs_next mf Q (bfs_begin Q bfs_new))))) =
     node_id ` set (bfs_results mf Q (bfs_begin Q bfs_new)))"
proof -
  obtain D where D: "get_rpq_automaton type_ids (type_atom ''a'') = Inr (Some D)" "dfa_ok D"
    using get_rpq_automaton_exact [of "type_atom ''a''" type_ids] by auto
  have "node_in_store example_store 1" by (simp add: node_in_store_def example_store_def)
  from reset_starts_over [OF example_store_ok example_cache_ok D(2) this, of 0] D(1) show ?thesis
    unfolding Let_def by blast
qed

section \<open>Simple paths and trails\<close>

text \<open>The answers of a query in terms of its path expression: walks of the stored graph, step by step,
  that match, satisfy \<open>good\<close> and end in \<open>ends\<close>. With \<open>keep\<close> a step names the edge it crosses.\<close>

definition path_answers ::
  "quad_store \<Rightarrow> (string \<Rightarrow> object_id) \<Rightarrow> unit path \<Rightarrow> bool \<Rightarrow> (step list \<Rightarrow> bool) \<Rightarrow> object_id \<Rightarrow> object_id set \<Rightarrow>
     step list set" where
  "path_answers S f p keep good s ends =
     {xs. \<exists>m \<in> ends. step_walk (quads S) keep s xs m \<and> map fst xs \<in> map (read_label f) ` path_lang p \<and> good xs}"

lemma query_setup:
  assumes "store_ok S" "cache_ok I S" "plain p" "get_rpq_automaton f p = Inr (Some D)" "node_in_store S s"
  shows "exact_arrows (quads S) False (provider (query_on S I D s e))" "dfa_ok (automaton (query_on S I D s e))"
    "provider_ok (provider (query_on S I D s e))" "node_exists (query_on S I D s e) (start_object_id (query_on S I D s e))"
    "good_answers (quads S) keep (query_on S I D s e) good ends = path_answers S f p keep good s ends"
    "start_object_id (query_on S I D s e) = s" "end_object_id (query_on S I D s e) = e"
proof -
  have D: "dfa_ok D" "dfa_lang D = map (read_label f) ` path_lang p"
    using get_rpq_automaton_exact [OF assms(3), of f] assms(4) by auto
  note G = provider_of_graph [OF assms(1,2)]
  show "exact_arrows (quads S) False (provider (query_on S I D s e))"
    using graph_provider.exact_nodes [OF G] by (simp add: query_on_def)
  show "provider_ok (provider (query_on S I D s e))" using graph_provider.prov_ok [OF G] by (simp add: query_on_def)
  show "dfa_ok (automaton (query_on S I D s e))" using D by (simp add: query_on_def)
  show "node_exists (query_on S I D s e) (start_object_id (query_on S I D s e))" using assms(5) by (simp add: query_on_def)
  show "good_answers (quads S) keep (query_on S I D s e) good ends = path_answers S f p keep good s ends"
    by (simp add: good_answers_def path_answers_def query_on_def D)
qed (simp_all add: query_on_def)

lemma query_setup_edges:
  assumes "store_ok S" "cache_ok I S" "\<forall>t d. edge_flag I d t"
  shows "exact_arrows (quads S) True (provider (query_on S I D s e))"
  using edge_provider.exact_edges [OF provider_of_edges [OF assms]] by (simp add: query_on_def)

text \<open>A plain query on the example database, and indexes with edges for it.\<close>

definition two_steps :: "unit path" where
  "two_steps = PathSequence [type_atom ''a'', type_atom ''a'']"

definition edge_info :: index_info where
  "edge_info = \<lparr>t_info = [5 \<mapsto> BTREE], t_inv_info = [5 \<mapsto> EDGE_TRIE]\<rparr>"

lemma example_query:
  obtains D where "plain two_steps" "get_rpq_automaton type_ids two_steps = Inr (Some D)" "node_in_store example_store 1"
proof -
  have p: "plain two_steps" by (simp add: two_steps_def)
  obtain D where "get_rpq_automaton type_ids two_steps = Inr (Some D)" using get_rpq_automaton_exact [OF p] by blast
  moreover have "node_in_store example_store 1" by (simp add: node_in_store_def example_store_def)
  ultimately show ?thesis using p that by blast
qed

lemma example_edge_info: "cache_ok edge_info example_store" "\<forall>t d. edge_flag edge_info d t"
  by (auto simp: cache_ok_def cached_def example_store_def edge_flag_def assigned_def edge_info_def)

text \<open>C15: the breadth-first searches for all simple (or, with \<open>cyclic\<close> false, acyclic) paths of a plain
  expression. Called until it answers false, \<open>next\<close> of \<open>AllSimple::BFSEnum\<close> ends and returns exactly the simple walks from
  the start node that match the expression, shortest first; \<open>BFSCheck\<close> exactly those to its end node.
  No write leaves the blocks of path states.\<close>

theorem all_simple_paths:
  assumes "store_ok S" "cache_ok I S" "plain p" "get_rpq_automaton f p = Inr (Some D)" "node_in_store S s"
  shows "let Q = query_on S I D s e; good = simple_steps cyclic s in
    (\<exists>rs B. drains (simple_bfs_next cyclic Q) (simple_bfs_begin Q tree_bfs_new) rs B \<and> visited_safe (bfs_visited B) \<and>
       steps_of ` set rs = path_answers S f p False good s UNIV \<and> (\<forall>r \<in> set rs. path_result (quads S) False Q r) \<and>
       sorted (map (\<lambda>r. length (steps_of r)) rs)) \<and>
    (\<exists>rs B. drains (simple_check_next cyclic Q) (simple_bfs_begin Q tree_bfs_new) rs B \<and> visited_safe (bfs_visited B) \<and>
       steps_of ` set rs = path_answers S f p False good s {e} \<and> (\<forall>r \<in> set rs. path_result (quads S) False Q r) \<and>
       sorted (map (\<lambda>r. length (steps_of r)) rs))"
proof -
  note q = query_setup [OF assms, where e = e]
  note A = all_simple_bfs_enum [OF q(1-4) simple_fresh_begin, of cyclic, unfolded q(5-7)]
    and B = all_simple_bfs_check [OF q(1-4) simple_fresh_begin, of cyclic, unfolded q(5-7)]
  show ?thesis unfolding Let_def using A B by (rule conjI)
qed

theorem all_simple_paths_witness:
  "\<exists>D rs B. drains (simple_bfs_next True (query_on example_store example_info D 1 3))
       (simple_bfs_begin (query_on example_store example_info D 1 3) tree_bfs_new) rs B \<and>
     steps_of ` set rs = path_answers example_store type_ids two_steps False (simple_steps True 1) 1 UNIV"
proof -
  obtain D where "plain two_steps" "get_rpq_automaton type_ids two_steps = Inr (Some D)" "node_in_store example_store 1"
    by (rule example_query)
  from all_simple_paths [OF example_store_ok example_cache_ok this, of 3 True] show ?thesis
    unfolding Let_def by blast
qed

text \<open>C16: the breadth-first searches for one simple path, for a plain expression. \<open>AnySimple::BFSEnum\<close> returns every node that a
  matching simple path reaches, once, with a shortest such path; \<open>BFSCheck\<close> returns a shortest matching
  simple path to its end node if there is one, and nothing else.\<close>

theorem any_simple_paths:
  assumes "store_ok S" "cache_ok I S" "plain p" "get_rpq_automaton f p = Inr (Some D)" "node_in_store S s"
  shows "let Q = query_on S I D s e; ans = (\<lambda>ends. path_answers S f p False (simple_steps cyclic s) s ends) in
    (\<exists>rs B. drains (any_simple_bfs_next cyclic Q) (simple_bfs_begin Q tree_bfs_new) rs B \<and> visited_safe (bfs_visited B) \<and>
       distinct (map path_node rs) \<and> path_node ` set rs = {m. ans {m} \<noteq> {}} \<and>
       (\<forall>r \<in> set rs. path_result (quads S) False Q r \<and> steps_of r \<in> ans {path_node r} \<and>
          (\<forall>ys \<in> ans {path_node r}. length (steps_of r) \<le> length ys))) \<and>
    (\<exists>rs B. drains (any_simple_check_next cyclic Q) (simple_bfs_begin Q tree_bfs_new) rs B \<and> visited_safe (bfs_visited B) \<and>
       length rs \<le> 1 \<and> (rs = [] \<longleftrightarrow> ans {e} = {}) \<and>
       (\<forall>r \<in> set rs. path_result (quads S) False Q r \<and> steps_of r \<in> ans {e} \<and>
          (\<forall>ys \<in> ans {e}. length (steps_of r) \<le> length ys)))"
proof -
  note q = query_setup [OF assms, where e = e]
  note A = any_simple_bfs_enum [OF q(1-4) simple_fresh_begin, of cyclic, unfolded q(5-7)]
    and B = any_simple_bfs_check [OF q(1-4) simple_fresh_begin, of cyclic, unfolded q(5-7)]
  show ?thesis unfolding Let_def using A B by (rule conjI)
qed

theorem any_simple_paths_witness:
  "\<exists>D rs B. drains (any_simple_bfs_next False (query_on example_store example_info D 1 3))
       (simple_bfs_begin (query_on example_store example_info D 1 3) tree_bfs_new) rs B \<and>
     path_node ` set rs = {m. path_answers example_store type_ids two_steps False (simple_steps False 1) 1 {m} \<noteq> {}}"
proof -
  obtain D where "plain two_steps" "get_rpq_automaton type_ids two_steps = Inr (Some D)" "node_in_store example_store 1"
    by (rule example_query)
  from any_simple_paths [OF example_store_ok example_cache_ok this, of 3 False] show ?thesis
    unfolding Let_def by blast
qed

text \<open>C17: the breadth-first searches for all trails of a plain expression, over indexes that hold the edges.
  \<open>AllTrails::BFSEnum\<close> ends and returns exactly the walks from the start node that match and cross no
  edge twice, shortest first; \<open>BFSCheck\<close> exactly those to its end node.\<close>

theorem all_trails:
  assumes "store_ok S" "cache_ok I S" "\<forall>t d. edge_flag I d t" "plain p" "get_rpq_automaton f p = Inr (Some D)" "node_in_store S s"
  shows "let Q = query_on S I D s e in
    (\<exists>rs B. drains (trail_bfs_next Q) (trail_bfs_begin Q tree_bfs_new) rs B \<and> visited_safe (bfs_visited B) \<and>
       steps_of ` set rs = path_answers S f p True trail_steps s UNIV \<and> (\<forall>r \<in> set rs. path_result (quads S) True Q r) \<and>
       sorted (map (\<lambda>r. length (steps_of r)) rs)) \<and>
    (\<exists>rs B. drains (trail_check_next Q) (trail_bfs_begin Q tree_bfs_new) rs B \<and> visited_safe (bfs_visited B) \<and>
       steps_of ` set rs = path_answers S f p True trail_steps s {e} \<and> (\<forall>r \<in> set rs. path_result (quads S) True Q r) \<and>
       sorted (map (\<lambda>r. length (steps_of r)) rs))"
proof -
  note q = query_setup [OF assms(1,2,4-6), where e = e] and X = query_setup_edges [OF assms(1-3)]
  note A = all_trails_bfs_enum [OF X q(2-4) trail_fresh_new, unfolded q(5-7)]
    and B = all_trails_bfs_check [OF X q(2-4) trail_fresh_new, unfolded q(5-7)]
  show ?thesis unfolding Let_def using A B by (rule conjI)
qed

theorem all_trails_witness:
  "\<exists>D rs B. drains (trail_bfs_next (query_on example_store edge_info D 1 3))
       (trail_bfs_begin (query_on example_store edge_info D 1 3) tree_bfs_new) rs B \<and>
     steps_of ` set rs = path_answers example_store type_ids two_steps True trail_steps 1 UNIV"
proof -
  obtain D where "plain two_steps" "get_rpq_automaton type_ids two_steps = Inr (Some D)" "node_in_store example_store 1"
    by (rule example_query)
  from all_trails [OF example_store_ok example_edge_info this, of 3] show ?thesis
    unfolding Let_def by blast
qed

text \<open>C18: the breadth-first searches for one trail of a plain expression, over indexes that hold the edges:
  \<open>AnyTrails::BFSEnum\<close> returns every node that a
  matching trail reaches, once, with a shortest one; \<open>BFSCheck\<close> a shortest matching trail to its end
  node if there is one.\<close>

theorem any_trails:
  assumes "store_ok S" "cache_ok I S" "\<forall>t d. edge_flag I d t" "plain p" "get_rpq_automaton f p = Inr (Some D)" "node_in_store S s"
  shows "let Q = query_on S I D s e; ans = path_answers S f p True trail_steps s in
    (\<exists>rs B. drains (any_trail_bfs_next Q) (trail_bfs_begin Q tree_bfs_new) rs B \<and> visited_safe (bfs_visited B) \<and>
       distinct (map path_node rs) \<and> path_node ` set rs = {m. ans {m} \<noteq> {}} \<and>
       (\<forall>r \<in> set rs. path_result (quads S) True Q r \<and> steps_of r \<in> ans {path_node r} \<and>
          (\<forall>ys \<in> ans {path_node r}. length (steps_of r) \<le> length ys))) \<and>
    (\<exists>rs B. drains (any_trail_check_next Q) (trail_bfs_begin Q tree_bfs_new) rs B \<and> visited_safe (bfs_visited B) \<and>
       length rs \<le> 1 \<and> (rs = [] \<longleftrightarrow> ans {e} = {}) \<and>
       (\<forall>r \<in> set rs. path_result (quads S) True Q r \<and> steps_of r \<in> ans {e} \<and>
          (\<forall>ys \<in> ans {e}. length (steps_of r) \<le> length ys)))"
proof -
  note q = query_setup [OF assms(1,2,4-6), where e = e] and X = query_setup_edges [OF assms(1-3)]
  note A = any_trails_bfs_enum [OF X q(2-4) trail_fresh_new, unfolded q(5-7)]
    and B = any_trails_bfs_check [OF X q(2-4) trail_fresh_new, unfolded q(5-7)]
  show ?thesis unfolding Let_def using A B by (rule conjI)
qed

theorem any_trails_witness:
  "\<exists>D rs B. drains (any_trail_check_next (query_on example_store edge_info D 1 3))
       (trail_bfs_begin (query_on example_store edge_info D 1 3) tree_bfs_new) rs B \<and>
     (rs = [] \<longleftrightarrow> path_answers example_store type_ids two_steps True trail_steps 1 {3} = {})"
proof -
  obtain D where "plain two_steps" "get_rpq_automaton type_ids two_steps = Inr (Some D)" "node_in_store example_store 1"
    by (rule example_query)
  from any_trails [OF example_store_ok example_edge_info this, of 3] show ?thesis
    unfolding Let_def by blast
qed

section \<open>Depth first against breadth first\<close>

text \<open>C19: the searches for all shortest simple (or, with \<open>cyclic\<close> false, acyclic) paths of a plain expression.
  \<open>AllShortestSimple::BFSEnum\<close> ends and returns, for every node that a matching simple path reaches,
  exactly the matching simple paths to it that are as short as any other; \<open>BFSCheck\<close>, which stops
  pushing states after its first result, exactly those to its end node. The distances are 32-bit
  numbers, so the graph has fewer than \<open>2 ^ 32\<close> connected nodes.\<close>

theorem all_shortest_simple_paths:
  assumes "store_ok S" "cache_ok I S" "plain p" "get_rpq_automaton f p = Inr (Some D)" "node_in_store S s"
    and "card (end_points (quads S)) < 2 ^ 32"
  shows "let Q = query_on S I D s e; ans = path_answers S f p False (simple_steps cyclic s) s in
    (\<exists>rs B. drains (shortest_simple_next cyclic Q) (shortest_simple_begin Q shortest_enum_new) rs B \<and>
       visited_safe (sb_visited B) \<and> steps_of ` set rs = shortest_of ans UNIV \<and>
       (\<forall>r \<in> set rs. path_result (quads S) False Q r) \<and> sorted (map path_length rs)) \<and>
    (\<exists>rs B. drains (shortest_simple_check_next cyclic Q) (shortest_simple_check_begin Q shortest_check_new) rs B \<and>
       visited_safe (sb_visited B) \<and> steps_of ` set rs = shortest_of ans {e} \<and>
       (\<forall>r \<in> set rs. path_result (quads S) False Q r) \<and> sorted (map path_length rs))"
proof -
  note q = query_setup [OF assms(1-5), where e = e]
  have len: "\<forall>xs \<in> simple_answers (quads S) (query_on S I D s e) cyclic ends. length xs < 2 ^ 32" for ends
    using simple_answers_short assms(6) le_less_trans by blast
  note A = shortest_simple_enum [OF q(1-4) shortest_fresh_begin(1) len, unfolded lists_nearest_def q(5-7)]
    and B = shortest_simple_check [OF q(1-4) scheck_fresh_begin(1) len, unfolded lists_nearest_def q(5-7)]
  show ?thesis unfolding Let_def using A B by (rule conjI)
qed

lemma example_small: "card (end_points (quads example_store)) < 2 ^ 32" "card (quads example_store) < 2 ^ 32"
proof -
  have "end_points (quads example_store) \<subseteq> {1, 2, 3}"
    by (auto simp: end_points_def quads_def example_store_def)
  then have "card (end_points (quads example_store)) \<le> card {1 :: object_id, 2, 3}" by (rule card_mono [rotated]) simp
  then show "card (end_points (quads example_store)) < 2 ^ 32" by simp
  have "card (quads example_store) \<le> card (set (type_from_to_edge example_store))"
    unfolding quads_def by (rule card_image_le) simp
  also have "\<dots> \<le> 2" by (simp add: example_store_def card_insert_if)
  finally show "card (quads example_store) < 2 ^ 32" by simp
qed

theorem all_shortest_simple_paths_witness:
  "\<exists>D rs B. drains (shortest_simple_check_next True (query_on example_store example_info D 1 3))
       (shortest_simple_check_begin (query_on example_store example_info D 1 3) shortest_check_new) rs B \<and>
     steps_of ` set rs = shortest_of (path_answers example_store type_ids two_steps False (simple_steps True 1) 1) {3}"
proof -
  obtain D where "plain two_steps" "get_rpq_automaton type_ids two_steps = Inr (Some D)" "node_in_store example_store 1"
    by (rule example_query)
  from all_shortest_simple_paths [OF example_store_ok example_cache_ok this example_small(1), of 3 True] show ?thesis
    unfolding Let_def by blast
qed

text \<open>C20: the searches for all shortest trails of a plain expression, over indexes that hold the edges.
  \<open>AllShortestTrails::BFSEnum\<close> ends and returns, for every node that a matching trail reaches, exactly
  the matching trails to it that are as short as any other; \<open>BFSCheck\<close> exactly those to its end
  node, although it neither expands a solution nor pushes states after its first result.\<close>

theorem all_shortest_trails:
  assumes "store_ok S" "cache_ok I S" "\<forall>t d. edge_flag I d t" "plain p" "get_rpq_automaton f p = Inr (Some D)"
    and "node_in_store S s" "card (quads S) < 2 ^ 32"
  shows "let Q = query_on S I D s e; ans = path_answers S f p True trail_steps s in
    (\<exists>rs B. drains (shortest_trail_next Q) (shortest_trail_begin Q shortest_enum_new) rs B \<and>
       visited_safe (sb_visited B) \<and> steps_of ` set rs = shortest_of ans UNIV \<and>
       (\<forall>r \<in> set rs. path_result (quads S) True Q r) \<and> sorted (map path_length rs)) \<and>
    (\<exists>rs B. drains (shortest_trail_check_next Q) (shortest_trail_check_begin Q shortest_check_new) rs B \<and>
       visited_safe (sb_visited B) \<and> steps_of ` set rs = shortest_of ans {e} \<and>
       (\<forall>r \<in> set rs. path_result (quads S) True Q r) \<and> sorted (map path_length rs))"
proof -
  note q = query_setup [OF assms(1,2,4-6), where e = e] and X = query_setup_edges [OF assms(1-3)]
  have len: "\<forall>xs \<in> trail_answers (quads S) (query_on S I D s e) ends. length xs < 2 ^ 32" for ends
    using trail_answers_short assms(7) le_less_trans by blast
  note A = shortest_trail_enum [OF X q(2-4) shortest_fresh_begin(2) len, unfolded lists_nearest_def q(5-7)]
    and B = shortest_trail_check [OF X q(2-4) scheck_fresh_begin(2) len, unfolded lists_nearest_def q(5-7)]
  show ?thesis unfolding Let_def using A B by (rule conjI)
qed

theorem all_shortest_trails_witness:
  "\<exists>D rs B. drains (shortest_trail_check_next (query_on example_store edge_info D 1 3))
       (shortest_trail_check_begin (query_on example_store edge_info D 1 3) shortest_check_new) rs B \<and>
     steps_of ` set rs = shortest_of (path_answers example_store type_ids two_steps True trail_steps 1) {3}"
proof -
  obtain D where "plain two_steps" "get_rpq_automaton type_ids two_steps = Inr (Some D)" "node_in_store example_store 1"
    by (rule example_query)
  from all_shortest_trails [OF example_store_ok example_edge_info this example_small(2), of 3] show ?thesis
    unfolding Let_def by blast
qed

text \<open>C21: for all simple paths of a plain expression the depth-first enumeration (a stack of frames with cursors, where a
  cyclic solution is a frame that is discarded) ends and returns the same paths as the breadth-first
  one (a queue of states over one cursor), each as often.\<close>

theorem simple_dfs_equals_bfs:
  fixes p :: "unit path"
  assumes "store_ok S" "cache_ok I S" "plain p" "get_rpq_automaton f p = Inr (Some D)" "node_in_store S s"
  shows "let Q = query_on S I D s e in
    \<exists>ds bs S' B'. drains (simple_dfs_next cyclic Q) (simple_dfs_begin Q tree_dfs_new) ds S' \<and>
      drains (simple_bfs_next cyclic Q) (simple_bfs_begin Q tree_bfs_new) bs B' \<and> mset ds = mset bs"
proof -
  note q = query_setup [OF assms, where e = e]
  show ?thesis
    unfolding Let_def
    using all_simple_dfs_enum [OF q(3,4) simple_dfs_fresh_begin, of cyclic]
      all_simple_bfs_list [OF q(3,4) simple_fresh_begin, of cyclic]
      simple_preorder_levels [of "query_on S I D s e" cyclic]
    by blast
qed

theorem simple_dfs_equals_bfs_witness:
  "\<exists>D ds bs S' B'.
     drains (simple_dfs_next True (query_on example_store example_info D 1 3))
       (simple_dfs_begin (query_on example_store example_info D 1 3) tree_dfs_new) ds S' \<and>
     drains (simple_bfs_next True (query_on example_store example_info D 1 3))
       (simple_bfs_begin (query_on example_store example_info D 1 3) tree_bfs_new) bs B' \<and> mset ds = mset bs"
proof -
  obtain D where "plain two_steps" "get_rpq_automaton type_ids two_steps = Inr (Some D)" "node_in_store example_store 1"
    by (rule example_query)
  from simple_dfs_equals_bfs [OF example_store_ok example_cache_ok this, of 3 True] show ?thesis
    unfolding Let_def by blast
qed

text \<open>C22: for all trails of a plain expression, over indexes that hold the edges, the depth-first enumeration
  and the depth-first check return the same trails as their breadth-first counterparts, each as often.\<close>

theorem trails_dfs_equals_bfs:
  fixes p :: "unit path"
  assumes "store_ok S" "cache_ok I S" "\<forall>t d. edge_flag I d t" "plain p" "get_rpq_automaton f p = Inr (Some D)"
    and "node_in_store S s"
  shows "let Q = query_on S I D s e in
    (\<exists>ds bs S' B'. drains (trail_dfs_next Q) (trail_dfs_begin Q tree_dfs_new) ds S' \<and>
      drains (trail_bfs_next Q) (trail_bfs_begin Q tree_bfs_new) bs B' \<and> mset ds = mset bs) \<and>
    (\<exists>ds bs S' B'. drains (trail_dfs_check_next Q) (trail_dfs_begin Q tree_dfs_new) ds S' \<and>
      drains (trail_check_next Q) (trail_bfs_begin Q tree_bfs_new) bs B' \<and> mset ds = mset bs)"
proof -
  let ?Q = "query_on S I D s e"
  note q = query_setup [OF assms(1,2,4-6), where e = e]
  note D = all_trails_dfs_enum [OF q(3,4) trail_dfs_fresh_begin] all_trails_dfs_check [OF q(3,4) trail_dfs_fresh_begin]
    and B = all_trails_bfs_list [OF q(3,4) trail_fresh_new]
  show ?thesis
    unfolding Let_def
  proof (rule conjI)
    show "\<exists>ds bs S' B'. drains (trail_dfs_next ?Q) (trail_dfs_begin ?Q tree_dfs_new) ds S' \<and>
        drains (trail_bfs_next ?Q) (trail_bfs_begin ?Q tree_bfs_new) bs B' \<and> mset ds = mset bs"
      using D(1) B(1) trail_preorder_levels [where Q = ?Q and ends = UNIV] by blast
    show "\<exists>ds bs S' B'. drains (trail_dfs_check_next ?Q) (trail_dfs_begin ?Q tree_dfs_new) ds S' \<and>
        drains (trail_check_next ?Q) (trail_bfs_begin ?Q tree_bfs_new) bs B' \<and> mset ds = mset bs"
      using D(2) B(2) trail_preorder_levels [where Q = ?Q and ends = "{end_object_id ?Q}"] by blast
  qed
qed

theorem trails_dfs_equals_bfs_witness:
  "\<exists>D ds bs S' B'.
     drains (trail_dfs_next (query_on example_store edge_info D 1 3))
       (trail_dfs_begin (query_on example_store edge_info D 1 3) tree_dfs_new) ds S' \<and>
     drains (trail_bfs_next (query_on example_store edge_info D 1 3))
       (trail_bfs_begin (query_on example_store edge_info D 1 3) tree_bfs_new) bs B' \<and> mset ds = mset bs"
proof -
  obtain D where "plain two_steps" "get_rpq_automaton type_ids two_steps = Inr (Some D)" "node_in_store example_store 1"
    by (rule example_query)
  from trails_dfs_equals_bfs [OF example_store_ok example_edge_info this, of 3] show ?thesis
    unfolding Let_def by blast
qed

text \<open>C23: for a plain expression \<open>AnySimple::DFSEnum\<close> ends and returns the nodes that \<open>AnySimple::BFSEnum\<close> returns, each once
  and with a matching simple path, though not a shortest one.\<close>

theorem any_simple_dfs_nodes:
  assumes "store_ok S" "cache_ok I S" "plain p" "get_rpq_automaton f p = Inr (Some D)" "node_in_store S s"
  shows "let Q = query_on S I D s e; ans = (\<lambda>ends. path_answers S f p False (simple_steps cyclic s) s ends) in
    \<exists>rs S'. drains (any_simple_dfs_next cyclic Q) (simple_dfs_begin Q tree_dfs_new) rs S' \<and>
       distinct (map path_node rs) \<and> path_node ` set rs = {m. ans {m} \<noteq> {}} \<and>
       (\<forall>r \<in> set rs. path_result (quads S) False Q r \<and> steps_of r \<in> ans {path_node r})"
proof -
  note q = query_setup [OF assms, where e = e]
  show ?thesis unfolding Let_def
    by (rule any_simple_dfs_enum [OF q(1-4) simple_dfs_fresh_begin, of cyclic, unfolded q(5-7)])
qed

theorem any_simple_dfs_nodes_witness:
  "\<exists>D rs S'. drains (any_simple_dfs_next True (query_on example_store example_info D 1 3))
       (simple_dfs_begin (query_on example_store example_info D 1 3) tree_dfs_new) rs S' \<and>
     path_node ` set rs = {m. path_answers example_store type_ids two_steps False (simple_steps True 1) 1 {m} \<noteq> {}}"
proof -
  obtain D where "plain two_steps" "get_rpq_automaton type_ids two_steps = Inr (Some D)" "node_in_store example_store 1"
    by (rule example_query)
  from any_simple_dfs_nodes [OF example_store_ok example_cache_ok this, of 3 True] show ?thesis
    unfolding Let_def by blast
qed

text \<open>C24: for a plain expression, over indexes that hold the edges, \<open>AnyTrails::DFSEnum\<close> returns every node that a matching trail reaches, once; \<open>DFSCheck\<close>, which
  leaves its solution on the stack and empties the stack at the next call, returns one matching trail
  to its end node if there is one, and nothing else.\<close>

theorem any_trails_dfs:
  assumes "store_ok S" "cache_ok I S" "\<forall>t d. edge_flag I d t" "plain p" "get_rpq_automaton f p = Inr (Some D)" "node_in_store S s"
  shows "let Q = query_on S I D s e; ans = path_answers S f p True trail_steps s in
    (\<exists>rs S'. drains (any_trail_dfs_next Q) (trail_dfs_begin Q tree_dfs_new) rs S' \<and>
       distinct (map path_node rs) \<and> path_node ` set rs = {m. ans {m} \<noteq> {}} \<and>
       (\<forall>r \<in> set rs. path_result (quads S) True Q r \<and> steps_of r \<in> ans {path_node r})) \<and>
    (\<exists>rs S'. drains (any_trail_dfs_check_next Q) (trail_dfs_begin Q tree_dfs_new) rs S' \<and>
       length rs \<le> 1 \<and> (rs = [] \<longleftrightarrow> ans {e} = {}) \<and>
       (\<forall>r \<in> set rs. path_result (quads S) True Q r \<and> steps_of r \<in> ans {e}))"
proof -
  note q = query_setup [OF assms(1,2,4-6), where e = e] and X = query_setup_edges [OF assms(1-3)]
  note A = any_trails_dfs_enum [OF X q(2-4) trail_dfs_fresh_begin, unfolded q(5-7)]
    and B = any_trails_dfs_check [OF X q(2-4) trail_dfs_fresh_begin, unfolded q(5-7)]
  show ?thesis unfolding Let_def using A B by (rule conjI)
qed

theorem any_trails_dfs_witness:
  "\<exists>D rs S'. drains (any_trail_dfs_check_next (query_on example_store edge_info D 1 3))
       (trail_dfs_begin (query_on example_store edge_info D 1 3) tree_dfs_new) rs S' \<and>
     (rs = [] \<longleftrightarrow> path_answers example_store type_ids two_steps True trail_steps 1 {3} = {})"
proof -
  obtain D where "plain two_steps" "get_rpq_automaton type_ids two_steps = Inr (Some D)" "node_in_store example_store 1"
    by (rule example_query)
  from any_trails_dfs [OF example_store_ok example_edge_info this, of 3] show ?thesis
    unfolding Let_def by blast
qed

text \<open>C25: the depth-first searches for one path per node, for a plain expression. \<open>Any::DFSEnum\<close> ends and returns every node that a
  matching walk reaches, once, each with a matching walk; \<open>DFSCheck\<close> returns one matching walk to its end
  node if there is one, and nothing else.\<close>

theorem any_dfs_answers:
  assumes "store_ok S" "cache_ok I S" and "plain p" "get_rpq_automaton f p = Inr (Some D)"
    and "node_in_store S s"
  shows "let Q = query_on S I D s e;
      ans = {m. \<exists>w \<in> path_lang p. graph_walk (quads S) s (map (read_label f) w) m} in
    (\<exists>rs S'. drains (any_dfs_next (total_final_states D > 1) Q) (any_dfs_begin Q any_dfs_new) rs S' \<and>
       distinct (map node_id rs) \<and> node_id ` set rs = ans \<and> (\<forall>r \<in> set rs. valid_result (quads S) Q r)) \<and>
    (\<exists>rs S'. drains (any_dfs_check_next Q) (any_dfs_check_begin Q any_dfs_new) rs S' \<and>
       length rs \<le> 1 \<and> (rs = [] \<longleftrightarrow> e \<notin> ans) \<and>
       (\<forall>r \<in> set rs. valid_result (quads S) Q r \<and> node_id r = e))"
proof -
  let ?Q = "query_on S I D s e"
  have D: "dfa_ok (automaton ?Q)" "dfa_lang D = map (read_label f) ` path_lang p"
    using get_rpq_automaton_exact [OF assms(3), of f] assms(4) by (auto simp: query_on_def)
  have Q: "provider ?Q = provider_of I S" "node_exists ?Q (start_object_id ?Q)" "automaton ?Q = D" "start_object_id ?Q = s"
    "end_object_id ?Q = e" using assms(5) by (simp_all add: query_on_def)
  have ans: "answers (quads S) ?Q = {m. \<exists>w \<in> path_lang p. graph_walk (quads S) s (map (read_label f) w) m}"
    by (auto simp: answers_def Q D(2))
  note G = provider_of_graph [OF assms(1,2)]
  note A = graph_provider.any_dfs_enum [OF G Q(1) D(1) refl any_fresh_begin Q(2)]
    and B = graph_provider.any_dfs_check_answers [OF G Q(1) D(1) any_check_fresh_begin(1) Q(2)]
  show ?thesis
    unfolding Let_def using A B unfolding ans any_check_fresh_begin(2) Q by (rule conjI)
qed

theorem any_dfs_answers_witness:
  "\<exists>D rs S'. drains (any_dfs_check_next (query_on example_store example_info D 1 3))
       (any_dfs_check_begin (query_on example_store example_info D 1 3) any_dfs_new) rs S' \<and>
     (rs = [] \<longleftrightarrow> 3 \<notin> {m. \<exists>w \<in> path_lang two_steps. graph_walk (quads example_store) 1 (map (read_label type_ids) w) m})"
proof -
  obtain D where "plain two_steps" "get_rpq_automaton type_ids two_steps = Inr (Some D)" "node_in_store example_store 1"
    by (rule example_query)
  from any_dfs_answers [OF example_store_ok example_cache_ok this, of 3] show ?thesis
    unfolding Let_def by blast
qed

text \<open>C26: for a plain expression \<open>AnyShortest::BFSCheck\<close>, after \<open>begin\<close> on a new object and after \<open>reset\<close> on an object in any state,
  ends and returns one walk that matches the expression and ends in the end node, a shortest one, if there
  is such a walk, and nothing otherwise.\<close>

theorem any_shortest_check_answers:
  assumes "store_ok S" "cache_ok I S" and "plain p" "get_rpq_automaton f p = Inr (Some D)"
    and "node_in_store S s" and "B = bfs_check_begin Q bfs_check_new \<or> B = bfs_check_reset Q C" and "Q = query_on S I D s e"
  shows "\<exists>rs B'. drains (bfs_check_next Q) B rs B' \<and> length rs \<le> 1 \<and>
    (rs = [] \<longleftrightarrow> \<not> (\<exists>w \<in> path_lang p. graph_walk (quads S) s (map (read_label f) w) e)) \<and>
    (\<forall>r \<in> set rs. valid_result (quads S) Q r \<and> node_id r = e \<and>
       (\<forall>w \<in> path_lang p. graph_walk (quads S) s (map (read_label f) w) e \<longrightarrow> length (path_steps r) \<le> length w))"
proof -
  have D: "dfa_ok (automaton Q)" "dfa_lang D = map (read_label f) ` path_lang p"
    using get_rpq_automaton_exact [OF assms(3), of f] assms(4) by (auto simp: query_on_def assms(7))
  have Q: "provider Q = provider_of I S" "node_exists Q (start_object_id Q)" "automaton Q = D" "start_object_id Q = s"
    "end_object_id Q = e" using assms(5) by (simp_all add: query_on_def assms(7))
  note G = provider_of_graph [OF assms(1,2)]
  have "check_fresh Q B" using assms(6) check_fresh_begin check_fresh_reset by blast
  from graph_provider.bfs_check_answers [OF G Q(1) D(1) this Q(2)]
  obtain rs B' where R: "drains (bfs_check_next Q) B rs B'" "length rs \<le> 1" "rs = [] \<longleftrightarrow> e \<notin> answers (quads S) Q"
    "\<forall>r \<in> set rs. valid_result (quads S) Q r \<and> node_id r = e \<and>
       (\<forall>w \<in> dfa_lang D. graph_walk (quads S) s w (node_id r) \<longrightarrow> length (path_steps r) \<le> length w)"
    unfolding Q by blast
  have "valid_result (quads S) Q r \<and> node_id r = e \<and>
      (\<forall>w \<in> path_lang p. graph_walk (quads S) s (map (read_label f) w) e \<longrightarrow> length (path_steps r) \<le> length w)"
    if "r \<in> set rs" for r using R(4) that unfolding D(2) by auto
  moreover have "e \<in> answers (quads S) Q \<longleftrightarrow> (\<exists>w \<in> path_lang p. graph_walk (quads S) s (map (read_label f) w) e)"
    by (simp add: answers_def Q D(2))
  ultimately show ?thesis using R(1-3) by (intro exI [of _ rs] exI [of _ B']) simp
qed

theorem any_shortest_check_answers_witness:
  "\<exists>D rs B'. drains (bfs_check_next (query_on example_store example_info D 1 3))
       (bfs_check_begin (query_on example_store example_info D 1 3) bfs_check_new) rs B' \<and>
     (rs = [] \<longleftrightarrow> \<not> (\<exists>w \<in> path_lang two_steps. graph_walk (quads example_store) 1 (map (read_label type_ids) w) 3))"
proof -
  obtain D where D: "plain two_steps" "get_rpq_automaton type_ids two_steps = Inr (Some D)" "node_in_store example_store 1"
    by (rule example_query)
  show ?thesis
    using any_shortest_check_answers [OF example_store_ok example_cache_ok D disjI1 [OF refl] refl, where e = 3]
    by (elim exE conjE) (intro exI conjI)
qed

section \<open>Counting shortest paths\<close>

text \<open>C27: the searches that count shortest paths. For a plain expression whose edge types have different ids
  (so that its automaton is deterministic), and while no distance needs
  more than 32 bits, \<open>AllShortestCount::BFSEnum<false>\<close> (an automaton with one final state) returns every
  node that a matching walk reaches, once, with the number of the shortest matching walks to it, edge by
  edge, modulo \<open>2 ^ 64\<close> and tagged as an integer; \<open>BFSCheck\<close> returns this number for its end node, if the
  end node can be reached.\<close>

theorem all_count_answers:
  assumes "store_ok S" "cache_ok I S" "plain p" "get_rpq_automaton f p = Inr (Some D)" "inj_on f (path_types p)"
    and "node_in_store S s" and "Q = query_on S I D s e" and "short_walks Q"
  shows "let ans = (\<lambda>m. path_answers S f p True (\<lambda>_. True) s {m});
             count = (\<lambda>m. count_object (of_nat (card {xs \<in> ans m. \<forall>ys \<in> ans m. length xs \<le> length ys}))) in
    (total_final_states D \<le> 1 \<longrightarrow>
      (\<exists>rs B. drains (count_enum_next False Q) (count_enum_begin Q count_enum_new) rs B \<and>
        distinct (map fst rs) \<and> fst ` set rs = {m. ans m \<noteq> {}} \<and> (\<forall>r \<in> set rs. snd r = count (fst r)))) \<and>
    (\<exists>B. drains (count_check_next Q) (count_check_begin Q count_check_new) (if ans e \<noteq> {} then [count e] else []) B)"
proof -
  note q = query_setup [OF assms(1-4,6), where e = e, folded assms(7)]
  have D: "deterministic (automaton Q)" "automaton Q = D"
    using get_rpq_automaton_exact [OF assms(3), of f] assms(4,5) by (auto simp: query_on_def assms(7))
  have P: "provider Q = provider_of I S" by (simp add: query_on_def assms(7))
  note G = provider_of_counted [OF assms(1,2)]
  let ?ans = "\<lambda>m. path_answers S f p True (\<lambda>_. True) s {m}"
  have short: "{xs \<in> ?ans m. \<forall>ys \<in> ?ans m. length xs \<le> length ys} = shortest_answers (quads S) Q m" for m
    by (simp add: shortest_answers_def q(5))
  have reach: "?ans m \<noteq> {} \<longleftrightarrow> m \<in> answers (quads S) Q" for m by (simp add: answers_kept q(5))
  have "\<exists>rs B. drains (count_enum_next False Q) (count_enum_begin Q count_enum_new) rs B \<and> distinct (map fst rs) \<and>
      fst ` set rs = {m. ?ans m \<noteq> {}} \<and>
      (\<forall>r \<in> set rs. snd r = count_object (of_nat (card (shortest_answers (quads S) Q (fst r)))))"
    if "total_final_states D \<le> 1"
    using counted_provider.all_count_enum [OF G P q(2) D(1) _ assms(8) count_enum_fresh_begin q(4)] that
    unfolding reach D(2) by simp
  moreover have "\<exists>B. drains (count_check_next Q) (count_check_begin Q count_check_new)
      (if ?ans e \<noteq> {} then [count_object (of_nat (card (shortest_answers (quads S) Q e)))] else []) B"
    using counted_provider.all_count_check [OF G P q(2) D(1) assms(8) count_check_fresh_begin q(4)]
    unfolding reach q(7) .
  ultimately show ?thesis unfolding Let_def short by blast
qed

theorem all_count_answers_witness:
  "\<exists>D rs B. drains (count_enum_next False (query_on example_store example_info D 1 3))
       (count_enum_begin (query_on example_store example_info D 1 3) count_enum_new) rs B \<and>
     fst ` set rs = {m. path_answers example_store type_ids two_steps True (\<lambda>_. True) 1 {m} \<noteq> {}}"
proof -
  obtain D where D: "plain two_steps" "get_rpq_automaton type_ids two_steps = Inr (Some D)" "node_in_store example_store 1"
    by (rule example_query)
  let ?Q = "query_on example_store example_info D 1 3"
  have "case get_rpq_automaton type_ids two_steps of Inr (Some D) \<Rightarrow> total_final_states D \<le> 1 | _ \<Rightarrow> False" by code_simp
  then have t: "total_final_states D \<le> 1" using D(2) by simp
  have "case get_rpq_automaton type_ids two_steps of
      Inr (Some D) \<Rightarrow>
        (let Q = query_on example_store example_info D 1 3; ks = [(0, 1), (1, 2), (2, 3)] in
         start_key Q \<in> set ks \<and> (\<forall>x \<in> set ks. \<forall>a \<in> set (arrows_from Q x). arrow_key a \<in> set ks))
    | _ \<Rightarrow> False" by code_simp
  then have "short_walks ?Q" using D(2) by (intro short_walksI [of ?Q "[(0, 1), (1, 2), (2, 3)]"]) (simp_all add: Let_def)
  from all_count_answers [OF example_store_ok example_cache_ok D(1,2) _ D(3) refl this] t show ?thesis
    unfolding Let_def by (simp add: two_steps_def) blast
qed

section \<open>From the query to its answers\<close>

text \<open>C28: the iterator of a plan answers the query. For a plan with a bound end, a plain path expression and one
  of the semantics \<open>ANY\<close>, \<open>SIMPLE\<close>, \<open>ACYCLIC\<close>, \<open>TRAILS\<close>, \<open>ANY_SIMPLE\<close>, \<open>ANY_ACYCLIC\<close>, \<open>ANY_TRAILS\<close>, the
  iterator that the planner builds, over the indexes that the planner assigns (and a cache that holds no other ones for them), ends; the nodes that it
  binds at the other end are exactly those that a path of the semantics connects in the direction of the query,
  also when the planner inverts the path and searches from its right end. A semantics with \<open>ANY\<close>
  binds every node once. (The depth-first checks of simple paths are excluded: they miss paths.)\<close>

theorem planned_query_answers:
  assumes "store_ok S" "cache_ok (iter_provider it) S" "node_in_store S (resolve b (iter_start it))"
    and "get_binding_id_iter f M P = Inr it" "from_assigned P \<or> to_assigned P"
    and "plain (plan_path P)" "enumerated (path_semantic P)" and "M = quad_settings_of path_flag index_flag type_flag"
    and "from_assigned P \<and> to_assigned P \<longrightarrow>
      path_mode M = BFS \<or> path_semantic P = ANY \<or> trails_semantic (path_semantic P)"
  shows "\<exists>ns. class_run (iter_class it) (iter_query S b it) ns \<and> (one_path (path_semantic P) \<longrightarrow> distinct ns) \<and>
    set ns = plan_answers (quads S) f b P"
  by (rule plan_run [OF assms(1-7) _ assms(9)]) (simp add: assms(8) settings_edges)

definition example_plan :: "path_semantic \<Rightarrow> path_plan" where
  "example_plan sem = path_plan_new 0 (ObjectId 1) (VarId 1) two_steps sem"

lemma example_plan_iter:
  obtains it where "get_binding_id_iter type_ids M (example_plan sem) = Inr it" "iter_start it = ObjectId 1"
    "cache_ok (iter_provider it) example_store"
proof -
  let ?P = "example_plan sem"
  have p: "plan_ok ?P" "wf_path (plan_path ?P)" "from_assigned ?P" "\<not> to_assigned ?P"
    by (simp_all add: example_plan_def path_plan_new_def plan_ok_def two_steps_def)
  then obtain it where it: "get_binding_id_iter type_ids M ?P = Inr it"
    using get_binding_id_iter_ok [of ?P] by blast
  moreover have "iter_start it = ObjectId 1"
    using it disjI1 [OF p(3)] by (rule get_binding_id_iter_shape) (use p(4) in \<open>simp_all add: example_plan_def path_plan_new_def\<close>)
  moreover have "cache_ok (iter_provider it) example_store" by (simp add: cache_ok_def cached_def example_store_def)
  ultimately show ?thesis using that by blast
qed

theorem planned_query_answers_witness:
  "\<exists>it ns. get_binding_id_iter type_ids (quad_settings_of ''dfs'' ''cache'' ''trie'') (example_plan TRAILS) = Inr it \<and>
     class_run (iter_class it) (iter_query example_store (\<lambda>v. 0) it) ns \<and>
     set ns = plan_answers (quads example_store) type_ids (\<lambda>v. 0) (example_plan TRAILS)"
proof -
  let ?M = "quad_settings_of ''dfs'' ''cache'' ''trie''" and ?P = "example_plan TRAILS"
  obtain it where it: "get_binding_id_iter type_ids ?M ?P = Inr it" "iter_start it = ObjectId 1"
    "cache_ok (iter_provider it) example_store" by (rule example_plan_iter)
  have "node_in_store example_store (resolve (\<lambda>v. 0) (iter_start it))"
    by (simp add: it(2) resolve_def node_in_store_def example_store_def)
  then show ?thesis
    using planned_query_answers [OF example_store_ok it(3) _ it(1), of "\<lambda>v. 0" "''dfs''" "''cache''" "''trie''"] it(1)
    by (auto simp: example_plan_def path_plan_new_def two_steps_def enumerated_def trails_semantic_def)
qed

text \<open>C29: which plans are rejected. For a well-formed path the planner has an iterator when one end is bound. With
  both ends unbound it throws a \<open>QuerySemanticException\<close>, except for the semantics \<open>ANY\<close> and a path that
  does not match the empty word, for which it builds an \<open>UnfixedComposite\<close>. No other error occurs.\<close>

theorem plan_rejections:
  assumes "wf_path (plan_path P)" and "P = set_input_vars vars (path_plan_new v n m p sem)"
  shows "if from_assigned P \<or> to_assigned P then \<exists>it. get_binding_id_iter f M P = Inr it
    else if sem = ANY \<and> [] \<notin> path_lang p
    then \<exists>it. get_binding_id_iter f M P = Inr it \<and> iter_class it = AnyShortest_UnfixedComposite
    else \<exists>msg. get_binding_id_iter f M P = Inl (QuerySemanticException msg)"
proof -
  have P: "plan_ok P" unfolding assms(2) by (rule plan_ok_input [OF plan_ok_new])
  have q: "path_semantic P = sem" "plan_path P = p" by (simp_all add: assms(2) set_input_vars_def path_plan_new_def)
  show ?thesis
    using get_binding_id_iter_ok [OF P assms(1), of f M] get_binding_id_iter_unbound [OF P assms(1), of f M]
    by (auto simp: q nullable_lang split: if_splits)
qed

theorem plan_rejections_witness:
  "\<exists>msg. get_binding_id_iter type_ids (quad_settings_of ''bfs'' ''cache'' ''btree'')
     (set_input_vars {} (path_plan_new 0 (VarId 1) (VarId 2) two_steps SIMPLE)) = Inl (QuerySemanticException msg)"
  using plan_rejections [OF _ refl, of "{}" 0 "VarId 1" "VarId 2" two_steps SIMPLE type_ids "quad_settings_of ''bfs'' ''cache'' ''btree''"]
  by (simp add: set_input_vars_def path_plan_new_def two_steps_def)

text \<open>C30: the provider of a plan has an index for every transition of its automaton, so that \<open>get_iterator\<close> never
  dereferences the end of its map, and for the semantics of trails the index has the edges.\<close>

theorem provider_covers_automaton:
  assumes "M = quad_settings_of path_flag index_flag type_flag" "t \<in> set (slot (from_to_connections D) q)"
  shows "provider_get_iterator (get_provider M sem D) (type_id t) (dfa_inverse t) n S \<noteq> None \<and>
    assigned (get_provider M sem D) (dfa_inverse t) (type_id t) = Some (index_type_of M sem) \<and>
    (trails_semantic sem \<longrightarrow> has_edges (index_type_of M sem))"
proof -
  have "t \<in> set (concat (from_to_connections D))" using assms(2) slot_subset [of "from_to_connections D" q] by blast
  then have a: "assigned (get_provider M sem D) (dfa_inverse t) (type_id t) = Some (index_type_of M sem)"
    unfolding get_provider_assigned by auto
  then show ?thesis
    using settings_edges [of sem] assms(1)
    by (auto simp: provider_get_iterator_def assigned_def split: index_type.splits if_splits prod.splits)
qed

theorem provider_covers_automaton_witness:
  "provider_get_iterator (get_provider (quad_settings_of ''bfs'' ''cache'' ''trie'') TRAILS
     \<lparr>start_state = 0, dfa_total_states = 1, total_final_states = 1, is_final_state = [True],
       from_to_connections = [[DTransition 0 0 5 True]]\<rparr>) 5 True 1 example_store \<noteq> None"
  using provider_covers_automaton [OF refl, of "DTransition 0 0 5 True"
      "\<lparr>start_state = 0, dfa_total_states = 1, total_final_states = 1, is_final_state = [True],
       from_to_connections = [[DTransition 0 0 5 True]]\<rparr>" 0] by (simp add: slot_def)

section \<open>Where the code does not do what it means to\<close>

definition star_then_b :: "unit path" where
  "star_then_b = PathOptional (PathSequence [mk_kleene_star (type_atom ''a''), type_atom ''b''])"

lemma dfa_loop_words: "dfa_run D q [l] q \<Longrightarrow> dfa_run D q (replicate n l) q"
  by (induction n) (cases l; auto)+

text \<open>C31: the start state of the automaton of \<open>(a*/b)?\<close> is final and has the loop of \<open>a*\<close>, so that every word
  of \<open>a*\<close> is accepted; none of them but the empty one matches.\<close>

theorem optional_accepts_too_much:
  "(\<exists>D. get_rpq_automaton type_ids star_then_b = Inr (Some D) \<and> is_final_state D ! start_state D \<and>
      dfa_run D (start_state D) [read_label type_ids (''a'', False)] (start_state D) \<and>
      (\<forall>n. replicate n (read_label type_ids (''a'', False)) \<in> dfa_lang D)) \<and>
   (\<forall>n. replicate (Suc n) (''a'', False) \<notin> path_lang star_then_b)"
proof (intro conjI allI)
  have "case get_rpq_automaton type_ids star_then_b of
      Inr (Some D) \<Rightarrow> start_state D = 0 \<and> dfa_run D 0 [(5, False)] 0 \<and> 0 < length (is_final_state D) \<and> is_final_state D ! 0
    | _ \<Rightarrow> False" by code_simp
  then obtain D where D: "get_rpq_automaton type_ids star_then_b = Inr (Some D)" "start_state D = 0"
    "dfa_run D 0 [(5, False)] 0" "0 < length (is_final_state D)" "is_final_state D ! 0"
    by (auto split: sum.splits option.splits)
  have l: "read_label type_ids (''a'', False) = (5, False)" by (simp add: read_label_def type_ids_def)
  have "replicate n (5, False) \<in> dfa_lang D" for n
    using dfa_loop_words [OF D(3), of n] D(2,4,5) unfolding dfa_lang_def by auto
  then show "\<exists>D. get_rpq_automaton type_ids star_then_b = Inr (Some D) \<and> is_final_state D ! start_state D \<and>
      dfa_run D (start_state D) [read_label type_ids (''a'', False)] (start_state D) \<and>
      (\<forall>n. replicate n (read_label type_ids (''a'', False)) \<in> dfa_lang D)"
    unfolding l using D by (intro exI [of _ D]) simp
  show "replicate (Suc n) (''a'', False) \<notin> path_lang star_then_b" for n
  proof
    assume "replicate (Suc n) (''a'', False) \<in> path_lang star_then_b"
    then obtain u where "replicate (Suc n) (''a'', False) = u @ [(''b'', False)]"
      by (auto simp: star_then_b_def lconc_def mk_kleene_star_def)
    then have "last (replicate (Suc n) (''a'', False)) = last (u @ [(''b'', False)])" by (rule arg_cong)
    then show False by (simp del: replicate.simps)
  qed
qed

text \<open>C32: merging a start state with its only predecessor over an epsilon transition: \<open>(a/c*)*\<close>
  accepts \<open>c\<close>.\<close>

theorem merging_accepts_too_much:
  "(\<exists>D. get_rpq_automaton type_ids (mk_kleene_star (PathSequence [type_atom ''a'', mk_kleene_star (type_atom ''c'')])) =
      Inr (Some D) \<and> [read_label type_ids (''c'', False)] \<in> dfa_lang D) \<and>
   [(''c'', False)] \<notin> path_lang (mk_kleene_star (PathSequence [type_atom ''a'', mk_kleene_star (type_atom ''c'')]))"
proof
  have "case get_rpq_automaton type_ids (mk_kleene_star (PathSequence [type_atom ''a'', mk_kleene_star (type_atom ''c'')])) of
      Inr (Some D) \<Rightarrow> dfa_run D (start_state D) [(7, False)] 0 \<and> 0 < length (is_final_state D) \<and> is_final_state D ! 0
    | _ \<Rightarrow> False" by code_simp
  then show "\<exists>D. get_rpq_automaton type_ids (mk_kleene_star (PathSequence [type_atom ''a'', mk_kleene_star (type_atom ''c'')])) =
      Inr (Some D) \<and> [read_label type_ids (''c'', False)] \<in> dfa_lang D"
    by (auto simp: dfa_lang_def read_label_def type_ids_def split: sum.splits option.splits)
  have "w = [] \<or> hd w = (''a'', False)" if "w \<in> kstar (lconc {[(''a'', False)]} (kstar {[(''c'', False)]}))" for w
    using that by (induction rule: kstar.induct) (auto simp: lconc_def)
  then show "[(''c'', False)] \<notin> path_lang (mk_kleene_star (PathSequence [type_atom ''a'', mk_kleene_star (type_atom ''c'')]))"
    by (fastforce simp: mk_kleene_star_def lconc_def)
qed

text \<open>The parser's expression for \<open>((:a*){0,1})*\<close>.\<close>

definition nested_star :: "unit path" where
  "nested_star = visit_path [[PathAtomAlternatives False [[PathAtomAlternatives False
     [[PathAtomSimple False ''a'' (Some SuffixStar)]] (Some (SuffixRange 0 1))]] (Some SuffixStar)]]"

text \<open>The two-state case of \<open>PathKleeneStar\<close> copies the first transition of the child, which for
  \<open>((:a*){0,1})*\<close> is an epsilon transition: the automaton has lost \<open>a\<close>.\<close>

theorem two_state_star_loses_words:
  "(\<exists>D. get_rpq_automaton type_ids nested_star = Inr (Some D) \<and> from_to_connections D = [[]]) \<and>
   [(''a'', False)] \<in> path_lang nested_star"
proof
  have "case get_rpq_automaton type_ids nested_star of Inr (Some D) \<Rightarrow> from_to_connections D = [[]] | _ \<Rightarrow> False"
    by code_simp
  then show "\<exists>D. get_rpq_automaton type_ids nested_star = Inr (Some D) \<and> from_to_connections D = [[]]"
    by (auto split: sum.splits option.splits)
  have n: "nested_star = PathKleeneStar (PathAlternatives [PathKleeneStar (type_atom ''a'')])" by code_simp
  have "[(''a'', False)] @ [] \<in> kstar {[(''a'', False)]}" by (rule kstar.intros) (auto intro: kstar.intros)
  then have "[(''a'', False)] @ [] \<in> kstar (kstar {[(''a'', False)]})" by (intro kstar.intros) (auto intro: kstar.intros)
  then show "[(''a'', False)] \<in> path_lang nested_star" by (simp add: n)
qed

text \<open>C33: an index that another query left in the cache answers a query that needs the edges: it has
  none (\<open>get_edge\<close> throws).\<close>

theorem cached_trie_has_no_edges:
  "\<exists>S it it'. provider_get_iterator \<lparr>t_info = [5 \<mapsto> TRIE], t_inv_info = Map.empty\<rparr> 5 False 1 example_store = Some (S, it) \<and>
     provider_get_iterator \<lparr>t_info = [5 \<mapsto> EDGE_TRIE], t_inv_info = Map.empty\<rparr> 5 False 1 S = Some (S, it') \<and>
     iter_rest it' = [(2, None)]"
proof -
  let ?I = "\<lparr>t_info = [5 \<mapsto> TRIE], t_inv_info = Map.empty\<rparr>"
  have "cache_ok ?I example_store" by (simp add: cache_ok_def cached_def example_store_def)
  note P = provider_of_entries [OF example_store_ok this, of 5 False 1]
  let ?idx = "fresh_index example_store False TRIE 5"
  let ?S = "example_store\<lparr>idx_map := [5 \<mapsto> ?idx]\<rparr>"
  have g: "get_index 5 False TRIE example_store = (?S, ?idx)" "get_index 5 False EDGE_TRIE ?S = (?S, ?idx)"
    by (simp_all add: get_index_def materialize_index_def fresh_index_def example_store_def Let_def tree_of_def)
  then have "provider_get_iterator ?I 5 False 1 example_store = Some (?S, index_get_iterator ?idx 1)"
    "provider_get_iterator \<lparr>t_info = [5 \<mapsto> EDGE_TRIE], t_inv_info = Map.empty\<rparr> 5 False 1 ?S = Some (?S, index_get_iterator ?idx 1)"
    by (simp_all add: provider_get_iterator_def)
  moreover from this have "iter_rest (index_get_iterator ?idx 1) = [(2, None)]"
    using P by (simp add: provider_of_def edge_flag_def assigned_def entries_of_def tree_of_def example_store_def)
  ultimately show ?thesis by blast
qed

text \<open>A node reached directly and over a detour: \<open>1 -5-> 2\<close>, \<open>1 -5-> 3\<close>, \<open>3 -5-> 2\<close>.\<close>

definition detour_store :: quad_store where
  "detour_store = \<lparr>nodes = [1, 2, 3],
     type_from_to_edge = [Record4 5 1 2 8, Record4 5 1 3 9, Record4 5 3 2 10],
     type_to_from_edge = [Record4 5 2 1 8, Record4 5 2 3 10, Record4 5 3 1 9], idx_map = Map.empty, idx_inv_map = Map.empty\<rparr>"

definition detour_query :: "rpq_dfa \<Rightarrow> path_query" where
  "detour_query D = query_on detour_store \<lparr>t_info = [5 \<mapsto> BTREE], t_inv_info = Map.empty\<rparr> D 1 2"

fun answers_false :: "('o \<times> 'r option) option \<Rightarrow> bool" where
  "answers_false (Some (S, None)) = True"
| "answers_false _ = False"

lemma answers_false_drains: "answers_false (nxt S) \<Longrightarrow> \<exists>S'. drains nxt S [] S'"
  by (cases "nxt S" rule: answers_false.cases) (auto intro: drains_Nil)

text \<open>C34: the depth-first checks for simple paths empty their whole stack when a state of the end node is
  on top, also when the automaton does not accept there: for \<open>a/a\<close> from 1 to 2 the edge \<open>1 -> 2\<close> is
  tried first, and both checks answer that there is no path, although \<open>1 -> 3 -> 2\<close> is one.\<close>

theorem dfs_checks_miss_paths:
  "(\<exists>D S S'. get_rpq_automaton type_ids two_steps = Inr (Some D) \<and>
      drains (all_simple_dfs_check_next False (detour_query D)) (simple_dfs_begin (detour_query D) tree_dfs_new) [] S \<and>
      drains (any_simple_dfs_check_next False (detour_query D)) (simple_dfs_begin (detour_query D) tree_dfs_new) [] S') \<and>
   path_answers detour_store type_ids two_steps False (simple_steps False 1) 1 {2} \<noteq> {}"
proof
  obtain D where D: "get_rpq_automaton type_ids two_steps = Inr (Some D)" by (rule example_query)
  have "case get_rpq_automaton type_ids two_steps of
      Inr (Some D) \<Rightarrow>
        answers_false (all_simple_dfs_check_next False (detour_query D) (simple_dfs_begin (detour_query D) tree_dfs_new))
    | _ \<Rightarrow> False" by code_simp
  moreover have "case get_rpq_automaton type_ids two_steps of
      Inr (Some D) \<Rightarrow>
        answers_false (any_simple_dfs_check_next False (detour_query D) (simple_dfs_begin (detour_query D) tree_dfs_new))
    | _ \<Rightarrow> False" by code_simp
  ultimately show "\<exists>D S S'. get_rpq_automaton type_ids two_steps = Inr (Some D) \<and>
      drains (all_simple_dfs_check_next False (detour_query D)) (simple_dfs_begin (detour_query D) tree_dfs_new) [] S \<and>
      drains (any_simple_dfs_check_next False (detour_query D)) (simple_dfs_begin (detour_query D) tree_dfs_new) [] S'"
    using D answers_false_drains by fastforce
  have "step_walk (quads detour_store) False 1 [((5, False), None, 3), ((5, False), None, 2)] 2"
    by (auto simp: step_in_def crosses_def quads_def detour_store_def)
  moreover have "map fst [((5, False), None, 3), ((5, False), None :: object_id option, 2)] \<in> map (read_label type_ids) ` path_lang two_steps"
    by (force simp: two_steps_def lconc_def read_label_def type_ids_def)
  moreover have "simple_steps False 1 [((5, False), None, 3), ((5, False), None, 2)]"
    by (simp add: simple_steps_def step_nodes_def)
  ultimately show "path_answers detour_store type_ids two_steps False (simple_steps False 1) 1 {2} \<noteq> {}"
    unfolding path_answers_def by blast
qed

text \<open>The first results of an iterator; the last one is \<open>None\<close> when a call has no defined result.\<close>

fun first_results :: "nat \<Rightarrow> ('o \<Rightarrow> ('o \<times> 'r option) option) \<Rightarrow> 'o \<Rightarrow> 'r option list" where
  "first_results 0 nxt B = []"
| "first_results (Suc n) nxt B =
     (case nxt B of None \<Rightarrow> [None] | Some (B', None) \<Rightarrow> [] | Some (B', Some r) \<Rightarrow> Some r # first_results n nxt B')"

text \<open>\<open>1 -5-> 2\<close>, \<open>1 -5-> 3\<close>, \<open>1 -5-> 4\<close>, \<open>2 -5-> 3\<close>, \<open>4 -5-> 3\<close>.\<close>

definition diamond_store :: quad_store where
  "diamond_store = \<lparr>nodes = [1, 2, 3, 4],
     type_from_to_edge = [Record4 5 1 2 8, Record4 5 1 3 9, Record4 5 1 4 10, Record4 5 2 3 11, Record4 5 4 3 12],
     type_to_from_edge = [Record4 5 2 1 8, Record4 5 3 1 9, Record4 5 3 2 11, Record4 5 3 4 12, Record4 5 4 1 10],
     idx_map = Map.empty, idx_inv_map = Map.empty\<rparr>"

definition one_or_two :: "unit path" where
  "one_or_two = PathAlternatives [type_atom ''a'', PathSequence [type_atom ''a'', type_atom ''a'']]"

text \<open>C35: \<open>AllShortestCount::BFSEnum<true>\<close> forgets a node once it has returned it. For \<open>a|(a/a)\<close> a final state of
  the node that is reached later, over a longer path, makes it return the node again, with the number of
  those longer paths; and when such a state was reached before and is reached again, the entry that
  "must exist" does not: the call reads through \<open>end()\<close>.\<close>

theorem count_enum_repeats_nodes:
  "\<exists>D. get_rpq_automaton type_ids one_or_two = Inr (Some D) \<and> total_final_states D > 1 \<and>
     first_results 4 (count_enum_next True (detour_query D)) (count_enum_begin (detour_query D) count_enum_new) =
       [Some (2, count_object 1), Some (3, count_object 1), Some (2, count_object 1)] \<and>
     (let Q = query_on diamond_store \<lparr>t_info = [5 \<mapsto> BTREE], t_inv_info = Map.empty\<rparr> D 1 0 in
      first_results 4 (count_enum_next True Q) (count_enum_begin Q count_enum_new) =
        [Some (2, count_object 1), Some (3, count_object 1), None])"
proof -
  have "case get_rpq_automaton type_ids one_or_two of
      Inr (Some D) \<Rightarrow> total_final_states D > 1 \<and>
        first_results 4 (count_enum_next True (detour_query D)) (count_enum_begin (detour_query D) count_enum_new) =
          [Some (2, count_object 1), Some (3, count_object 1), Some (2, count_object 1)]
    | _ \<Rightarrow> False" by code_simp
  moreover have "case get_rpq_automaton type_ids one_or_two of
      Inr (Some D) \<Rightarrow>
        (let Q = query_on diamond_store \<lparr>t_info = [5 \<mapsto> BTREE], t_inv_info = Map.empty\<rparr> D 1 0 in
         first_results 4 (count_enum_next True Q) (count_enum_begin Q count_enum_new) =
           [Some (2, count_object 1), Some (3, count_object 1), None])
    | _ \<Rightarrow> False" by code_simp
  ultimately show ?thesis by (simp split: sum.splits option.splits)
qed

text \<open>C36: \<open>reset\<close> of the breadth-first searches over paths clears the blocks of path states but keeps
  \<open>current_index\<close>: unless the index stands at the end of a block, the new start state is written
  through \<open>back()\<close> of an empty vector.\<close>

theorem reset_writes_outside_blocks:
  "(broken (bfs_visited (simple_bfs_reset Q B)) \<longleftrightarrow> broken (bfs_visited B) \<or> current_index (bfs_visited B) < 4096) \<and>
   (broken (bfs_visited (trail_bfs_reset Q B)) \<longleftrightarrow> broken (bfs_visited B) \<or> current_index (bfs_visited B) < 4096) \<and>
   broken (bfs_visited (simple_bfs_reset Q (simple_bfs_begin Q tree_bfs_new)))"
  using simple_reset_broken [of Q B] simple_reset_broken [of Q "simple_bfs_begin Q tree_bfs_new"]
  by (auto simp: trail_bfs_reset_def visited_add_def visited_clear_def Let_def simple_bfs_begin_def tree_bfs_new_def new_visited_def)

section \<open>Graph objects\<close>

text \<open>C37: an element of a query survives the way through its id: a storable element (not a variable; a
  named node has a name; strings of fewer than eight bytes have no zero byte and longer ones are held by
  the string manager; ids of anonymous nodes and edges and the absolute value of integers have 56 bits) is
  turned into an id, the id into an object, and the object reads as the element; so does the object the
  element is turned into directly.\<close>

theorem object_id_roundtrip:
  assumes "storable get_str_id text_of e" and "\<And>str. element_text e = Some str \<Longrightarrow> string_at (address_of str) = str"
  shows "(\<exists>oid g. to_object_id get_str_id e = Inr oid \<and> get_graph_object pad oid = Inr g \<and>
      element_of text_of string_at g = Some e) \<and>
    (\<exists>g. to_graph_object pad address_of e = Inr g \<and> element_of text_of string_at g = Some e)"
  using id_decodes [OF assms(1)] graph_object_reads [OF assms] by blast

theorem object_id_roundtrip_witness:
  "(\<exists>oid g. to_object_id (\<lambda>str. 9) (QString [97, 98]) = Inr oid \<and> get_graph_object 0 oid = Inr g \<and>
      element_of (\<lambda>i. []) (\<lambda>i. []) g = Some (QString [97, 98]))
   \<and> (\<exists>oid g. to_object_id (\<lambda>str. 9) (QNamedNode (replicate 8 97)) = Inr oid \<and> get_graph_object 0 oid = Inr g \<and>
      element_of (\<lambda>i. replicate 8 97) (\<lambda>i. replicate 8 97) g = Some (QNamedNode (replicate 8 97)))"
proof
  show "\<exists>oid g. to_object_id (\<lambda>str. 9) (QString [97, 98]) = Inr oid \<and> get_graph_object 0 oid = Inr g \<and>
      element_of (\<lambda>i. []) (\<lambda>i. []) g = Some (QString [97, 98])"
    using id_decodes [of "\<lambda>str. 9" "\<lambda>i. []" "QString [97, 98]" 0 "\<lambda>i. []"] by (simp add: storable_string_def)
  show "\<exists>oid g. to_object_id (\<lambda>str. 9) (QNamedNode (replicate 8 97)) = Inr oid \<and> get_graph_object 0 oid = Inr g \<and>
      element_of (\<lambda>i. replicate 8 97) (\<lambda>i. replicate 8 97) g = Some (QNamedNode (replicate 8 97))"
    using object_id_roundtrip [of "\<lambda>str. 9" "\<lambda>i. replicate 8 97" "QNamedNode (replicate 8 97)" "\<lambda>i. replicate 8 97" "\<lambda>str. 9" 0]
    by (simp add: storable_string_def fits_def TYPE_MASK_def)
qed

text \<open>C38: integers of at most 56 bits are stored, and ordered in the B+tree as they should be. The id of an
  integer exists exactly when its absolute value is below 2 to the power of 56; then it decodes to the
  integer, and ids compare (as unsigned words) as the integers do.\<close>

theorem int_ids_ordered:
  "case query_int_id i of
     Inl e \<Rightarrow> 2 ^ 56 \<le> \<bar>sint i\<bar>
   | Inr a \<Rightarrow> \<bar>sint i\<bar> < 2 ^ 56 \<and> get_graph_object pad a = Inr (make_int i) \<and>
      (case query_int_id j of
         Inl e \<Rightarrow> 2 ^ 56 \<le> \<bar>sint j\<bar>
       | Inr b \<Rightarrow> (a < b \<longleftrightarrow> sint i < sint j) \<and> (a = b \<longleftrightarrow> i = j))"
proof -
  have large: "\<exists>e. query_int_id k = Inl e" if "2 ^ 56 \<le> \<bar>sint k\<bar>" for k
    unfolding query_int_id_def using inline_int_large [OF that] by blast
  consider "\<bar>sint i\<bar> < 2 ^ 56" "\<bar>sint j\<bar> < 2 ^ 56" | "\<bar>sint i\<bar> < 2 ^ 56" "2 ^ 56 \<le> \<bar>sint j\<bar>" | "2 ^ 56 \<le> \<bar>sint i\<bar>"
    by linarith
  then show ?thesis
  proof cases
    case 1
    obtain a where a: "query_int_id i = Inr a" "get_graph_object pad a = Inr (make_int i)" "uint a = int_id_value (sint i)"
      using int_id_small [OF 1(1), of pad] by blast
    obtain b where b: "query_int_id j = Inr b" "get_graph_object pad b = Inr (make_int j)" "uint b = int_id_value (sint j)"
      using int_id_small [OF 1(2), of pad] by blast
    show ?thesis using a(1,2) b(1) 1 int_id_order [OF a(2,3) 1(1) b(2,3) 1(2)] by simp
  next
    case 2
    then show ?thesis using int_id_small [OF 2(1), of pad] large [OF 2(2)] by auto
  next
    case 3
    then show ?thesis using large [OF 3] by auto
  qed
qed

text \<open>C39: the comparison that sorts results. For objects that stand for elements, hold strings without zero
  bytes, integers of 53 bits and ids of anonymous nodes below 2 to the power of 31, and are neither floats
  nor both edges, the comparison ends without an error and its sign is that of the order of the elements:
  texts by their bytes as unsigned numbers, integers, booleans and anonymous nodes by value, other pairs by
  their kind.\<close>

theorem comparison_of_objects:
  assumes "element_of text_of string_at g = Some e" "comparable text_of string_at g"
    and "element_of text_of string_at h = Some f" "comparable text_of string_at h"
    and "\<nexists>i j. e = QEdge i \<and> f = QEdge j"
  shows "\<exists>c. object_compare (\<lambda>i. text_of i @ [0]) string_at g h = Inr c \<and> sgn c = compare_elements e f"
  using assms by (rule compare_objects)

theorem comparison_of_objects_witness:
  "\<exists>c. object_compare (\<lambda>i. [98] @ [0]) (\<lambda>i. [99]) (make_string_external 7) (make_named_node_tmp 8) = Inr c \<and>
     sgn c = compare_elements (QString [98]) (QNamedNode [99])"
  by (rule comparison_of_objects)
    (simp_all add: make_string_external_def make_named_node_tmp_def comparable_def make_object_def element_of_def)

text \<open>C40: the comparison is not an order. A string, a named node and an edge come one after the other in a
  circle (texts are compared with each other, but an edge by the numbers of the types, which lie between);
  two edges are always equal; so are two integers that are neighbours at 2 to the power of 53, and two
  anonymous nodes whose ids differ by 2 to the power of 32.\<close>

theorem comparison_not_an_order:
  "object_compare ci sa (make_string_inlined [97, 0, 0, 0, 0, 0, 0, 0]) (make_named_node_inlined [122, 0, 0, 0, 0, 0, 0, 0]) = Inr (-25)
   \<and> object_compare ci sa (make_named_node_inlined [122, 0, 0, 0, 0, 0, 0, 0]) (make_edge i) = Inr (-1)
   \<and> object_compare ci sa (make_edge i) (make_string_inlined [97, 0, 0, 0, 0, 0, 0, 0]) = Inr (-1)
   \<and> object_compare ci sa (make_edge i) (make_edge j) = Inr 0
   \<and> object_compare ci sa (make_int (2 ^ 53)) (make_int (2 ^ 53 + 1)) = Inr 0
   \<and> object_compare ci sa (make_anonymous 7) (make_anonymous (7 + 2 ^ 32)) = Inr 0"
proof (intro conjI)
  note D = object_compare_def object_equal_def make_object_def string_iter_of_def numeric_of_def less_graph_object_type_def
    make_edge_def make_named_node_inlined_def make_string_inlined_def id_difference_def
  show "object_compare ci sa (make_string_inlined [97, 0, 0, 0, 0, 0, 0, 0])
      (make_named_node_inlined [122, 0, 0, 0, 0, 0, 0, 0]) = Inr (-25)"
    and "object_compare ci sa (make_int (2 ^ 53)) (make_int (2 ^ 53 + 1)) = Inr 0"
    and "object_compare ci sa (make_anonymous 7) (make_anonymous (7 + 2 ^ 32)) = Inr 0" by code_simp+
  show "object_compare ci sa (make_named_node_inlined [122, 0, 0, 0, 0, 0, 0, 0]) (make_edge i) = Inr (-1)"
    and "object_compare ci sa (make_edge i) (make_string_inlined [97, 0, 0, 0, 0, 0, 0, 0]) = Inr (-1)"
    and "object_compare ci sa (make_edge i) (make_edge j) = Inr 0" by (simp_all add: D)
qed

end
